(* ===== verification/Prelude.thy ===== *)
theory Prelude
  imports Main "HOL-Library.Word" "HOL-Library.AList"
begin

text \<open>
  What the component theories share: the machine integers of the Rust sources, the big-endian
  reads and writes of the crates' byte buffers (\<^verbatim>\<open>get_u16\<close>, \<^verbatim>\<open>put_u32\<close>, ...), the checked
  arithmetic of the standard library, strings as bytes (ASCII, UTF-8 and splitting), and generic facts on lists and
  association lists.

  The collections \<open>wire_simps\<close> (byte-level encodings) and \<open>arith_simps\<close> (machine arithmetic)
  carry the component proofs.
\<close>

unbundle bit_operations_syntax

named_theorems wire_simps \<open>reading back what was written to a byte buffer\<close>
named_theorems arith_simps \<open>machine arithmetic as arithmetic on natural numbers\<close>

type_synonym u8 = "8 word"
type_synonym u16 = "16 word"
type_synonym u32 = "32 word"
type_synonym u64 = "64 word"
type_synonym bytes = "u8 list"

section \<open>Big-endian integers\<close>

definition be16 :: "u8 \<Rightarrow> u8 \<Rightarrow> u16" where
  "be16 a b = push_bit 8 (ucast a) OR ucast b"

definition be32 :: "u8 \<Rightarrow> u8 \<Rightarrow> u8 \<Rightarrow> u8 \<Rightarrow> u32" where
  "be32 a b c d = push_bit 16 (ucast (be16 a b)) OR ucast (be16 c d)"

definition be64 :: "u8 \<Rightarrow> u8 \<Rightarrow> u8 \<Rightarrow> u8 \<Rightarrow> u8 \<Rightarrow> u8 \<Rightarrow> u8 \<Rightarrow> u8 \<Rightarrow> u64" where
  "be64 a b c d e f g h = push_bit 32 (ucast (be32 a b c d)) OR ucast (be32 e f g h)"

definition put_u16 :: "u16 \<Rightarrow> bytes" where
  "put_u16 x = [ucast (drop_bit 8 x), ucast x]"

definition put_u32 :: "u32 \<Rightarrow> bytes" where
  "put_u32 x = put_u16 (ucast (drop_bit 16 x)) @ put_u16 (ucast x)"

definition put_u64 :: "u64 \<Rightarrow> bytes" where
  "put_u64 x = put_u32 (ucast (drop_bit 32 x)) @ put_u32 (ucast x)"

lemma length_put [simp]:
  shows "length (put_u16 x) = 2" and "length (put_u32 y) = 4" and "length (put_u64 z) = 8"
  by (simp_all add: put_u16_def put_u32_def put_u64_def)

lemma be16_put [wire_simps]: "be16 (ucast (drop_bit 8 x)) (ucast x) = x"
  by (rule bit_word_eqI) (auto simp: be16_def bit_simps)

lemma split16 [wire_simps]:
  shows "ucast (drop_bit 8 (be16 a b)) = a" and "ucast (be16 a b) = b"
  by (rule bit_word_eqI, auto simp: be16_def bit_simps dest: bit_imp_le_length)+

lemma be32_join: "push_bit 16 (ucast (ucast (drop_bit 16 x) :: u16)) OR ucast (ucast x :: u16) = (x :: u32)"
  by (rule bit_word_eqI) (auto simp: bit_simps)

lemma split32:
  fixes x y :: u16
  shows "ucast (drop_bit 16 (push_bit 16 (ucast x) OR ucast y :: u32)) = x"
    and "ucast (push_bit 16 (ucast x) OR ucast y :: u32) = y"
  by (rule bit_word_eqI, auto simp: bit_simps dest: bit_imp_le_length)+

lemma be64_join: "push_bit 32 (ucast (ucast (drop_bit 32 x) :: u32)) OR ucast (ucast x :: u32) = (x :: u64)"
  by (rule bit_word_eqI) (auto simp: bit_simps)

lemma split64:
  fixes x y :: u32
  shows "ucast (drop_bit 32 (push_bit 32 (ucast x) OR ucast y :: u64)) = x"
    and "ucast (push_bit 32 (ucast x) OR ucast y :: u64) = y"
  by (rule bit_word_eqI, auto simp: bit_simps dest: bit_imp_le_length)+

text \<open>Each integer reads back, and each full buffer is the encoding of what it reads as.\<close>

lemma put_u16_be16 [wire_simps]: "put_u16 (be16 a b) = [a, b]"
  by (simp add: put_u16_def split16)

lemma put_u32_be32 [wire_simps]: "put_u32 (be32 a b c d) = [a, b, c, d]"
  unfolding put_u32_def be32_def split32 put_u16_be16 by simp

lemma put_u64_be64 [wire_simps]: "put_u64 (be64 a b c d e f g h) = [a, b, c, d, e, f, g, h]"
  unfolding put_u64_def be64_def split64 put_u32_be32 by simp

lemma put_u16_cases: obtains a b where "put_u16 x = [a, b]" and "be16 a b = x"
  by (simp add: put_u16_def be16_put)

lemma put_u32_cases: obtains a b c d where "put_u32 x = [a, b, c, d]" and "be32 a b c d = x"
proof -
  obtain a b where hi: "put_u16 (ucast (drop_bit 16 x)) = [a, b]" "be16 a b = ucast (drop_bit 16 x)"
    by (rule put_u16_cases)
  obtain c d where lo: "put_u16 (ucast x) = [c, d]" "be16 c d = ucast x"
    by (rule put_u16_cases)
  show thesis
    by (rule that [of a b c d]) (simp_all add: put_u32_def be32_def hi lo be32_join)
qed

lemma put_u64_cases:
  obtains a b c d e f g h where "put_u64 x = [a, b, c, d, e, f, g, h]" and "be64 a b c d e f g h = x"
proof -
  obtain a b c d where hi: "put_u32 (ucast (drop_bit 32 x)) = [a, b, c, d]"
      "be32 a b c d = ucast (drop_bit 32 x)"
    by (rule put_u32_cases)
  obtain e f g h where lo: "put_u32 (ucast x) = [e, f, g, h]" "be32 e f g h = ucast x"
    by (rule put_u32_cases)
  show thesis
    by (rule that [of a b c d e f g h]) (simp_all add: put_u64_def be64_def hi lo be64_join)
qed

section \<open>Checked arithmetic\<close>

text \<open>\<^verbatim>\<open>u32::checked_add\<close>: \<open>None\<close> on overflow.\<close>

definition checked_add :: "u32 \<Rightarrow> u32 \<Rightarrow> u32 option" where
  "checked_add a b = (if unat a + unat b < 2 ^ 32 then Some (a + b) else None)"

lemma checked_add_Some [arith_simps]:
  "checked_add a b = Some c \<longleftrightarrow> unat a + unat b < 2 ^ 32 \<and> c = a + b"
  by (auto simp: checked_add_def)

lemma checked_add_None [arith_simps]: "checked_add a b = None \<longleftrightarrow> 2 ^ 32 \<le> unat a + unat b"
  by (auto simp: checked_add_def)

lemma unat_add_u32 [arith_simps]:
  "unat a + unat b < 2 ^ 32 \<Longrightarrow> unat (a + b :: u32) = unat a + unat b"
  by (simp add: unat_word_ariths)

lemma unat_sub_u32 [arith_simps]: "b \<le> a \<Longrightarrow> unat (a - b :: u32) = unat a - unat b"
  by (simp add: unat_sub)

lemma unat_of_nat_u32 [arith_simps]: "n < 2 ^ 32 \<Longrightarrow> unat (of_nat n :: u32) = n"
  by (simp add: unat_of_nat)

lemma u32_bound: "unat (x :: u32) < 2 ^ 32"
proof -
  have "unat x < 2 ^ LENGTH(32)" by (rule unsigned_less)
  then show ?thesis by simp
qed

section \<open>Results of asynchronous calls\<close>

text \<open>\<^verbatim>\<open>std::task::Poll\<close>, and the kinds of \<^verbatim>\<open>std::io::Error\<close> the sources raise.\<close>

datatype 'a poll = Ready 'a | Pending

datatype io_kind = IoConnectionReset | IoBrokenPipe | IoInvalidData | IoTimedOut | IoUnexpectedEof | IoConnectionAborted
  | IoNotConnected | IoOther

section \<open>Strings\<close>

text \<open>A string is the list of its UTF-8 bytes.\<close>

definition ascii :: "string \<Rightarrow> bytes" where
  "ascii s = map of_char s"

text \<open>\<^verbatim>\<open>str::from_utf8\<close>: the well-formed byte sequences of the Unicode standard.\<close>

definition utf8_cont :: "u8 \<Rightarrow> bool" where
  "utf8_cont b \<longleftrightarrow> 0x80 \<le> b \<and> b \<le> 0xBF"

text \<open>The range of the second byte and the number of continuation bytes after it, by the first byte.\<close>

definition utf8_class :: "u8 \<Rightarrow> (u8 \<times> u8 \<times> nat) option" where
  "utf8_class b =
     (if 0xC2 \<le> b \<and> b \<le> 0xDF then Some (0x80, 0xBF, 0)
      else if b = 0xE0 then Some (0xA0, 0xBF, 1)
      else if b = 0xED then Some (0x80, 0x9F, 1)
      else if 0xE1 \<le> b \<and> b \<le> 0xEF then Some (0x80, 0xBF, 1)
      else if b = 0xF0 then Some (0x90, 0xBF, 2)
      else if 0xF1 \<le> b \<and> b \<le> 0xF3 then Some (0x80, 0xBF, 2)
      else if b = 0xF4 then Some (0x80, 0x8F, 2)
      else None)"

fun utf8_run :: "(u8 \<times> u8 \<times> nat) option \<Rightarrow> bytes \<Rightarrow> bool" where
  "utf8_run st [] = (st = None)"
| "utf8_run None (b # bs) =
     (if b < 0x80 then utf8_run None bs
      else (case utf8_class b of None \<Rightarrow> False | Some c \<Rightarrow> utf8_run (Some c) bs))"
| "utf8_run (Some (lo, hi, n)) (b # bs) =
     (lo \<le> b \<and> b \<le> hi \<and> utf8_run (case n of 0 \<Rightarrow> None | Suc k \<Rightarrow> Some (0x80, 0xBF, k)) bs)"

definition utf8_valid :: "bytes \<Rightarrow> bool" where
  "utf8_valid bs = utf8_run None bs"

text \<open>\<^verbatim>\<open>str::split\<close> at an ASCII character.\<close>

fun split_on :: "u8 \<Rightarrow> bytes \<Rightarrow> bytes list" where
  "split_on c [] = [[]]"
| "split_on c (b # bs) =
     (if b = c then [] # split_on c bs
      else (case split_on c bs of [] \<Rightarrow> [[b]] | p # ps \<Rightarrow> (b # p) # ps))"

lemma split_on_plain: "c \<notin> set x \<Longrightarrow> split_on c x = [x]"
  by (induction x) auto

lemma split_on_append: "c \<notin> set x \<Longrightarrow> split_on c (x @ c # r) = x # split_on c r"
  by (induction x) auto

lemma split_on_parts:
  "c \<notin> set x \<Longrightarrow> (\<And>y. y \<in> set xs \<Longrightarrow> c \<notin> set y) \<Longrightarrow> split_on c (x @ concat (map ((#) c) xs)) = x # xs"
proof (induction xs arbitrary: x)
  case (Cons y ys)
  have "split_on c (x @ c # y @ concat (map ((#) c) ys)) = x # split_on c (y @ concat (map ((#) c) ys))"
    using Cons.prems(1) by (rule split_on_append)
  with Cons show ?case by simp
qed (simp add: split_on_plain)

text \<open>Splitting a string at an ASCII character cuts no character in two.\<close>

lemma split_on_nonempty [simp]: "split_on c s \<noteq> []"
  by (cases s) (auto split: list.splits)

lemma utf8_class_low: "utf8_class b = Some (lo, hi, n) \<Longrightarrow> 0x80 \<le> lo"
  by (auto simp: utf8_class_def split: if_splits)

lemma utf8_split:
  assumes "c < 0x80"
  shows "utf8_run st s \<Longrightarrow> (\<And>lo hi n. st = Some (lo, hi, n) \<Longrightarrow> 0x80 \<le> lo) \<Longrightarrow> split_on c s = x # xs \<Longrightarrow>
    utf8_run st x \<and> list_all utf8_valid xs"
proof (induction st s arbitrary: x xs rule: utf8_run.induct)
  case (2 b bs)
  obtain y ys where y: "split_on c bs = y # ys" by (cases "split_on c bs") auto
  show ?case
  proof (cases "b < 0x80")
    case True
    with 2(1) [OF True _ _ y] "2.prems" show ?thesis by (auto simp: utf8_valid_def y split: if_splits)
  next
    case False
    with "2.prems"(1) obtain k where k: "utf8_class b = Some k" "utf8_run (Some k) bs" by (auto split: option.splits)
    have "utf8_run (Some k) y \<and> list_all utf8_valid ys"
      using utf8_class_low k(1) by (intro 2(2) [OF False k _ y]) blast
    moreover have "b \<noteq> c" using False assms by auto
    ultimately show ?thesis using k False "2.prems"(3) by (auto simp: y)
  qed
next
  case (3 lo hi n b bs)
  obtain y ys where y: "split_on c bs = y # ys" by (cases "split_on c bs") auto
  have "0x80 \<le> b" using 3(2,3) by (auto intro: order.trans)
  then have "b \<noteq> c" using assms by auto
  with 3 show ?case by (auto simp: y split: nat.splits)
qed simp

lemma split_on_elems: "x \<in> set (split_on c s) \<Longrightarrow> c \<notin> set x \<and> length x \<le> length s"
  by (induction s arbitrary: x) (fastforce split: if_splits list.splits)+

end
