(* ===== verification/Incremental_Decoder.thy ===== *)
theory Incremental_Decoder
  imports Prelude
begin

text \<open>
  The contract of a \<^verbatim>\<open>tokio_util::codec::Decoder\<close>. The transport hands the decoder a buffer that
  grows by whatever each read returned, and calls \<^verbatim>\<open>decode\<close> until it answers \<^verbatim>\<open>Ok(None)\<close>. The
  locale \<open>incremental_decoder\<close> states what a decoder has to promise for that use to be right, and
  proves once that the frames it yields do not depend on how the byte stream was cut into reads.
\<close>

type_synonym ('s, 'b, 'e, 'f) decoder = "'s \<Rightarrow> 'b list \<Rightarrow> ('e + 'f option) \<times> 's \<times> 'b list"

text \<open>
  \<open>decodes dec s buf fs s' buf'\<close>: calling the decoder from state \<open>s\<close> on \<open>buf\<close> until it asks for
  more data yields the frames \<open>fs\<close> and leaves \<open>s'\<close> and \<open>buf'\<close>.
\<close>

inductive decodes ::
  "('s, 'b, 'e, 'f) decoder \<Rightarrow> 's \<Rightarrow> 'b list \<Rightarrow> 'f list \<Rightarrow> 's \<Rightarrow> 'b list \<Rightarrow> bool"
  for dec :: "('s, 'b, 'e, 'f) decoder" where
  more: "dec s buf = (Inr None, s', buf') \<Longrightarrow> decodes dec s buf [] s' buf'"
| item: "dec s buf = (Inr (Some f), s1, b1) \<Longrightarrow> decodes dec s1 b1 fs s' buf' \<Longrightarrow>
     decodes dec s buf (f # fs) s' buf'"

text \<open>The same over a sequence of reads, each appended to what the previous calls left.\<close>

inductive decodes_reads ::
  "('s, 'b, 'e, 'f) decoder \<Rightarrow> 's \<Rightarrow> 'b list \<Rightarrow> 'b list list \<Rightarrow> 'f list \<Rightarrow> 's \<Rightarrow> 'b list \<Rightarrow> bool"
  for dec :: "('s, 'b, 'e, 'f) decoder" where
  no_read: "decodes_reads dec s buf [] [] s buf"
| one_read: "decodes dec s (buf @ r) fs s1 b1 \<Longrightarrow> decodes_reads dec s1 b1 rs gs s' buf' \<Longrightarrow>
     decodes_reads dec s buf (r # rs) (fs @ gs) s' buf'"

inductive_cases decodes_NilE: "decodes dec s buf [] s' buf'"

inductive_cases decodes_ConsE: "decodes dec s buf (f # fs) s' buf'"

inductive_cases decodes_reads_NilE: "decodes_reads dec s buf [] fs s' buf'"

inductive_cases decodes_reads_ConsE: "decodes_reads dec s buf (r # rs) fs s' buf'"

lemma decodes_deterministic:
  assumes "decodes dec s buf fs s1 b1" and "decodes dec s buf gs s2 b2"
  shows "fs = gs \<and> s1 = s2 \<and> b1 = b2"
  using assms
proof (induction arbitrary: gs rule: decodes.induct)
  case (more s buf s' buf')
  from more.prems more.hyps show ?case by cases auto
next
  case (item s buf f s1 b1 fs s' buf')
  from item.prems item.hyps(1) item.IH show ?case by cases auto
qed

text \<open>Only the first answer matters for a run.\<close>

lemma decodes_same_step:
  assumes "dec s buf = dec s1 b1"
  shows "decodes dec s buf = decodes dec s1 b1"
proof -
  have *: "decodes dec u v fs s' buf' \<Longrightarrow> dec w x = dec u v \<Longrightarrow> decodes dec w x fs s' buf'"
    for u v w x fs s' buf'
    by (erule decodes.cases) (auto intro: decodes.intros)
  from assms show ?thesis by (auto simp: fun_eq_iff intro: *)
qed

lemma decodes_item:
  assumes "decodes dec s buf fs s' buf'" and "dec s buf = (Inr (Some f), s1, b1)"
  obtains gs where "fs = f # gs" and "decodes dec s1 b1 gs s' buf'"
  using assms by cases auto

lemma decodes_no_error: "decodes dec s buf fs s' buf' \<Longrightarrow> dec s buf \<noteq> (Inl e, s1, b1)"
  by (erule decodes.cases) auto

locale incremental_decoder =
  fixes dec :: "('s, 'b, 'e, 'f) decoder"
    and ok :: "'s \<Rightarrow> bool"
  assumes dec_ok: "ok s \<Longrightarrow> dec s buf = (Inr r, s', buf') \<Longrightarrow> ok s'"
    and dec_resume: "ok s \<Longrightarrow> dec s buf = (Inr None, s', buf') \<Longrightarrow>
      dec s (buf @ rest) = dec s' (buf' @ rest)"
    and dec_item: "ok s \<Longrightarrow> dec s buf = (Inr (Some f), s', buf') \<Longrightarrow>
      dec s (buf @ rest) = (Inr (Some f), s', buf' @ rest)"
    and dec_error: "ok s \<Longrightarrow> dec s buf = (Inl e, s', buf') \<Longrightarrow>
      dec s (buf @ rest) = (Inl e, s', buf' @ rest)"
    and dec_progress: "ok s \<Longrightarrow> dec s buf = (Inr (Some f), s', buf') \<Longrightarrow> length buf' < length buf"
begin

lemma decodes_ok: "decodes dec s buf fs s' buf' \<Longrightarrow> ok s \<Longrightarrow> ok s'"
  by (induction rule: decodes.induct) (blast intro: dec_ok)+

text \<open>Decoding a buffer and then its continuation is decoding the whole.\<close>

lemma decodes_append:
  assumes "decodes dec s buf fs s1 b1" and "ok s" and "decodes dec s1 (b1 @ rest) gs s2 b2"
  shows "decodes dec s (buf @ rest) (fs @ gs) s2 b2"
  using assms
proof (induction arbitrary: gs rule: decodes.induct)
  case (more s buf s' buf')
  from more.prems(1) more.hyps have "dec s (buf @ rest) = dec s' (buf' @ rest)" by (rule dec_resume)
  then have "decodes dec s (buf @ rest) = decodes dec s' (buf' @ rest)" by (rule decodes_same_step)
  with more.prems(2) show ?case by simp
next
  case (item s buf f s1 b1 fs s' buf')
  from item.prems(1) item.hyps(1) have "dec s (buf @ rest) = (Inr (Some f), s1, b1 @ rest)"
    by (rule dec_item)
  moreover from item.prems(1) item.hyps(1) have "ok s1" by (rule dec_ok)
  ultimately show ?case using item.IH item.prems(2) by (auto intro: decodes.item)
qed

lemma decodes_reads_concat:
  assumes "decodes_reads dec s buf rs fs s' buf'" and "rs \<noteq> []" and "ok s"
  shows "decodes dec s (buf @ concat rs) fs s' buf'"
  using assms
proof (induction rule: decodes_reads.induct)
  case (no_read s buf)
  then show ?case by simp
next
  case (one_read s buf r fs s1 b1 rs gs s' buf')
  show ?case
  proof (cases "rs = []")
    case True
    with one_read show ?thesis by (auto elim: decodes_reads_NilE)
  next
    case False
    have "ok s1" using one_read.hyps(1) one_read.prems(2) by (rule decodes_ok)
    with False one_read.IH have "decodes dec s1 (b1 @ concat rs) gs s' buf'" by simp
    with one_read.hyps(1) one_read.prems(2) have "decodes dec s ((buf @ r) @ concat rs) (fs @ gs) s' buf'"
      by (rule decodes_append)
    then show ?thesis by simp
  qed
qed

text \<open>A prefix of a stream that decodes without error decodes without error.\<close>

lemma decodes_prefix:
  assumes "decodes dec s (buf @ rest) fs s' buf'" and "ok s"
  shows "\<exists>gs s1 b1. decodes dec s buf gs s1 b1"
  using assms
proof (induction "length buf" arbitrary: s buf fs rule: less_induct)
  case less
  obtain r s1 b1 where r: "dec s buf = (r, s1, b1)" by (cases "dec s buf")
  show ?case
  proof (cases r)
    case (Inl e)
    with r have "dec s buf = (Inl e, s1, b1)" by simp
    with less.prems(2) have "dec s (buf @ rest) = (Inl e, s1, b1 @ rest)"
      by (rule dec_error)
    with less.prems(1) show ?thesis by (auto dest: decodes_no_error)
  next
    case (Inr q)
    show ?thesis
    proof (cases q)
      case None
      with r Inr show ?thesis by (blast intro: decodes.more)
    next
      case (Some f)
      with r Inr have step: "dec s buf = (Inr (Some f), s1, b1)" by simp
      with less.prems(2) have whole: "dec s (buf @ rest) = (Inr (Some f), s1, b1 @ rest)"
        by (rule dec_item)
      with less.prems(1) obtain hs where "decodes dec s1 (b1 @ rest) hs s' buf'"
        by (rule decodes_item)
      moreover from less.prems(2) step have "length b1 < length buf" by (rule dec_progress)
      moreover from less.prems(2) step have "ok s1" by (rule dec_ok)
      ultimately obtain gs s2 b2 where "decodes dec s1 b1 gs s2 b2"
        using less.hyps by blast
      with step show ?thesis by (blast intro: decodes.item)
    qed
  qed
qed

lemma decodes_suffix:
  assumes "decodes dec s buf gs s1 b1" and "ok s" and "decodes dec s (buf @ rest) fs s' buf'"
  shows "\<exists>hs. fs = gs @ hs \<and> decodes dec s1 (b1 @ rest) hs s' buf'"
  using assms
proof (induction arbitrary: fs rule: decodes.induct)
  case (more s buf s2 b2)
  from more.prems(1) more.hyps have "dec s (buf @ rest) = dec s2 (b2 @ rest)" by (rule dec_resume)
  then have "decodes dec s (buf @ rest) = decodes dec s2 (b2 @ rest)" by (rule decodes_same_step)
  with more.prems(2) show ?case by simp
next
  case (item s buf f s1 b1 gs s2 b2)
  from item.prems(1) item.hyps(1) have "dec s (buf @ rest) = (Inr (Some f), s1, b1 @ rest)"
    by (rule dec_item)
  with item.prems(2) obtain fs' where "fs = f # fs'" "decodes dec s1 (b1 @ rest) fs' s' buf'"
    by (rule decodes_item)
  moreover have "ok s1" using item.prems(1) item.hyps(1) by (rule dec_ok)
  ultimately show ?case using item.IH by auto
qed

text \<open>
  However the stream is cut, the reads decode, and to the frames of the uncut stream.
\<close>

lemma decodes_any_reads:
  assumes "decodes dec s (buf @ concat rs) fs s' buf'" and "rs \<noteq> []" and "ok s"
  shows "decodes_reads dec s buf rs fs s' buf'"
  using assms
proof (induction rs arbitrary: s buf fs)
  case Nil
  then show ?case by simp
next
  case (Cons r rs)
  then have whole: "decodes dec s ((buf @ r) @ concat rs) fs s' buf'" by simp
  then obtain gs s1 b1 where first: "decodes dec s (buf @ r) gs s1 b1"
    using Cons.prems(3) decodes_prefix by blast
  from decodes_suffix [OF first Cons.prems(3) whole] obtain hs where
    fs: "fs = gs @ hs" and rest: "decodes dec s1 (b1 @ concat rs) hs s' buf'" by auto
  show ?case
  proof (cases "rs = []")
    case True
    with whole have "decodes dec s (buf @ r) fs s' buf'" by simp
    from one_read [OF this no_read] True show ?thesis by simp
  next
    case False
    have "ok s1" using first Cons.prems(3) by (rule decodes_ok)
    with Cons.IH rest False have "decodes_reads dec s1 b1 rs hs s' buf'" by simp
    with first fs show ?thesis by (auto intro: one_read)
  qed
qed

end

end
