(* ===== verification/Yamux_Frame.thy ===== *)
theory Yamux_Frame
  imports Incremental_Decoder
begin

text \<open>
  The wire format of the yamux multiplexer (\<^verbatim>\<open>yamux/src/frame.rs\<close>, with the constants of
  \<^verbatim>\<open>lib.rs\<close> and \<^verbatim>\<open>config.rs\<close>): frames and their headers, the flag set, the go-away codes, and
  the incremental \<^verbatim>\<open>FrameCodec\<close>. \<open>decode\<close> returns the result together with the codec and the
  buffer it leaves behind, since the Rust method mutates both.

  The lemmas show that encoding and decoding are inverse, that the decoder's answer does not
  depend on how the bytes were cut into reads, and that every malformed header is refused.
\<close>

section \<open>Constants (\<open>lib.rs\<close>, \<open>config.rs\<close>)\<close>

definition PROTOCOL_VERSION :: u8 where "PROTOCOL_VERSION = 0"

definition RESERVED_STREAM_ID :: u32 where "RESERVED_STREAM_ID = 0"

definition HEADER_SIZE :: nat where "HEADER_SIZE = 12"

definition INITIAL_STREAM_WINDOW :: u32 where "INITIAL_STREAM_WINDOW = 256 * 1024"

section \<open>Frame types, flags and codes\<close>

datatype frame_type = Data | WindowUpdate | Ping | GoAway

fun type_code :: "frame_type \<Rightarrow> u8" where
  "type_code Data = 0x0"
| "type_code WindowUpdate = 0x1"
| "type_code Ping = 0x2"
| "type_code GoAway = 0x3"

definition type_try_from :: "u8 \<Rightarrow> frame_type option" where
  "type_try_from v =
     (if v = 0x0 then Some Data
      else if v = 0x1 then Some WindowUpdate
      else if v = 0x2 then Some Ping
      else if v = 0x3 then Some GoAway
      else None)"

datatype flag = Syn | Ack | Fin | Rst

fun flag_code :: "flag \<Rightarrow> u16" where
  "flag_code Syn = 0x1"
| "flag_code Ack = 0x2"
| "flag_code Fin = 0x4"
| "flag_code Rst = 0x8"

text \<open>\<^verbatim>\<open>struct Flags(u16)\<close>; \<open>flags_default\<close> is the derived \<^verbatim>\<open>Default\<close>.\<close>

type_synonym flag_set = u16

definition flags_default :: flag_set where "flags_default = 0"

definition flags_from :: "flag \<Rightarrow> flag_set" where
  "flags_from f = flag_code f"

definition flags_add :: "flag_set \<Rightarrow> flag \<Rightarrow> flag_set" where
  "flags_add fs f = fs OR flag_code f"

definition flags_remove :: "flag_set \<Rightarrow> flag \<Rightarrow> flag_set" where
  "flags_remove fs f = fs XOR flag_code f"

definition flags_contains :: "flag_set \<Rightarrow> flag \<Rightarrow> bool" where
  "flags_contains fs f = (let flag_value = flag_code f in (fs AND flag_value) = flag_value)"

definition flags_value :: "flag_set \<Rightarrow> u16" where
  "flags_value fs = fs"

datatype go_away_code = GoNormal | GoProtocolError | GoInternalError

fun go_away_value :: "go_away_code \<Rightarrow> u32" where
  "go_away_value GoNormal = 0x0"
| "go_away_value GoProtocolError = 0x1"
| "go_away_value GoInternalError = 0x2"

definition go_away_from :: "u32 \<Rightarrow> go_away_code" where
  "go_away_from v =
     (if v = 0x0 then GoNormal
      else if v = 0x1 then GoProtocolError
      else if v = 0x2 then GoInternalError
      else GoProtocolError)"

section \<open>Frames\<close>

record header =
  h_version :: u8
  h_ty :: frame_type
  h_flags :: flag_set
  h_stream_id :: u32
  h_length :: u32

record frame =
  f_header :: header
  f_body :: "bytes option"

definition new_data :: "flag_set \<Rightarrow> u32 \<Rightarrow> bytes \<Rightarrow> frame" where
  "new_data flags stream_id body =
     \<lparr>f_header = \<lparr>h_version = PROTOCOL_VERSION, h_ty = Data, h_flags = flags,
        h_stream_id = stream_id, h_length = of_nat (length body)\<rparr>,
      f_body = Some body\<rparr>"

definition new_window_update :: "flag_set \<Rightarrow> u32 \<Rightarrow> u32 \<Rightarrow> frame" where
  "new_window_update flags stream_id delta =
     \<lparr>f_header = \<lparr>h_version = PROTOCOL_VERSION, h_ty = WindowUpdate, h_flags = flags,
        h_stream_id = stream_id, h_length = delta\<rparr>,
      f_body = None\<rparr>"

definition new_ping :: "flag_set \<Rightarrow> u32 \<Rightarrow> frame" where
  "new_ping flags ping_id =
     \<lparr>f_header = \<lparr>h_version = PROTOCOL_VERSION, h_ty = Ping, h_flags = flags,
        h_stream_id = RESERVED_STREAM_ID, h_length = ping_id\<rparr>,
      f_body = None\<rparr>"

definition new_go_away :: "go_away_code \<Rightarrow> frame" where
  "new_go_away reason =
     \<lparr>f_header = \<lparr>h_version = PROTOCOL_VERSION, h_ty = GoAway, h_flags = flags_default,
        h_stream_id = RESERVED_STREAM_ID, h_length = go_away_value reason\<rparr>,
      f_body = None\<rparr>"

text \<open>The accessors of \<^verbatim>\<open>impl Frame\<close>.\<close>

definition frame_ty :: "frame \<Rightarrow> frame_type" where
  "frame_ty f = h_ty (f_header f)"

definition frame_stream_id :: "frame \<Rightarrow> u32" where
  "frame_stream_id f = h_stream_id (f_header f)"

definition frame_flags :: "frame \<Rightarrow> flag_set" where
  "frame_flags f = h_flags (f_header f)"

definition frame_length :: "frame \<Rightarrow> u32" where
  "frame_length f = h_length (f_header f)"

definition frame_size :: "frame \<Rightarrow> nat" where
  "frame_size f = (if f_body f \<noteq> None then unat (h_length (f_header f)) + HEADER_SIZE else HEADER_SIZE)"

section \<open>The codec\<close>

record frame_codec =
  unused_data_header :: "header option"
  max_frame_size :: u32

definition frame_codec_default :: frame_codec where
  "frame_codec_default = \<lparr>unused_data_header = None, max_frame_size = INITIAL_STREAM_WINDOW\<rparr>"

definition set_max_frame_size :: "frame_codec \<Rightarrow> u32 \<Rightarrow> frame_codec" where
  "set_max_frame_size c sz = c\<lparr>max_frame_size := sz\<rparr>"

text \<open>
  The three \<^verbatim>\<open>io::Error\<close>s of \<^verbatim>\<open>decode\<close>, all of kind \<^verbatim>\<open>InvalidData\<close>, with the number their
  message prints.
\<close>

datatype codec_error = BadVersion u8 | BadType u8 | BadLength u32

text \<open>
  The branch of \<^verbatim>\<open>decode\<close> that reads a header: the argument is the twelve bytes
  \<^verbatim>\<open>src.split_to(HEADER_SIZE)\<close>.
\<close>

definition decode_header :: "u32 \<Rightarrow> bytes \<Rightarrow> codec_error + header" where
  "decode_header max_size d =
     (let version = d ! 0 in
      if version \<noteq> PROTOCOL_VERSION then Inl (BadVersion version)
      else (case type_try_from (d ! 1) of
        None \<Rightarrow> Inl (BadType (d ! 1))
      | Some ty \<Rightarrow>
          (let flags = be16 (d ! 2) (d ! 3);
               stream_id = be32 (d ! 4) (d ! 5) (d ! 6) (d ! 7);
               len = be32 (d ! 8) (d ! 9) (d ! 10) (d ! 11)
           in if ty = Data \<and> len > max_size then Inl (BadLength len)
              else Inr \<lparr>h_version = version, h_ty = ty, h_flags = flags,
                        h_stream_id = stream_id, h_length = len\<rparr>)))"

text \<open>The rest of \<^verbatim>\<open>decode\<close>: take the body once the header is known.\<close>

definition decode_body ::
  "frame_codec \<Rightarrow> header \<Rightarrow> bytes \<Rightarrow> (codec_error + frame option) \<times> frame_codec \<times> bytes" where
  "decode_body c h src =
     (if h_ty h = Data then
        (if length src < unat (h_length h)
         then (Inr None, c\<lparr>unused_data_header := Some h\<rparr>, src)
         else (Inr (Some \<lparr>f_header = h, f_body = Some (take (unat (h_length h)) src)\<rparr>), c,
               drop (unat (h_length h)) src))
      else (Inr (Some \<lparr>f_header = h, f_body = None\<rparr>), c, src))"

definition decode ::
  "frame_codec \<Rightarrow> bytes \<Rightarrow> (codec_error + frame option) \<times> frame_codec \<times> bytes" where
  "decode c src =
     (if src = [] then (Inr None, c, src)
      else (case unused_data_header c of
        Some h \<Rightarrow> decode_body (c\<lparr>unused_data_header := None\<rparr>) h src
      | None \<Rightarrow>
          (if length src \<ge> HEADER_SIZE then
             (case decode_header (max_frame_size c) (take HEADER_SIZE src) of
                Inl e \<Rightarrow> (Inl e, c, drop HEADER_SIZE src)
              | Inr h \<Rightarrow> decode_body c h (drop HEADER_SIZE src))
           else (Inr None, c, src))))"

definition encode_header :: "header \<Rightarrow> bytes" where
  "encode_header h = h_version h # type_code (h_ty h) # put_u16 (flags_value (h_flags h))
     @ put_u32 (h_stream_id h) @ put_u32 (h_length h)"

text \<open>\<^verbatim>\<open>encode\<close> appends to the destination buffer and cannot fail.\<close>

definition encode :: "frame \<Rightarrow> bytes \<Rightarrow> bytes" where
  "encode f dst = dst @ encode_header (f_header f) @ (case f_body f of None \<Rightarrow> [] | Some d \<Rightarrow> d)"

text \<open>
  What a frame on the wire looks like: current version, a data frame carries exactly the bytes its
  length field announces and no more than the decoder accepts, other frames carry no body.
\<close>

definition wf_frame :: "u32 \<Rightarrow> frame \<Rightarrow> bool" where
  "wf_frame m f \<longleftrightarrow>
     h_version (f_header f) = PROTOCOL_VERSION \<and>
     (case f_body f of
        None \<Rightarrow> h_ty (f_header f) \<noteq> Data
      | Some b \<Rightarrow> h_ty (f_header f) = Data \<and> length b = unat (h_length (f_header f))
          \<and> h_length (f_header f) \<le> m)"

text \<open>The invariant of the codec: a kept header is one whose body is still missing.\<close>

definition codec_ok :: "frame_codec \<Rightarrow> bool" where
  "codec_ok c \<longleftrightarrow>
     (case unused_data_header c of
        None \<Rightarrow> True
      | Some h \<Rightarrow> h_ty h = Data \<and> h_version h = PROTOCOL_VERSION \<and> 0 < h_length h
          \<and> h_length h \<le> max_frame_size c)"

section \<open>Frame types, flags and codes are faithful\<close>

lemma type_try_from_code [simp]: "type_try_from (type_code t) = Some t"
  by (cases t) (simp_all add: type_try_from_def)

lemma type_code_try_from: "type_try_from v = Some t \<Longrightarrow> v = type_code t"
  by (auto simp: type_try_from_def split: if_splits)

lemma type_try_from_None: "type_try_from v = None \<longleftrightarrow> 3 < v"
proof -
  have "3 < v \<longleftrightarrow> v \<noteq> 0 \<and> v \<noteq> 1 \<and> v \<noteq> 2 \<and> v \<noteq> 3"
    by unat_arith
  then show ?thesis by (auto simp: type_try_from_def)
qed

lemma go_away_from_value: "go_away_from (go_away_value g) = g"
  by (cases g) (simp_all add: go_away_from_def)

text \<open>Each flag is one bit, so membership is a bit test.\<close>

fun flag_bit :: "flag \<Rightarrow> nat" where
  "flag_bit Syn = 0" | "flag_bit Ack = 1" | "flag_bit Fin = 2" | "flag_bit Rst = 3"

lemma flag_code_bit: "flag_code f = push_bit (flag_bit f) 1"
  by (cases f) simp_all

lemma flag_bit_less: "flag_bit f < 16"
  by (cases f) simp_all

lemma flag_bit_inject [simp]: "flag_bit f = flag_bit g \<longleftrightarrow> f = g"
  by (cases f; cases g) simp_all

lemma flags_contains_bit: "flags_contains fs f \<longleftrightarrow> bit fs (flag_bit f)"
proof
  assume "flags_contains fs f"
  then have "bit (fs AND flag_code f) (flag_bit f) = bit (flag_code f) (flag_bit f)"
    by (simp add: flags_contains_def Let_def)
  then show "bit fs (flag_bit f)"
    using flag_bit_less [of f] by (simp add: flag_code_bit bit_simps)
next
  assume "bit fs (flag_bit f)"
  then show "flags_contains fs f"
    unfolding flags_contains_def Let_def flag_code_bit
    by (intro bit_word_eqI) (auto simp: bit_simps)
qed

lemma flags_contains_add [simp]:
  "flags_contains (flags_add fs f) g \<longleftrightarrow> f = g \<or> flags_contains fs g"
  using flag_bit_less [of g]
  by (auto simp: flags_contains_bit flags_add_def flag_code_bit bit_simps)

lemma flags_contains_from [simp]: "flags_contains (flags_from f) g \<longleftrightarrow> f = g"
  by (cases f; cases g) (simp_all add: flags_from_def flags_contains_def)

lemma flags_contains_default [simp]: "\<not> flags_contains flags_default g"
  by (cases g) (simp_all add: flags_default_def flags_contains_def)

lemma flags_contains_remove:
  "flags_contains (flags_remove fs f) g \<longleftrightarrow> (if f = g then \<not> flags_contains fs g else flags_contains fs g)"
  using flag_bit_less [of g]
  by (auto simp: flags_contains_bit flags_remove_def flag_code_bit bit_simps)

section \<open>The codec\<close>

lemmas frame_defs = new_data_def new_window_update_def new_ping_def new_go_away_def
  frame_ty_def frame_stream_id_def frame_flags_def frame_length_def

lemma length_encode_header [simp]: "length (encode_header h) = HEADER_SIZE"
  by (simp add: encode_header_def HEADER_SIZE_def)

lemma decode_encode_header:
  assumes "h_version h = PROTOCOL_VERSION" and "h_ty h = Data \<longrightarrow> h_length h \<le> m"
  shows "decode_header m (encode_header h) = Inr h"
proof -
  obtain a b where f: "put_u16 (flags_value (h_flags h)) = [a, b]" "be16 a b = flags_value (h_flags h)"
    by (rule put_u16_cases)
  obtain s t u v where i: "put_u32 (h_stream_id h) = [s, t, u, v]" "be32 s t u v = h_stream_id h"
    by (rule put_u32_cases)
  obtain w x y z where l: "put_u32 (h_length h) = [w, x, y, z]" "be32 w x y z = h_length h"
    by (rule put_u32_cases)
  from f i l have "encode_header h = [h_version h, type_code (h_ty h), a, b, s, t, u, v, w, x, y, z]"
    by (simp add: encode_header_def)
  with f i l assms show ?thesis
    by (cases h) (auto simp: decode_header_def Let_def flags_value_def)
qed

lemma decode_header_encode:
  assumes "length d = HEADER_SIZE" and "decode_header m d = Inr h"
  shows "encode_header h = d \<and> h_version h = PROTOCOL_VERSION \<and> (h_ty h = Data \<longrightarrow> h_length h \<le> m)"
proof -
  from assms(1) obtain v t a b s u w x p q r z where "d = [v, t, a, b, s, u, w, x, p, q, r, z]"
    by (auto simp: HEADER_SIZE_def eval_nat_numeral length_Suc_conv)
  with assms(2) show ?thesis
    by (auto simp: decode_header_def Let_def encode_header_def wire_simps flags_value_def
        dest: type_code_try_from split: if_splits option.splits)
qed

lemma decode_header_error:
  assumes "decode_header m d = Inl e"
  shows "e = BadVersion (d ! 0) \<and> d ! 0 \<noteq> PROTOCOL_VERSION \<or>
    e = BadType (d ! 1) \<and> d ! 0 = PROTOCOL_VERSION \<and> 3 < d ! 1 \<or>
    (\<exists>n. e = BadLength n \<and> d ! 0 = PROTOCOL_VERSION \<and> d ! 1 = type_code Data \<and> n > m \<and>
      n = be32 (d ! 8) (d ! 9) (d ! 10) (d ! 11))"
  using assms type_code_try_from [of "d ! 1" Data]
  by (auto simp: decode_header_def Let_def type_try_from_None split: if_splits option.splits)

lemma decode_body_encode:
  assumes "wf_frame m f"
  shows "decode_body c (f_header f) ((case f_body f of None \<Rightarrow> [] | Some d \<Rightarrow> d) @ rest) = (Inr (Some f), c, rest)"
  using assms by (cases f) (auto simp: wf_frame_def decode_body_def split: option.splits)

lemma decode_encode_frame:
  assumes "wf_frame (max_frame_size c) f" and "unused_data_header c = None"
  shows "decode c (encode f [] @ rest) = (Inr (Some f), c, rest)"
proof -
  let ?body = "case f_body f of None \<Rightarrow> [] | Some d \<Rightarrow> d"
  have bytes: "encode f [] @ rest = encode_header (f_header f) @ ?body @ rest"
    by (simp add: encode_def)
  have "decode_header (max_frame_size c) (encode_header (f_header f)) = Inr (f_header f)"
    using assms(1) by (intro decode_encode_header) (auto simp: wf_frame_def split: option.splits)
  moreover have "encode_header (f_header f) \<noteq> []"
    by (simp add: encode_header_def)
  ultimately show ?thesis
    unfolding bytes by (simp add: decode_def assms(2) decode_body_encode [OF assms(1)])
qed

lemma decode_body_frame:
  assumes "decode_body c h src = (Inr (Some f), c', rest)"
  shows "f_header f = h \<and> c' = c \<and> src = (case f_body f of None \<Rightarrow> [] | Some d \<Rightarrow> d) @ rest \<and>
    (case f_body f of None \<Rightarrow> h_ty h \<noteq> Data | Some b \<Rightarrow> h_ty h = Data \<and> length b = unat (h_length h))"
  using assms by (auto simp: decode_body_def split: if_splits)

lemma decode_encode_inverse:
  assumes "decode c src = (Inr (Some f), c', rest)" and "unused_data_header c = None"
  shows "src = encode f [] @ rest \<and> wf_frame (max_frame_size c) f \<and> c' = c"
proof -
  from assms obtain h where len: "HEADER_SIZE \<le> length src"
    and h: "decode_header (max_frame_size c) (take HEADER_SIZE src) = Inr h"
    and b: "decode_body c h (drop HEADER_SIZE src) = (Inr (Some f), c', rest)"
    by (auto simp: decode_def split: if_splits sum.splits)
  from decode_header_encode [OF _ h] len have hd: "encode_header h = take HEADER_SIZE src"
    "h_version h = PROTOCOL_VERSION" "h_ty h = Data \<longrightarrow> h_length h \<le> max_frame_size c"
    by simp_all
  from decode_body_frame [OF b] have bd: "f_header f = h" "c' = c"
    "drop HEADER_SIZE src = (case f_body f of None \<Rightarrow> [] | Some d \<Rightarrow> d) @ rest"
    "case f_body f of None \<Rightarrow> h_ty h \<noteq> Data | Some b \<Rightarrow> h_ty h = Data \<and> length b = unat (h_length h)"
    by simp_all
  have "src = take HEADER_SIZE src @ drop HEADER_SIZE src" by simp
  also have "\<dots> = encode f [] @ rest"
    unfolding hd(1) [symmetric] bd(3) by (simp add: encode_def bd(1))
  finally show ?thesis using hd bd by (auto simp: wf_frame_def split: option.splits)
qed

text \<open>The codec keeps its contract with the transport.\<close>

lemma decode_body_resume:
  assumes "decode_body c h src = (Inr None, c', src')" and "unused_data_header c = None"
  shows "c' = c\<lparr>unused_data_header := Some h\<rparr> \<and> src' = src \<and> h_ty h = Data \<and> length src < unat (h_length h)"
  using assms by (auto simp: decode_body_def split: if_splits)

lemma decode_kept_header:
  assumes "unused_data_header c = Some h" and "h_ty h = Data" and "0 < h_length h"
  shows "decode c src = decode_body (c\<lparr>unused_data_header := None\<rparr>) h src"
  using assms by (cases c) (auto simp: decode_def decode_body_def word_less_nat_alt)

lemma decode_None_cases:
  assumes "decode c src = (Inr None, c', src')" and "codec_ok c"
  shows "(c' = c \<and> src' = src) \<or>
    (\<exists>h. unused_data_header c = None \<and> HEADER_SIZE \<le> length src \<and>
      decode_header (max_frame_size c) (take HEADER_SIZE src) = Inr h \<and>
      h_ty h = Data \<and> length (drop HEADER_SIZE src) < unat (h_length h) \<and>
      c' = c\<lparr>unused_data_header := Some h\<rparr> \<and> src' = drop HEADER_SIZE src)"
proof (cases "unused_data_header c")
  case None
  with assms(1) show ?thesis
    by (auto simp: decode_def dest: decode_body_resume split: if_splits sum.splits)
next
  case (Some h)
  with assms(1) have "decode_body (c\<lparr>unused_data_header := None\<rparr>) h src = (Inr None, c', src') \<or> c' = c \<and> src' = src"
    by (auto simp: decode_def split: if_splits)
  with Some show ?thesis by (cases c) (auto dest: decode_body_resume)
qed

lemma decode_resume:
  assumes "codec_ok c" and "decode c src = (Inr None, c', src')"
  shows "decode c (src @ rest) = decode c' (src' @ rest)"
  using decode_None_cases [OF assms(2,1)]
proof (elim disjE exE)
  fix h
  assume h: "unused_data_header c = None \<and> HEADER_SIZE \<le> length src \<and>
      decode_header (max_frame_size c) (take HEADER_SIZE src) = Inr h \<and>
      h_ty h = Data \<and> length (drop HEADER_SIZE src) < unat (h_length h) \<and>
      c' = c\<lparr>unused_data_header := Some h\<rparr> \<and> src' = drop HEADER_SIZE src"
  then have "decode c' (src' @ rest) = decode_body (c'\<lparr>unused_data_header := None\<rparr>) h (src' @ rest)"
    by (intro decode_kept_header) (auto simp: word_less_nat_alt)
  moreover have "c'\<lparr>unused_data_header := None\<rparr> = c" using h by (cases c) auto
  moreover have "decode c (src @ rest) = decode_body c h (drop HEADER_SIZE src @ rest)"
    using h by (auto simp: decode_def HEADER_SIZE_def)
  ultimately show ?thesis using h by metis
qed simp

lemma decode_body_more:
  assumes "decode_body c h src = (r, c', src')" and "r \<noteq> Inr None"
  shows "decode_body c h (src @ rest) = (r, c', src' @ rest)"
  using assms by (auto simp: decode_body_def split: if_splits)

lemma decode_settled:
  assumes "decode c src = (r, c', src')" and "r \<noteq> Inr None"
  shows "decode c (src @ rest) = (r, c', src' @ rest)"
proof -
  have ne: "src \<noteq> []" using assms by (auto simp: decode_def)
  show ?thesis
  proof (cases "unused_data_header c")
    case None
    with assms ne have "HEADER_SIZE \<le> length src" by (auto simp: decode_def split: if_splits)
    with None assms ne show ?thesis
      by (auto simp: decode_def decode_body_more split: sum.splits)
  next
    case (Some h)
    with assms ne show ?thesis by (auto simp: decode_def decode_body_more)
  qed
qed

lemma decode_codec_ok:
  assumes "codec_ok c" and "decode c src = (Inr r, c', src')"
  shows "codec_ok c'"
proof (cases r)
  case None
  with decode_None_cases [OF _ assms(1)] assms(2) consider "c' = c"
    | h where "decode_header (max_frame_size c) (take HEADER_SIZE src) = Inr h" "HEADER_SIZE \<le> length src"
      "h_ty h = Data" "length (drop HEADER_SIZE src) < unat (h_length h)"
      "c' = c\<lparr>unused_data_header := Some h\<rparr>" by blast
  then show ?thesis
  proof cases
    case 1
    with assms(1) show ?thesis by simp
  next
    case (2 h)
    from decode_header_encode [OF _ 2(1)] 2 show ?thesis
      by (auto simp: codec_ok_def word_less_nat_alt)
  qed
next
  case (Some f)
  with assms(2) have "c' = c \<or> unused_data_header c' = None"
    by (auto simp: decode_def dest: decode_body_frame split: if_splits option.splits sum.splits)
  with assms(1) show ?thesis by (auto simp: codec_ok_def)
qed

lemma decode_consumes:
  assumes "codec_ok c" and "decode c src = (Inr (Some f), c', src')"
  shows "length src' < length src"
proof (cases "unused_data_header c")
  case None
  from decode_encode_inverse [OF assms(2) None] show ?thesis
    by (simp add: encode_def HEADER_SIZE_def)
next
  case (Some h)
  with assms(2) have "decode_body (c\<lparr>unused_data_header := None\<rparr>) h src = (Inr (Some f), c', src')"
    by (auto simp: decode_def split: if_splits)
  with assms(1) Some show ?thesis
    by (auto dest!: decode_body_frame simp: codec_ok_def word_less_nat_alt split: option.splits)
qed

interpretation frame_decoder: incremental_decoder decode codec_ok
proof unfold_locales
  fix s buf r s' buf' rest f e
  show "codec_ok s \<Longrightarrow> decode s buf = (Inr r, s', buf') \<Longrightarrow> codec_ok s'"
    by (rule decode_codec_ok)
  show "codec_ok s \<Longrightarrow> decode s buf = (Inr None, s', buf') \<Longrightarrow> decode s (buf @ rest) = decode s' (buf' @ rest)"
    by (rule decode_resume)
  show "decode s buf = (Inr (Some f), s', buf') \<Longrightarrow> decode s (buf @ rest) = (Inr (Some f), s', buf' @ rest)"
    by (simp add: decode_settled)
  show "decode s buf = (Inl e, s', buf') \<Longrightarrow> decode s (buf @ rest) = (Inl e, s', buf' @ rest)"
    by (simp add: decode_settled)
  show "codec_ok s \<Longrightarrow> decode s buf = (Inr (Some f), s', buf') \<Longrightarrow> length buf' < length buf"
    by (rule decode_consumes)
qed

text \<open>What a sender writes for a sequence of frames.\<close>

definition encode_all :: "frame list \<Rightarrow> bytes" where
  "encode_all fs = fold encode fs []"

lemma fold_encode: "fold encode fs dst = dst @ concat (map (\<lambda>f. encode f []) fs)"
  by (induction fs arbitrary: dst) (simp_all add: encode_def)

lemma decodes_encode_all:
  assumes "\<forall>f \<in> set fs. wf_frame (max_frame_size c) f" and "unused_data_header c = None"
  shows "decodes decode c (concat (map (\<lambda>f. encode f []) fs)) fs c []"
  using assms
proof (induction fs)
  case Nil
  then show ?case by (auto intro: decodes.more simp: decode_def)
next
  case (Cons f fs)
  then show ?case by (auto intro!: decodes.item decode_encode_frame)
qed

text \<open>The faults of a header in the order the decoder looks for them.\<close>

definition header_fault :: "u32 \<Rightarrow> bytes \<Rightarrow> codec_error option" where
  "header_fault m src =
     (let len = be32 (src ! 8) (src ! 9) (src ! 10) (src ! 11) in
      if src ! 0 \<noteq> PROTOCOL_VERSION then Some (BadVersion (src ! 0))
      else if 3 < src ! 1 then Some (BadType (src ! 1))
      else if src ! 1 = 0 \<and> m < len then Some (BadLength len)
      else None)"

lemma decode_header_fault:
  assumes "HEADER_SIZE \<le> length src"
  shows "(case decode_header m (take HEADER_SIZE src) of Inl e \<Rightarrow> Some e | Inr _ \<Rightarrow> None) = header_fault m src"
proof -
  have nth: "take HEADER_SIZE src ! i = src ! i" if "i < 12" for i
    using that by (simp add: HEADER_SIZE_def)
  have data: "type_try_from (src ! 1) = Some Data \<longleftrightarrow> src ! 1 = 0"
    by (auto simp: type_try_from_def)
  show ?thesis
  proof (cases "type_try_from (src ! 1)")
    case None
    then have "3 < src ! 1" by (simp only: type_try_from_None)
    with None nth show ?thesis by (auto simp: decode_header_def header_fault_def Let_def)
  next
    case (Some t)
    then have "\<not> 3 < src ! 1" by (simp flip: type_try_from_None)
    with Some nth data show ?thesis by (auto simp: decode_header_def header_fault_def Let_def)
  qed
qed

section \<open>Properties\<close>

text \<open>C33. Codec round trip over any fragmentation: whatever frames a sender encodes one after another,
  and however the transport cuts the resulting bytes into reads, a decoder with a large enough
  maximum frame size yields exactly those frames, in order, and is left with an empty buffer and no
  kept header.
\<close>

theorem codec_roundtrip_any_reads:
  assumes "\<forall>f \<in> set fs. wf_frame (max_frame_size c) f"
    and "unused_data_header c = None"
    and "reads \<noteq> []" and "concat reads = encode_all fs"
  shows "decodes_reads decode c [] reads fs c []"
proof (rule frame_decoder.decodes_any_reads)
  show "decodes decode c ([] @ concat reads) fs c []"
    using assms by (simp add: encode_all_def fold_encode decodes_encode_all)
  show "codec_ok c" using assms(2) by (simp add: codec_ok_def)
qed (rule assms(3))

theorem codec_roundtrip_any_reads_witness:
  "decodes_reads decode frame_codec_default []
     [[0, 0, 0, 1, 0, 0, 0], [], [7, 0, 0, 0, 2, 104], [105, 0, 2], [0, 1, 0, 0, 0, 0, 0, 0, 0, 9]]
     [new_data (flags_from Syn) 7 [104, 105], new_ping (flags_from Syn) 9] frame_codec_default []"
  by (rule codec_roundtrip_any_reads)
    (simp_all add: frame_codec_default_def wf_frame_def frame_defs encode_all_def encode_def
      encode_header_def put_u16_def put_u32_def flags_from_def flags_value_def PROTOCOL_VERSION_def
      RESERVED_STREAM_ID_def INITIAL_STREAM_WINDOW_def)

text \<open>
  The decoder accepts nothing but encodings: a frame it yields from a fresh header was encoded
  by exactly the bytes it consumed, it is well formed, its body is within the configured maximum,
  and the codec is unchanged.
\<close>

theorem decode_only_encodings:
  assumes "decode c src = (Inr (Some f), c', rest)" and "unused_data_header c = None"
  shows "src = encode f [] @ rest \<and> wf_frame (max_frame_size c) f \<and> c' = c"
  using assms by (rule decode_encode_inverse)

theorem decode_only_encodings_witness:
  "[0, 3, 0, 0, 0, 0, 0, 0, 0, 0, 0, 1, 42] = encode (new_go_away GoProtocolError) [] @ [42] \<and>
   wf_frame (max_frame_size frame_codec_default) (new_go_away GoProtocolError) \<and>
   frame_codec_default = frame_codec_default"
proof (rule decode_only_encodings)
  show "decode frame_codec_default [0, 3, 0, 0, 0, 0, 0, 0, 0, 0, 0, 1, 42] =
    (Inr (Some (new_go_away GoProtocolError)), frame_codec_default, [42])"
    by (simp add: decode_def frame_codec_default_def HEADER_SIZE_def decode_header_def Let_def
        PROTOCOL_VERSION_def type_try_from_def be16_def be32_def decode_body_def frame_defs
        flags_default_def RESERVED_STREAM_ID_def)
  show "unused_data_header frame_codec_default = None" by (simp add: frame_codec_default_def)
qed

text \<open>
  Malformed headers, and only those, are errors: from a full header the decoder fails exactly
  when the version is not the supported one, the type byte is unknown, or a data frame announces
  more bytes than the maximum frame size; the twelve header bytes are gone from the buffer and the
  error carries the offending number.
\<close>

theorem decode_error_iff:
  assumes "unused_data_header c = None" and "HEADER_SIZE \<le> length src"
  shows "(case fst (decode c src) of Inl e \<Rightarrow> Some e | Inr _ \<Rightarrow> None) = header_fault (max_frame_size c) src \<and>
    (header_fault (max_frame_size c) src \<noteq> None \<longrightarrow> snd (decode c src) = (c, drop HEADER_SIZE src))"
proof -
  have ne: "src \<noteq> []" using assms(2) by (auto simp: HEADER_SIZE_def)
  have D: "decode c src = (case decode_header (max_frame_size c) (take HEADER_SIZE src) of
      Inl e \<Rightarrow> (Inl e, c, drop HEADER_SIZE src) | Inr h \<Rightarrow> decode_body c h (drop HEADER_SIZE src))"
    using assms ne by (simp add: decode_def)
  show ?thesis
    unfolding D decode_header_fault [OF assms(2), symmetric]
    by (auto simp: decode_body_def split: sum.splits)
qed

theorem decode_error_iff_witness:
  "(case fst (decode frame_codec_default [0, 6, 0, 1, 0, 0, 0, 1, 0, 0, 2, 0, 99]) of Inl e \<Rightarrow> Some e | Inr _ \<Rightarrow> None)
     = header_fault (max_frame_size frame_codec_default) [0, 6, 0, 1, 0, 0, 0, 1, 0, 0, 2, 0, 99] \<and>
   header_fault (max_frame_size frame_codec_default) [0, 6, 0, 1, 0, 0, 0, 1, 0, 0, 2, 0, 99] = Some (BadType 6) \<and>
   snd (decode frame_codec_default [0, 6, 0, 1, 0, 0, 0, 1, 0, 0, 2, 0, 99]) = (frame_codec_default, [99])"
proof -
  let ?src = "[0, 6, 0, 1, 0, 0, 0, 1, 0, 0, 2, 0, 99] :: bytes"
  have a: "unused_data_header frame_codec_default = None" and b: "HEADER_SIZE \<le> length ?src"
    by (simp_all add: frame_codec_default_def HEADER_SIZE_def)
  have f: "header_fault (max_frame_size frame_codec_default) ?src = Some (BadType 6)"
    by (simp add: header_fault_def PROTOCOL_VERSION_def)
  from decode_error_iff [OF a b] f show ?thesis by (simp add: HEADER_SIZE_def)
qed

text \<open>
  The space \<^verbatim>\<open>encode\<close> reserves is the space it uses: for a well-formed frame \<^verbatim>\<open>size()\<close> is the
  number of bytes the encoder appends.
\<close>

theorem frame_size_is_encoded_length:
  assumes "wf_frame m f"
  shows "length (encode f dst) = length dst + frame_size f"
  using assms by (auto simp: wf_frame_def encode_def frame_size_def split: option.splits)

theorem frame_size_is_encoded_length_witness:
  "length (encode (new_data flags_default 3 [1, 2, 3]) [0]) = length [0 :: u8] + frame_size (new_data flags_default 3 [1, 2, 3])"
  by (rule frame_size_is_encoded_length [where m = 3])
    (simp add: wf_frame_def new_data_def)

text \<open>
  The flag operations: \<^verbatim>\<open>add\<close> sets exactly the given flag, while \<^verbatim>\<open>remove\<close> toggles it, so that
  removing a flag that is set clears it and removing one that is not set sets it; no operation
  touches another flag, and a frame made from a single flag contains that flag only.
\<close>

theorem flag_operations:
  "flags_contains (flags_add fs f) g = (g = f \<or> flags_contains fs g) \<and>
   flags_contains (flags_remove fs f) g = (if g = f then \<not> flags_contains fs f else flags_contains fs g) \<and>
   flags_contains (flags_from f) g = (g = f)"
  by (auto simp: flags_contains_remove)

end
