(* ===== verification/Yamux_Stream.thy ===== *)
theory Yamux_Stream
  imports Yamux_Frame
begin

text \<open>
  The substream of the yamux multiplexer (\<^verbatim>\<open>yamux/src/stream.rs\<close>): the state machine of a
  \<^verbatim>\<open>StreamHandle\<close>, its two flow-control windows, the receive buffer, and the \<^verbatim>\<open>AsyncRead\<close>,
  \<^verbatim>\<open>AsyncWrite\<close> and \<^verbatim>\<open>Drop\<close> operations. Every operation is a function from the handle to its result
  and the handle it leaves.

  The handle talks to its session over two \<^verbatim>\<open>futures\<close> channels, which are not part of the
  sources. They appear as what the handle can observe of them: \<open>sh_events\<close> collects what was pushed
  into the unbounded event channel, in order, and \<open>sh_session_gone\<close> tells whether a push is refused
  because the receiving session is gone; \<open>sh_frames\<close> are the frames waiting in the frame channel,
  \<open>sh_frames_closed\<close> that its sender is gone, \<open>sh_terminated\<close> that the end was already seen. Wakers
  are numbers, and \<open>sh_woken\<close> collects the ones that were woken.

  The window arithmetic is on 32-bit words, as in the source; the lemmas show that the subtractions
  never wrap.
\<close>

section \<open>State\<close>

datatype stream_state =
  Init | SynSent | SynReceived | Established | LocalClosing | RemoteClosing | Closed | Reset

datatype stream_event = EvFrame frame | EvClosed u32 | EvGoAway

datatype yamux_error =
  InvalidVersion | InvalidMsgType | SessionShutdown | StreamsExhausted | DuplicateStream
  | RecvWindowExceeded | Timeout | StreamClosed | UnexpectedFlag | RemoteGoAway | ConnectionReset
  | ConnectionWriteTimeout | KeepAliveTimeout | SubStreamRemoteClosing | WouldBlock

type_synonym waker = nat

record stream_handle =
  sh_id :: u32
  sh_state :: stream_state
  sh_max_recv_window :: u32
  sh_recv_window :: u32
  sh_send_window :: u32
  sh_read_buf :: "bytes list"
  sh_events :: "stream_event list"
  sh_session_gone :: bool
  sh_frames :: "frame list"
  sh_frames_closed :: bool
  sh_terminated :: bool
  sh_writeable_wake :: "waker option"
  sh_readable_wake :: "waker option"
  sh_woken :: "waker list"

type_synonym 'a stream_op = "stream_handle \<Rightarrow> (yamux_error + 'a) \<times> stream_handle"

text \<open>
  \<^verbatim>\<open>StreamHandle::new\<close>; the assertion on the state is the caller's obligation. A new handle holds
  fresh channel ends.
\<close>

definition stream_new :: "u32 \<Rightarrow> stream_state \<Rightarrow> u32 \<Rightarrow> stream_handle" where
  "stream_new i st max_window_size =
     \<lparr>sh_id = i, sh_state = st, sh_max_recv_window = max_window_size,
      sh_recv_window = INITIAL_STREAM_WINDOW, sh_send_window = INITIAL_STREAM_WINDOW,
      sh_read_buf = [], sh_events = [], sh_session_gone = False, sh_frames = [],
      sh_frames_closed = False, sh_terminated = False,
      sh_writeable_wake = None, sh_readable_wake = None, sh_woken = []\<rparr>"

section \<open>Sending\<close>

definition unbound_send_event :: "stream_event \<Rightarrow> unit stream_op" where
  "unbound_send_event ev h =
     (if sh_session_gone h then (Inl SessionShutdown, h)
      else (Inr (), h\<lparr>sh_events := sh_events h @ [ev]\<rparr>))"

definition unbound_send_frame :: "frame \<Rightarrow> unit stream_op" where
  "unbound_send_frame f h = unbound_send_event (EvFrame f) h"

definition get_flags :: "stream_handle \<Rightarrow> flag_set \<times> stream_handle" where
  "get_flags h =
     (case sh_state h of
        Init \<Rightarrow> (flags_from Syn, h\<lparr>sh_state := SynSent\<rparr>)
      | SynReceived \<Rightarrow> (flags_from Ack, h\<lparr>sh_state := Established\<rparr>)
      | _ \<Rightarrow> (flags_default, h))"

definition buf_len :: "stream_handle \<Rightarrow> nat" where
  "buf_len h = sum_list (map length (sh_read_buf h))"

definition send_window_update :: "unit stream_op" where
  "send_window_update h =
     (let buf = of_nat (buf_len h) :: u32;
          delta = sh_max_recv_window h - buf - sh_recv_window h;
          (flags, h1) = get_flags h
      in if delta < sh_max_recv_window h1 div 2 \<and> flags_value flags = 0 then (Inr (), h1)
         else (let h2 = h1\<lparr>sh_recv_window := sh_recv_window h1 + delta\<rparr>
               in unbound_send_event (EvFrame (new_window_update flags (sh_id h2) delta)) h2))"

definition send_data :: "bytes \<Rightarrow> unit stream_op" where
  "send_data data h =
     (let (flags, h1) = get_flags h in unbound_send_frame (new_data flags (sh_id h1) data) h1)"

definition send_close :: "unit stream_op" where
  "send_close h =
     (let (flags, h1) = get_flags h
      in unbound_send_frame (new_window_update (flags_add flags Fin) (sh_id h1) 0) h1)"

text \<open>The \<^verbatim>\<open>?\<close> operator: an error ends the operation, with the handle as it is.\<close>

definition then_op :: "unit stream_op \<Rightarrow> 'a stream_op \<Rightarrow> 'a stream_op" where
  "then_op p q h = (case p h of (Inl e, h1) \<Rightarrow> (Inl e, h1) | (Inr _, h1) \<Rightarrow> q h1)"

definition close :: "unit stream_op" where
  "close h =
     (let closed_event = (\<lambda>h. unbound_send_event (EvClosed (sh_id h)) h) in
      case sh_state h of
        SynSent \<Rightarrow> send_close (h\<lparr>sh_state := LocalClosing\<rparr>)
      | SynReceived \<Rightarrow> send_close (h\<lparr>sh_state := LocalClosing\<rparr>)
      | Established \<Rightarrow> send_close (h\<lparr>sh_state := LocalClosing\<rparr>)
      | Init \<Rightarrow> send_close (h\<lparr>sh_state := LocalClosing\<rparr>)
      | RemoteClosing \<Rightarrow> then_op send_close closed_event (h\<lparr>sh_state := Closed\<rparr>)
      | Reset \<Rightarrow> closed_event (h\<lparr>sh_state := Closed\<rparr>)
      | Closed \<Rightarrow> closed_event (h\<lparr>sh_state := Closed\<rparr>)
      | LocalClosing \<Rightarrow> closed_event (h\<lparr>sh_state := Closed\<rparr>))"

definition stream_send_go_away :: "stream_handle \<Rightarrow> stream_handle" where
  "stream_send_go_away h = snd (unbound_send_event EvGoAway (h\<lparr>sh_state := LocalClosing\<rparr>))"

section \<open>Receiving\<close>

definition process_flags :: "flag_set \<Rightarrow> unit stream_op" where
  "process_flags flags h =
     (let h1 = (if flags_contains flags Ack \<and> sh_state h = SynSent
                then h\<lparr>sh_state := Established\<rparr> else h);
          fin = (if flags_contains flags Fin then
                   (case sh_state h1 of
                      Init \<Rightarrow> Some (h1\<lparr>sh_state := RemoteClosing\<rparr>)
                    | SynSent \<Rightarrow> Some (h1\<lparr>sh_state := RemoteClosing\<rparr>)
                    | SynReceived \<Rightarrow> Some (h1\<lparr>sh_state := RemoteClosing\<rparr>)
                    | Established \<Rightarrow> Some (h1\<lparr>sh_state := RemoteClosing\<rparr>)
                    | LocalClosing \<Rightarrow> Some (h1\<lparr>sh_state := Closed\<rparr>)
                    | _ \<Rightarrow> None)
                 else Some h1)
      in case fin of
           None \<Rightarrow> (Inl UnexpectedFlag, h1)
         | Some h2 \<Rightarrow>
             (Inr (), if flags_contains flags Rst then h2\<lparr>sh_state := Reset\<rparr> else h2))"

definition wake_writer :: "stream_handle \<Rightarrow> stream_handle" where
  "wake_writer h =
     (case sh_writeable_wake h of
        None \<Rightarrow> h
      | Some w \<Rightarrow> h\<lparr>sh_writeable_wake := None, sh_woken := sh_woken h @ [w]\<rparr>)"

definition wake_reader :: "stream_handle \<Rightarrow> stream_handle" where
  "wake_reader h =
     (case sh_readable_wake h of
        None \<Rightarrow> h
      | Some w \<Rightarrow> h\<lparr>sh_readable_wake := None, sh_woken := sh_woken h @ [w]\<rparr>)"

definition handle_window_update :: "frame \<Rightarrow> unit stream_op" where
  "handle_window_update f =
     then_op (process_flags (frame_flags f))
       (\<lambda>h. case checked_add (sh_send_window h) (frame_length f) of
              None \<Rightarrow> (Inl InvalidMsgType, h)
            | Some w \<Rightarrow> (Inr (), wake_writer (h\<lparr>sh_send_window := w\<rparr>)))"

definition handle_data :: "frame \<Rightarrow> unit stream_op" where
  "handle_data f =
     then_op (process_flags (frame_flags f))
       (\<lambda>h. let len = frame_length f in
            if len > sh_recv_window h then (Inl RecvWindowExceeded, h)
            else (let h1 = (case f_body f of
                              Some data \<Rightarrow> if len > 0 then h\<lparr>sh_read_buf := sh_read_buf h @ [data]\<rparr> else h
                            | None \<Rightarrow> h)
                  in (Inr (), h1\<lparr>sh_recv_window := sh_recv_window h1 - len\<rparr>)))"

definition stream_handle_frame :: "frame \<Rightarrow> unit stream_op" where
  "stream_handle_frame f h =
     (case frame_ty f of
        WindowUpdate \<Rightarrow> handle_window_update f h
      | Data \<Rightarrow> handle_data f h
      | _ \<Rightarrow> (Inl InvalidMsgType, h))"

text \<open>
  The loops of \<^verbatim>\<open>recv_frames\<close> and \<^verbatim>\<open>try_recv_frames\<close>: the list is what the frame channel holds,
  and each iteration takes its head. \<open>recv_stop\<close> is the check at the top of both.
\<close>

definition recv_stop :: "stream_handle \<Rightarrow> (yamux_error \<times> stream_handle) option" where
  "recv_stop h =
     (case sh_state h of
        RemoteClosing \<Rightarrow> Some (SubStreamRemoteClosing, h)
      | Reset \<Rightarrow> Some (SessionShutdown, h)
      | Closed \<Rightarrow> Some (SessionShutdown, h)
      | _ \<Rightarrow> if sh_terminated h then Some (SubStreamRemoteClosing, h\<lparr>sh_state := RemoteClosing\<rparr>)
             else None)"

fun recv_frames_loop :: "frame list \<Rightarrow> bool \<Rightarrow> bool stream_op" where
  "recv_frames_loop [] has_new h =
     (case recv_stop h of
        Some (e, h1) \<Rightarrow> (Inl e, h1)
      | None \<Rightarrow>
          if sh_frames_closed h
          then (Inl SubStreamRemoteClosing, h\<lparr>sh_terminated := True, sh_state := RemoteClosing\<rparr>)
          else (Inr has_new, h))"
| "recv_frames_loop (f # fs) has_new h =
     (case recv_stop h of
        Some (e, h1) \<Rightarrow> (Inl e, h1)
      | None \<Rightarrow>
          (case stream_handle_frame f (h\<lparr>sh_frames := fs\<rparr>) of
             (Inl e, h1) \<Rightarrow> (Inl e, h1)
           | (Inr _, h1) \<Rightarrow> recv_frames_loop fs True h1))"

definition recv_frames :: "bool stream_op" where
  "recv_frames h = recv_frames_loop (sh_frames h) False h"

fun try_recv_frames_loop :: "frame list \<Rightarrow> bool \<Rightarrow> bool stream_op" where
  "try_recv_frames_loop [] has_new h =
     (case recv_stop h of
        Some (e, h1) \<Rightarrow> (Inl e, h1)
      | None \<Rightarrow>
          if sh_frames_closed h
          then (Inl SubStreamRemoteClosing, h\<lparr>sh_terminated := True, sh_state := RemoteClosing\<rparr>)
          else (Inr has_new, h))"
| "try_recv_frames_loop (f # fs) has_new h =
     (case recv_stop h of
        Some (e, h1) \<Rightarrow> (Inl e, h1)
      | None \<Rightarrow>
          (case stream_handle_frame f (h\<lparr>sh_frames := fs\<rparr>) of
             (Inl e, h1) \<Rightarrow> (Inl e, h1)
           | (Inr _, h1) \<Rightarrow> try_recv_frames_loop fs True h1))"

definition try_recv_frames :: "bool stream_op" where
  "try_recv_frames h = try_recv_frames_loop (sh_frames h) False h"

definition recv_frames_wake :: "unit stream_op" where
  "recv_frames_wake h =
     (let bufs = length (sh_read_buf h); st = sh_state h in
      case try_recv_frames h of
        (Inr should_wake_read, h1) \<Rightarrow>
          (Inr (),
           if (sh_state h1 = RemoteClosing \<and> st \<noteq> RemoteClosing)
              \<or> (should_wake_read \<and> bufs \<noteq> length (sh_read_buf h1))
           then wake_reader h1 else h1)
      | (Inl e, h1) \<Rightarrow>
          (Inl e, if sh_state h1 = RemoteClosing \<and> st \<noteq> RemoteClosing then wake_reader h1 else h1))"

section \<open>Reading and writing\<close>

definition check_self_state :: "stream_handle \<Rightarrow> io_kind + bool" where
  "check_self_state h =
     (if sh_read_buf h = [] then
        (case sh_state h of
           RemoteClosing \<Rightarrow> Inr True
         | Closed \<Rightarrow> Inr True
         | Reset \<Rightarrow> Inl IoConnectionReset
         | _ \<Rightarrow> Inr False)
      else Inr False)"

text \<open>The errors of a received frame that are a protocol violation by the peer.\<close>

definition protocol_violation :: "(yamux_error + 'a) \<Rightarrow> bool" where
  "protocol_violation r = (r = Inl UnexpectedFlag \<or> r = Inl RecvWindowExceeded \<or> r = Inl InvalidMsgType)"

text \<open>
  What \<^verbatim>\<open>poll_peek\<close> and \<^verbatim>\<open>poll_read\<close> do before they touch the buffer: answer at once, or go on with
  data in the buffer. The waker is the caller's; \<open>Ready (Inr ())\<close> stands for an end of file.
\<close>

definition read_ready :: "waker \<Rightarrow> stream_handle \<Rightarrow> (io_kind + unit) poll option \<times> stream_handle" where
  "read_ready w h =
     (case check_self_state h of
        Inl k \<Rightarrow> (Some (Ready (Inl k)), h)
      | Inr True \<Rightarrow> (Some (Ready (Inr ())), h)
      | Inr False \<Rightarrow>
          (case recv_frames (h\<lparr>sh_readable_wake := Some w\<rparr>) of
             (r, h1) \<Rightarrow>
               if protocol_violation r then (Some (Ready (Inl IoInvalidData)), stream_send_go_away h1)
               else (case check_self_state h1 of
                       Inl k \<Rightarrow> (Some (Ready (Inl k)), h1)
                     | Inr True \<Rightarrow> (Some (Ready (Inr ())), h1)
                     | Inr False \<Rightarrow> if sh_read_buf h1 = [] then (Some Pending, h1) else (None, h1))))"

fun peek_loop :: "nat \<Rightarrow> bytes list \<Rightarrow> bytes" where
  "peek_loop remaining [] = []"
| "peek_loop remaining (b # bs) =
     (let n = min remaining (length b) in
      if n = 0 then [] else take n b @ peek_loop (remaining - n) bs)"

definition poll_peek :: "waker \<Rightarrow> nat \<Rightarrow> stream_handle \<Rightarrow> (io_kind + bytes) poll \<times> stream_handle" where
  "poll_peek w cap h =
     (case read_ready w h of
        (Some Pending, h1) \<Rightarrow> (Pending, h1)
      | (Some (Ready (Inl k)), h1) \<Rightarrow> (Ready (Inl k), h1)
      | (Some (Ready (Inr _)), h1) \<Rightarrow> (Ready (Inr []), h1)
      | (None, h1) \<Rightarrow> (Ready (Inr (peek_loop cap (sh_read_buf h1))), h1))"

text \<open>
  The copy loop of \<^verbatim>\<open>poll_read\<close>: the bytes copied, the buffers with their prefixes split off, and
  the index of the last buffer that became empty.
\<close>

fun read_loop :: "nat \<Rightarrow> nat \<Rightarrow> nat option \<Rightarrow> bytes list \<Rightarrow> bytes \<times> bytes list \<times> nat option" where
  "read_loop remaining index offset [] = ([], [], offset)"
| "read_loop remaining index offset (b # bs) =
     (let n = min remaining (length b) in
      if n = 0 then ([], b # bs, offset)
      else (let rest = drop n b;
                (out, bs', offset') =
                  read_loop (remaining - n) (Suc index) (if rest = [] then Some index else offset) bs
            in (take n b @ out, rest # bs', offset')))"

definition drain_to :: "nat option \<Rightarrow> bytes list \<Rightarrow> bytes list" where
  "drain_to offset bs = (case offset of None \<Rightarrow> bs | Some i \<Rightarrow> drop (Suc i) bs)"

definition poll_read :: "waker \<Rightarrow> nat \<Rightarrow> stream_handle \<Rightarrow> (io_kind + bytes) poll \<times> stream_handle" where
  "poll_read w cap h =
     (case read_ready w h of
        (Some Pending, h1) \<Rightarrow> (Pending, h1)
      | (Some (Ready (Inl k)), h1) \<Rightarrow> (Ready (Inl k), h1)
      | (Some (Ready (Inr _)), h1) \<Rightarrow> (Ready (Inr []), h1)
      | (None, h1) \<Rightarrow>
          (let (out, bs, offset) = read_loop cap 0 None (sh_read_buf h1);
               h2 = h1\<lparr>sh_read_buf := drain_to offset bs\<rparr>
           in case sh_state h2 of
                RemoteClosing \<Rightarrow> (Ready (Inr out), h2)
              | Closed \<Rightarrow> (Ready (Inr out), h2)
              | Reset \<Rightarrow> (Ready (Inr out), h2)
              | _ \<Rightarrow> (case send_window_update h2 of
                         (Inl _, h3) \<Rightarrow> (Ready (Inl IoBrokenPipe), h3)
                       | (Inr _, h3) \<Rightarrow> (Ready (Inr out), h3))))"

definition poll_write :: "waker \<Rightarrow> bytes \<Rightarrow> stream_handle \<Rightarrow> (io_kind + nat) poll \<times> stream_handle" where
  "poll_write w buf h =
     (let (r, h1) = recv_frames_wake h;
          h2 = (if protocol_violation r then stream_send_go_away h1 else h1)
      in case sh_state h2 of
           Reset \<Rightarrow> (Ready (Inl IoBrokenPipe), h2)
         | LocalClosing \<Rightarrow> (Ready (Inl IoBrokenPipe), h2)
         | Closed \<Rightarrow> (Ready (Inl IoBrokenPipe), h2)
         | _ \<Rightarrow>
             if sh_send_window h2 = 0 then (Pending, h2\<lparr>sh_writeable_wake := Some w\<rparr>)
             else (let n = min (unat (sh_send_window h2)) (length buf) in
                   case send_data (take n buf) h2 of
                     (Inr _, h3) \<Rightarrow> (Ready (Inr n), h3\<lparr>sh_send_window := sh_send_window h3 - of_nat n\<rparr>)
                   | (Inl WouldBlock, h3) \<Rightarrow> (Pending, h3)
                   | (Inl _, h3) \<Rightarrow> (Ready (Inl IoBrokenPipe), h3)))"

definition poll_flush :: "stream_handle \<Rightarrow> (io_kind + unit) poll \<times> stream_handle" where
  "poll_flush h = (Ready (Inr ()), h)"

definition poll_shutdown :: "stream_handle \<Rightarrow> (io_kind + unit) poll \<times> stream_handle" where
  "poll_shutdown h =
     (case close h of
        (Inl _, h1) \<Rightarrow> (Ready (Inl IoBrokenPipe), h1)
      | (Inr _, h1) \<Rightarrow> (Ready (Inr ()), h1))"

text \<open>\<^verbatim>\<open>Drop\<close>: the events it pushes; the handle is gone afterwards.\<close>

definition stream_drop :: "stream_handle \<Rightarrow> stream_handle" where
  "stream_drop h =
     (if \<not> sh_session_gone h \<and> sh_state h \<noteq> Closed then
        (let h1 = (if sh_state h = LocalClosing \<or> sh_state h = Reset then h
                   else (let (flags, h1) = get_flags h
                         in snd (unbound_send_event
                              (EvFrame (new_window_update (flags_add flags Rst) (sh_id h1) 0)) h1)))
         in snd (unbound_send_event (EvClosed (sh_id h1)) h1))
      else h)"

section \<open>Counting what is in flight\<close>

text \<open>
  The window a frame uses up, the window it grants, and the bytes it carries; and the frames among
  the events a handle has pushed.
\<close>

definition data_len :: "frame \<Rightarrow> nat" where
  "data_len f = (if frame_ty f = Data then unat (frame_length f) else 0)"

definition delta_of :: "frame \<Rightarrow> nat" where
  "delta_of f = (if frame_ty f = WindowUpdate then unat (frame_length f) else 0)"

definition payload :: "frame \<Rightarrow> bytes" where
  "payload f = (if frame_ty f = Data then (case f_body f of None \<Rightarrow> [] | Some b \<Rightarrow> b) else [])"

fun event_frames :: "stream_event list \<Rightarrow> frame list" where
  "event_frames [] = []"
| "event_frames (EvFrame f # es) = f # event_frames es"
| "event_frames (_ # es) = event_frames es"

abbreviation out_frames :: "stream_handle \<Rightarrow> frame list" where
  "out_frames h \<equiv> event_frames (sh_events h)"

abbreviation total :: "(frame \<Rightarrow> nat) \<Rightarrow> frame list \<Rightarrow> nat" where
  "total g fs \<equiv> sum_list (map g fs)"

text \<open>Frames the session passes to a stream: data with its announced length, or window updates.\<close>

definition stream_frame :: "frame \<Rightarrow> bool" where
  "stream_frame f \<longleftrightarrow>
     (case frame_ty f of
        Data \<Rightarrow> (case f_body f of None \<Rightarrow> False | Some b \<Rightarrow> length b = unat (frame_length f))
      | WindowUpdate \<Rightarrow> True
      | _ \<Rightarrow> False)"

text \<open>The receive side of a handle fits its window.\<close>

definition stream_inv :: "stream_handle \<Rightarrow> bool" where
  "stream_inv h \<longleftrightarrow>
     buf_len h + unat (sh_recv_window h) \<le> unat (sh_max_recv_window h) \<and> [] \<notin> set (sh_read_buf h)"

lemma event_frames_append [simp]: "event_frames (xs @ ys) = event_frames xs @ event_frames ys"
  by (induction xs rule: event_frames.induct) simp_all

lemma payload_length: "stream_frame f \<Longrightarrow> length (payload f) = data_len f"
  by (auto simp: stream_frame_def payload_def data_len_def split: frame_type.splits option.splits)

lemma buf_len_concat: "buf_len h = length (concat (sh_read_buf h))"
  by (simp add: buf_len_def length_concat)

section \<open>Effects of the operations\<close>

abbreviation receiving :: "stream_state \<Rightarrow> bool" where
  "receiving st \<equiv> st \<noteq> RemoteClosing \<and> st \<noteq> Closed \<and> st \<noteq> Reset"

text \<open>The state changes of \<open>process_flags\<close> and \<open>get_flags\<close> on their own.\<close>

definition flags_state :: "flag_set \<Rightarrow> stream_state \<Rightarrow> stream_state option" where
  "flags_state flags st =
     (let st1 = (if flags_contains flags Ack \<and> st = SynSent then Established else st);
          st2 = (if flags_contains flags Fin then
                   (if st1 = LocalClosing then Some Closed
                    else if receiving st1 then Some RemoteClosing else None)
                 else Some st1)
      in map_option (\<lambda>x. if flags_contains flags Rst then Reset else x) st2)"

definition flagged_state :: "stream_state \<Rightarrow> stream_state" where
  "flagged_state st = (case st of Init \<Rightarrow> SynSent | SynReceived \<Rightarrow> Established | _ \<Rightarrow> st)"

definition flags_of_state :: "stream_state \<Rightarrow> flag_set" where
  "flags_of_state st = (case st of Init \<Rightarrow> flags_from Syn | SynReceived \<Rightarrow> flags_from Ack | _ \<Rightarrow> flags_default)"

lemma upd_state_same [simp]: "sh_state h = st \<Longrightarrow> h\<lparr>sh_state := st\<rparr> = h"
  by (cases h) simp

lemma process_flags_eq:
  "process_flags flags h =
     (case flags_state flags (sh_state h) of
        Some st \<Rightarrow> (Inr (), h\<lparr>sh_state := st\<rparr>)
      | None \<Rightarrow> (Inl UnexpectedFlag, h))"
  by (cases "sh_state h") (simp_all add: process_flags_def flags_state_def Let_def)

lemma get_flags_eq: "get_flags h = (flags_of_state (sh_state h), h\<lparr>sh_state := flagged_state (sh_state h)\<rparr>)"
  by (cases "sh_state h") (simp_all add: get_flags_def flags_of_state_def flagged_state_def)

lemma flags_state_receiving: "receiving st \<Longrightarrow> \<exists>st'. flags_state flags st = Some st'"
  by (auto simp: flags_state_def Let_def)

lemma wake_writer_eq:
  "wake_writer h = h\<lparr>sh_writeable_wake := None, sh_woken := sh_woken h @ (case sh_writeable_wake h of None \<Rightarrow> [] | Some w \<Rightarrow> [w])\<rparr>"
  by (cases h) (auto simp: wake_writer_def split: option.splits)

lemma wake_reader_eq:
  "wake_reader h = h\<lparr>sh_readable_wake := None, sh_woken := sh_woken h @ (case sh_readable_wake h of None \<Rightarrow> [] | Some w \<Rightarrow> [w])\<rparr>"
  by (cases h) (auto simp: wake_reader_def split: option.splits)

lemma then_op_simps [simp]:
  "p h = (Inr u, h1) \<Longrightarrow> then_op p q h = q h1"
  "p h = (Inl e, h1) \<Longrightarrow> then_op p q h = (Inl e, h1)"
  by (simp_all add: then_op_def)

text \<open>The poll and the non-blocking receive loop do the same to the handle.\<close>

lemma try_recv_frames_loop_eq: "try_recv_frames_loop fs b h = recv_frames_loop fs b h"
  by (induction fs arbitrary: b h) (auto split: option.splits prod.splits sum.splits)

lemma try_recv_frames_eq: "try_recv_frames h = recv_frames h"
  by (simp add: try_recv_frames_def recv_frames_def try_recv_frames_loop_eq)

text \<open>
  The window arithmetic of \<^verbatim>\<open>send_window_update\<close> is exact under the invariant.
\<close>

lemma window_delta_exact:
  assumes "stream_inv h"
  shows "unat (sh_max_recv_window h - of_nat (buf_len h) - sh_recv_window h)
    = unat (sh_max_recv_window h) - buf_len h - unat (sh_recv_window h)"
proof -
  from assms have le: "buf_len h + unat (sh_recv_window h) \<le> unat (sh_max_recv_window h)"
    by (simp add: stream_inv_def)
  then have small: "buf_len h < 2 ^ 32" using u32_bound [of "sh_max_recv_window h"] by linarith
  then have b: "unat (of_nat (buf_len h) :: u32) = buf_len h" by (rule unat_of_nat_u32)
  with le have "of_nat (buf_len h) \<le> sh_max_recv_window h"
    by (simp add: word_le_nat_alt)
  then have d: "unat (sh_max_recv_window h - of_nat (buf_len h)) = unat (sh_max_recv_window h) - buf_len h"
    using b by (simp add: arith_simps)
  with le have "sh_recv_window h \<le> sh_max_recv_window h - of_nat (buf_len h)"
    by (simp add: word_le_nat_alt)
  then show ?thesis using d by (simp add: arith_simps)
qed

section \<open>Conservation of credit and of bytes\<close>

text \<open>
  What a handle may still send, counting grants it has not processed and data it has handed over;
  what it may still receive, less the data that waits and the grants it has handed over. And the
  bytes on their way to the reader, and from the writer.
\<close>

definition send_credit :: "stream_handle \<Rightarrow> int" where
  "send_credit h = int (unat (sh_send_window h)) + int (total delta_of (sh_frames h))
     + int (total data_len (out_frames h))"

definition recv_credit :: "stream_handle \<Rightarrow> int" where
  "recv_credit h = int (unat (sh_recv_window h)) - int (total data_len (sh_frames h))
     - int (total delta_of (out_frames h))"

definition in_bytes :: "stream_handle \<Rightarrow> bytes" where
  "in_bytes h = concat (sh_read_buf h) @ concat (map payload (sh_frames h))"

definition out_bytes :: "stream_handle \<Rightarrow> bytes" where
  "out_bytes h = concat (map payload (out_frames h))"

text \<open>
  A handle whose peer keeps to the protocol: its invariant holds, the waiting frames fit the receive
  window and do not overflow the send window, and its session is there.
\<close>

definition link_ok :: "stream_handle \<Rightarrow> bool" where
  "link_ok h \<longleftrightarrow> stream_inv h \<and> \<not> sh_session_gone h \<and>
     (\<forall>f \<in> set (sh_frames h). stream_frame f) \<and> (\<forall>f \<in> set (out_frames h). stream_frame f) \<and>
     total data_len (sh_frames h) \<le> unat (sh_recv_window h) \<and>
     unat (sh_send_window h) + total delta_of (sh_frames h) < 2 ^ 32"

definition conserves :: "stream_handle \<Rightarrow> stream_handle \<Rightarrow> bool" where
  "conserves h h' \<longleftrightarrow> send_credit h' = send_credit h \<and> recv_credit h' = recv_credit h \<and>
     sh_id h' = sh_id h \<and> sh_max_recv_window h' = sh_max_recv_window h \<and> link_ok h'"

lemma conserves_trans: "conserves h h1 \<Longrightarrow> conserves h1 h2 \<Longrightarrow> conserves h h2"
  by (simp add: conserves_def)

lemma conserves_refl: "link_ok h \<Longrightarrow> conserves h h"
  by (simp add: conserves_def)

text \<open>
  An operation that neither reads nor grants keeps the sum of buffered bytes and receive window, and
  does not reopen a stream that stopped receiving.
\<close>

definition room_same :: "stream_handle \<Rightarrow> stream_handle \<Rightarrow> bool" where
  "room_same h h' \<longleftrightarrow> buf_len h' + unat (sh_recv_window h') = buf_len h + unat (sh_recv_window h) \<and>
     (receiving (sh_state h') \<longrightarrow> receiving (sh_state h))"

lemma room_same_refl [simp]: "room_same h h"
  by (simp add: room_same_def)

lemma room_same_state [simp]:
  "room_same h (h'\<lparr>sh_terminated := t\<rparr>) = room_same h h'"
  "room_same h (h'\<lparr>sh_readable_wake := w\<rparr>) = room_same h h'"
  "room_same h (h'\<lparr>sh_writeable_wake := w\<rparr>) = room_same h h'"
  "room_same h (h'\<lparr>sh_woken := ws\<rparr>) = room_same h h'"
  "room_same h (h'\<lparr>sh_events := es\<rparr>) = room_same h h'"
  "room_same h (h'\<lparr>sh_send_window := sw\<rparr>) = room_same h h'"
  "room_same (h\<lparr>sh_readable_wake := w\<rparr>) h' = room_same h h'"
  by (simp_all add: room_same_def buf_len_def)

lemma room_same_stop [simp]:
  "\<not> receiving st \<Longrightarrow> room_same h (h\<lparr>sh_state := st\<rparr>)"
  "\<not> receiving st \<Longrightarrow> room_same h (h\<lparr>sh_terminated := t, sh_state := st\<rparr>)"
  by (auto simp: room_same_def buf_len_def)

lemma room_same_flag [simp]: "room_same h (h'\<lparr>sh_state := flagged_state (sh_state h')\<rparr>) = room_same h h'"
  by (cases "sh_state h'") (simp_all add: room_same_def buf_len_def flagged_state_def)

text \<open>A receiving handle has granted its peer more than half of the maximal window.\<close>

definition granted :: "stream_handle \<Rightarrow> bool" where
  "granted h \<longleftrightarrow> (receiving (sh_state h) \<longrightarrow>
     unat (sh_max_recv_window h) - buf_len h - unat (sh_recv_window h) < unat (sh_max_recv_window h) div 2)"

lemma granted_room_same:
  "granted h \<Longrightarrow> room_same h h' \<Longrightarrow> sh_max_recv_window h' = sh_max_recv_window h \<Longrightarrow> granted h'"
  by (auto simp: granted_def room_same_def)

text \<open>What an operation does to the grant, for a maximal window of at least two bytes.\<close>

definition keeps_grant :: "stream_handle \<Rightarrow> stream_handle \<Rightarrow> bool" where
  "keeps_grant h h' \<longleftrightarrow> (granted h \<and> 1 < unat (sh_max_recv_window h) \<longrightarrow> granted h')"

lemma keeps_grant_room_same: "conserves h h' \<Longrightarrow> room_same h h' \<Longrightarrow> keeps_grant h h'"
  unfolding keeps_grant_def using granted_room_same by (auto simp: conserves_def)

lemma room_same_trans: "room_same h h1 \<Longrightarrow> room_same h1 h2 \<Longrightarrow> room_same h h2"
  by (auto simp: room_same_def)

lemmas link_defs = link_ok_def stream_inv_def send_credit_def recv_credit_def conserves_def
  in_bytes_def out_bytes_def buf_len_concat

text \<open>State, waker and end-of-channel fields do not matter for the credits.\<close>

lemma conserves_state [simp]:
  "conserves h (h'\<lparr>sh_state := st\<rparr>) = conserves h h'"
  "conserves h (h'\<lparr>sh_terminated := t\<rparr>) = conserves h h'"
  "conserves h (h'\<lparr>sh_readable_wake := w\<rparr>) = conserves h h'"
  "conserves h (h'\<lparr>sh_writeable_wake := w\<rparr>) = conserves h h'"
  "conserves h (h'\<lparr>sh_woken := ws\<rparr>) = conserves h h'"
  "conserves (h\<lparr>sh_state := st\<rparr>) h' = conserves h h'"
  "conserves (h\<lparr>sh_readable_wake := w\<rparr>) h' = conserves h h'"
  by (simp_all add: link_defs)

lemma link_ok_state [simp]:
  "link_ok (h\<lparr>sh_state := st\<rparr>) = link_ok h"
  "link_ok (h\<lparr>sh_readable_wake := w\<rparr>) = link_ok h"
  "link_ok (h\<lparr>sh_writeable_wake := w\<rparr>) = link_ok h"
  by (simp_all add: link_defs)

lemma bytes_state [simp]:
  "in_bytes (h\<lparr>sh_state := st\<rparr>) = in_bytes h" "out_bytes (h\<lparr>sh_state := st\<rparr>) = out_bytes h"
  "in_bytes (h\<lparr>sh_terminated := t\<rparr>) = in_bytes h" "out_bytes (h\<lparr>sh_terminated := t\<rparr>) = out_bytes h"
  "in_bytes (h\<lparr>sh_readable_wake := w\<rparr>) = in_bytes h" "out_bytes (h\<lparr>sh_readable_wake := w\<rparr>) = out_bytes h"
  "in_bytes (h\<lparr>sh_writeable_wake := w\<rparr>) = in_bytes h" "out_bytes (h\<lparr>sh_writeable_wake := w\<rparr>) = out_bytes h"
  "in_bytes (h\<lparr>sh_woken := ws\<rparr>) = in_bytes h" "out_bytes (h\<lparr>sh_woken := ws\<rparr>) = out_bytes h"
  by (simp_all add: link_defs)

lemma window_update_step:
  assumes ok: "link_ok h" and frames: "sh_frames h = f # fs"
    and ty: "frame_ty f = WindowUpdate" and st: "receiving (sh_state h)"
  obtains h' where "stream_handle_frame f (h\<lparr>sh_frames := fs\<rparr>) = (Inr (), h')"
    and "conserves h h'" and "sh_frames h' = fs" and "sh_events h' = sh_events h" and "in_bytes h' = in_bytes h"
    and "room_same h h'"
proof -
  from flags_state_receiving [OF st] obtain st' where s: "flags_state (frame_flags f) (sh_state h) = Some st'"
    by blast
  from ok frames ty have add: "unat (sh_send_window h) + unat (frame_length f) < 2 ^ 32"
    by (simp add: link_defs delta_of_def)
  then have sum: "unat (sh_send_window h + frame_length f) = unat (sh_send_window h) + unat (frame_length f)"
    by (rule unat_add_u32)
  let ?h' = "wake_writer (h\<lparr>sh_frames := fs, sh_state := st', sh_send_window := sh_send_window h + frame_length f\<rparr>)"
  have "stream_handle_frame f (h\<lparr>sh_frames := fs\<rparr>) = (Inr (), ?h')"
    using s add by (simp add: stream_handle_frame_def handle_window_update_def ty then_op_def
        process_flags_eq checked_add_def)
  moreover have "conserves h ?h'" "in_bytes ?h' = in_bytes h"
    using ok frames ty add sum
    by (auto simp: link_defs wake_writer_eq delta_of_def data_len_def payload_def)
  moreover have "room_same h ?h'" using st by (simp add: room_same_def buf_len_def wake_writer_eq)
  ultimately show thesis by (intro that [of ?h']) (simp_all add: wake_writer_eq)
qed

lemma data_step:
  assumes ok: "link_ok h" and frames: "sh_frames h = f # fs"
    and ty: "frame_ty f = Data" and st: "receiving (sh_state h)"
  obtains h' where "stream_handle_frame f (h\<lparr>sh_frames := fs\<rparr>) = (Inr (), h')"
    and "conserves h h'" and "sh_frames h' = fs" and "sh_events h' = sh_events h" and "in_bytes h' = in_bytes h"
    and "room_same h h'"
proof -
  from flags_state_receiving [OF st] obtain st' where s: "flags_state (frame_flags f) (sh_state h) = Some st'"
    by blast
  from ok frames ty obtain b where b: "f_body f = Some b" "length b = unat (frame_length f)"
    by (auto simp: link_defs stream_frame_def split: option.splits)
  from ok frames ty have le: "frame_length f \<le> sh_recv_window h"
    by (simp add: link_defs data_len_def word_le_nat_alt)
  then have sub: "unat (sh_recv_window h - frame_length f) = unat (sh_recv_window h) - unat (frame_length f)"
    by (rule unat_sub_u32)
  let ?buf = "if frame_length f > 0 then sh_read_buf h @ [b] else sh_read_buf h"
  let ?h' = "h\<lparr>sh_frames := fs, sh_state := st', sh_read_buf := ?buf, sh_recv_window := sh_recv_window h - frame_length f\<rparr>"
  have "stream_handle_frame f (h\<lparr>sh_frames := fs\<rparr>) = (Inr (), ?h')"
    using s le b by (simp add: stream_handle_frame_def handle_data_def ty then_op_def
        process_flags_eq Let_def linorder_not_less)
  moreover have "conserves h ?h'" "in_bytes ?h' = in_bytes h"
    using ok frames ty le sub b
    by (auto simp: link_defs delta_of_def data_len_def payload_def word_le_nat_alt word_less_nat_alt)
  moreover have "room_same h ?h'"
    using st le sub b by (auto simp: room_same_def buf_len_def word_le_nat_alt word_less_nat_alt)
  ultimately show thesis by (intro that [of ?h']) simp_all
qed

lemma frame_step:
  assumes "link_ok h" and "sh_frames h = f # fs" and "receiving (sh_state h)"
  obtains h' where "stream_handle_frame f (h\<lparr>sh_frames := fs\<rparr>) = (Inr (), h')"
    and "conserves h h'" and "sh_frames h' = fs" and "sh_events h' = sh_events h" and "in_bytes h' = in_bytes h"
    and "room_same h h'"
proof -
  have "frame_ty f = WindowUpdate \<or> frame_ty f = Data"
    using assms(1,2) by (auto simp: link_defs stream_frame_def split: frame_type.splits)
  then show thesis
    using window_update_step [OF assms(1,2) _ assms(3)] data_step [OF assms(1,2) _ assms(3)] that
    by blast
qed

lemma recv_stop_Some:
  assumes "recv_stop h = Some (e, h')"
  shows "(e = SubStreamRemoteClosing \<or> e = SessionShutdown) \<and>
    (\<exists>st. h' = h\<lparr>sh_state := st\<rparr> \<and> \<not> receiving st)"
  using assms
proof (cases "receiving (sh_state h)")
  case True
  with assms show ?thesis
    by (cases "sh_state h") (auto simp: recv_stop_def split: if_splits)
next
  case False
  with assms show ?thesis
    by (auto simp: recv_stop_def intro: exI [of _ "sh_state h"])
qed

lemma recv_stop_None: "recv_stop h = None \<Longrightarrow> receiving (sh_state h)"
  by (cases "sh_state h") (auto simp: recv_stop_def)

text \<open>Receiving from a peer that keeps to the protocol never fails on a frame.\<close>

lemma recv_loop_conserves:
  assumes "link_ok h" and "sh_frames h = fs"
  obtains r h' where "recv_frames_loop fs b h = (r, h')" and "\<not> protocol_violation r"
    and "conserves h h'" and "sh_events h' = sh_events h" and "in_bytes h' = in_bytes h"
    and "room_same h h'"
  using assms
proof (induction fs arbitrary: b h thesis)
  case Nil
  show ?case
  proof (cases "recv_stop h")
    case None
    with Nil show ?thesis
      by (cases "sh_frames_closed h") (auto simp: protocol_violation_def conserves_refl)
  next
    case (Some eh)
    then obtain e h' where eh: "recv_stop h = Some (e, h')" by (cases eh) auto
    with recv_stop_Some [OF eh] Nil show ?thesis
      by (auto simp: protocol_violation_def conserves_refl)
  qed
next
  case (Cons f fs)
  show ?case
  proof (cases "recv_stop h")
    case None
    then have "receiving (sh_state h)" by (rule recv_stop_None)
    from frame_step [OF Cons.prems(2,3) this] obtain h1 where
      step: "stream_handle_frame f (h\<lparr>sh_frames := fs\<rparr>) = (Inr (), h1)"
      and c1: "conserves h h1" and fs1: "sh_frames h1 = fs" and e1: "sh_events h1 = sh_events h"
      and b1: "in_bytes h1 = in_bytes h" and m1: "room_same h h1" .
    from c1 have ok1: "link_ok h1" by (simp add: conserves_def)
    obtain r h' where loop: "recv_frames_loop fs True h1 = (r, h')" and v: "\<not> protocol_violation r"
      and c2: "conserves h1 h'" and e2: "sh_events h' = sh_events h1" and b2: "in_bytes h' = in_bytes h1"
      and m2: "room_same h1 h'"
      using Cons.IH [OF _ ok1 fs1] by blast
    show ?thesis
    proof (rule Cons.prems(1))
      show "recv_frames_loop (f # fs) b h = (r, h')" using None step loop by simp
      show "conserves h h'" using c1 c2 by (rule conserves_trans)
      show "room_same h h'" using m1 m2 by (rule room_same_trans)
    qed (use v e1 e2 b1 b2 in simp_all)
  next
    case (Some eh)
    then obtain e h' where eh: "recv_stop h = Some (e, h')" by (cases eh) auto
    with recv_stop_Some [OF eh] Cons.prems show ?thesis
      by (auto simp: protocol_violation_def conserves_refl)
  qed
qed

lemma recv_frames_conserves:
  assumes "link_ok h"
  obtains r h' where "recv_frames h = (r, h')" and "\<not> protocol_violation r"
    and "conserves h h'" and "sh_events h' = sh_events h" and "in_bytes h' = in_bytes h"
    and "room_same h h'"
  using recv_loop_conserves [OF assms refl, where b = False] by (auto simp: recv_frames_def)

lemma recv_frames_wake_conserves:
  assumes "link_ok h"
  obtains r h' where "recv_frames_wake h = (r, h')" and "\<not> protocol_violation r"
    and "conserves h h'" and "sh_events h' = sh_events h" and "in_bytes h' = in_bytes h"
    and "room_same h h'"
proof -
  from recv_frames_conserves [OF assms] obtain r h1 where *: "recv_frames h = (r, h1)" "\<not> protocol_violation r"
    "conserves h h1" "sh_events h1 = sh_events h" "in_bytes h1 = in_bytes h" "room_same h h1" .
  then show thesis
    by (cases r)
      (auto simp: recv_frames_wake_def try_recv_frames_eq wake_reader_eq protocol_violation_def Let_def
        intro!: that)
qed

section \<open>Sending conserves credit\<close>

lemma unbound_send_event_alive:
  "\<not> sh_session_gone h \<Longrightarrow> unbound_send_event ev h = (Inr (), h\<lparr>sh_events := sh_events h @ [ev]\<rparr>)"
  by (simp add: unbound_send_event_def)

lemma stream_frame_new [simp]:
  "stream_frame (new_window_update fl i d)"
  "length b < 2 ^ 32 \<Longrightarrow> stream_frame (new_data fl i b)"
  by (simp_all add: stream_frame_def frame_defs unat_of_nat_u32)

lemma new_frame_counts [simp]:
  "data_len (new_window_update fl i d) = 0" "delta_of (new_window_update fl i d) = unat d"
  "payload (new_window_update fl i d) = []" "delta_of (new_data fl i b) = 0" "payload (new_data fl i b) = b"
  by (simp_all add: data_len_def delta_of_def payload_def frame_defs)

lemma data_len_new_data [simp]: "length b < 2 ^ 32 \<Longrightarrow> data_len (new_data fl i b) = length b"
  by (simp add: data_len_def frame_defs unat_of_nat_u32)

lemma send_window_update_alive:
  assumes "link_ok h"
  obtains h' where "send_window_update h = (Inr (), h')" and "conserves h h'"
    and "in_bytes h' = in_bytes h" and "out_bytes h' = out_bytes h" and "sh_read_buf h' = sh_read_buf h"
    and "1 < unat (sh_max_recv_window h) \<longrightarrow> granted h'"
proof -
  let ?delta = "sh_max_recv_window h - of_nat (buf_len h) - sh_recv_window h"
  let ?h1 = "h\<lparr>sh_state := flagged_state (sh_state h)\<rparr>"
  let ?f = "new_window_update (flags_of_state (sh_state h)) (sh_id h) ?delta"
  let ?h2 = "?h1\<lparr>sh_recv_window := sh_recv_window h + ?delta, sh_events := sh_events h @ [EvFrame ?f]\<rparr>"
  from assms have inv: "stream_inv h" and alive: "\<not> sh_session_gone h" by (simp_all add: link_ok_def)
  from inv have le: "buf_len h + unat (sh_recv_window h) \<le> unat (sh_max_recv_window h)"
    by (simp add: stream_inv_def)
  have d: "unat ?delta = unat (sh_max_recv_window h) - buf_len h - unat (sh_recv_window h)"
    using inv by (rule window_delta_exact)
  have "unat (sh_recv_window h) + unat ?delta < 2 ^ 32"
    using d le u32_bound [of "sh_max_recv_window h"] by linarith
  then have r: "unat (sh_recv_window h + ?delta) = unat (sh_recv_window h) + unat ?delta"
    by (rule unat_add_u32)
  have "send_window_update h = (Inr (), ?h1) \<and> ?delta < sh_max_recv_window h div 2 \<or>
      send_window_update h = (Inr (), ?h2)"
    using alive by (auto simp: send_window_update_def get_flags_eq Let_def unbound_send_event_alive)
  moreover have "granted ?h1" if "?delta < sh_max_recv_window h div 2"
    using that d by (auto simp: granted_def buf_len_def word_less_nat_alt unat_div)
  moreover have "granted ?h2" if "1 < unat (sh_max_recv_window h)"
    using that d r le by (auto simp: granted_def buf_len_def)
  moreover have "conserves h ?h1" using assms by (simp add: conserves_refl)
  moreover have "conserves h ?h2" "in_bytes ?h2 = in_bytes h" "out_bytes ?h2 = out_bytes h"
    using assms le d r by (auto simp: link_defs)
  ultimately show thesis
    by (elim disjE) (auto intro!: that)
qed

section \<open>The copy loops\<close>

text \<open>The buffers left after taking \<open>n\<close> bytes off the front.\<close>

fun drop_bufs :: "nat \<Rightarrow> bytes list \<Rightarrow> bytes list" where
  "drop_bufs n [] = []"
| "drop_bufs n (b # bs) = (if length b \<le> n then drop_bufs (n - length b) bs else drop n b # bs)"

lemma drop_bufs_0: "[] \<notin> set bs \<Longrightarrow> drop_bufs 0 bs = bs"
  by (cases bs) auto

lemma concat_drop_bufs: "concat (drop_bufs n bs) = drop n (concat bs)"
  by (induction n bs rule: drop_bufs.induct) auto

lemma drop_bufs_nonempty: "[] \<notin> set bs \<Longrightarrow> [] \<notin> set (drop_bufs n bs)"
  by (induction n bs rule: drop_bufs.induct) auto

lemma read_loop_0: "[] \<notin> set bs \<Longrightarrow> read_loop 0 i off bs = ([], bs, off)"
  by (cases bs) (auto simp: Let_def)

lemma read_loop_spec:
  assumes "[] \<notin> set bs"
  shows "\<exists>bs' off'. read_loop n i off bs = (take n (concat bs), bs', off') \<and>
    (off' = off \<and> bs' = drop_bufs n bs \<or> (\<exists>k. off' = Some (i + k) \<and> drop (Suc k) bs' = drop_bufs n bs))"
  using assms
proof (induction bs arbitrary: n i off)
  case Nil
  then show ?case by simp
next
  case (Cons b bs)
  show ?case
  proof (cases "n < length b")
    case True
    show ?thesis
    proof (cases "n = 0")
      case True
      with Cons.prems show ?thesis by (auto simp: Let_def)
    next
      case False
      with True Cons.prems show ?thesis by (simp add: Let_def read_loop_0 min_def)
    qed
  next
    case False
    with Cons.prems have n: "min n (length b) = length b" "length b \<noteq> 0" by auto
    from Cons obtain bs' off' where
      r: "read_loop (n - length b) (Suc i) (Some i) bs = (take (n - length b) (concat bs), bs', off')"
      and o: "off' = Some i \<and> bs' = drop_bufs (n - length b) bs \<or>
        (\<exists>k. off' = Some (Suc i + k) \<and> drop (Suc k) bs' = drop_bufs (n - length b) bs)"
      by fastforce
    have eq: "read_loop n i off (b # bs) = (take n (concat (b # bs)), [] # bs', off')"
      using False n r by (simp add: Let_def)
    from o show ?thesis
    proof
      assume "off' = Some i \<and> bs' = drop_bufs (n - length b) bs"
      with eq False show ?thesis by (auto intro!: exI [of _ 0])
    next
      assume "\<exists>k. off' = Some (Suc i + k) \<and> drop (Suc k) bs' = drop_bufs (n - length b) bs"
      then obtain k where "off' = Some (i + Suc k)" "drop (Suc (Suc k)) ([] # bs') = drop_bufs n (b # bs)"
        using False by auto
      with eq show ?thesis by blast
    qed
  qed
qed

lemma read_loop_drain:
  assumes "[] \<notin> set bs"
  obtains bs' off where "read_loop n 0 None bs = (take n (concat bs), bs', off)"
    and "drain_to off bs' = drop_bufs n bs"
  using read_loop_spec [OF assms, of n 0 None] by (auto simp: drain_to_def)

lemma peek_loop_spec: "[] \<notin> set bs \<Longrightarrow> peek_loop n bs = take n (concat bs)"
proof (induction bs arbitrary: n)
  case (Cons b bs)
  then show ?case
    by (cases "n = 0"; cases "length b \<le> n") (auto simp: Let_def min_def)
qed simp

section \<open>The \<open>AsyncRead\<close> and \<open>AsyncWrite\<close> operations\<close>

lemma read_ready_cases:
  assumes "link_ok h"
  obtains r h' where "read_ready w h = (r, h')" and "conserves h h'" and "sh_events h' = sh_events h"
    and "in_bytes h' = in_bytes h" and "r \<noteq> Some (Ready (Inl IoInvalidData))"
    and "room_same h h'"
proof -
  have "link_ok (h\<lparr>sh_readable_wake := Some w\<rparr>)" using assms by simp
  from recv_frames_conserves [OF this] obtain r h1 where *: "recv_frames (h\<lparr>sh_readable_wake := Some w\<rparr>) = (r, h1)"
    "\<not> protocol_violation r" "conserves h h1" "sh_events h1 = sh_events h" "in_bytes h1 = in_bytes h" "room_same h h1"
    by auto
  then show thesis
    using assms by (cases "check_self_state h"; cases "check_self_state h1")
      (auto simp: read_ready_def conserves_refl check_self_state_def split: if_splits bool.splits stream_state.splits intro!: that)
qed

lemma poll_peek_conserves:
  assumes "link_ok h" and "poll_peek w cap h = (p, h')"
  shows "conserves h h' \<and> sh_events h' = sh_events h \<and> in_bytes h' = in_bytes h \<and>
    p \<noteq> Ready (Inl IoInvalidData) \<and> (\<forall>out. p = Ready (Inr out) \<longrightarrow> (\<exists>rest. in_bytes h = out @ rest)) \<and>
    keeps_grant h h'"
proof -
  from read_ready_cases [OF assms(1)] obtain r h1 where *: "read_ready w h = (r, h1)" "conserves h h1"
    "sh_events h1 = sh_events h" "in_bytes h1 = in_bytes h" "r \<noteq> Some (Ready (Inl IoInvalidData))" "room_same h h1" .
  then have "keeps_grant h h1" by (simp add: keeps_grant_room_same)
  moreover have "peek_loop cap (sh_read_buf h1) = take cap (concat (sh_read_buf h1))"
    using *(2) by (intro peek_loop_spec) (simp add: link_defs)
  moreover from this have "in_bytes h1 = peek_loop cap (sh_read_buf h1) @ drop cap (concat (sh_read_buf h1)) @
      concat (map payload (sh_frames h1))"
    by (simp add: in_bytes_def)
  with *(4) obtain rest where "in_bytes h = peek_loop cap (sh_read_buf h1) @ rest" by metis
  ultimately show ?thesis using * assms(2)
    by (auto simp: poll_peek_def split: option.splits poll.splits sum.splits)
qed

lemma conserves_read:
  assumes "conserves h h1"
  shows "conserves h (h1\<lparr>sh_read_buf := drop_bufs n (sh_read_buf h1)\<rparr>)"
  using assms drop_bufs_nonempty [of "sh_read_buf h1" n] by (auto simp: link_defs concat_drop_bufs)

lemma poll_read_conserves:
  assumes "link_ok h" and "poll_read w cap h = (p, h')"
  shows "conserves h h' \<and> out_bytes h' = out_bytes h \<and> p \<noteq> Ready (Inl IoInvalidData) \<and>
    (case p of Ready (Inr out) \<Rightarrow> in_bytes h = out @ in_bytes h' | _ \<Rightarrow> in_bytes h' = in_bytes h) \<and>
    keeps_grant h h'"
proof -
  from read_ready_cases [OF assms(1)] obtain r h1 where rr: "read_ready w h = (r, h1)" "conserves h h1"
    "sh_events h1 = sh_events h" "in_bytes h1 = in_bytes h" "r \<noteq> Some (Ready (Inl IoInvalidData))" "room_same h h1" .
  show ?thesis
  proof (cases r)
    case (Some q)
    from rr have "keeps_grant h h1" by (simp add: keeps_grant_room_same)
    with Some rr assms(2) show ?thesis
      by (auto simp: poll_read_def out_bytes_def split: poll.splits sum.splits)
  next
    case None
    let ?h2 = "h1\<lparr>sh_read_buf := drop_bufs cap (sh_read_buf h1)\<rparr>"
    have "[] \<notin> set (sh_read_buf h1)" using rr(2) by (simp add: link_defs)
    then obtain bs off where loop: "read_loop cap 0 None (sh_read_buf h1) = (take cap (concat (sh_read_buf h1)), bs, off)"
      and drain: "drain_to off bs = drop_bufs cap (sh_read_buf h1)" by (rule read_loop_drain)
    have c2: "conserves h ?h2" using rr(2) by (rule conserves_read)
    then have "link_ok ?h2" by (simp add: conserves_def)
    then obtain h3 where up: "send_window_update ?h2 = (Inr (), h3)" and c3: "conserves ?h2 h3"
      and b3: "in_bytes h3 = in_bytes ?h2" "out_bytes h3 = out_bytes ?h2"
      and g3: "1 < unat (sh_max_recv_window ?h2) \<longrightarrow> granted h3"
      by (rule send_window_update_alive)
    have ib: "in_bytes h = take cap (concat (sh_read_buf h1)) @ in_bytes ?h2"
      unfolding rr(4) [symmetric] by (simp add: in_bytes_def concat_drop_bufs)
    have "p = Ready (Inr (take cap (concat (sh_read_buf h1)))) \<and>
        (h' = ?h2 \<and> \<not> receiving (sh_state h1) \<or> h' = h3)"
      using assms(2) None rr(1) loop drain up
      by (cases "sh_state h1") (auto simp: poll_read_def Let_def)
    moreover have "conserves h h3" using c2 c3 by (rule conserves_trans)
    moreover have "keeps_grant h h3" using g3 c2 by (simp add: keeps_grant_def conserves_def)
    moreover have "keeps_grant h ?h2" if "\<not> receiving (sh_state h1)"
      using that by (auto simp: keeps_grant_def granted_def)
    ultimately show ?thesis using c2 b3 ib rr(3) by (auto simp: out_bytes_def)
  qed
qed

lemma poll_write_conserves:
  assumes "link_ok h" and "poll_write w buf h = (p, h')"
  shows "conserves h h' \<and> in_bytes h' = in_bytes h \<and>
    (case p of
       Ready (Inr n) \<Rightarrow> n \<le> length buf \<and> out_bytes h' = out_bytes h @ take n buf
     | _ \<Rightarrow> out_bytes h' = out_bytes h) \<and> keeps_grant h h'"
proof -
  from recv_frames_wake_conserves [OF assms(1)] obtain r h1 where r: "recv_frames_wake h = (r, h1)"
    "\<not> protocol_violation r" "conserves h h1" "sh_events h1 = sh_events h" "in_bytes h1 = in_bytes h"
    "room_same h h1" .
  have alive: "\<not> sh_session_gone h1" using r(3) by (simp add: link_defs)
  let ?n = "min (unat (sh_send_window h1)) (length buf)"
  let ?f = "new_data (flags_of_state (sh_state h1)) (sh_id h1) (take ?n buf)"
  let ?h3 = "h1\<lparr>sh_state := flagged_state (sh_state h1), sh_events := sh_events h1 @ [EvFrame ?f],
    sh_send_window := sh_send_window h1 - of_nat ?n\<rparr>"
  have small: "?n < 2 ^ 32" using u32_bound [of "sh_send_window h1"] by linarith
  then have n: "unat (of_nat ?n :: u32) = ?n" by (rule unat_of_nat_u32)
  then have "of_nat ?n \<le> sh_send_window h1" by (simp add: word_le_nat_alt)
  then have sub: "unat (sh_send_window h1 - of_nat ?n) = unat (sh_send_window h1) - ?n"
    using n by (simp add: arith_simps)
  have len: "length (take ?n buf) = ?n" by simp
  with small have lt: "length (take ?n buf) < 2 ^ 32" by simp
  have c3: "conserves h ?h3"
    using r(3) sub len lt by (auto simp: link_defs)
  have "send_data (take ?n buf) h1 = (Inr (), h1\<lparr>sh_state := flagged_state (sh_state h1), sh_events := sh_events h1 @ [EvFrame ?f]\<rparr>)"
    using alive by (simp add: send_data_def get_flags_eq Let_def unbound_send_frame_def unbound_send_event_alive)
  then have "poll_write w buf h =
     (if sh_state h1 = Reset \<or> sh_state h1 = LocalClosing \<or> sh_state h1 = Closed then (Ready (Inl IoBrokenPipe), h1)
      else if sh_send_window h1 = 0 then (Pending, h1\<lparr>sh_writeable_wake := Some w\<rparr>)
      else (Ready (Inr ?n), ?h3))"
    using r(1,2) by (cases "sh_state h1") (simp_all add: poll_write_def Let_def)
  then have "(p, h') = (Ready (Inl IoBrokenPipe), h1) \<or>
     (p, h') = (Pending, h1\<lparr>sh_writeable_wake := Some w\<rparr>) \<or> (p, h') = (Ready (Inr ?n), ?h3)"
    unfolding assms(2) by (simp split: if_splits)
  moreover have "keeps_grant h h1" "keeps_grant h (h1\<lparr>sh_writeable_wake := Some w\<rparr>)"
    using r by (simp_all add: keeps_grant_room_same)
  moreover have "room_same h ?h3" using r(6) by (simp add: room_same_def buf_len_def flagged_state_def split: stream_state.splits)
  then have "keeps_grant h ?h3" using c3 by (simp add: keeps_grant_room_same)
  ultimately show ?thesis using c3 r by (auto simp: out_bytes_def in_bytes_def)
qed

text \<open>Events that neither carry data nor grant window.\<close>

definition quiet :: "stream_event list \<Rightarrow> bool" where
  "quiet es \<longleftrightarrow> (\<forall>f \<in> set (event_frames es). stream_frame f \<and> data_len f = 0 \<and> delta_of f = 0 \<and> payload f = [])"

lemma quiet_totals:
  "quiet es \<Longrightarrow> total data_len (event_frames es) = 0 \<and> total delta_of (event_frames es) = 0 \<and>
     concat (map payload (event_frames es)) = [] \<and> (\<forall>f \<in> set (event_frames es). stream_frame f)"
  by (auto simp: quiet_def)

lemma conserves_quiet:
  assumes "sh_events h1 = e0" and "quiet es"
  shows "conserves h (h1\<lparr>sh_events := e0 @ es\<rparr>) = conserves h h1"
    and "in_bytes (h1\<lparr>sh_events := e0 @ es\<rparr>) = in_bytes h1"
    and "out_bytes (h1\<lparr>sh_events := e0 @ es\<rparr>) = out_bytes h1"
proof -
  note q = quiet_totals [OF assms(2)]
  show "in_bytes (h1\<lparr>sh_events := e0 @ es\<rparr>) = in_bytes h1" by (simp add: in_bytes_def)
  show "out_bytes (h1\<lparr>sh_events := e0 @ es\<rparr>) = out_bytes h1" using q assms(1) by (simp add: out_bytes_def)
  have "send_credit (h1\<lparr>sh_events := e0 @ es\<rparr>) = send_credit h1"
    "recv_credit (h1\<lparr>sh_events := e0 @ es\<rparr>) = recv_credit h1"
    using q assms(1) by (simp_all add: send_credit_def recv_credit_def)
  moreover have "link_ok (h1\<lparr>sh_events := e0 @ es\<rparr>) = link_ok h1"
    using q assms(1) by (auto simp: link_ok_def stream_inv_def buf_len_def)
  ultimately show "conserves h (h1\<lparr>sh_events := e0 @ es\<rparr>) = conserves h h1"
    by (simp add: conserves_def)
qed

lemma send_close_alive:
  "\<not> sh_session_gone h \<Longrightarrow> send_close h = (Inr (), h\<lparr>sh_state := flagged_state (sh_state h),
     sh_events := sh_events h @ [EvFrame (new_window_update (flags_add (flags_of_state (sh_state h)) Fin) (sh_id h) 0)]\<rparr>)"
  by (simp add: send_close_def get_flags_eq Let_def unbound_send_frame_def unbound_send_event_alive)

definition close_state :: "stream_state \<Rightarrow> stream_state" where
  "close_state st = (if st \<in> {Init, SynSent, SynReceived, Established} then LocalClosing else Closed)"

definition close_events :: "stream_state \<Rightarrow> u32 \<Rightarrow> stream_event list" where
  "close_events st i =
     (if st \<in> {Init, SynSent, SynReceived, Established, RemoteClosing}
      then [EvFrame (new_window_update (flags_add flags_default Fin) i 0)] else []) @
     (if st \<in> {Init, SynSent, SynReceived, Established} then [] else [EvClosed i])"

lemma close_alive:
  assumes "\<not> sh_session_gone h"
  shows "close h = (Inr (), h\<lparr>sh_state := close_state (sh_state h),
    sh_events := sh_events h @ close_events (sh_state h) (sh_id h)\<rparr>)"
  using assms
  by (cases "sh_state h")
    (simp_all add: close_def send_close_alive unbound_send_event_alive then_op_def
      flagged_state_def flags_of_state_def Let_def close_state_def close_events_def)

lemma quiet_close_events: "quiet (close_events st i)"
  by (simp add: quiet_def close_events_def)

lemma room_same_close: "room_same h (h\<lparr>sh_state := close_state (sh_state h), sh_events := es\<rparr>)"
  by (cases "sh_state h") (simp_all add: room_same_def buf_len_def close_state_def)

lemma close_conserves:
  assumes "link_ok h"
  obtains h' where "close h = (Inr (), h')" and "conserves h h'"
    and "in_bytes h' = in_bytes h" and "out_bytes h' = out_bytes h" and "keeps_grant h h'"
proof -
  let ?h' = "h\<lparr>sh_state := close_state (sh_state h),
    sh_events := sh_events h @ close_events (sh_state h) (sh_id h)\<rparr>"
  from assms have alive: "\<not> sh_session_gone h" by (simp add: link_ok_def)
  have c: "conserves h ?h'" by (simp add: conserves_quiet conserves_refl quiet_close_events assms)
  show thesis
  proof (rule that)
    show "close h = (Inr (), ?h')" using alive by (rule close_alive)
    show "keeps_grant h ?h'" using c room_same_close by (rule keeps_grant_room_same)
  qed (simp_all add: c conserves_quiet quiet_close_events)
qed

lemma poll_shutdown_conserves:
  assumes "link_ok h" and "poll_shutdown h = (p, h')"
  shows "p = Ready (Inr ()) \<and> conserves h h' \<and> in_bytes h' = in_bytes h \<and> out_bytes h' = out_bytes h \<and>
    keeps_grant h h'"
proof -
  from close_conserves [OF assms(1)] obtain h1 where "close h = (Inr (), h1)" "conserves h h1"
    "in_bytes h1 = in_bytes h" "out_bytes h1 = out_bytes h" "keeps_grant h h1" .
  with assms(2) show ?thesis by (simp add: poll_shutdown_def)
qed

section \<open>Opening a stream\<close>

text \<open>The handle as the session hands it out: created, with its first window update pushed.\<close>

definition stream_open :: "u32 \<Rightarrow> stream_state \<Rightarrow> u32 \<Rightarrow> stream_handle" where
  "stream_open i st m = snd (send_window_update (stream_new i st m))"

lemma flags_of_state_new: "st = Init \<or> st = SynReceived \<Longrightarrow> flags_value (flags_of_state st) \<noteq> 0"
  by (auto simp: flags_of_state_def flags_from_def flags_value_def)

lemma stream_open_eq:
  assumes "st = Init \<or> st = SynReceived" and "INITIAL_STREAM_WINDOW \<le> m"
  shows "stream_open i st m = (stream_new i (flagged_state st) m)
    \<lparr>sh_recv_window := m,
     sh_events := [EvFrame (new_window_update (flags_of_state st) i (m - INITIAL_STREAM_WINDOW))]\<rparr>"
proof -
  have d: "m - of_nat (buf_len (stream_new i st m)) - INITIAL_STREAM_WINDOW = m - INITIAL_STREAM_WINDOW"
    by (simp add: buf_len_def stream_new_def)
  show ?thesis
    using flags_of_state_new [OF assms(1)] d
    by (simp add: stream_open_def send_window_update_def get_flags_eq Let_def unbound_send_event_def
        stream_new_def)
qed

lemma stream_open_granted:
  assumes "st = Init \<or> st = SynReceived" and "INITIAL_STREAM_WINDOW \<le> m"
  shows "granted (stream_open i st m)"
  using assms(2) unfolding stream_open_eq [OF assms]
  by (simp add: granted_def stream_new_def buf_len_def INITIAL_STREAM_WINDOW_def word_le_nat_alt)

lemma unat_initial_window [simp]: "unat INITIAL_STREAM_WINDOW = 262144"
  by (simp add: INITIAL_STREAM_WINDOW_def)

lemma stream_open_link_ok:
  assumes "st = Init \<or> st = SynReceived" and "INITIAL_STREAM_WINDOW \<le> m"
  shows "link_ok (stream_open i st m) \<and> send_credit (stream_open i st m) = 262144 \<and>
    recv_credit (stream_open i st m) = 262144 \<and> in_bytes (stream_open i st m) = [] \<and>
    out_bytes (stream_open i st m) = []"
  using assms(2) unat_sub_u32 [OF assms(2)] unfolding stream_open_eq [OF assms]
  by (auto simp: link_defs stream_new_def word_le_nat_alt)

end
