(* ===== verification/Yamux_Stream_Protocol.thy ===== *)
theory Yamux_Stream_Protocol
  imports Yamux_Stream
begin

text \<open>
  The protocol a substream follows, for \<^verbatim>\<open>yamux/src/stream.rs\<close>: an abstract machine over the stream
  state and the frames still to be received, whose steps are labelled with the events they push. Every
  operation of the handle refines a run of this machine, whatever frames the peer sends and whether or
  not the session is still there. The order of the control flags and of data and \<open>Fin\<close> is proved on
  the machine and holds of the handle by refinement.
\<close>

section \<open>The machine\<close>

abbreviation writing :: "stream_state \<Rightarrow> bool" where
  "writing st \<equiv> st \<notin> {LocalClosing, Closed, Reset}"

text \<open>The state after a frame was taken from the channel.\<close>

definition frame_state :: "frame \<Rightarrow> stream_state \<Rightarrow> stream_state" where
  "frame_state f st = (case flags_state (frame_flags f) st of Some st' \<Rightarrow> st' | None \<Rightarrow> st)"

text \<open>What reaches the session: nothing once it is gone.\<close>

definition emit :: "bool \<Rightarrow> stream_event list \<Rightarrow> stream_event list" where
  "emit gone es = (if gone then [] else es)"

definition drop_events :: "stream_state \<Rightarrow> u32 \<Rightarrow> stream_event list" where
  "drop_events st i =
     (if writing st then [EvFrame (new_window_update (flags_add (flags_of_state st) Rst) i 0)] else []) @ [EvClosed i]"

type_synonym proto = "stream_state \<times> frame list"

inductive proto_step :: "bool \<Rightarrow> bool \<Rightarrow> u32 \<Rightarrow> proto \<Rightarrow> stream_event list \<Rightarrow> proto \<Rightarrow> bool"
  for gone ended i where
  p_take: "receiving st \<Longrightarrow> proto_step gone ended i (st, f # fs) [] (frame_state f st, fs)"
| p_bad: "receiving st \<Longrightarrow> frame_ty f \<noteq> Data \<Longrightarrow> frame_ty f \<noteq> WindowUpdate \<Longrightarrow>
    proto_step gone ended i (st, f # fs) [] (st, fs)"
| p_end: "receiving st \<Longrightarrow> ended \<Longrightarrow> proto_step gone ended i (st, fs) [] (RemoteClosing, fs)"
| p_update: "receiving st \<Longrightarrow> proto_step gone ended i (st, fs)
    (emit gone [EvFrame (new_window_update (flags_of_state st) i d)]) (flagged_state st, fs)"
| p_data: "writing st \<Longrightarrow> proto_step gone ended i (st, fs)
    (emit gone [EvFrame (new_data (flags_of_state st) i b)]) (flagged_state st, fs)"
| p_close: "proto_step gone ended i (st, fs) (emit gone (close_events st i)) (close_state st, fs)"
| p_violation: "proto_step gone ended i (st, fs) (emit gone [EvGoAway]) (LocalClosing, fs)"
| p_drop: "\<not> gone \<Longrightarrow> st \<noteq> Closed \<Longrightarrow>
    proto_step gone ended i (st, fs) (drop_events st i) (if writing st then flagged_state st else st, fs)"

inductive proto_run :: "bool \<Rightarrow> bool \<Rightarrow> u32 \<Rightarrow> proto \<Rightarrow> stream_event list \<Rightarrow> proto \<Rightarrow> bool"
  for gone ended i where
  run_refl: "proto_run gone ended i x [] x"
| run_step: "proto_run gone ended i x es y \<Longrightarrow> proto_step gone ended i y es' z \<Longrightarrow>
    proto_run gone ended i x (es @ es') z"

lemma run_one: "proto_step gone ended i x es y \<Longrightarrow> proto_run gone ended i x es y"
  using run_step [OF run_refl] by fastforce

lemma run_trans:
  assumes "proto_run gone ended i y es' z" and "proto_run gone ended i x es y"
  shows "proto_run gone ended i x (es @ es') z"
  using assms by (induction rule: proto_run.induct) (auto simp flip: append_assoc intro: run_step)

section \<open>The handle refines the machine\<close>

definition refines :: "stream_handle \<Rightarrow> stream_handle \<Rightarrow> bool" where
  "refines h h' \<longleftrightarrow>
     (\<exists>es. sh_events h' = sh_events h @ es \<and>
        proto_run (sh_session_gone h) (sh_frames_closed h \<or> sh_terminated h) (sh_id h)
          (sh_state h, sh_frames h) es (sh_state h', sh_frames h')) \<and>
     sh_id h' = sh_id h \<and> sh_session_gone h' = sh_session_gone h \<and>
     sh_frames_closed h' = sh_frames_closed h \<and>
     (sh_frames_closed h' \<or> sh_terminated h') = (sh_frames_closed h \<or> sh_terminated h)"

lemma refines_refl [simp]: "refines h h"
  by (auto simp: refines_def intro: run_refl)

lemma refines_trans [trans]:
  assumes "refines h h1" and "refines h1 h2"
  shows "refines h h2"
proof -
  from assms(1) obtain es where 1: "sh_events h1 = sh_events h @ es"
    "proto_run (sh_session_gone h) (sh_frames_closed h \<or> sh_terminated h) (sh_id h)
       (sh_state h, sh_frames h) es (sh_state h1, sh_frames h1)" by (auto simp: refines_def)
  from assms obtain es' where 2: "sh_events h2 = sh_events h1 @ es'"
    "proto_run (sh_session_gone h) (sh_frames_closed h \<or> sh_terminated h) (sh_id h)
       (sh_state h1, sh_frames h1) es' (sh_state h2, sh_frames h2)" by (auto simp: refines_def)
  from assms 1(1) 2(1) run_trans [OF 2(2) 1(2)] show ?thesis by (auto simp: refines_def)
qed

lemma refines_step:
  assumes "proto_step (sh_session_gone h) (sh_frames_closed h \<or> sh_terminated h) (sh_id h)
      (sh_state h, sh_frames h) es (sh_state h', sh_frames h')"
    and "sh_events h' = sh_events h @ es" and "sh_id h' = sh_id h" "sh_session_gone h' = sh_session_gone h"
    "sh_frames_closed h' = sh_frames_closed h"
    "(sh_frames_closed h \<or> sh_terminated h') = (sh_frames_closed h \<or> sh_terminated h)"
  shows "refines h h'"
  using assms by (auto simp: refines_def intro: run_one)

text \<open>Windows, buffers and wakers are not part of the protocol.\<close>

lemma refines_fields [simp]:
  "refines h (h'\<lparr>sh_recv_window := a\<rparr>) = refines h h'"
  "refines h (h'\<lparr>sh_send_window := a\<rparr>) = refines h h'"
  "refines h (h'\<lparr>sh_read_buf := b\<rparr>) = refines h h'"
  "refines h (h'\<lparr>sh_writeable_wake := w\<rparr>) = refines h h'"
  "refines h (h'\<lparr>sh_readable_wake := w\<rparr>) = refines h h'"
  "refines h (h'\<lparr>sh_woken := ws\<rparr>) = refines h h'"
  "refines (h\<lparr>sh_readable_wake := w\<rparr>) h' = refines h h'"
  "refines (h\<lparr>sh_read_buf := b\<rparr>) h' = refines h h'"
  by (simp_all add: refines_def)

lemma refines_wake [simp]:
  "refines h (wake_reader h') = refines h h'" "refines h (wake_writer h') = refines h h'"
  by (simp_all add: wake_reader_eq wake_writer_eq)

lemma frame_refines:
  assumes "sh_frames h = f # fs" and "receiving (sh_state h)"
    and "stream_handle_frame f (h\<lparr>sh_frames := fs\<rparr>) = (r, h')"
  shows "refines h h'"
proof -
  let ?h1 = "h\<lparr>sh_frames := fs, sh_state := frame_state f (sh_state h)\<rparr>"
  have pf: "process_flags (frame_flags f) (h\<lparr>sh_frames := fs\<rparr>) = (Inr (), ?h1)"
    using flags_state_receiving [OF assms(2), of "frame_flags f"] by (auto simp: process_flags_eq frame_state_def)
  have take: "refines h ?h1"
    using assms(1) p_take [OF assms(2), of _ _ _ f fs] by (auto intro!: refines_step)
  have bad: "refines h (h\<lparr>sh_frames := fs\<rparr>)" if "frame_ty f \<noteq> Data" "frame_ty f \<noteq> WindowUpdate"
    using assms(1) p_bad [OF assms(2) that] by (auto intro!: refines_step)
  show ?thesis
    using assms(3) take bad pf
    by (auto simp: stream_handle_frame_def handle_window_update_def handle_data_def then_op_def Let_def
        split: frame_type.splits option.splits if_splits)
qed

lemma recv_stop_refines:
  assumes "recv_stop h = Some (e, h')"
  shows "refines h h'"
proof -
  have "refines h (h\<lparr>sh_state := RemoteClosing\<rparr>)" if "receiving (sh_state h)" "sh_terminated h"
    using p_end [OF that(1), of True] that(2) by (auto intro!: refines_step)
  with assms show ?thesis
    by (cases "sh_state h") (auto simp: recv_stop_def split: if_splits)
qed

lemma stream_handle_frame_frames: "stream_handle_frame f (h\<lparr>sh_frames := fs\<rparr>) = (r, h') \<Longrightarrow> sh_frames h' = fs"
  by (auto simp: stream_handle_frame_def handle_window_update_def handle_data_def then_op_def process_flags_eq
      wake_writer_eq Let_def split: frame_type.splits option.splits if_splits prod.splits sum.splits)

lemma recv_loop_refines:
  assumes "sh_frames h = fs" and "recv_frames_loop fs b h = (r, h')"
  shows "refines h h'"
  using assms
proof (induction fs arbitrary: b h)
  case Nil
  have "refines h (h\<lparr>sh_terminated := True, sh_state := RemoteClosing\<rparr>)"
    if "receiving (sh_state h)" "sh_frames_closed h"
    using p_end [OF that(1), of True] that(2) by (auto intro!: refines_step)
  note stop = this
  show ?case
  proof (cases "recv_stop h")
    case None
    with Nil stop recv_stop_None [OF None] show ?thesis by (auto split: if_splits)
  next
    case (Some eh)
    with Nil show ?thesis by (cases eh) (auto dest: recv_stop_refines)
  qed
next
  case (Cons f fs)
  show ?case
  proof (cases "recv_stop h")
    case None
    obtain r1 h1 where step: "stream_handle_frame f (h\<lparr>sh_frames := fs\<rparr>) = (r1, h1)" by fastforce
    have ref: "refines h h1" using Cons.prems(1) recv_stop_None [OF None] step by (rule frame_refines)
    show ?thesis
    proof (cases r1)
      case (Inl e)
      with None step Cons.prems ref show ?thesis by simp
    next
      case (Inr u)
      have "sh_frames h1 = fs" using step by (rule stream_handle_frame_frames)
      moreover have "recv_frames_loop fs True h1 = (r, h')" using Inr None step Cons.prems by simp
      ultimately have "refines h1 h'" by (rule Cons.IH)
      with ref show ?thesis by (rule refines_trans)
    qed
  next
    case (Some eh)
    with Cons.prems show ?thesis by (cases eh) (auto dest: recv_stop_refines)
  qed
qed

lemma recv_frames_refines: "recv_frames h = (r, h') \<Longrightarrow> refines h h'"
  unfolding recv_frames_def by (rule recv_loop_refines [OF refl])

lemma recv_frames_wake_refines: "recv_frames_wake h = (r, h') \<Longrightarrow> refines h h'"
  by (auto simp: recv_frames_wake_def try_recv_frames_eq Let_def dest!: recv_frames_refines
      split: prod.splits sum.splits if_splits)

lemma unbound_send_event_snd:
  "snd (unbound_send_event ev h) = h\<lparr>sh_events := sh_events h @ emit (sh_session_gone h) [ev]\<rparr>"
  by (simp add: unbound_send_event_def emit_def)

lemma flags_zero_state: "flags_value (flags_of_state st) = 0 \<Longrightarrow> flagged_state st = st"
  by (cases st) (auto simp: flags_of_state_def flagged_state_def flags_from_def flags_value_def)

lemma go_away_refines: "refines h (stream_send_go_away h)"
  by (rule refines_step [where es = "emit (sh_session_gone h) [EvGoAway]"])
    (simp_all add: stream_send_go_away_def unbound_send_event_snd p_violation)

lemma update_refines:
  assumes "receiving (sh_state h)" and "send_window_update h = (r, h')"
  shows "refines h h'"
proof -
  let ?d = "sh_max_recv_window h - of_nat (buf_len h) - sh_recv_window h"
  let ?ev = "EvFrame (new_window_update (flags_of_state (sh_state h)) (sh_id h) ?d)"
  let ?h1 = "h\<lparr>sh_state := flagged_state (sh_state h)\<rparr>"
  have "h' = ?h1 \<and> flagged_state (sh_state h) = sh_state h \<or>
     h' = snd (unbound_send_event ?ev (?h1\<lparr>sh_recv_window := sh_recv_window h + ?d\<rparr>))"
    using assms(2) flags_zero_state [of "sh_state h"]
    by (auto simp: send_window_update_def get_flags_eq Let_def split: if_splits)
  then show ?thesis
  proof
    assume "h' = ?h1 \<and> flagged_state (sh_state h) = sh_state h"
    then show ?thesis by simp
  next
    assume h': "h' = snd (unbound_send_event ?ev (?h1\<lparr>sh_recv_window := sh_recv_window h + ?d\<rparr>))"
    show ?thesis
      by (rule refines_step [where es = "emit (sh_session_gone h) [?ev]"])
        (simp_all add: h' unbound_send_event_snd p_update assms(1))
  qed
qed

lemma send_data_refines:
  assumes "writing (sh_state h)" and "send_data b h = (r, h')"
  shows "refines h h'"
proof -
  let ?ev = "EvFrame (new_data (flags_of_state (sh_state h)) (sh_id h) b)"
  have h': "h' = snd (unbound_send_event ?ev (h\<lparr>sh_state := flagged_state (sh_state h)\<rparr>))"
    using assms(2) by (auto simp: send_data_def get_flags_eq unbound_send_frame_def Let_def)
  show ?thesis
    by (rule refines_step [where es = "emit (sh_session_gone h) [?ev]"])
      (use assms(1) in \<open>simp_all add: h' unbound_send_event_snd p_data\<close>)
qed

lemma close_snd:
  "snd (close h) = h\<lparr>sh_state := close_state (sh_state h),
     sh_events := sh_events h @ emit (sh_session_gone h) (close_events (sh_state h) (sh_id h))\<rparr>"
proof (cases "sh_session_gone h")
  case True
  then show ?thesis
    by (cases "sh_state h")
      (simp_all add: close_def send_close_def get_flags_def unbound_send_frame_def unbound_send_event_def
        then_op_def Let_def emit_def close_state_def)
next
  case False
  then show ?thesis by (simp add: close_alive emit_def)
qed

lemma close_refines: "close h = (r, h') \<Longrightarrow> refines h h'"
proof -
  assume "close h = (r, h')"
  then have h': "h' = snd (close h)" by simp
  show ?thesis
    by (rule refines_step [where es = "emit (sh_session_gone h) (close_events (sh_state h) (sh_id h))"])
      (simp_all add: h' close_snd p_close)
qed

lemma read_ready_refines: "read_ready w h = (r, h') \<Longrightarrow> refines h h'"
  using recv_frames_refines [of "h\<lparr>sh_readable_wake := Some w\<rparr>"] go_away_refines
  by (auto simp: read_ready_def intro: refines_trans
      split: sum.splits bool.splits prod.splits if_splits)

lemma poll_peek_refines: "poll_peek w cap h = (p, h') \<Longrightarrow> refines h h'"
  by (auto simp: poll_peek_def dest: read_ready_refines
      split: prod.splits option.splits poll.splits sum.splits)

lemma poll_read_refines:
  assumes "poll_read w cap h = (p, h')"
  shows "refines h h'"
proof -
  obtain r h1 where rr: "read_ready w h = (r, h1)" by fastforce
  then have ref: "refines h h1" by (rule read_ready_refines)
  show ?thesis
  proof (cases r)
    case (Some q)
    with assms rr ref show ?thesis by (auto simp: poll_read_def split: poll.splits sum.splits)
  next
    case None
    obtain out bs off where loop: "read_loop cap 0 None (sh_read_buf h1) = (out, bs, off)"
      by (cases "read_loop cap 0 None (sh_read_buf h1)")
    let ?h2 = "h1\<lparr>sh_read_buf := drain_to off bs\<rparr>"
    obtain r3 h3 where up: "send_window_update ?h2 = (r3, h3)" by fastforce
    have "h' = ?h2 \<or> receiving (sh_state h1) \<and> h' = h3"
      using assms None rr loop up
      by (cases "sh_state h1") (auto simp: poll_read_def Let_def split: sum.splits)
    moreover have "refines h1 h3" if "receiving (sh_state h1)"
      using update_refines [OF _ up] that by simp
    ultimately show ?thesis using ref by (auto intro: refines_trans)
  qed
qed

lemma poll_write_refines:
  assumes "poll_write w buf h = (p, h')"
  shows "refines h h'"
proof -
  obtain r h1 where rw: "recv_frames_wake h = (r, h1)" by fastforce
  let ?h2 = "if protocol_violation r then stream_send_go_away h1 else h1"
  have ref: "refines h ?h2"
    using recv_frames_wake_refines [OF rw] go_away_refines [of h1] by (auto intro: refines_trans)
  let ?n = "min (unat (sh_send_window ?h2)) (length buf)"
  obtain r3 h3 where sd: "send_data (take ?n buf) ?h2 = (r3, h3)" by fastforce
  have "refines ?h2 h3" if "writing (sh_state ?h2)"
    using that sd by (rule send_data_refines)
  with ref have "refines h h3" if "writing (sh_state ?h2)"
    using that by (blast intro: refines_trans)
  moreover have "refines ?h2 h' \<or> writing (sh_state ?h2) \<and> (\<exists>sw. h' = h3 \<or> h' = h3\<lparr>sh_send_window := sw\<rparr>)"
    using assms rw sd
    by (cases "sh_state ?h2")
      (auto simp: poll_write_def Let_def split: if_splits sum.splits yamux_error.splits)
  ultimately show ?thesis using ref by (auto intro: refines_trans)
qed

lemma poll_shutdown_refines: "poll_shutdown h = (p, h') \<Longrightarrow> refines h h'"
  by (auto simp: poll_shutdown_def dest: close_refines split: prod.splits sum.splits)

lemma stream_drop_eq:
  assumes "\<not> sh_session_gone h" and "sh_state h \<noteq> Closed"
  shows "stream_drop h = h\<lparr>sh_state := if writing (sh_state h) then flagged_state (sh_state h) else sh_state h,
    sh_events := sh_events h @ drop_events (sh_state h) (sh_id h)\<rparr>"
  using assms
  by (cases "sh_state h")
    (simp_all add: stream_drop_def get_flags_eq unbound_send_event_snd emit_def drop_events_def Let_def)

lemma stream_drop_refines: "refines h (stream_drop h)"
proof (cases "\<not> sh_session_gone h \<and> sh_state h \<noteq> Closed")
  case True
  then have eq: "stream_drop h = h\<lparr>sh_state := if writing (sh_state h) then flagged_state (sh_state h) else sh_state h,
    sh_events := sh_events h @ drop_events (sh_state h) (sh_id h)\<rparr>" by (simp add: stream_drop_eq)
  show ?thesis
    by (rule refines_step [where es = "drop_events (sh_state h) (sh_id h)"])
      (use True p_drop [of "sh_session_gone h" "sh_state h"] in \<open>simp_all add: eq\<close>)
qed (auto simp: stream_drop_def)

section \<open>The operations of the application\<close>

inductive api_step :: "stream_handle \<Rightarrow> stream_handle \<Rightarrow> bool" where
  api_read: "poll_read w cap h = (p, h') \<Longrightarrow> api_step h h'"
| api_peek: "poll_peek w cap h = (p, h') \<Longrightarrow> api_step h h'"
| api_write: "poll_write w buf h = (q, h') \<Longrightarrow> api_step h h'"
| api_flush: "poll_flush h = (s, h') \<Longrightarrow> api_step h h'"
| api_shutdown: "poll_shutdown h = (s, h') \<Longrightarrow> api_step h h'"
| api_drop: "api_step h (stream_drop h)"

lemma api_step_refines: "api_step h h' \<Longrightarrow> refines h h'"
  by (induction rule: api_step.induct)
    (auto simp: poll_flush_def dest: poll_read_refines poll_peek_refines poll_write_refines poll_shutdown_refines
      intro: stream_drop_refines)

text \<open>
  The states of a handle whose session and peer do anything: deliver frames with consistent lengths,
  close the frame channel, or go away. No event is taken off \<open>sh_events\<close>, which is thus the history of
  all the handle ever pushed.
\<close>

inductive handle_reach :: "u32 \<Rightarrow> stream_state \<Rightarrow> u32 \<Rightarrow> stream_handle \<Rightarrow> bool" for i st m where
  reach_open: "st = Init \<or> st = SynReceived \<Longrightarrow> INITIAL_STREAM_WINDOW \<le> m \<Longrightarrow> handle_reach i st m (stream_open i st m)"
| reach_api: "handle_reach i st m h \<Longrightarrow> api_step h h' \<Longrightarrow> handle_reach i st m h'"
| reach_frame: "handle_reach i st m h \<Longrightarrow> stream_frame f \<Longrightarrow>
    handle_reach i st m (h\<lparr>sh_frames := sh_frames h @ [f]\<rparr>)"
| reach_end: "handle_reach i st m h \<Longrightarrow> handle_reach i st m (h\<lparr>sh_frames_closed := True\<rparr>)"
| reach_gone: "handle_reach i st m h \<Longrightarrow> handle_reach i st m (h\<lparr>sh_session_gone := True\<rparr>)"

section \<open>The order of flags, data and \<open>Fin\<close>\<close>

definition has_flag :: "flag \<Rightarrow> frame \<Rightarrow> bool" where
  "has_flag fl f = flags_contains (frame_flags f) fl"

text \<open>After a \<open>Fin\<close>, neither data nor another \<open>Fin\<close>.\<close>

fun fin_ordered :: "frame list \<Rightarrow> bool" where
  "fin_ordered [] = True"
| "fin_ordered (f # fs) =
     ((has_flag Fin f \<longrightarrow> (\<forall>g \<in> set fs. frame_ty g \<noteq> Data \<and> \<not> has_flag Fin g)) \<and> fin_ordered fs)"

definition opened_ok :: "stream_state \<Rightarrow> frame list \<Rightarrow> bool" where
  "opened_ok st fs \<longleftrightarrow> st \<noteq> Init \<and> st \<noteq> SynReceived \<and> fs \<noteq> [] \<and>
     (\<forall>f \<in> set (tl fs). \<not> has_flag Syn f \<and> \<not> has_flag Ack f)"

definition fin_ok :: "stream_state \<Rightarrow> frame list \<Rightarrow> bool" where
  "fin_ok st fs \<longleftrightarrow> fin_ordered fs \<and> (writing st \<longrightarrow> (\<forall>f \<in> set fs. \<not> has_flag Fin f))"

lemma fin_ordered_append:
  "fin_ordered (xs @ ys) \<longleftrightarrow> fin_ordered xs \<and> fin_ordered ys \<and>
     ((\<exists>f \<in> set xs. has_flag Fin f) \<longrightarrow> (\<forall>g \<in> set ys. frame_ty g \<noteq> Data \<and> \<not> has_flag Fin g))"
  by (induction xs) auto

lemma has_flag_new [simp]:
  "has_flag fl (new_window_update fs i d) = flags_contains fs fl"
  "has_flag fl (new_data fs i b) = flags_contains fs fl"
  by (simp_all add: has_flag_def frame_defs)

lemma frame_ty_new [simp]:
  "frame_ty (new_window_update fl i d) = WindowUpdate" "frame_ty (new_data fl i b) = Data"
  by (simp_all add: frame_defs)

lemma flags_contains_simps [simp]:
  "flags_contains flags_default fl = False"
  "flags_contains (flags_add flags_default fl') fl = (fl = fl')"
  by (cases fl; cases fl'; simp add: flags_contains_def flags_default_def flags_add_def Let_def)+

lemma flagged_ok: "st \<noteq> Init \<Longrightarrow> st \<noteq> SynReceived \<Longrightarrow> flags_of_state st = flags_default \<and> flagged_state st = st"
  by (cases st) (simp_all add: flags_of_state_def flagged_state_def)

lemma frame_state_ok:
  "st \<noteq> Init \<Longrightarrow> st \<noteq> SynReceived \<Longrightarrow> frame_state f st \<noteq> Init \<and> frame_state f st \<noteq> SynReceived"
  "\<not> writing st \<Longrightarrow> \<not> writing (frame_state f st)"
  by (auto simp: frame_state_def flags_state_def Let_def split: option.splits if_splits)

lemma event_frames_events [simp]:
  "event_frames (close_events st i) =
     (if writing st then [new_window_update (flags_add flags_default Fin) i 0] else [])"
  "event_frames (drop_events st i) =
     (if writing st then [new_window_update (flags_add (flags_of_state st) Rst) i 0] else [])"
  by (cases st; simp add: close_events_def drop_events_def)+

lemma event_frames_emit [simp]: "event_frames (emit gone es) = (if gone then [] else event_frames es)"
  by (simp add: emit_def)

lemma close_state_stops: "\<not> writing (close_state st) \<and> close_state st \<noteq> Init \<and> close_state st \<noteq> SynReceived"
  by (simp add: close_state_def)

lemma proto_step_opened:
  assumes "proto_step gone ended i (st, fs) es (st', fs')" and ok: "opened_ok st H"
  shows "opened_ok st' (H @ event_frames es)"
proof -
  from ok have st: "st \<noteq> Init" "st \<noteq> SynReceived" by (simp_all add: opened_ok_def)
  note fl = flagged_ok [OF st]
  have "st' \<noteq> Init \<and> st' \<noteq> SynReceived"
    using assms(1) st fl frame_state_ok(1) [OF st] close_state_stops [of st]
    by cases (auto split: if_splits)
  moreover have "\<forall>f \<in> set (event_frames es). \<not> has_flag Syn f \<and> \<not> has_flag Ack f"
    using assms(1) fl by cases (auto split: if_splits)
  ultimately show ?thesis using ok by (auto simp: opened_ok_def)
qed

lemma proto_step_fin:
  assumes step: "proto_step gone False i (st, fs) es (st', fs')" and ok: "fin_ok st H" and st: "opened_ok st H"
  shows "fin_ok st' (H @ event_frames es)"
proof -
  from st have fl: "flags_of_state st = flags_default \<and> flagged_state st = st"
    by (simp add: opened_ok_def flagged_ok)
  have "\<forall>f \<in> set (event_frames es). frame_ty f \<noteq> Data \<and> \<not> has_flag Fin f" if "\<not> writing st"
    using step that fl by cases auto
  moreover have "fin_ordered (event_frames es)"
    using step by cases auto
  moreover have "writing st \<and> (\<forall>f \<in> set (event_frames es). \<not> has_flag Fin f)" if "writing st'"
    using step that fl frame_state_ok(2) [of st] close_state_stops [of st]
    by cases (auto split: if_splits)
  ultimately show ?thesis
    using ok by (cases "writing st") (auto simp: fin_ok_def fin_ordered_append)
qed

lemma proto_run_ok:
  assumes "proto_run gone ended i x es y" and "opened_ok (fst x) H"
  shows "opened_ok (fst y) (H @ event_frames es) \<and>
    (\<not> ended \<longrightarrow> fin_ok (fst x) H \<longrightarrow> fin_ok (fst y) (H @ event_frames es))"
  using assms
proof (induction rule: proto_run.induct)
  case (run_step x es y es' z)
  then show ?case
    using proto_step_opened [of gone ended i "fst y" "snd y" es' "fst z" "snd z" "H @ event_frames es"]
      proto_step_fin [of gone i "fst y" "snd y" es' "fst z" "snd z" "H @ event_frames es"] by auto
qed simp

lemma refines_ok:
  assumes "refines h h'" and "opened_ok (sh_state h) (out_frames h)"
  shows "opened_ok (sh_state h') (out_frames h') \<and>
    (\<not> (sh_frames_closed h \<or> sh_terminated h) \<longrightarrow> fin_ok (sh_state h) (out_frames h) \<longrightarrow>
       fin_ok (sh_state h') (out_frames h'))"
  using assms proto_run_ok [of _ "sh_frames_closed h \<or> sh_terminated h" _ "(sh_state h, sh_frames h)" _ "(sh_state h', sh_frames h')" "out_frames h"]
  by (fastforce simp: refines_def)

lemma handle_reach_ok:
  assumes "handle_reach i st m h"
  shows "opened_ok (sh_state h) (out_frames h) \<and> (sh_terminated h \<longrightarrow> sh_frames_closed h) \<and>
    (\<not> sh_frames_closed h \<longrightarrow> fin_ok (sh_state h) (out_frames h)) \<and>
    (\<exists>fs. out_frames h = new_window_update (flags_of_state st) i (m - INITIAL_STREAM_WINDOW) # fs)"
  using assms
proof (induction rule: handle_reach.induct)
  case reach_open
  then show ?case
    unfolding stream_open_eq [OF reach_open]
    by (auto simp: stream_new_def opened_ok_def fin_ok_def flagged_state_def flags_of_state_def
        flags_contains_def flags_from_def)
next
  case (reach_api h h')
  then have ref: "refines h h'" by (simp add: api_step_refines)
  then obtain es where "sh_events h' = sh_events h @ es" by (auto simp: refines_def)
  with reach_api refines_ok [OF ref] ref show ?case by (auto simp: refines_def)
qed auto

end
