(* ===== verification/Yamux_Stream_Safety.thy ===== *)
theory Yamux_Stream_Safety
  imports Yamux_Stream_Protocol
begin

text \<open>
  What a substream (\<^verbatim>\<open>yamux/src/stream.rs\<close>) guarantees against any peer.  The locale
  \<open>handle_invariant\<close> states what a predicate on handles needs so that every operation of the
  application keeps it; the memory bound and the wakeup of a blocked writer are two instances.  The
  order of the flags follows from the protocol machine.
\<close>

section \<open>Predicates kept by every operation\<close>

locale handle_invariant =
  fixes P :: "stream_handle \<Rightarrow> bool"
  assumes inv_plain:
      "P (h\<lparr>sh_state := st\<rparr>) = P h" "P (h\<lparr>sh_terminated := t\<rparr>) = P h"
      "P (h\<lparr>sh_readable_wake := w\<rparr>) = P h" "P (h\<lparr>sh_woken := ws\<rparr>) = P h" "P (h\<lparr>sh_events := es\<rparr>) = P h"
    and inv_frame: "P h \<Longrightarrow> sh_frames h = f # fs \<Longrightarrow> stream_handle_frame f (h\<lparr>sh_frames := fs\<rparr>) = (r, h') \<Longrightarrow> P h'"
    and inv_drain: "read_loop n 0 None (sh_read_buf h) = (out, bs, off) \<Longrightarrow> P h \<Longrightarrow>
      P (h\<lparr>sh_read_buf := drain_to off bs\<rparr>)"
    and inv_grant: "P h \<Longrightarrow>
      P (h\<lparr>sh_recv_window := sh_recv_window h + (sh_max_recv_window h - of_nat (buf_len h) - sh_recv_window h)\<rparr>)"
    and inv_spend: "P h \<Longrightarrow> sh_send_window h \<noteq> 0 \<Longrightarrow> P (h\<lparr>sh_send_window := sw\<rparr>)"
    and inv_park: "P h \<Longrightarrow> sh_send_window h = 0 \<Longrightarrow> P (h\<lparr>sh_writeable_wake := Some w1\<rparr>)"
begin

lemma inv_event: "P (snd (unbound_send_event ev h)) = P h"
  by (simp add: unbound_send_event_snd inv_plain)

lemma inv_go_away: "P (stream_send_go_away h) = P h"
  by (simp add: stream_send_go_away_def inv_event inv_plain)

lemma inv_stop: "recv_stop h = Some (e, h') \<Longrightarrow> P h' = P h"
  by (cases "sh_state h") (auto simp: recv_stop_def inv_plain split: if_splits)

lemma inv_recv_loop:
  assumes "P h" and "sh_frames h = fs" and "recv_frames_loop fs b h = (r, h')"
  shows "P h'"
  using assms
proof (induction fs arbitrary: b h)
  case Nil
  then show ?case
    by (cases "recv_stop h") (auto simp: inv_plain inv_stop split: if_splits)
next
  case (Cons f fs)
  show ?case
  proof (cases "recv_stop h")
    case None
    obtain r1 h1 where step: "stream_handle_frame f (h\<lparr>sh_frames := fs\<rparr>) = (r1, h1)" by fastforce
    then have "P h1" using Cons.prems(1,2) by (blast intro: inv_frame)
    moreover have "sh_frames h1 = fs" using step by (rule stream_handle_frame_frames)
    ultimately show ?thesis using Cons.IH [of h1 True] Cons.prems(3) None step by (cases r1) simp_all
  next
    case (Some eh)
    with Cons.prems show ?thesis by (cases eh) (auto simp: inv_stop)
  qed
qed

lemma inv_recv: "P h \<Longrightarrow> recv_frames h = (r, h') \<Longrightarrow> P h'"
  unfolding recv_frames_def by (rule inv_recv_loop [OF _ refl])

lemma inv_recv_wake: "P h \<Longrightarrow> recv_frames_wake h = (r, h') \<Longrightarrow> P h'"
  by (auto simp: recv_frames_wake_def try_recv_frames_eq wake_reader_eq inv_plain Let_def
      dest: inv_recv split: prod.splits sum.splits if_splits)

lemma inv_read_ready: "P h \<Longrightarrow> read_ready w h = (r, h') \<Longrightarrow> P h'"
  using inv_recv [of "h\<lparr>sh_readable_wake := Some w\<rparr>"]
  by (auto simp: read_ready_def inv_plain inv_go_away split: sum.splits bool.splits prod.splits if_splits)

lemma inv_update:
  assumes "P h" and "send_window_update h = (r, h')"
  shows "P h'"
proof -
  let ?h1 = "h\<lparr>sh_state := flagged_state (sh_state h)\<rparr>"
  let ?d = "sh_max_recv_window h - of_nat (buf_len h) - sh_recv_window h"
  let ?ev = "EvFrame (new_window_update (flags_of_state (sh_state h)) (sh_id h) ?d)"
  have "P ?h1" using assms(1) by (simp add: inv_plain)
  moreover have "P (?h1\<lparr>sh_recv_window := sh_recv_window h + ?d\<rparr>)"
    using inv_grant [OF \<open>P ?h1\<close>] by (simp add: buf_len_def)
  moreover have "h' = ?h1 \<or> h' = snd (unbound_send_event ?ev (?h1\<lparr>sh_recv_window := sh_recv_window h + ?d\<rparr>))"
    using assms(2) by (auto simp: send_window_update_def get_flags_eq Let_def split: if_splits)
  ultimately show ?thesis by (auto simp: inv_event)
qed

lemma inv_poll_read:
  assumes "P h" and "poll_read w cap h = (p, h')"
  shows "P h'"
proof -
  obtain r h1 where rr: "read_ready w h = (r, h1)" by fastforce
  with assms(1) have P1: "P h1" by (rule inv_read_ready)
  show ?thesis
  proof (cases r)
    case (Some q)
    with assms rr P1 show ?thesis by (auto simp: poll_read_def split: poll.splits sum.splits)
  next
    case None
    obtain out bs off where loop: "read_loop cap 0 None (sh_read_buf h1) = (out, bs, off)"
      by (cases "read_loop cap 0 None (sh_read_buf h1)")
    let ?h2 = "h1\<lparr>sh_read_buf := drain_to off bs\<rparr>"
    have "P ?h2" using loop P1 by (rule inv_drain)
    moreover obtain r3 h3 where up: "send_window_update ?h2 = (r3, h3)" by fastforce
    moreover from this have "P h3" using \<open>P ?h2\<close> inv_update by blast
    moreover have "h' = ?h2 \<or> h' = h3"
      using assms None rr loop up
      by (cases "sh_state h1") (auto simp: poll_read_def Let_def split: sum.splits)
    ultimately show ?thesis by auto
  qed
qed

lemma inv_send_data:
  assumes "P h" and "send_data b h = (r, h')"
  shows "P h' \<and> sh_send_window h' = sh_send_window h"
  using assms by (auto simp: send_data_def get_flags_eq unbound_send_frame_def unbound_send_event_def
      inv_plain Let_def split: if_splits)

lemma inv_poll_write:
  assumes "P h" and "poll_write w buf h = (p, h')"
  shows "P h'"
proof -
  obtain r h1 where rw: "recv_frames_wake h = (r, h1)" by fastforce
  let ?h2 = "if protocol_violation r then stream_send_go_away h1 else h1"
  have P2: "P ?h2" using inv_recv_wake [OF assms(1) rw] by (simp add: inv_go_away)
  let ?n = "min (unat (sh_send_window ?h2)) (length buf)"
  obtain r3 h3 where sd: "send_data (take ?n buf) ?h2 = (r3, h3)" by fastforce
  have P3: "P h3 \<and> sh_send_window h3 = sh_send_window ?h2" using P2 sd by (rule inv_send_data)
  have "h' = ?h2 \<or> sh_send_window ?h2 = 0 \<and> h' = ?h2\<lparr>sh_writeable_wake := Some w\<rparr> \<or>
     sh_send_window ?h2 \<noteq> 0 \<and> (h' = h3 \<or> h' = h3\<lparr>sh_send_window := sh_send_window h3 - of_nat ?n\<rparr>)"
    using assms(2) rw sd
    by (cases "sh_state ?h2")
      (auto simp: poll_write_def Let_def split: if_splits sum.splits yamux_error.splits)
  then show ?thesis
    using P2 P3 inv_park [OF P2] inv_spend [of h3] by (elim disjE conjE) auto
qed

lemma inv_api_step: "api_step h h' \<Longrightarrow> P h \<Longrightarrow> P h'"
proof (induction rule: api_step.induct)
  case (api_peek w cap h p h')
  then show ?case
    by (auto simp: poll_peek_def dest: inv_read_ready split: prod.splits option.splits poll.splits sum.splits)
next
  case (api_shutdown h s h')
  then have "h' = snd (close h)" by (auto simp: poll_shutdown_def split: prod.splits sum.splits)
  with api_shutdown show ?case by (simp add: close_snd inv_plain)
next
  case (api_drop h)
  then show ?case
    by (simp add: stream_drop_def get_flags_eq inv_event inv_plain Let_def)
qed (auto simp: poll_flush_def dest: inv_poll_read inv_poll_write)

end

section \<open>Two instances\<close>

text \<open>The receive buffer and the granted window fit into the maximal window.\<close>

definition memory_ok :: "u32 \<Rightarrow> stream_handle \<Rightarrow> bool" where
  "memory_ok m h \<longleftrightarrow> stream_inv h \<and> sh_max_recv_window h = m \<and> (\<forall>f \<in> set (sh_frames h). stream_frame f)"

text \<open>A writer waits only while it has no window.\<close>

definition writer_ok :: "stream_handle \<Rightarrow> bool" where
  "writer_ok h \<longleftrightarrow> (sh_writeable_wake h \<noteq> None \<longrightarrow> sh_send_window h = 0)"

lemma memory_ok_frame:
  assumes "memory_ok m h" and "sh_frames h = f # fs"
    and "stream_handle_frame f (h\<lparr>sh_frames := fs\<rparr>) = (r, h')"
  shows "memory_ok m h'"
proof (cases "frame_ty f = Data \<and> frame_length f \<le> sh_recv_window h")
  case True
  then have sub: "unat (sh_recv_window h - frame_length f) = unat (sh_recv_window h) - unat (frame_length f)"
    "unat (frame_length f) \<le> unat (sh_recv_window h)"
    by (simp_all add: arith_simps word_le_nat_alt)
  moreover have "stream_frame f" using assms(1,2) by (simp add: memory_ok_def)
  with True obtain b where "f_body f = Some b" "length b = unat (frame_length f)"
    by (auto simp: stream_frame_def split: option.splits)
  ultimately show ?thesis using True assms
    by (auto simp: memory_ok_def stream_inv_def stream_handle_frame_def handle_data_def then_op_def
        process_flags_eq buf_len_def Let_def word_less_nat_alt
        split: option.splits if_splits)
next
  case False
  with assms show ?thesis
    by (auto simp: memory_ok_def stream_inv_def stream_handle_frame_def handle_data_def
        handle_window_update_def then_op_def process_flags_eq wake_writer_eq buf_len_def Let_def
        split: option.splits if_splits frame_type.splits)
qed

lemma memory_ok_grant:
  assumes "memory_ok m h"
  shows "memory_ok m (h\<lparr>sh_recv_window := sh_recv_window h +
    (sh_max_recv_window h - of_nat (buf_len h) - sh_recv_window h)\<rparr>)"
proof -
  let ?d = "sh_max_recv_window h - of_nat (buf_len h) - sh_recv_window h"
  have inv: "stream_inv h" using assms by (simp add: memory_ok_def)
  then have le: "buf_len h + unat (sh_recv_window h) \<le> unat (sh_max_recv_window h)" by (simp add: stream_inv_def)
  have d: "unat ?d = unat (sh_max_recv_window h) - buf_len h - unat (sh_recv_window h)"
    using inv by (rule window_delta_exact)
  have "unat (sh_recv_window h) + unat ?d < 2 ^ 32"
    using d le u32_bound [of "sh_max_recv_window h"] by linarith
  then have "unat (sh_recv_window h + ?d) = unat (sh_recv_window h) + unat ?d" by (rule unat_add_u32)
  with d le assms show ?thesis by (simp add: memory_ok_def stream_inv_def buf_len_def)
qed

lemma memory_ok_drain:
  assumes "read_loop n 0 None (sh_read_buf h) = (out, bs, off)" and "memory_ok m h"
  shows "memory_ok m (h\<lparr>sh_read_buf := drain_to off bs\<rparr>)"
proof -
  have ne: "[] \<notin> set (sh_read_buf h)" using assms(2) by (simp add: memory_ok_def stream_inv_def)
  then have "drain_to off bs = drop_bufs n (sh_read_buf h)"
    using assms(1) by (auto elim: read_loop_drain [of _ n])
  with assms(2) drop_bufs_nonempty [OF ne, of n] show ?thesis
    by (auto simp: memory_ok_def stream_inv_def buf_len_concat concat_drop_bufs)
qed

interpretation memory: handle_invariant "memory_ok m"
  by unfold_locales
    (erule (2) memory_ok_frame | erule (1) memory_ok_drain | erule memory_ok_grant |
      (auto simp: memory_ok_def stream_inv_def buf_len_def)[1])+

interpretation writer: handle_invariant writer_ok
proof unfold_locales
  fix h h' f fs r
  assume "writer_ok h" "stream_handle_frame f (h\<lparr>sh_frames := fs\<rparr>) = (r, h')"
  then show "writer_ok h'"
    by (auto simp: writer_ok_def stream_handle_frame_def handle_data_def handle_window_update_def then_op_def
        process_flags_eq wake_writer_eq Let_def split: option.splits if_splits frame_type.splits)
qed (auto simp: writer_ok_def)

section \<open>Guarantees of a reachable handle\<close>

lemma handle_reach_memory:
  assumes "handle_reach i st m h"
  shows "memory_ok m h"
  using assms
proof (induction rule: handle_reach.induct)
  case reach_open
  from stream_open_link_ok [OF this, of i] show ?case
    unfolding stream_open_eq [OF reach_open] by (simp add: memory_ok_def link_ok_def stream_new_def)
qed (auto simp: memory.inv_api_step, auto simp: memory_ok_def stream_inv_def buf_len_def)

lemma handle_reach_writer:
  assumes "handle_reach i st m h"
  shows "writer_ok h"
  using assms
proof (induction rule: handle_reach.induct)
  case reach_open
  then show ?case unfolding stream_open_eq [OF reach_open] by (simp add: writer_ok_def stream_new_def)
qed (auto simp: writer.inv_api_step, auto simp: writer_ok_def)

text \<open>A run used to instantiate the guarantees: a server-side stream reads five bytes.\<close>

definition sample_data :: frame where
  "sample_data = new_data flags_default 2 [1, 2, 3, 4, 5]"

definition sample_run :: stream_handle where
  "sample_run = (let h = stream_open 2 SynReceived INITIAL_STREAM_WINDOW
     in snd (poll_read 7 3 (h\<lparr>sh_frames := sh_frames h @ [sample_data]\<rparr>)))"

lemma sample_run_reach: "handle_reach 2 SynReceived INITIAL_STREAM_WINDOW sample_run"
proof -
  let ?h = "stream_open 2 SynReceived INITIAL_STREAM_WINDOW"
  let ?g = "?h\<lparr>sh_frames := sh_frames ?h @ [sample_data]\<rparr>"
  have "stream_frame sample_data" by (simp add: sample_data_def)
  then have "handle_reach 2 SynReceived INITIAL_STREAM_WINDOW ?g" by (intro reach_frame reach_open) simp_all
  moreover have "api_step ?g (snd (poll_read 7 3 ?g))" by (rule api_read [of 7 3 _ "fst (poll_read 7 3 ?g)"]) simp
  ultimately show ?thesis unfolding sample_run_def Let_def by (rule reach_api)
qed

lemma sample_run_eval:
  "sh_read_buf sample_run = [[4, 5]] \<and> sh_recv_window sample_run = INITIAL_STREAM_WINDOW - 5 \<and>
   sh_frames_closed sample_run = False \<and>
   out_frames sample_run = [new_window_update (flags_from Ack) 2 0]"
  by code_simp

lemma api_reach:
  "handle_reach i st m h \<Longrightarrow> handle_reach i st m (snd (poll_read w cap h))"
  "handle_reach i st m h \<Longrightarrow> handle_reach i st m (snd (poll_write w buf h))"
  "handle_reach i st m h \<Longrightarrow> handle_reach i st m (snd (poll_shutdown h))"
  "handle_reach i st m h \<Longrightarrow> handle_reach i st m (stream_drop h)"
  by (erule reach_api, metis api_step.intros prod.collapse)+

text \<open>A stream that shuts down; then one that also gets the answering \<open>Fin\<close>; and one whose frame channel
  ends before it writes again.\<close>

definition sample_shut :: stream_handle where
  "sample_shut = snd (poll_shutdown (stream_open 2 SynReceived INITIAL_STREAM_WINDOW))"

definition sample_closed :: stream_handle where
  "sample_closed = stream_drop (snd (poll_read 7 1
     (sample_shut\<lparr>sh_frames := sh_frames sample_shut @ [new_window_update (flags_add flags_default Fin) 2 0]\<rparr>)))"

definition sample_late :: stream_handle where
  "sample_late = snd (poll_write 7 [1, 2, 3] (sample_shut\<lparr>sh_frames_closed := True\<rparr>))"

lemma sample_reach:
  "handle_reach 2 SynReceived INITIAL_STREAM_WINDOW sample_shut"
  "handle_reach 2 SynReceived INITIAL_STREAM_WINDOW sample_closed"
  "handle_reach 2 SynReceived INITIAL_STREAM_WINDOW sample_late"
proof -
  show 1: "handle_reach 2 SynReceived INITIAL_STREAM_WINDOW sample_shut"
    unfolding sample_shut_def by (intro api_reach reach_open) simp_all
  show "handle_reach 2 SynReceived INITIAL_STREAM_WINDOW sample_closed"
    unfolding sample_closed_def by (intro api_reach reach_frame 1) simp
  show "handle_reach 2 SynReceived INITIAL_STREAM_WINDOW sample_late"
    unfolding sample_late_def by (intro api_reach reach_end 1)
qed

lemmas poll_write_eval = poll_write_def recv_frames_wake_def try_recv_frames_eq recv_frames_def recv_stop_def
  send_data_def get_flags_def unbound_send_frame_def unbound_send_event_def protocol_violation_def
  INITIAL_STREAM_WINDOW_def

lemma sample_shut_eq:
  "sample_shut = (stream_new 2 LocalClosing INITIAL_STREAM_WINDOW)
     \<lparr>sh_events := [EvFrame (new_window_update (flags_from Ack) 2 0),
        EvFrame (new_window_update (flags_add flags_default Fin) 2 0)]\<rparr>"
  by (simp add: sample_shut_def stream_open_eq stream_new_def poll_shutdown_def close_alive flagged_state_def
      flags_of_state_def close_state_def close_events_def)

text \<open>After shutting down it still reads, and grants window for what it read.\<close>

definition sample_drained :: stream_handle where
  "sample_drained = snd (poll_read 7 140000
     (sample_shut\<lparr>sh_frames := sh_frames sample_shut @ [new_data flags_default 2 (replicate 140000 1)]\<rparr>))"

lemma sample_drained_reach: "handle_reach 2 SynReceived INITIAL_STREAM_WINDOW sample_drained"
  unfolding sample_drained_def by (intro api_reach reach_frame sample_reach(1)) simp

lemma sample_drained_eval:
  "\<not> sh_frames_closed sample_drained"
  "out_frames sample_drained = [new_window_update (flags_from Ack) 2 0] @
     new_window_update (flags_add flags_default Fin) 2 0 # [new_window_update flags_default 2 140000]"
proof -
  let ?b = "replicate 140000 1 :: bytes"
  let ?f = "new_data flags_default 2 ?b"
  have f: "frame_flags ?f = flags_default" "frame_length ?f = 140000" "f_body ?f = Some ?b" "frame_ty ?f = Data"
    by (simp_all add: frame_flags_def frame_length_def frame_ty_def new_data_def)
  have "flags_state flags_default LocalClosing = Some LocalClosing" by (simp add: flags_state_def)
  then have "recv_frames (sample_shut\<lparr>sh_frames := [?f], sh_readable_wake := Some 7\<rparr>) =
      (Inr True, sample_shut\<lparr>sh_recv_window := 122144, sh_read_buf := [?b], sh_readable_wake := Some 7\<rparr>)"
    by (simp add: sample_shut_eq stream_new_def recv_frames_def recv_stop_def stream_handle_frame_def handle_data_def
        then_op_def process_flags_eq f INITIAL_STREAM_WINDOW_def del: replicate_Suc)
  then have "sample_drained = snd (send_window_update
      (sample_shut\<lparr>sh_recv_window := 122144, sh_read_buf := [], sh_readable_wake := Some 7\<rparr>))"
    by (simp add: sample_drained_def poll_read_def read_ready_def check_self_state_def sample_shut_eq stream_new_def
        protocol_violation_def drain_to_def Let_def split: prod.splits sum.splits)
  then have eq: "sample_drained = (stream_new 2 LocalClosing INITIAL_STREAM_WINDOW)
      \<lparr>sh_events := sh_events sample_shut @ [EvFrame (new_window_update flags_default 2 140000)],
       sh_readable_wake := Some 7\<rparr>"
    by (simp add: sample_shut_eq stream_new_def send_window_update_def get_flags_def buf_len_def
        unbound_send_event_def INITIAL_STREAM_WINDOW_def)
  show "\<not> sh_frames_closed sample_drained"
    "out_frames sample_drained = [new_window_update (flags_from Ack) 2 0] @
     new_window_update (flags_add flags_default Fin) 2 0 # [new_window_update flags_default 2 140000]"
    unfolding eq by (simp_all add: sample_shut_eq stream_new_def)
qed

lemma sample_closed_eq:
  "sample_closed = (stream_new 2 Closed INITIAL_STREAM_WINDOW)
     \<lparr>sh_events := sh_events sample_shut, sh_readable_wake := Some 7\<rparr>"
proof -
  let ?f = "new_window_update (flags_add flags_default Fin) 2 0"
  have "flags_state (frame_flags ?f) LocalClosing = Some Closed"
    by (simp add: flags_state_def frame_flags_def new_window_update_def)
  moreover have "frame_length ?f = 0" by (simp add: frame_length_def new_window_update_def)
  moreover have "checked_add INITIAL_STREAM_WINDOW 0 = Some INITIAL_STREAM_WINDOW"
    by (simp add: checked_add_def INITIAL_STREAM_WINDOW_def)
  ultimately show ?thesis
    by (simp add: sample_closed_def sample_shut_eq stream_new_def poll_read_def read_ready_def check_self_state_def
        recv_frames_def recv_stop_def stream_handle_frame_def handle_window_update_def then_op_def process_flags_eq
        wake_writer_def protocol_violation_def stream_drop_def)
qed

text \<open>A stream that has used up its send window and waits for more.\<close>

definition sample_blocked :: stream_handle where
  "sample_blocked = snd (poll_write 9 [1] (snd (poll_write 8 (replicate 262144 0)
     (stream_open 2 SynReceived INITIAL_STREAM_WINDOW))))"

lemma sample_blocked_reach: "handle_reach 2 SynReceived INITIAL_STREAM_WINDOW sample_blocked"
  unfolding sample_blocked_def by (intro api_reach reach_open) simp_all

lemma sample_blocked_eval:
  "sh_writeable_wake sample_blocked = Some 9" "sh_state sample_blocked = Established" "sh_send_window sample_blocked = 0"
  by (simp_all add: sample_blocked_def stream_open_eq stream_new_def poll_write_eval flagged_state_def)

definition sample_update :: frame where
  "sample_update = new_window_update flags_default 2 10"

lemma sample_update_eval:
  "frame_ty sample_update = WindowUpdate" "frame_flags sample_update = flags_default" "frame_length sample_update = 10"
  by (simp_all add: sample_update_def frame_defs)

lemma sample_update_accepted:
  "stream_handle_frame sample_update sample_blocked =
     (Inr (), wake_writer (sample_blocked\<lparr>sh_send_window := 10\<rparr>))"
proof -
  have "flags_state flags_default Established = Some Established" by (simp add: flags_state_def)
  then have "process_flags flags_default sample_blocked = (Inr (), sample_blocked)"
    by (simp add: process_flags_eq sample_blocked_eval)
  moreover have "checked_add 0 10 = Some 10" by (simp add: checked_add_def)
  ultimately show ?thesis
    by (simp add: stream_handle_frame_def handle_window_update_def sample_blocked_eval sample_update_eval)
qed

text \<open>C34. Whatever the peer sends and whatever the application does, the bytes buffered for reading and the
  window still granted to the peer together never exceed the configured maximal window.
\<close>

theorem receive_memory_bounded:
  assumes "handle_reach i st m h"
  shows "buf_len h + unat (sh_recv_window h) \<le> unat m"
  using handle_reach_memory [OF assms] by (auto simp: memory_ok_def stream_inv_def)

theorem receive_memory_bounded_witness:
  "buf_len sample_run = 2 \<and> buf_len sample_run + unat (sh_recv_window sample_run) \<le> unat INITIAL_STREAM_WINDOW"
  using receive_memory_bounded [OF sample_run_reach] sample_run_eval by (simp add: buf_len_def)

text \<open>
  The opening flag (\<open>Syn\<close> of the initiator, \<open>Ack\<close> of the acceptor) is on the very first frame of a
  stream and on no later one.
\<close>

theorem handshake_flag_once:
  assumes "handle_reach i st m h"
  shows "\<exists>f fs. out_frames h = f # fs \<and> frame_flags f = flags_from (if st = Init then Syn else Ack) \<and>
    (\<forall>g \<in> set fs. \<not> flags_contains (frame_flags g) Syn \<and> \<not> flags_contains (frame_flags g) Ack)"
proof -
  from assms have st: "st = Init \<or> st = SynReceived" by (induction rule: handle_reach.induct) auto
  from handle_reach_ok [OF assms] obtain fs where
    "out_frames h = new_window_update (flags_of_state st) i (m - INITIAL_STREAM_WINDOW) # fs"
    "opened_ok (sh_state h) (out_frames h)" by auto
  with st show ?thesis by (auto simp: opened_ok_def has_flag_def flags_of_state_def frame_defs)
qed

theorem handshake_flag_once_witness:
  "out_frames sample_run \<noteq> [] \<and> frame_flags (hd (out_frames sample_run)) = flags_from Ack"
  using handshake_flag_once [OF sample_run_reach] by auto

text \<open>
  As long as the session still holds the sending end of the frame channel, a stream that has sent
  \<open>Fin\<close> sends no data and no second \<open>Fin\<close> after it.
\<close>

theorem no_data_after_fin:
  assumes "handle_reach i st m h" and "\<not> sh_frames_closed h"
    and "out_frames h = xs @ f # ys" and "flags_contains (frame_flags f) Fin" and "g \<in> set ys"
  shows "frame_ty g \<noteq> Data \<and> \<not> flags_contains (frame_flags g) Fin"
proof -
  have "fin_ordered (out_frames h)" using handle_reach_ok [OF assms(1)] assms(2) by (simp add: fin_ok_def)
  then have "fin_ordered (xs @ f # ys)" by (simp only: assms(3))
  then have "fin_ordered (f # ys)" by (simp only: fin_ordered_append)
  with assms(4,5) show ?thesis by (simp add: has_flag_def)
qed

theorem no_data_after_fin_witness:
  "frame_ty (last (out_frames sample_drained)) \<noteq> Data \<and> length (out_frames sample_drained) = 3"
  using no_data_after_fin [OF sample_drained_reach sample_drained_eval(1,2), of "new_window_update flags_default 2 140000"]
  by (simp add: sample_drained_eval(2) frame_flags_def new_window_update_def)

text \<open>
  A writer that waits has no send window, and the next window update that is accepted wakes it and
  gives it the window of the update.
\<close>

theorem blocked_writer_is_woken:
  assumes "handle_reach i st m h" and "sh_writeable_wake h = Some w"
    and "frame_ty f = WindowUpdate" and "stream_handle_frame f h = (Inr (), h')"
  shows "sh_send_window h = 0 \<and> sh_send_window h' = frame_length f \<and>
    sh_writeable_wake h' = None \<and> w \<in> set (sh_woken h')"
proof -
  have "sh_send_window h = 0" using handle_reach_writer [OF assms(1)] assms(2) by (simp add: writer_ok_def)
  with assms(2-4) show ?thesis
    by (auto simp: stream_handle_frame_def handle_window_update_def then_op_def process_flags_eq wake_writer_eq
        checked_add_def split: option.splits if_splits)
qed

theorem blocked_writer_is_woken_witness:
  "fst (stream_handle_frame sample_update sample_blocked) = Inr () \<and>
   9 \<in> set (sh_woken (snd (stream_handle_frame sample_update sample_blocked)))"
  using blocked_writer_is_woken [OF sample_blocked_reach sample_blocked_eval(1) sample_update_eval(1)
      sample_update_accepted] sample_update_accepted
  by simp

text \<open>
  The proviso of the order of data and \<open>Fin\<close> is needed: once the frame channel has ended, the state
  \<open>LocalClosing\<close> is overwritten by \<open>RemoteClosing\<close> and a stream that has sent \<open>Fin\<close> accepts a write
  and pushes a data frame.
\<close>

theorem data_after_fin_once_channel_ended:
  "handle_reach 2 SynReceived INITIAL_STREAM_WINDOW sample_late \<and>
   out_frames sample_late = [new_window_update (flags_from Ack) 2 0,
     new_window_update (flags_add flags_default Fin) 2 0, new_data flags_default 2 [1, 2, 3]]"
proof
  show "out_frames sample_late = [new_window_update (flags_from Ack) 2 0,
     new_window_update (flags_add flags_default Fin) 2 0, new_data flags_default 2 [1, 2, 3]]"
    by (simp add: sample_late_def sample_shut_eq stream_new_def poll_write_eval wake_reader_def)
qed (rule sample_reach)

text \<open>
  A stream that is closed by the peer's \<open>Fin\<close> after its own never reports \<open>Closed\<close> to its session, not
  even when it is dropped: the session keeps its entry for the stream.
\<close>

theorem closed_stream_is_not_reported:
  "handle_reach 2 SynReceived INITIAL_STREAM_WINDOW sample_closed \<and> sh_state sample_closed = Closed \<and>
   sh_session_gone sample_closed = False \<and> EvClosed 2 \<notin> set (sh_events sample_closed)"
  using sample_reach(2) by (simp add: sample_closed_eq sample_shut_eq stream_new_def)

end
