(* ===== verification/Yamux_Link.thy ===== *)
theory Yamux_Link
  imports Yamux_Stream_Safety "HOL-Library.Sublist"
begin

text \<open>
  Two stream handles joined by their sessions, for \<open>src/yamux/src/stream.rs\<close>.  The sessions take the
  events of one handle in order and put the frames among them into the frame channel of the other.
  Each side calls the operations of \<open>AsyncRead\<close> and \<open>AsyncWrite\<close> in any order until it drops its handle.
  The logs of what was written and read are kept beside the handles.
  Both sessions live: no step of \<open>link_step\<close> ends a frame channel, so its theorems say nothing of a stream
  whose session has vanished (the arm for a closed channel of \<^verbatim>\<open>recv_frames\<close>); where that arm matters, the
  statement names it.
\<close>

record link =
  l_a :: stream_handle
  l_b :: stream_handle
  l_wrote_a :: bytes
  l_wrote_b :: bytes
  l_read_a :: bytes
  l_read_b :: bytes
  l_dropped_a :: bool
  l_dropped_b :: bool

definition flip :: "link \<Rightarrow> link" where
  "flip s = \<lparr>l_a = l_b s, l_b = l_a s, l_wrote_a = l_wrote_b s, l_wrote_b = l_wrote_a s,
     l_read_a = l_read_b s, l_read_b = l_read_a s, l_dropped_a = l_dropped_b s, l_dropped_b = l_dropped_a s\<rparr>"

text \<open>The bytes a poll of the reading side hands to its caller, and the bytes a poll of the writing
  side accepted.\<close>

definition bytes_out :: "(io_kind + bytes) poll \<Rightarrow> bytes" where
  "bytes_out p = (case p of Ready (Inr out) \<Rightarrow> out | _ \<Rightarrow> [])"

definition accepted :: "bytes \<Rightarrow> (io_kind + nat) poll \<Rightarrow> bytes" where
  "accepted buf p = (case p of Ready (Inr n) \<Rightarrow> take n buf | _ \<Rightarrow> [])"

text \<open>The session of side A moves the oldest event: a frame reaches the other side, any other event
  concerns only the session.\<close>

definition carry :: "link \<Rightarrow> link" where
  "carry s = (case sh_events (l_a s) of
     [] \<Rightarrow> s
   | ev # evs \<Rightarrow> s\<lparr>l_a := (l_a s)\<lparr>sh_events := evs\<rparr>,
       l_b := (l_b s)\<lparr>sh_frames := sh_frames (l_b s) @ event_frames [ev]\<rparr>\<rparr>)"

inductive link_step :: "link \<Rightarrow> link \<Rightarrow> bool" where
  step_read: "\<not> l_dropped_a s \<Longrightarrow> poll_read w cap (l_a s) = (p, h) \<Longrightarrow>
     link_step s (s\<lparr>l_a := h, l_read_a := l_read_a s @ bytes_out p\<rparr>)"
| step_peek: "\<not> l_dropped_a s \<Longrightarrow> poll_peek w cap (l_a s) = (p, h) \<Longrightarrow> link_step s (s\<lparr>l_a := h\<rparr>)"
| step_write: "\<not> l_dropped_a s \<Longrightarrow> poll_write w buf (l_a s) = (p, h) \<Longrightarrow>
     link_step s (s\<lparr>l_a := h, l_wrote_a := l_wrote_a s @ accepted buf p\<rparr>)"
| step_shutdown: "\<not> l_dropped_a s \<Longrightarrow> poll_shutdown (l_a s) = (p, h) \<Longrightarrow> link_step s (s\<lparr>l_a := h\<rparr>)"
| step_drop: "\<not> l_dropped_a s \<Longrightarrow> link_step s (s\<lparr>l_a := stream_drop (l_a s), l_dropped_a := True\<rparr>)"
| step_carry: "link_step s (carry s)"
| step_flip: "link_step (flip s) t \<Longrightarrow> link_step s (flip t)"

text \<open>The stream as the two sessions open it: the initiator in state \<open>Init\<close>, the acceptor in state
  \<open>SynReceived\<close>, each with its own maximal window.\<close>

definition link_start :: "u32 \<Rightarrow> u32 \<Rightarrow> u32 \<Rightarrow> link" where
  "link_start i ma mb = \<lparr>l_a = stream_open i Init ma, l_b = stream_open i SynReceived mb,
     l_wrote_a = [], l_wrote_b = [], l_read_a = [], l_read_b = [], l_dropped_a = False, l_dropped_b = False\<rparr>"

inductive link_reach :: "link \<Rightarrow> bool" where
  reach_start: "INITIAL_STREAM_WINDOW \<le> ma \<Longrightarrow> INITIAL_STREAM_WINDOW \<le> mb \<Longrightarrow> link_reach (link_start i ma mb)"
| reach_step: "link_reach s \<Longrightarrow> link_step s t \<Longrightarrow> link_reach t"

section \<open>The invariant\<close>

text \<open>One direction: what A may still send is what B has promised to take, and what A wrote is what B
  has read, followed by what is waiting at B and what is still on its way.\<close>

definition half_ok :: "stream_handle \<Rightarrow> stream_handle \<Rightarrow> bytes \<Rightarrow> bytes \<Rightarrow> bool" where
  "half_ok a b wrote red \<longleftrightarrow> link_ok a \<and> granted a \<and> 1 < unat (sh_max_recv_window a) \<and>
     send_credit a = recv_credit b \<and> wrote = red @ in_bytes b @ out_bytes a"

definition link_inv :: "link \<Rightarrow> bool" where
  "link_inv s \<longleftrightarrow> half_ok (l_a s) (l_b s) (l_wrote_a s) (l_read_b s) \<and>
     half_ok (l_b s) (l_a s) (l_wrote_b s) (l_read_a s)"

lemma flip_simps [simp]:
  "l_a (flip s) = l_b s" "l_b (flip s) = l_a s" "l_wrote_a (flip s) = l_wrote_b s"
  "l_wrote_b (flip s) = l_wrote_a s" "l_dropped_a (flip s) = l_dropped_b s" "l_read_a (flip s) = l_read_b s" "l_read_b (flip s) = l_read_a s"
  "flip (flip s) = s"
  by (simp_all add: flip_def)

lemma flip_update:
  "flip ((flip s)\<lparr>l_a := h, l_read_a := r\<rparr>) = s\<lparr>l_b := h, l_read_b := r\<rparr>"
  "flip ((flip s)\<lparr>l_a := h\<rparr>) = s\<lparr>l_b := h\<rparr>"
  by (cases s; simp add: flip_def)+

lemma link_inv_flip [simp]: "link_inv (flip s) = link_inv s"
  by (auto simp: link_inv_def)

lemma link_inv_start:
  assumes "INITIAL_STREAM_WINDOW \<le> ma" and "INITIAL_STREAM_WINDOW \<le> mb"
  shows "link_inv (link_start i ma mb)"
proof -
  have "1 < unat m \<and> sh_max_recv_window (stream_open i st m) = m"
    if "INITIAL_STREAM_WINDOW \<le> m" "st = Init \<or> st = SynReceived" for m st
    unfolding stream_open_eq [OF that(2,1)] using that(1) by (simp add: stream_new_def word_le_nat_alt)
  then have "1 < unat ma \<and> sh_max_recv_window (stream_open i Init ma) = ma"
    "1 < unat mb \<and> sh_max_recv_window (stream_open i SynReceived mb) = mb"
    using assms by blast+
  with assms stream_open_link_ok [of Init ma i] stream_open_link_ok [of SynReceived mb i]
    stream_open_granted [of Init ma i] stream_open_granted [of SynReceived mb i]
  show ?thesis by (simp add: link_inv_def half_ok_def link_start_def)
qed

text \<open>An operation of A that conserves the credits keeps the invariant if it accounts for its bytes.\<close>

lemma link_inv_conserves:
  assumes "link_inv s" and "conserves (l_a s) h" and "keeps_grant (l_a s) h"
    and "out_bytes h = out_bytes (l_a s) @ new" and "in_bytes (l_a s) = got @ in_bytes h"
  shows "link_inv (s\<lparr>l_a := h, l_wrote_a := l_wrote_a s @ new, l_read_a := l_read_a s @ got, l_dropped_a := d\<rparr>)"
  using assms by (auto simp: link_inv_def half_ok_def conserves_def keeps_grant_def)

lemma drop_conserves:
  assumes "link_ok h"
  shows "conserves h (stream_drop h) \<and> keeps_grant h (stream_drop h) \<and>
    out_bytes (stream_drop h) = out_bytes h \<and> in_bytes (stream_drop h) = in_bytes h"
proof (cases "sh_state h = Closed")
  case True
  with assms show ?thesis by (simp add: stream_drop_def conserves_refl keeps_grant_def)
next
  case False
  let ?h = "h\<lparr>sh_state := if writing (sh_state h) then flagged_state (sh_state h) else sh_state h,
    sh_events := sh_events h @ drop_events (sh_state h) (sh_id h)\<rparr>"
  have q: "quiet (drop_events (sh_state h) (sh_id h))" by (simp add: quiet_def)
  have eq: "stream_drop h = ?h" using assms False by (simp add: link_ok_def stream_drop_eq)
  have c: "conserves h ?h" using assms by (simp add: conserves_quiet q conserves_refl)
  moreover have "room_same h ?h"
    by (cases "sh_state h") (simp_all add: room_same_def buf_len_def flagged_state_def)
  ultimately show ?thesis
    unfolding eq by (simp add: keeps_grant_room_same conserves_quiet q)
qed

text \<open>Carrying an event: the data and the grants it holds leave one account and enter the other.\<close>

lemma link_inv_carry:
  assumes inv: "link_inv s"
  shows "link_inv (carry s)"
proof (cases "sh_events (l_a s)")
  case Nil
  with inv show ?thesis by (simp add: carry_def)
next
  case (Cons ev evs)
  show ?thesis
  proof (cases "event_frames [ev]")
    case Nil
    with inv Cons have "out_frames (l_a s) = event_frames evs" by (cases ev) simp_all
    with inv Cons Nil show ?thesis
      by (simp add: link_inv_def half_ok_def carry_def link_defs granted_def buf_len_def)
  next
    case F: (Cons f fs)
    then have ev: "ev = EvFrame f" "fs = []" by (cases ev; simp)+
    let ?a = "l_a s" and ?b = "l_b s"
    have out: "total g (out_frames ?a) = g f + total g (event_frames evs)" for g :: "frame \<Rightarrow> nat"
      using Cons ev by simp
    have "send_credit ?a = recv_credit ?b" "send_credit ?b = recv_credit ?a"
      using inv by (simp_all add: link_inv_def half_ok_def)
    then have "data_len f + total data_len (sh_frames ?b) \<le> unat (sh_recv_window ?b)"
      "unat (sh_send_window ?b) + total delta_of (sh_frames ?b) + delta_of f \<le> unat (sh_recv_window ?a)"
      unfolding send_credit_def recv_credit_def out by linarith+
    then show ?thesis
      using inv Cons ev u32_bound [of "sh_recv_window ?a"]
      by (auto simp: link_inv_def half_ok_def carry_def link_defs granted_def buf_len_def)
  qed
qed

lemma link_inv_step: "link_step s t \<Longrightarrow> link_inv s \<Longrightarrow> link_inv t"
proof (induction rule: link_step.induct)
  case (step_read s w cap p h)
  then have "link_ok (l_a s)" by (simp add: link_inv_def half_ok_def)
  from poll_read_conserves [OF this step_read(2)]
  show ?case using link_inv_conserves [OF step_read(3), of h "[]" "bytes_out p" "l_dropped_a s"]
    by (auto simp: bytes_out_def split: poll.splits sum.splits)
next
  case (step_peek s w cap p h)
  then have "link_ok (l_a s)" by (simp add: link_inv_def half_ok_def)
  from poll_peek_conserves [OF this step_peek(2)]
  show ?case using link_inv_conserves [OF step_peek(3), of h "[]" "[]" "l_dropped_a s"] by (simp add: out_bytes_def)
next
  case (step_write s w buf p h)
  then have "link_ok (l_a s)" by (simp add: link_inv_def half_ok_def)
  from poll_write_conserves [OF this step_write(2)]
  show ?case using link_inv_conserves [OF step_write(3), of h "accepted buf p" "[]" "l_dropped_a s"]
    by (auto simp: accepted_def split: poll.splits sum.splits)
next
  case (step_shutdown s p h)
  then have "link_ok (l_a s)" by (simp add: link_inv_def half_ok_def)
  from poll_shutdown_conserves [OF this step_shutdown(2)]
  show ?case using link_inv_conserves [OF step_shutdown(3), of h "[]" "[]" "l_dropped_a s"] by simp
next
  case (step_drop s)
  then have "link_ok (l_a s)" by (simp add: link_inv_def half_ok_def)
  from drop_conserves [OF this]
  show ?case using link_inv_conserves [OF step_drop(2), of "stream_drop (l_a s)" "[]" "[]" True] by simp
next
  case (step_carry s)
  then show ?case by (rule link_inv_carry)
next
  case (step_flip s t)
  then show ?case by simp
qed

lemma link_reach_inv: "link_reach s \<Longrightarrow> link_inv s"
  by (induction rule: link_reach.induct) (auto intro: link_inv_start link_inv_step)

section \<open>End of file\<close>

text \<open>
  One direction, for the frames \<open>fs\<close> still to be processed by the receiver: no payload follows a \<open>Fin\<close>;
  while the sender may write there is no \<open>Fin\<close>; and once the receiver saw the end there is no payload.
\<close>

fun fin_last :: "frame list \<Rightarrow> bool" where
  "fin_last [] = True"
| "fin_last (f # fs) = ((has_flag Fin f \<longrightarrow> (\<forall>g \<in> set fs. payload g = [])) \<and> fin_last fs)"

definition flow :: "stream_state \<Rightarrow> stream_state \<Rightarrow> frame list \<Rightarrow> bool" where
  "flow sa sb fs \<longleftrightarrow> fin_last fs \<and>
     (writing sa \<longrightarrow> (\<forall>f \<in> set fs. \<not> has_flag Fin f) \<and> sb \<noteq> RemoteClosing) \<and>
     (sb = RemoteClosing \<longrightarrow> (\<forall>f \<in> set fs. payload f = []))"

lemma fin_last_append:
  "fin_last (xs @ ys) \<longleftrightarrow> fin_last xs \<and> fin_last ys \<and>
     ((\<exists>f \<in> set xs. has_flag Fin f) \<longrightarrow> (\<forall>g \<in> set ys. payload g = []))"
  by (induction xs) auto

lemma flags_of_state_fin [simp]:
  "flags_contains (flags_of_state st) Fin = False"
  "flags_contains (flags_add (flags_of_state st) Rst) Fin = False"
proof -
  have "flags_contains (flags_from Syn) Fin = False" "flags_contains (flags_from Ack) Fin = False"
    "flags_contains (flags_add (flags_from Syn) Rst) Fin = False"
    "flags_contains (flags_add (flags_from Ack) Rst) Fin = False"
    by code_simp+
  then show "flags_contains (flags_of_state st) Fin = False"
    "flags_contains (flags_add (flags_of_state st) Rst) Fin = False"
    by (cases st; simp add: flags_of_state_def)+
qed

lemma flagged_state_simps [simp]:
  "flagged_state st = LocalClosing \<longleftrightarrow> st = LocalClosing" "flagged_state st = Closed \<longleftrightarrow> st = Closed"
  "flagged_state st = Reset \<longleftrightarrow> st = Reset" "flagged_state st = RemoteClosing \<longleftrightarrow> st = RemoteClosing"
  by (cases st; simp add: flagged_state_def)+

lemma flow_emit:
  assumes "flow sa sb G" and "fin_last fs"
    and "\<not> writing sa \<Longrightarrow> \<forall>f \<in> set fs. payload f = []"
    and "writing sa' \<Longrightarrow> writing sa \<and> (\<forall>f \<in> set fs. \<not> has_flag Fin f)"
  shows "flow sa' sb (G @ fs)"
  using assms by (cases "writing sa") (auto simp: flow_def fin_last_append)

text \<open>A step of the sender, and a step of the receiver.\<close>

lemma flow_send:
  assumes step: "proto_step gone False i (sa, fs) es (sa', fs')" and "flow sa sb G"
  shows "flow sa' sb (G @ event_frames es)"
proof (rule flow_emit [OF assms(2)])
  show "fin_last (event_frames es)" using step by cases auto
  show "\<forall>f \<in> set (event_frames es). payload f = []" if "\<not> writing sa"
    using step that by cases auto
  show "writing sa \<and> (\<forall>f \<in> set (event_frames es). \<not> has_flag Fin f)" if "writing sa'"
    using step that frame_state_ok(2) [of sa] close_state_stops [of sa] by cases (auto split: if_splits)
qed

lemma frame_state_end: "frame_state f st = RemoteClosing \<Longrightarrow> st = RemoteClosing \<or> has_flag Fin f"
  by (auto simp: frame_state_def flags_state_def has_flag_def Let_def split: option.splits if_splits)

lemma flow_receive:
  assumes step: "proto_step gone False i (sb, fs) es (sb', fs')" and "flow sa sb (fs @ out)"
  shows "flow sa sb' (fs' @ out)"
  using step
proof cases
  case (p_take f)
  with assms(2) frame_state_end [of f sb] show ?thesis by (auto simp: flow_def)
qed (use assms(2) in \<open>auto simp: flow_def close_state_def split: if_splits\<close>)

lemma flow_run:
  assumes "proto_run gone ended i x es y" and "\<not> ended"
  shows "flow (fst x) sb G \<Longrightarrow> flow (fst y) sb (G @ event_frames es)"
    and "flow sb (fst x) (snd x @ out) \<Longrightarrow> flow sb (fst y) (snd y @ out)"
proof -
  show "flow (fst x) sb G \<Longrightarrow> flow (fst y) sb (G @ event_frames es)"
    using assms
  proof (induction rule: proto_run.induct)
    case (run_step x es y es' z)
    then show ?case using flow_send [of gone i "fst y" "snd y" es' "fst z" "snd z" sb "G @ event_frames es"] by simp
  qed simp
  show "flow sb (fst x) (snd x @ out) \<Longrightarrow> flow sb (fst y) (snd y @ out)"
    using assms
  proof (induction rule: proto_run.induct)
    case (run_step x es y es' z)
    then show ?case using flow_receive [of gone i "fst y" "snd y" es' "fst z" "snd z" sb out] by simp
  qed simp
qed

definition flow_ok :: "stream_handle \<Rightarrow> stream_handle \<Rightarrow> bool" where
  "flow_ok a b \<longleftrightarrow> \<not> sh_frames_closed a \<and> \<not> sh_terminated a \<and>
     flow (sh_state a) (sh_state b) (sh_frames b @ out_frames a)"

lemma flow_ok_refines:
  assumes "flow_ok a b" and "flow_ok b a" and "refines a a'"
  shows "flow_ok a' b \<and> flow_ok b a'"
proof -
  from assms(3) obtain es where ev: "sh_events a' = sh_events a @ es" and
    run: "proto_run (sh_session_gone a) (sh_frames_closed a \<or> sh_terminated a) (sh_id a)
      (sh_state a, sh_frames a) es (sh_state a', sh_frames a')" by (auto simp: refines_def)
  have n: "\<not> (sh_frames_closed a \<or> sh_terminated a)" using assms(1) by (simp add: flow_ok_def)
  from flow_run(1) [OF run n, of "sh_state b" "sh_frames b @ out_frames a"]
    flow_run(2) [OF run n, of "sh_state b" "out_frames b"] assms ev
  show ?thesis by (simp add: flow_ok_def refines_def)
qed

lemma flow_ok_carry:
  assumes "flow_ok (l_a s) (l_b s)" and "flow_ok (l_b s) (l_a s)"
  shows "flow_ok (l_a (carry s)) (l_b (carry s)) \<and> flow_ok (l_b (carry s)) (l_a (carry s))"
proof (cases "sh_events (l_a s)")
  case (Cons ev evs)
  have "event_frames [ev] @ event_frames evs = event_frames (ev # evs)" by (cases ev) simp_all
  with assms Cons show ?thesis by (simp add: carry_def flow_ok_def)
qed (use assms in \<open>simp add: carry_def\<close>)

lemma flow_ok_step:
  assumes "link_step s t" and "flow_ok (l_a s) (l_b s)" and "flow_ok (l_b s) (l_a s)"
  shows "flow_ok (l_a t) (l_b t) \<and> flow_ok (l_b t) (l_a t)"
  using assms
proof (induction rule: link_step.induct)
  case (step_read s w cap p h)
  from flow_ok_refines [OF step_read(3,4) poll_read_refines [OF step_read(2)]] show ?case by simp
next
  case (step_peek s w cap p h)
  from flow_ok_refines [OF step_peek(3,4) poll_peek_refines [OF step_peek(2)]] show ?case by simp
next
  case (step_write s w buf p h)
  from flow_ok_refines [OF step_write(3,4) poll_write_refines [OF step_write(2)]] show ?case by simp
next
  case (step_shutdown s p h)
  from flow_ok_refines [OF step_shutdown(3,4) poll_shutdown_refines [OF step_shutdown(2)]] show ?case by simp
next
  case (step_drop s)
  from flow_ok_refines [OF step_drop(2,3) stream_drop_refines] show ?case by simp
next
  case (step_carry s)
  then show ?case by (rule flow_ok_carry)
next
  case (step_flip s t)
  then show ?case by simp
qed

lemma link_reach_flow: "link_reach s \<Longrightarrow> flow_ok (l_a s) (l_b s) \<and> flow_ok (l_b s) (l_a s)"
proof (induction rule: link_reach.induct)
  case (reach_start ma mb i)
  have "flow_ok (stream_open i st m) (stream_open i st' m')"
    if "INITIAL_STREAM_WINDOW \<le> m" "INITIAL_STREAM_WINDOW \<le> m'" "st = Init \<or> st = SynReceived"
      "st' = Init \<or> st' = SynReceived" for st st' m m'
    unfolding stream_open_eq [OF that(3,1)] stream_open_eq [OF that(4,2)]
    using that(3,4) by (auto simp: flow_ok_def flow_def stream_new_def flagged_state_def)
  with reach_start show ?case by (simp add: link_start_def)
next
  case (reach_step s t)
  then show ?case using flow_ok_step [OF reach_step(2)] by simp
qed

section \<open>Guarantees\<close>

text \<open>Writing with nothing to receive and some window: as much as the window allows is sent.\<close>

lemma poll_write_idle:
  assumes "sh_frames h = []" "\<not> sh_frames_closed h" "\<not> sh_terminated h" "\<not> sh_session_gone h"
    and "writing (sh_state h)" and "sh_send_window h \<noteq> 0"
    and n: "n = min (unat (sh_send_window h)) (length buf)"
  shows "poll_write w buf h = (Ready (Inr n), h\<lparr>sh_state := flagged_state (sh_state h),
    sh_events := sh_events h @ [EvFrame (new_data (flags_of_state (sh_state h)) (sh_id h) (take n buf))],
    sh_send_window := sh_send_window h - of_nat n\<rparr>)"
proof -
  have "\<exists>r. recv_frames_wake h = (r, h) \<and> \<not> protocol_violation r"
    using assms(1-3,5)
    by (cases "sh_state h") (simp_all add: recv_frames_wake_def try_recv_frames_eq recv_frames_def recv_stop_def
        protocol_violation_def)
  then obtain r where r: "recv_frames_wake h = (r, h)" "\<not> protocol_violation r" by blast
  have sd: "send_data (take n buf) h = (Inr (), h\<lparr>sh_state := flagged_state (sh_state h),
    sh_events := sh_events h @ [EvFrame (new_data (flags_of_state (sh_state h)) (sh_id h) (take n buf))]\<rparr>)"
    using assms(4) by (simp add: send_data_def get_flags_eq Let_def unbound_send_frame_def unbound_send_event_alive)
  show ?thesis
    using r sd assms(5,6) unfolding n by (cases "sh_state h") (simp_all add: poll_write_def Let_def)
qed

text \<open>A run used to instantiate the guarantees: A writes three bytes and shuts down, its session carries
  its three frames, and B reads two bytes.\<close>

definition sample_start :: link where
  "sample_start = link_start 3 INITIAL_STREAM_WINDOW INITIAL_STREAM_WINDOW"

definition sample_sent :: link where
  "sample_sent = (let h = snd (poll_write 5 [10, 11, 12] (l_a sample_start));
       s = sample_start\<lparr>l_a := h, l_wrote_a := [10, 11, 12]\<rparr>
     in carry (carry (carry (s\<lparr>l_a := snd (poll_shutdown h)\<rparr>))))"

definition sample_link :: link where
  "sample_link = sample_sent\<lparr>l_b := snd (poll_read 6 2 (l_b sample_sent)), l_read_b := [10, 11]\<rparr>"

abbreviation sample_fresh :: "stream_state \<Rightarrow> stream_handle" where
  "sample_fresh st \<equiv> stream_new 3 st INITIAL_STREAM_WINDOW"

lemma sample_open:
  "stream_open 3 Init INITIAL_STREAM_WINDOW =
     (sample_fresh SynSent)\<lparr>sh_events := [EvFrame (new_window_update (flags_from Syn) 3 0)]\<rparr>"
  "stream_open 3 SynReceived INITIAL_STREAM_WINDOW =
     (sample_fresh Established)\<lparr>sh_events := [EvFrame (new_window_update (flags_from Ack) 3 0)]\<rparr>"
  by (simp_all add: stream_open_eq stream_new_def flagged_state_def flags_of_state_def)

lemma sample_written:
  "poll_write 5 [10, 11, 12] (stream_open 3 Init INITIAL_STREAM_WINDOW) =
     (Ready (Inr 3), (sample_fresh SynSent)\<lparr>sh_send_window := 0x3fffd,
        sh_events := [EvFrame (new_window_update (flags_from Syn) 3 0), EvFrame (new_data flags_default 3 [10, 11, 12])]\<rparr>)"
  unfolding sample_open
  by (subst poll_write_idle [where n = 3])
    (simp_all add: stream_new_def flagged_state_def flags_of_state_def, simp_all add: INITIAL_STREAM_WINDOW_def)

lemma sample_shutdown:
  "poll_shutdown (snd (poll_write 5 [10, 11, 12] (stream_open 3 Init INITIAL_STREAM_WINDOW))) =
     (Ready (Inr ()), (sample_fresh LocalClosing)\<lparr>sh_send_window := 0x3fffd,
        sh_events := [EvFrame (new_window_update (flags_from Syn) 3 0), EvFrame (new_data flags_default 3 [10, 11, 12]),
          EvFrame (new_window_update (flags_add flags_default Fin) 3 0)]\<rparr>)"
  unfolding sample_written by (simp add: stream_new_def poll_shutdown_def close_alive close_state_def close_events_def)

lemma sample_sent_eq:
  "sample_sent = sample_start\<lparr>l_a := (sample_fresh LocalClosing)\<lparr>sh_send_window := 0x3fffd\<rparr>,
     l_b := (sample_fresh Established)\<lparr>sh_events := [EvFrame (new_window_update (flags_from Ack) 3 0)],
       sh_frames := [new_window_update (flags_from Syn) 3 0, new_data flags_default 3 [10, 11, 12],
         new_window_update (flags_add flags_default Fin) 3 0]\<rparr>, l_wrote_a := [10, 11, 12]\<rparr>"
  by (simp add: sample_sent_def sample_start_def link_start_def sample_shutdown carry_def sample_open(2)
      stream_new_def Let_def)

lemma sample_flags:
  "flags_state (flags_from Syn) Established = Some Established" "flags_state flags_default Established = Some Established"
  "flags_state (flags_add flags_default Fin) Established = Some RemoteClosing"
  by code_simp+

lemma frame_new_simps:
  "frame_flags (new_window_update fl i d) = fl" "frame_length (new_window_update fl i d) = d"
  "frame_flags (new_data fl i b) = fl" "frame_length (new_data fl i b) = of_nat (length b)"
  "f_body (new_data fl i b) = Some b"
  by (simp_all add: frame_defs)

lemma sample_link_eq:
  "poll_read 6 2 (l_b sample_sent) = (Ready (Inr [10, 11]), (sample_fresh RemoteClosing)
     \<lparr>sh_recv_window := 0x3fffd, sh_read_buf := [[12]], sh_readable_wake := Some 6,
      sh_events := [EvFrame (new_window_update (flags_from Ack) 3 0)]\<rparr>)"
proof -
  have add: "checked_add INITIAL_STREAM_WINDOW 0 = Some INITIAL_STREAM_WINDOW"
    by (simp add: checked_add_def INITIAL_STREAM_WINDOW_def)
  have sub: "INITIAL_STREAM_WINDOW - 3 = 0x3fffd" "\<not> INITIAL_STREAM_WINDOW < 3"
    by (simp_all add: INITIAL_STREAM_WINDOW_def)
  show ?thesis
    by (simp add: sample_sent_eq stream_new_def poll_read_def read_ready_def check_self_state_def
        recv_frames_def recv_stop_def stream_handle_frame_def handle_window_update_def handle_data_def then_op_def
        process_flags_eq sample_flags frame_new_simps add sub wake_writer_def protocol_violation_def drain_to_def Let_def)
qed

lemma sample_link_reach: "link_reach sample_link"
proof -
  let ?h = "snd (poll_write 5 [10, 11, 12] (l_a sample_start))"
  let ?s = "sample_start\<lparr>l_a := ?h, l_wrote_a := [10, 11, 12]\<rparr>"
  have la: "l_a sample_start = stream_open 3 Init INITIAL_STREAM_WINDOW" "\<not> l_dropped_a sample_start"
    "l_wrote_a sample_start = []" "l_read_b sample_start = []" "\<not> l_dropped_b sample_start"
    by (simp_all add: sample_start_def link_start_def)
  have r0: "link_reach sample_start" unfolding sample_start_def by (rule reach_start) simp_all
  have s1: "link_step sample_start ?s"
    using step_write [of sample_start 5 "[10, 11, 12]" "Ready (Inr 3)" ?h] la sample_written
    by (simp add: accepted_def)
  have s2: "link_step ?s (?s\<lparr>l_a := snd (poll_shutdown ?h)\<rparr>)"
    by (rule step_shutdown [of _ "fst (poll_shutdown ?h)"]) (simp_all add: la)
  have "link_reach (?s\<lparr>l_a := snd (poll_shutdown ?h)\<rparr>)" by (rule reach_step [OF reach_step [OF r0 s1] s2])
  then have r3: "link_reach sample_sent"
    unfolding sample_sent_def Let_def by (intro reach_step [OF _ step_carry])
  have "link_step (flip sample_sent)
      ((flip sample_sent)\<lparr>l_a := snd (poll_read 6 2 (l_b sample_sent)), l_read_a := [10, 11]\<rparr>)"
    using step_read [of "flip sample_sent" 6 2 "Ready (Inr [10, 11])"] sample_link_eq
    by (simp add: flip_def sample_sent_eq la bytes_out_def)
  then have "link_step sample_sent (flip ((flip sample_sent)
      \<lparr>l_a := snd (poll_read 6 2 (l_b sample_sent)), l_read_a := [10, 11]\<rparr>))" by (rule step_flip)
  then have "link_step sample_sent sample_link" by (simp add: flip_update sample_link_def)
  with r3 show ?thesis by (rule reach_step)
qed

lemma sample_link_b: "sh_state (l_b sample_link) = RemoteClosing" "sh_read_buf (l_b sample_link) = [[12]]"
  by (simp_all add: sample_link_def sample_link_eq stream_new_def)

text \<open>C1. The stream is reliable in both directions: what one side has written is exactly what the other side
  has read, followed by what waits there to be read and by what is still under way.  Nothing is lost,
  duplicated or reordered, and what was read is a prefix of what was written.
\<close>

theorem link_reliable:
  assumes "link_reach s"
  shows "l_wrote_a s = l_read_b s @ in_bytes (l_b s) @ out_bytes (l_a s) \<and> prefix (l_read_b s) (l_wrote_a s) \<and>
    l_wrote_b s = l_read_a s @ in_bytes (l_a s) @ out_bytes (l_b s) \<and> prefix (l_read_a s) (l_wrote_b s)"
  using link_reach_inv [OF assms] by (auto simp: link_inv_def half_ok_def)

theorem link_reliable_witness: "prefix (l_read_b sample_link) (l_wrote_a sample_link) \<and> l_read_b sample_link = [10, 11]"
  using link_reliable [OF sample_link_reach] by (simp add: sample_link_def)

text \<open>C2. Two handles that follow the code never accuse each other: receiving reports neither an exceeded
  window, nor an overflow of the send window, nor an unexpected flag, and no read fails with invalid data.
\<close>

theorem link_no_violation:
  assumes "link_reach s"
  shows "\<not> protocol_violation (fst (recv_frames (l_a s))) \<and> \<not> protocol_violation (fst (recv_frames (l_b s))) \<and>
    fst (poll_read w cap (l_a s)) \<noteq> Ready (Inl IoInvalidData) \<and>
    fst (poll_read w cap (l_b s)) \<noteq> Ready (Inl IoInvalidData)"
proof -
  have "\<not> protocol_violation (fst (recv_frames h)) \<and> fst (poll_read w cap h) \<noteq> Ready (Inl IoInvalidData)"
    if "link_ok h" for h
    using poll_read_conserves [OF that, of w cap "fst (poll_read w cap h)" "snd (poll_read w cap h)"]
      recv_frames_conserves [OF that] by (metis fst_conv prod.collapse)
  with link_reach_inv [OF assms] show ?thesis by (simp add: link_inv_def half_ok_def)
qed

theorem link_no_violation_witness: "fst (poll_read 4 1 (l_b sample_link)) \<noteq> Ready (Inl IoInvalidData)"
  using link_no_violation [OF sample_link_reach, of 4 1] by simp

lemma link_closed_complete:
  assumes "link_reach s" and "sh_state (l_b s) = RemoteClosing"
  shows "l_wrote_a s = l_read_b s @ concat (sh_read_buf (l_b s))"
proof -
  have "\<forall>f \<in> set (sh_frames (l_b s) @ out_frames (l_a s)). payload f = []"
    using link_reach_flow [OF assms(1)] assms(2) by (simp add: flow_ok_def flow_def)
  then have "concat (map payload (sh_frames (l_b s))) = []" "out_bytes (l_a s) = []"
    by (auto simp: out_bytes_def)
  with link_reach_inv [OF assms(1)] show ?thesis
    by (simp add: link_inv_def half_ok_def in_bytes_def)
qed

text \<open>Receiving closes a stream only by a frame with \<open>Fin\<close>, and stops there.\<close>

lemma handle_frame_closed:
  assumes "stream_handle_frame f h = (r, h')" and "sh_state h \<noteq> Closed" and "sh_state h' = Closed"
  shows "has_flag Fin f"
  using assms
  by (auto simp: stream_handle_frame_def handle_window_update_def handle_data_def then_op_def process_flags_eq
      flags_state_def has_flag_def wake_writer_eq Let_def
      split: frame_type.splits option.splits if_splits prod.splits sum.splits)

lemma recv_loop_closed:
  assumes "recv_frames_loop fs b h = (r, h')" and "sh_frames h = fs" and "sh_state h \<noteq> Closed"
    and "sh_state h' = Closed"
  shows "\<exists>pre f. fs = pre @ f # sh_frames h' \<and> has_flag Fin f"
  using assms
proof (induction fs arbitrary: b h)
  case Nil
  then show ?case by (auto simp: recv_stop_def split: stream_state.splits if_splits)
next
  case (Cons f fs)
  have go: "recv_stop h = None"
    using Cons.prems by (auto simp: recv_stop_def split: option.splits stream_state.splits if_splits)
  obtain q h1 where hf: "stream_handle_frame f (h\<lparr>sh_frames := fs\<rparr>) = (q, h1)" by fastforce
  have fr: "sh_frames h1 = fs" using stream_handle_frame_frames [OF hf] .
  show ?case
  proof (cases "sh_state h1 = Closed")
    case True
    then have "has_flag Fin f" using handle_frame_closed [OF hf] Cons.prems(3) by simp
    moreover have "h' = h1" using Cons.prems(1) go hf True
      by (cases fs) (auto simp: recv_stop_def split: sum.splits)
    ultimately show ?thesis using fr by (intro exI [of _ "[]"]) simp
  next
    case False
    with Cons.prems(1,4) go hf have "recv_frames_loop fs True h1 = (r, h')" by (cases q) auto
    from Cons.IH [OF this fr False Cons.prems(4)] obtain pre g where "fs = pre @ g # sh_frames h'" "has_flag Fin g"
      by blast
    then show ?thesis by (intro exI [of _ "f # pre"]) simp
  qed
qed

text \<open>What a read that answers with no bytes has seen.\<close>

lemma poll_read_eof:
  assumes "link_ok h" and "0 < cap" and "poll_read w cap h = (Ready (Inr []), h')" and "sh_state h \<noteq> Closed"
  shows "sh_read_buf h' = [] \<and> (sh_state h' = RemoteClosing \<or>
    (\<exists>pre f. sh_frames h = pre @ f # sh_frames h' \<and> has_flag Fin f))"
proof -
  from read_ready_cases [OF assms(1)] obtain q h1 where rr: "read_ready w h = (q, h1)" "conserves h h1" by metis
  show ?thesis
  proof (cases q)
    case None
    have ne: "[] \<notin> set (sh_read_buf h1)" using rr(2) by (simp add: link_defs)
    then obtain bs off where loop: "read_loop cap 0 None (sh_read_buf h1) = (take cap (concat (sh_read_buf h1)), bs, off)"
      by (rule read_loop_drain)
    have "sh_read_buf h1 \<noteq> []" using rr(1) None
      by (auto simp: read_ready_def check_self_state_def split: stream_state.splits if_splits prod.splits)
    with ne assms(2) have "take cap (concat (sh_read_buf h1)) \<noteq> []" by (cases "sh_read_buf h1") auto
    with assms(3) rr(1) None loop show ?thesis
      by (auto simp: poll_read_def Let_def split: stream_state.splits sum.splits prod.splits)
  next
    case (Some x)
    with assms(3) rr(1) have x: "x = Ready (Inr ())" and h1: "h1 = h'"
      by (auto simp: poll_read_def split: poll.splits sum.splits)
    show ?thesis
    proof (cases "check_self_state h = Inr True")
      case True
      with rr(1) Some h1 assms(4) show ?thesis
        by (auto simp: read_ready_def check_self_state_def split: stream_state.splits if_splits)
    next
      case False
      let ?h = "h\<lparr>sh_readable_wake := Some w\<rparr>"
      from False rr(1) Some x h1 obtain r where rf: "recv_frames ?h = (r, h')" "check_self_state h' = Inr True"
        by (auto simp: read_ready_def split: sum.splits bool.splits prod.splits if_splits)
      then have "sh_read_buf h' = []" "sh_state h' = RemoteClosing \<or> sh_state h' = Closed"
        by (auto simp: check_self_state_def split: stream_state.splits if_splits)
      moreover have "\<exists>pre f. sh_frames h = pre @ f # sh_frames h' \<and> has_flag Fin f" if "sh_state h' = Closed"
        using recv_loop_closed [of "sh_frames h" False ?h r h'] rf(1) assms(4) that by (simp add: recv_frames_def)
      ultimately show ?thesis by blast
    qed
  qed
qed

text \<open>C3. What an end of file means.  As long as the session lives, a read of a stream this side has not closed
  for good (its state is not \<open>Closed\<close>) that answers with an end of file has seen the peer's \<open>Fin\<close>, and everything
  the peer ever wrote has been read before it.  This includes the stream half closed by this side.  It does not
  extend to a session that ends: a stream that still receives and whose frame channel is empty then reads as an end
  of file whatever is under way, so the reader cannot tell a broken session from a finished peer.
\<close>

theorem link_eof_complete:
  assumes "link_reach s" and "0 < cap" and "\<not> l_dropped_b s" and "sh_state (l_b s) \<noteq> Closed"
  shows "(\<forall>h. poll_read w cap (l_b s) = (Ready (Inr []), h) \<longrightarrow> l_wrote_a s = l_read_b s) \<and>
    (receiving (sh_state (l_b s)) \<and> sh_frames (l_b s) = [] \<and> sh_read_buf (l_b s) = [] \<longrightarrow>
       fst (poll_read w cap ((l_b s)\<lparr>sh_frames_closed := True\<rparr>)) = Ready (Inr []))"
proof (intro conjI allI impI)
  fix h assume rd: "poll_read w cap (l_b s) = (Ready (Inr []), h)"
  let ?t = "s\<lparr>l_b := h\<rparr>"
  have "link_step (flip s) ((flip s)\<lparr>l_a := h, l_read_a := l_read_a (flip s)\<rparr>)"
    using step_read [of "flip s" w cap "Ready (Inr [])" h] rd assms(3) by (simp add: bytes_out_def)
  from step_flip [OF this] have "link_step s ?t" by (simp add: flip_update)
  with assms(1) have t: "link_reach ?t" by (rule reach_step)
  have "link_ok (l_b s)" using link_reach_inv [OF assms(1)] by (simp add: link_inv_def half_ok_def)
  from poll_read_eof [OF this assms(2) rd assms(4)] have buf: "sh_read_buf h = []" and
    "sh_state h = RemoteClosing \<or> (\<exists>pre f. sh_frames (l_b s) = pre @ f # sh_frames h \<and> has_flag Fin f)" by simp_all
  then show "l_wrote_a s = l_read_b s"
  proof (elim disjE exE conjE)
    assume "sh_state h = RemoteClosing"
    with link_closed_complete [OF t] buf show ?thesis by simp
  next
    fix pre f assume fs: "sh_frames (l_b s) = pre @ f # sh_frames h" "has_flag Fin f"
    have "fin_last (pre @ f # (sh_frames h @ out_frames (l_a s)))"
      using link_reach_flow [OF assms(1)] fs(1) by (simp add: flow_ok_def flow_def)
    then have "\<forall>g \<in> set (sh_frames h @ out_frames (l_a s)). payload g = []"
      using fs(2) by (simp add: fin_last_append)
    then have "concat (map payload (sh_frames h)) = []" "out_bytes (l_a s) = []" by (auto simp: out_bytes_def)
    with link_reach_inv [OF t] buf show ?thesis by (simp add: link_inv_def half_ok_def in_bytes_def)
  qed
next
  assume "receiving (sh_state (l_b s)) \<and> sh_frames (l_b s) = [] \<and> sh_read_buf (l_b s) = []"
  then show "fst (poll_read w cap ((l_b s)\<lparr>sh_frames_closed := True\<rparr>)) = Ready (Inr [])"
    by (cases "sh_state (l_b s)") (simp_all add: poll_read_def read_ready_def check_self_state_def recv_frames_def
        recv_stop_def protocol_violation_def)
qed

lemma recv_frames_eq_stop: "sh_state h = RemoteClosing \<Longrightarrow> recv_frames h = (Inl SubStreamRemoteClosing, h)"
  by (cases "sh_frames h") (simp_all add: recv_frames_def recv_stop_def)

text \<open>The last byte is read, and the next read is the end of file.\<close>

definition sample_ended :: link where
  "sample_ended = sample_link\<lparr>l_b := snd (poll_read 6 2 (l_b sample_link)), l_read_b := [10, 11, 12]\<rparr>"

lemma sample_last_read:
  "poll_read 6 2 (l_b sample_link) = (Ready (Inr [12]), (l_b sample_link)\<lparr>sh_read_buf := []\<rparr>)"
proof -
  have "sh_readable_wake (l_b sample_link) = Some 6" by (simp add: sample_link_def sample_link_eq)
  then have "(l_b sample_link)\<lparr>sh_readable_wake := Some 6\<rparr> = l_b sample_link" by simp
  then show ?thesis
    by (simp add: sample_link_b poll_read_def read_ready_def check_self_state_def recv_frames_eq_stop
        protocol_violation_def drain_to_def Let_def)
qed

lemma sample_ended_reach: "link_reach sample_ended"
proof -
  have "l_read_b sample_link = [10, 11]" "\<not> l_dropped_b sample_link"
    by (simp_all add: sample_link_def sample_sent_eq sample_start_def link_start_def)
  then have "link_step (flip sample_link)
      ((flip sample_link)\<lparr>l_a := snd (poll_read 6 2 (l_b sample_link)), l_read_a := [10, 11, 12]\<rparr>)"
    using step_read [of "flip sample_link" 6 2 "Ready (Inr [12])"] sample_last_read by (simp add: bytes_out_def)
  from step_flip [OF this] have "link_step sample_link sample_ended" by (simp add: flip_update sample_ended_def)
  with sample_link_reach show ?thesis by (rule reach_step)
qed

lemma sample_ended_b: "\<not> l_dropped_b sample_ended" "sh_state (l_b sample_ended) = RemoteClosing"
  "sh_read_buf (l_b sample_ended) = []"
  by (simp_all add: sample_ended_def sample_last_read sample_link_b)
    (simp add: sample_link_def sample_sent_eq sample_start_def link_start_def)

lemma sample_ended_eof: "poll_read 6 2 (l_b sample_ended) = (Ready (Inr []), l_b sample_ended)"
  by (simp add: poll_read_def read_ready_def check_self_state_def sample_ended_b)

theorem link_eof_complete_witness:
  "fst (poll_read 6 2 (l_b sample_ended)) = Ready (Inr []) \<and> l_wrote_a sample_ended = l_read_b sample_ended \<and>
   l_read_b sample_ended = [10, 11, 12]"
proof -
  have "l_wrote_a sample_ended = l_read_b sample_ended"
    using link_eof_complete [OF sample_ended_reach, of 2 6] sample_ended_b sample_ended_eof by simp
  then show ?thesis using sample_ended_eof by (simp, simp add: sample_ended_def)
qed

text \<open>C4. Flow control cannot starve a writer: when nothing is under way in either direction and the peer has
  consumed what it received and still receives, more than half of the peer's maximal window is open, and
  a write of a non-empty buffer makes progress.
\<close>

theorem link_no_window_deadlock:
  assumes "link_reach s" and "out_frames (l_a s) = []" and "out_frames (l_b s) = []"
    and "sh_frames (l_a s) = []" and "sh_frames (l_b s) = []" and "sh_read_buf (l_b s) = []"
    and "receiving (sh_state (l_b s))" and "writing (sh_state (l_a s))" and "buf \<noteq> []"
  shows "unat (sh_max_recv_window (l_b s)) div 2 \<le> unat (sh_send_window (l_a s)) \<and>
    (\<exists>n h. poll_write w buf (l_a s) = (Ready (Inr n), h) \<and> 0 < n \<and>
       n = min (unat (sh_send_window (l_a s))) (length buf))"
proof -
  let ?a = "l_a s" and ?b = "l_b s"
  have inv: "half_ok ?a ?b (l_wrote_a s) (l_read_b s)" "half_ok ?b ?a (l_wrote_b s) (l_read_a s)"
    using link_reach_inv [OF assms(1)] by (simp_all add: link_inv_def)
  then have "send_credit ?a = recv_credit ?b" by (simp add: half_ok_def)
  then have "int (unat (sh_send_window ?a)) = int (unat (sh_recv_window ?b))"
    using assms(2-5) by (simp add: send_credit_def recv_credit_def)
  then have eq: "unat (sh_send_window ?a) = unat (sh_recv_window ?b)" by (simp only: of_nat_eq_iff)
  have "granted ?b" "1 < unat (sh_max_recv_window ?b)" using inv(2) by (simp_all add: half_ok_def)
  then have w: "unat (sh_max_recv_window ?b) div 2 \<le> unat (sh_send_window ?a)" and "0 < unat (sh_send_window ?a)"
    using assms(6,7) unfolding granted_def eq buf_len_def by auto
  then have "sh_send_window ?a \<noteq> 0" by auto
  moreover have "\<not> sh_frames_closed ?a" "\<not> sh_terminated ?a"
    using link_reach_flow [OF assms(1)] by (simp_all add: flow_ok_def)
  moreover have "\<not> sh_session_gone ?a" using inv(1) by (simp add: half_ok_def link_ok_def)
  ultimately have "\<exists>h. poll_write w buf ?a = (Ready (Inr (min (unat (sh_send_window ?a)) (length buf))), h)"
    using poll_write_idle [OF assms(4) _ _ _ assms(8) _ refl] by blast
  with w \<open>0 < unat (sh_send_window ?a)\<close> assms(9) show ?thesis by auto
qed

text \<open>A quiet link: both sessions have carried the opening frames and both sides have looked at them.\<close>

definition sample_quiet :: link where
  "sample_quiet = (let s = flip (carry (flip (carry sample_start)));
       s1 = s\<lparr>l_a := snd (poll_peek 4 1 (l_a s))\<rparr>
     in s1\<lparr>l_b := snd (poll_peek 4 1 (l_b s1))\<rparr>)"

lemma sample_quiet_eq:
  "sample_quiet = sample_start
     \<lparr>l_a := (sample_fresh Established)\<lparr>sh_readable_wake := Some 4\<rparr>,
      l_b := (sample_fresh Established)\<lparr>sh_readable_wake := Some 4\<rparr>\<rparr>"
proof -
  have add: "checked_add INITIAL_STREAM_WINDOW 0 = Some INITIAL_STREAM_WINDOW"
    by (simp add: checked_add_def INITIAL_STREAM_WINDOW_def)
  have "flags_state (flags_from Ack) SynSent = Some Established" by code_simp
  then show ?thesis
    by (simp add: sample_quiet_def sample_start_def link_start_def flip_def carry_def sample_open stream_new_def
        poll_peek_def read_ready_def check_self_state_def recv_frames_def recv_stop_def stream_handle_frame_def
        handle_window_update_def then_op_def process_flags_eq sample_flags frame_new_simps add wake_writer_def
        protocol_violation_def Let_def)
qed

lemma sample_quiet_reach: "link_reach sample_quiet"
proof -
  let ?s = "flip (carry (flip (carry sample_start)))"
  let ?s1 = "?s\<lparr>l_a := snd (poll_peek 4 1 (l_a ?s))\<rparr>"
  have d: "\<not> l_dropped_a ?s" "\<not> l_dropped_a (flip ?s1)"
    by (simp_all add: sample_start_def link_start_def flip_def carry_def split: list.splits)
  have "link_reach sample_start" unfolding sample_start_def by (rule reach_start) simp_all
  then have "link_reach ?s" by (intro reach_step [OF _ step_flip [OF step_carry]] reach_step [OF _ step_carry])
  moreover have "link_step ?s ?s1" by (rule step_peek [OF d(1), of 4 1 "fst (poll_peek 4 1 (l_a ?s))"]) simp
  ultimately have "link_reach ?s1" by (rule reach_step)
  moreover have "link_step (flip ?s1) ((flip ?s1)\<lparr>l_a := snd (poll_peek 4 1 (l_b ?s1))\<rparr>)"
    by (rule step_peek [OF d(2), of 4 1 "fst (poll_peek 4 1 (l_b ?s1))"]) simp
  then have "link_step ?s1 (?s1\<lparr>l_b := snd (poll_peek 4 1 (l_b ?s1))\<rparr>)"
    unfolding flip_update(2) [symmetric] by (rule step_flip)
  ultimately have "link_reach (?s1\<lparr>l_b := snd (poll_peek 4 1 (l_b ?s1))\<rparr>)" by (rule reach_step)
  then show ?thesis by (simp add: sample_quiet_def Let_def)
qed

theorem link_no_window_deadlock_witness:
  "131072 \<le> unat (sh_send_window (l_a sample_quiet)) \<and>
   (\<exists>n h. poll_write 5 [1, 2] (l_a sample_quiet) = (Ready (Inr n), h) \<and> 0 < n)"
  using link_no_window_deadlock [OF sample_quiet_reach, of "[1, 2]" 5]
  by (auto simp: sample_quiet_eq stream_new_def)

end
