(* ===== verification/Yamux_Session.thy ===== *)
theory Yamux_Session
  imports Yamux_Stream
begin

text \<open>
  The session of the yamux multiplexer (\<^verbatim>\<open>yamux/src/session.rs\<close>, \<^verbatim>\<open>config.rs\<close>, \<^verbatim>\<open>control.rs\<close>): the
  tables of streams and pings, the two queues of pending frames, the go-away flags, and \<^verbatim>\<open>poll_next\<close>,
  which drives them. An operation is a function from the session to its result and the session it
  leaves; an I/O error is the left result.

  What the session is given by code outside the sources is a script of answers in the record, one list
  per source: \<open>ss_ready\<close> and \<open>ss_flush\<close> for the polls of the framed sink, \<open>ss_incoming\<close> for the framed
  stream, \<open>ss_sub\<close> for the bounded channels to the streams, \<open>ss_ticks\<close> for the keepalive timer. A script
  that has run out answers \<open>Pending\<close>. \<open>ss_events\<close> and \<open>ss_commands\<close> are the contents of the event and
  the control channel. \<open>ss_sent\<close> collects the frames given to the sink, \<open>ss_streams\<close> holds, for every
  stream, the frames put into its channel, \<open>ss_replies\<close> the answers to commands. Instants and durations
  are milliseconds.
\<close>

section \<open>Configuration and state\<close>

definition DEFAULT_ACCEPT_BACKLOG :: nat where "DEFAULT_ACCEPT_BACKLOG = 256"
definition DEFAULT_MAX_STREAM_COUNT :: nat where "DEFAULT_MAX_STREAM_COUNT = 65535"
definition DEFAULT_KEEPALIVE_INTERVAL :: nat where "DEFAULT_KEEPALIVE_INTERVAL = 30 * 1000"
definition DEFAULT_WRITE_TIMEOUT :: nat where "DEFAULT_WRITE_TIMEOUT = 10 * 1000"
definition TIMEOUT :: nat where "TIMEOUT = 30 * 1000"

record config =
  accept_backlog :: nat
  enable_keepalive :: bool
  keepalive_interval :: nat
  connection_write_timeout :: nat
  max_stream_count :: nat
  max_stream_window_size :: u32

definition config_default :: config where
  "config_default =
     \<lparr>accept_backlog = DEFAULT_ACCEPT_BACKLOG, enable_keepalive = True,
      keepalive_interval = DEFAULT_KEEPALIVE_INTERVAL, connection_write_timeout = DEFAULT_WRITE_TIMEOUT,
      max_stream_count = DEFAULT_MAX_STREAM_COUNT, max_stream_window_size = INITIAL_STREAM_WINDOW\<rparr>"

datatype session_type = Client | Server

definition is_client :: "session_type \<Rightarrow> bool" where "is_client ty \<longleftrightarrow> ty = Client"
definition is_server :: "session_type \<Rightarrow> bool" where "is_server ty \<longleftrightarrow> ty = Server"

datatype command = OpenStream | Shutdown
datatype reply = Opened "yamux_error + stream_handle" | ShutDown

text \<open>Answers of the environment.\<close>

type_synonym sink_answer = "(io_kind + unit) poll"
datatype stream_answer = Incoming frame | IncomingErr io_kind | IncomingEnd
datatype send_answer = SendOk | SendFull | SendDisconnected | ReadyPending | ReadyErr
datatype tick = Tick | TickEnd | TickPending

record session =
  ss_eof :: bool
  ss_remote_go_away :: bool
  ss_local_go_away :: bool
  ss_next_stream_id :: u32
  ss_ty :: session_type
  ss_config :: config
  ss_pings :: "(u32 \<times> nat) list"
  ss_ping_id :: u32
  ss_streams :: "(u32 \<times> frame list) list"
  ss_pending_streams :: "stream_handle list"
  ss_write_pending :: "frame list"
  ss_read_pending :: "frame list"
  ss_events :: "stream_event list"
  ss_commands :: "command list"
  ss_keepalive :: "nat option"
  ss_replies :: "reply list"
  ss_sent :: "frame list"
  ss_woken :: nat
  ss_ready :: "sink_answer list"
  ss_flush :: "sink_answer list"
  ss_incoming :: "stream_answer list"
  ss_sub :: "send_answer list"
  ss_ticks :: "tick list"

type_synonym 'a session_op = "session \<Rightarrow> (io_kind + 'a) \<times> session"

text \<open>The \<^verbatim>\<open>?\<close> operator.\<close>

definition sbind :: "'a session_op \<Rightarrow> ('a \<Rightarrow> 'b session_op) \<Rightarrow> 'b session_op" where
  "sbind p k s = (case p s of (Inl e, s1) \<Rightarrow> (Inl e, s1) | (Inr x, s1) \<Rightarrow> k x s1)"

definition sret :: "'a \<Rightarrow> 'a session_op" where
  "sret x s = (Inr x, s)"

text \<open>The sorted map of pings: insertion, removal, and the part from a key on.\<close>

fun pings_insert :: "u32 \<Rightarrow> nat \<Rightarrow> (u32 \<times> nat) list \<Rightarrow> (u32 \<times> nat) list" where
  "pings_insert k v [] = [(k, v)]"
| "pings_insert k v ((k', v') # ps) =
     (if k < k' then (k, v) # (k', v') # ps
      else if k = k' then (k, v) # ps
      else (k', v') # pings_insert k v ps)"

definition pings_remove :: "u32 \<Rightarrow> (u32 \<times> nat) list \<Rightarrow> (u32 \<times> nat) list" where
  "pings_remove k ps = filter (\<lambda>(k', _). k' \<noteq> k) ps"

definition pings_split_off :: "u32 \<Rightarrow> (u32 \<times> nat) list \<Rightarrow> (u32 \<times> nat) list" where
  "pings_split_off k ps = filter (\<lambda>(k', _). k \<le> k') ps"

text \<open>\<^verbatim>\<open>Session::new\<close>; its assertion on the maximal window is the caller's obligation.\<close>

definition session_new :: "config \<Rightarrow> session_type \<Rightarrow> session" where
  "session_new cfg ty =
     \<lparr>ss_eof = False, ss_remote_go_away = False, ss_local_go_away = False,
      ss_next_stream_id = (case ty of Client \<Rightarrow> 1 | Server \<Rightarrow> 2), ss_ty = ty, ss_config = cfg,
      ss_pings = [], ss_ping_id = 0, ss_streams = [], ss_pending_streams = [],
      ss_write_pending = [], ss_read_pending = [], ss_events = [], ss_commands = [],
      ss_keepalive = (if enable_keepalive cfg then Some (keepalive_interval cfg) else None),
      ss_replies = [], ss_sent = [], ss_woken = 0, ss_ready = [], ss_flush = [], ss_incoming = [],
      ss_sub = [], ss_ticks = []\<rparr>"

definition new_server :: "config \<Rightarrow> session" where "new_server cfg = session_new cfg Server"
definition new_client :: "config \<Rightarrow> session" where "new_client cfg = session_new cfg Client"

definition is_dead :: "session \<Rightarrow> bool" where
  "is_dead s \<longleftrightarrow> ss_remote_go_away s \<and> ss_local_go_away s \<or> ss_eof s"

section \<open>Sending\<close>

text \<open>The polls of the framed sink. The codec never fails, so \<^verbatim>\<open>start_send\<close> just takes the frame.\<close>

definition poll_ready :: "session \<Rightarrow> sink_answer \<times> session" where
  "poll_ready s = (case ss_ready s of [] \<Rightarrow> (Pending, s) | a # as \<Rightarrow> (a, s\<lparr>ss_ready := as\<rparr>))"

definition start_send :: "frame \<Rightarrow> session \<Rightarrow> session" where
  "start_send f s = s\<lparr>ss_sent := ss_sent s @ [f]\<rparr>"

text \<open>\<open>Inr True\<close>: there is more to flush.\<close>

definition poll_complete :: "bool session_op" where
  "poll_complete s =
     (case ss_flush s of
        [] \<Rightarrow> (Inr True, s)
      | Pending # as \<Rightarrow> (Inr True, s\<lparr>ss_flush := as\<rparr>)
      | Ready (Inl e) # as \<Rightarrow> (Inl e, s\<lparr>ss_flush := as\<rparr>)
      | Ready (Inr _) # as \<Rightarrow> (Inr False, s\<lparr>ss_flush := as\<rparr>))"

text \<open>
  The loop ends because each turn sends a frame, ends, or uses up an answer of the sink.
\<close>

function send_all :: "bool session_op" where
  "send_all s =
     (case ss_write_pending s of
        [] \<Rightarrow> sbind poll_complete (\<lambda>_. sret False) s
      | f # fs \<Rightarrow>
          (let s1 = s\<lparr>ss_write_pending := fs\<rparr> in
           if is_dead s1 then sbind poll_complete (\<lambda>_. sret False) s1
           else
             (case poll_ready s1 of
                (Ready (Inl e), s2) \<Rightarrow> (Inl e, s2)
              | (Ready (Inr _), s2) \<Rightarrow> send_all (start_send f s2)
              | (Pending, s2) \<Rightarrow>
                  (case poll_complete (s2\<lparr>ss_write_pending := f # fs\<rparr>) of
                     (Inl e, s3) \<Rightarrow> (Inl e, s3)
                   | (Inr busy, s3) \<Rightarrow> if busy then (Inr True, s3) else send_all s3))))"
  by pat_completeness auto

termination send_all
proof (relation "measure (\<lambda>s. length (ss_write_pending s) + length (ss_flush s))")
qed (auto simp: poll_ready_def poll_complete_def start_send_def split: list.splits poll.splits sum.splits)

declare send_all.simps [simp del]

definition finish :: "bool session_op" where
  "finish = sbind poll_complete (\<lambda>_. sret False)"

text \<open>Induction over the turns of the loop.\<close>

lemma send_all_rule [case_names empty dead error sent busy flushed]:
  assumes "\<And>s. ss_write_pending s = [] \<Longrightarrow> Q s (finish s)"
    and "\<And>s f fs. ss_write_pending s = f # fs \<Longrightarrow> is_dead s \<Longrightarrow> Q s (finish (s\<lparr>ss_write_pending := fs\<rparr>))"
    and "\<And>s f fs e s2. ss_write_pending s = f # fs \<Longrightarrow> \<not> is_dead s \<Longrightarrow>
      poll_ready (s\<lparr>ss_write_pending := fs\<rparr>) = (Ready (Inl e), s2) \<Longrightarrow> Q s (Inl e, s2)"
    and "\<And>s f fs s2. ss_write_pending s = f # fs \<Longrightarrow> \<not> is_dead s \<Longrightarrow>
      poll_ready (s\<lparr>ss_write_pending := fs\<rparr>) = (Ready (Inr ()), s2) \<Longrightarrow>
      Q (start_send f s2) (send_all (start_send f s2)) \<Longrightarrow> Q s (send_all (start_send f s2))"
    and "\<And>s f fs s2 c s3. ss_write_pending s = f # fs \<Longrightarrow> \<not> is_dead s \<Longrightarrow>
      poll_ready (s\<lparr>ss_write_pending := fs\<rparr>) = (Pending, s2) \<Longrightarrow>
      poll_complete (s2\<lparr>ss_write_pending := f # fs\<rparr>) = (c, s3) \<Longrightarrow> c \<noteq> Inr False \<Longrightarrow> Q s (c, s3)"
    and "\<And>s f fs s2 s3. ss_write_pending s = f # fs \<Longrightarrow> \<not> is_dead s \<Longrightarrow>
      poll_ready (s\<lparr>ss_write_pending := fs\<rparr>) = (Pending, s2) \<Longrightarrow>
      poll_complete (s2\<lparr>ss_write_pending := f # fs\<rparr>) = (Inr False, s3) \<Longrightarrow>
      Q s3 (send_all s3) \<Longrightarrow> Q s (send_all s3)"
  shows "Q s (send_all s)"
proof (induction s rule: send_all.induct)
  case (1 s)
  show ?case
  proof (cases "ss_write_pending s")
    case Nil
    with assms(1) show ?thesis by (simp add: send_all.simps [of s] finish_def)
  next
    case (Cons f fs)
    let ?s1 = "s\<lparr>ss_write_pending := fs\<rparr>"
    obtain a s2 where a: "poll_ready ?s1 = (a, s2)" by fastforce
    obtain c s3 where c: "poll_complete (s2\<lparr>ss_write_pending := f # fs\<rparr>) = (c, s3)" by fastforce
    have dead: "is_dead ?s1 = is_dead s" by (simp add: is_dead_def)
    consider "is_dead s" | e where "\<not> is_dead s" "a = Ready (Inl e)" | "\<not> is_dead s" "a = Ready (Inr ())"
      | "\<not> is_dead s" "a = Pending" "c \<noteq> Inr False" | "\<not> is_dead s" "a = Pending" "c = Inr False"
      by (cases a) (auto simp: unit_eq, metis old.sum.exhaust old.unit.exhaust)
    then show ?thesis
    proof cases
      case 1
      with assms(2) [OF Cons] Cons dead show ?thesis by (simp add: send_all.simps [of s] finish_def Let_def)
    next
      case 2
      with assms(3) [OF Cons] Cons dead a show ?thesis by (simp add: send_all.simps [of s] Let_def)
    next
      case 3
      have "Q (start_send f s2) (send_all (start_send f s2))"
        using "1.IH"(1) [OF Cons refl _ a [symmetric]] 3 dead by simp
      with assms(4) [OF Cons] 3 Cons dead a show ?thesis by (simp add: send_all.simps [of s] Let_def)
    next
      case 4
      then have "send_all s = (c, s3)" using Cons dead a c
        by (cases c) (auto simp: send_all.simps [of s] Let_def)
      with assms(5) [OF Cons] 4 a c show ?thesis by simp
    next
      case 5
      have "Q s3 (send_all s3)" using "1.IH"(2) [OF Cons refl _ a [symmetric]] 5 dead c by simp
      with assms(6) [OF Cons] 5 Cons dead a c show ?thesis by (simp add: send_all.simps [of s] Let_def)
    qed
  qed
qed

definition send_frame :: "frame \<Rightarrow> unit session_op" where
  "send_frame f s = sbind send_all (\<lambda>_. sret ()) (s\<lparr>ss_write_pending := ss_write_pending s @ [f]\<rparr>)"

definition send_ping :: "u32 option \<Rightarrow> u32 session_op" where
  "send_ping ping_id s =
     (let (flag, pid, s1) =
        (case ping_id of
           Some i \<Rightarrow> (Ack, i, s)
         | None \<Rightarrow> (let i = ss_ping_id s + 1 in (Syn, i, s\<lparr>ss_ping_id := i\<rparr>)))
      in sbind (send_frame (new_ping (flags_from flag) pid)) (\<lambda>_. sret pid) s1)"

definition send_go_away_with_code :: "go_away_code \<Rightarrow> unit session_op" where
  "send_go_away_with_code code s =
     sbind (send_frame (new_go_away code))
       (\<lambda>_ s1. (Inr (), s1\<lparr>ss_local_go_away := True, ss_ticks := tl (ss_ticks s1),
          ss_keepalive := Some (connection_write_timeout (ss_config s1))\<rparr>))
       (s\<lparr>ss_write_pending := []\<rparr>)"

definition session_send_go_away :: "unit session_op" where
  "session_send_go_away = send_go_away_with_code GoNormal"

definition shutdown :: "unit session_op" where
  "shutdown s =
     (if is_dead s then (Inr (), s)
      else session_send_go_away (s\<lparr>ss_write_pending := []\<rparr>))"

definition keep_alive :: "nat \<Rightarrow> unit session_op" where
  "keep_alive ping_at s =
     (if \<exists>(_, time) \<in> set (ss_pings s). ping_at - time > TIMEOUT then (Inl IoTimedOut, s)
      else sbind (send_ping None)
             (\<lambda>pid s1. (Inr (), s1\<lparr>ss_pings := pings_insert pid ping_at (ss_pings s1)\<rparr>)) s)"

section \<open>Opening streams\<close>

text \<open>
  The new handle pushes its first window update into the event channel of the session, so what it
  pushed is moved there.
\<close>

definition create_stream :: "u32 option \<Rightarrow> session \<Rightarrow> (yamux_error + stream_handle) \<times> session" where
  "create_stream stream_id s =
     (let r = (case stream_id of
                 Some i \<Rightarrow> Inr (i, SynReceived, s)
               | None \<Rightarrow>
                   (case checked_add (ss_next_stream_id s) 2 of
                      None \<Rightarrow> Inl StreamsExhausted
                    | Some n \<Rightarrow> Inr (ss_next_stream_id s, Init, s\<lparr>ss_next_stream_id := n\<rparr>)))
      in case r of
           Inl e \<Rightarrow> (Inl e, s)
         | Inr (i, st, s1) \<Rightarrow>
             (case map_of (ss_streams s1) i of
                Some _ \<Rightarrow> (Inl DuplicateStream, s1)
              | None \<Rightarrow>
                  (let h = snd (send_window_update (stream_new i st (max_stream_window_size (ss_config s1))))
                   in (Inr (h\<lparr>sh_events := []\<rparr>),
                       s1\<lparr>ss_streams := (i, []) # ss_streams s1, ss_events := ss_events s1 @ sh_events h\<rparr>))))"

definition open_stream :: "session \<Rightarrow> (yamux_error + stream_handle) \<times> session" where
  "open_stream s =
     (if is_dead s then (Inl SessionShutdown, s)
      else if ss_remote_go_away s then (Inl RemoteGoAway, s)
      else create_stream None s)"

text \<open>
  The two sides of \<^verbatim>\<open>Control\<close>: whether the command could be sent, and what came back over the
  one-shot channel (\<open>None\<close>: its sender was dropped).
\<close>

definition control_open_stream :: "bool \<Rightarrow> (yamux_error + stream_handle) option \<Rightarrow> yamux_error + stream_handle" where
  "control_open_stream sent answer =
     (if \<not> sent then Inl SessionShutdown
      else (case answer of None \<Rightarrow> Inl SessionShutdown | Some r \<Rightarrow> r))"

section \<open>Receiving\<close>

text \<open>
  The two halves of the body of \<^verbatim>\<open>distribute_to_substream\<close>. \<open>accept_syn\<close> treats a frame that opens a
  stream; \<open>Inr False\<close> is the early return of the loop.
\<close>

definition accept_syn :: "frame \<Rightarrow> bool session_op" where
  "accept_syn f s =
     (let i = frame_stream_id f in
      if \<not> flags_contains (frame_flags f) Syn then (Inr True, s)
      else if ss_local_go_away s then
        sbind (send_frame (new_window_update (flags_from Rst) i 0)) (\<lambda>_. sret False) s
      else if length (ss_streams s) < max_stream_count (ss_config s)
              \<and> length (ss_pending_streams s) < accept_backlog (ss_config s) then
        (case create_stream (Some i) s of
           (Inr h, s1) \<Rightarrow> (Inr True, s1\<lparr>ss_pending_streams := ss_pending_streams s1 @ [h]\<rparr>)
         | (Inl _, s1) \<Rightarrow> sbind (send_go_away_with_code GoProtocolError) (\<lambda>_. sret False) s1)
      else
        (Inr True, s\<lparr>ss_write_pending :=
           ss_write_pending s @ [new_window_update (flags_add (flags_from Ack) Rst) i 0]\<rparr>))"

text \<open>\<open>deliver_frame\<close> hands a frame to its stream; the first component says that the stream is blocked.\<close>

definition deliver_frame :: "frame \<Rightarrow> session \<Rightarrow> bool \<times> session" where
  "deliver_frame f s =
     (let i = frame_stream_id f in
      case map_of (ss_streams s) i of
        None \<Rightarrow> (False, s)
      | Some log \<Rightarrow>
          (let a = (case ss_sub s of [] \<Rightarrow> ReadyPending | a # _ \<Rightarrow> a);
               s1 = s\<lparr>ss_sub := tl (ss_sub s)\<rparr>
           in case a of
                SendOk \<Rightarrow> (False, s1\<lparr>ss_streams := AList.update i (log @ [f]) (ss_streams s1)\<rparr>)
              | SendFull \<Rightarrow> (True, s1\<lparr>ss_read_pending := ss_read_pending s1 @ [f]\<rparr>)
              | ReadyPending \<Rightarrow> (True, s1\<lparr>ss_read_pending := ss_read_pending s1 @ [f]\<rparr>)
              | SendDisconnected \<Rightarrow> (False, s1\<lparr>ss_streams := AList.delete i (ss_streams s1)\<rparr>)
              | ReadyErr \<Rightarrow> (False, s1\<lparr>ss_streams := AList.delete i (ss_streams s1)\<rparr>)))"

fun distribute_loop :: "frame list \<Rightarrow> u32 list \<Rightarrow> unit session_op" where
  "distribute_loop [] blocked s = (Inr (), s)"
| "distribute_loop (f # fs) blocked s =
     (if frame_stream_id f \<in> set blocked
      then distribute_loop fs blocked (s\<lparr>ss_read_pending := ss_read_pending s @ [f]\<rparr>)
      else
        (case accept_syn f s of
           (Inl e, s1) \<Rightarrow> (Inl e, s1)
         | (Inr False, s1) \<Rightarrow> (Inr (), s1)
         | (Inr True, s1) \<Rightarrow>
             (case deliver_frame f s1 of
                (block, s2) \<Rightarrow>
                  distribute_loop fs (if block then frame_stream_id f # blocked else blocked) s2)))"

definition distribute_to_substream :: "unit session_op" where
  "distribute_to_substream s = distribute_loop (ss_read_pending s) [] (s\<lparr>ss_read_pending := []\<rparr>)"

definition session_flush :: "unit session_op" where
  "session_flush s =
     (if ss_read_pending s \<noteq> [] \<or> ss_write_pending s \<noteq> []
      then sbind send_all (\<lambda>_. distribute_to_substream) s
      else (Inr (), s))"

definition handle_stream_message :: "frame \<Rightarrow> unit session_op" where
  "handle_stream_message f s =
     distribute_to_substream (s\<lparr>ss_read_pending := ss_read_pending s @ [f]\<rparr>)"

definition handle_ping :: "frame \<Rightarrow> unit session_op" where
  "handle_ping f s =
     (if flags_contains (frame_flags f) Syn then
        sbind (send_ping (Some (frame_length f))) (\<lambda>_. sret ()) s
      else if flags_contains (frame_flags f) Ack then
        (Inr (), s\<lparr>ss_pings := pings_split_off (frame_length f) (pings_remove (frame_length f) (ss_pings s))\<rparr>)
      else (Inr (), s))"

text \<open>All codes, known or not, have the same effect.\<close>

definition go_away_close :: "unit session_op" where
  "go_away_close s =
     (let s1 = s\<lparr>ss_remote_go_away := True, ss_write_pending := []\<rparr>
      in if ss_local_go_away s1 then (Inr (), s1) else session_send_go_away s1)"

definition handle_go_away :: "frame \<Rightarrow> unit session_op" where
  "handle_go_away f =
     (case go_away_from (frame_length f) of
        GoNormal \<Rightarrow> go_away_close
      | GoProtocolError \<Rightarrow> go_away_close
      | GoInternalError \<Rightarrow> go_away_close)"

definition session_handle_frame :: "frame \<Rightarrow> unit session_op" where
  "session_handle_frame f =
     (case frame_ty f of
        Data \<Rightarrow> handle_stream_message f
      | WindowUpdate \<Rightarrow> handle_stream_message f
      | Ping \<Rightarrow> handle_ping f
      | GoAway \<Rightarrow> handle_go_away f)"

definition handle_event :: "stream_event \<Rightarrow> unit session_op" where
  "handle_event ev s =
     (case ev of
        EvFrame f \<Rightarrow> send_frame f s
      | EvClosed i \<Rightarrow> (Inr (), s\<lparr>ss_streams := AList.delete i (ss_streams s)\<rparr>)
      | EvGoAway \<Rightarrow> send_go_away_with_code GoProtocolError s)"

section \<open>Polling\<close>

text \<open>The three sources \<^verbatim>\<open>poll_next\<close> polls in each turn; \<open>Inr True\<close> is a pending source.\<close>

definition session_recv_frames :: "bool session_op" where
  "session_recv_frames s =
     (case ss_incoming s of
        [] \<Rightarrow> (Inr True, s)
      | Incoming f # as \<Rightarrow> sbind (session_handle_frame f) (\<lambda>_. sret False) (s\<lparr>ss_incoming := as\<rparr>)
      | IncomingEnd # as \<Rightarrow> (Inr False, s\<lparr>ss_incoming := as, ss_eof := True\<rparr>)
      | IncomingErr e # as \<Rightarrow> (Inl e, s\<lparr>ss_incoming := as\<rparr>))"

definition recv_events :: "bool session_op" where
  "recv_events s =
     (case ss_events s of
        [] \<Rightarrow> (Inr True, s)
      | ev # evs \<Rightarrow> sbind (handle_event ev) (\<lambda>_. sret False) (s\<lparr>ss_events := evs\<rparr>))"

definition control_poll :: "bool session_op" where
  "control_poll s =
     (case ss_commands s of
        [] \<Rightarrow> (Inr True, s)
      | OpenStream # cs \<Rightarrow>
          (case open_stream (s\<lparr>ss_commands := cs\<rparr>) of
             (r, s1) \<Rightarrow> (Inr False, s1\<lparr>ss_replies := ss_replies s1 @ [Opened r]\<rparr>))
      | Shutdown # cs \<Rightarrow>
          sbind shutdown (\<lambda>_ s1. (Inr False, s1\<lparr>ss_replies := ss_replies s1 @ [ShutDown]\<rparr>))
            (s\<lparr>ss_commands := cs\<rparr>))"

type_synonym poll_item = "(io_kind + stream_handle) option poll"

text \<open>The keepalive timer at the start of \<^verbatim>\<open>poll_next\<close>: whether it fired.\<close>

definition poll_keepalive :: "nat \<Rightarrow> bool session_op" where
  "poll_keepalive now s =
     (case ss_keepalive s of
        None \<Rightarrow> (Inr False, s)
      | Some _ \<Rightarrow>
          (case ss_ticks s of
             Tick # ts \<Rightarrow>
               (let s1 = s\<lparr>ss_ticks := ts\<rparr> in
                if ss_local_go_away s1 then (Inr True, s1\<lparr>ss_remote_go_away := True\<rparr>)
                else sbind (keep_alive now) (\<lambda>_. sret True) s1)
           | _ # ts \<Rightarrow> (Inr False, s\<lparr>ss_ticks := ts\<rparr>)
           | [] \<Rightarrow> (Inr False, s)))"

text \<open>One turn of the loop: all three sources pending, or not.\<close>

definition poll_sources :: "bool session_op" where
  "poll_sources =
     sbind control_poll (\<lambda>p1. sbind session_recv_frames (\<lambda>p2. sbind recv_events (\<lambda>p3. sret (p1 \<and> p2 \<and> p3))))"

text \<open>
  The loop of \<^verbatim>\<open>poll_next\<close>: a result for the caller, or \<open>Inr need_wake\<close> when it gives up for now.
\<close>

fun poll_loop :: "nat \<Rightarrow> bool \<Rightarrow> session \<Rightarrow> (poll_item + bool) \<times> session" where
  "poll_loop 0 need_wake s = (Inr need_wake, s)"
| "poll_loop (Suc n) need_wake s =
     (if is_dead s then (Inl (Ready None), s)
      else
        (case sbind session_flush (\<lambda>_. poll_complete) s of
           (Inl e, s1) \<Rightarrow> (Inl (Ready (Some (Inl e))), s1)
         | (Inr _, s1) \<Rightarrow>
             (case ss_pending_streams s1 of
                h # hs \<Rightarrow> (Inl (Ready (Some (Inr h))), s1\<lparr>ss_pending_streams := hs\<rparr>)
              | [] \<Rightarrow>
                  (case poll_sources s1 of
                     (Inl e, s2) \<Rightarrow> (Inl (Ready (Some (Inl e))), s2)
                   | (Inr True, s2) \<Rightarrow> (Inr False, s2)
                   | (Inr False, s2) \<Rightarrow> poll_loop n True s2))))"

definition session_poll_next :: "nat \<Rightarrow> session \<Rightarrow> poll_item \<times> session" where
  "session_poll_next now s =
     (if is_dead s then (Ready None, s)
      else
        (case poll_keepalive now s of
           (Inl e, s1) \<Rightarrow> (Ready (Some (Inl e)), s1)
         | (Inr keep_alive_wake, s1) \<Rightarrow>
             (case poll_loop 16 False s1 of
                (Inl item, s2) \<Rightarrow> (item, s2)
              | (Inr need_wake, s2) \<Rightarrow>
                  (Pending, if need_wake \<or> keep_alive_wake then s2\<lparr>ss_woken := Suc (ss_woken s2)\<rparr> else s2))))"

end
