(* ===== verification/Yamux_Session_Invariant.thy ===== *)
theory Yamux_Session_Invariant
  imports Yamux_Session "HOL-Library.Sublist"
begin

text \<open>
  Invariants of the yamux session (\<^verbatim>\<open>yamux/src/session.rs\<close>). The locale \<open>session_invariant\<close> lists what a
  predicate on sessions needs to survive the elementary changes the code makes; in it, every operation up
  to \<^verbatim>\<open>poll_next\<close> is shown to keep the predicate. Its instances are the consistency of the tables, the
  finality of the go-away flags, and the growth of what was sent.
\<close>

section \<open>Predicates kept by every operation\<close>

locale session_invariant =
  fixes P :: "session \<Rightarrow> bool"
  assumes inv_queues:
      "P (s\<lparr>ss_write_pending := fs\<rparr>) = P s" "P (s\<lparr>ss_read_pending := fs\<rparr>) = P s"
      "P (s\<lparr>ss_events := evs\<rparr>) = P s" "P (s\<lparr>ss_commands := cs\<rparr>) = P s" "P (s\<lparr>ss_replies := rs\<rparr>) = P s"
    and inv_scripts:
      "P (s\<lparr>ss_ready := as\<rparr>) = P s" "P (s\<lparr>ss_flush := as\<rparr>) = P s" "P (s\<lparr>ss_incoming := is\<rparr>) = P s"
      "P (s\<lparr>ss_sub := ans\<rparr>) = P s" "P (s\<lparr>ss_ticks := ts\<rparr>) = P s"
    and inv_timer: "P (s\<lparr>ss_keepalive := k\<rparr>) = P s" "P (s\<lparr>ss_woken := n\<rparr>) = P s" "P (s\<lparr>ss_ping_id := i\<rparr>) = P s"
    and inv_sent: "P s \<Longrightarrow> P (s\<lparr>ss_sent := ss_sent s @ [f]\<rparr>)"
    and inv_flags: "P s \<Longrightarrow> P (s\<lparr>ss_remote_go_away := True\<rparr>)" "P s \<Longrightarrow> P (s\<lparr>ss_local_go_away := True\<rparr>)"
      "P s \<Longrightarrow> P (s\<lparr>ss_eof := True\<rparr>)"
    and inv_next_id: "P s \<Longrightarrow> checked_add (ss_next_stream_id s) 2 = Some i \<Longrightarrow> P (s\<lparr>ss_next_stream_id := i\<rparr>)"
    and inv_insert: "P s \<Longrightarrow> map_of (ss_streams s) i = None \<Longrightarrow> P (s\<lparr>ss_streams := (i, []) # ss_streams s\<rparr>)"
    and inv_log: "P s \<Longrightarrow> map_of (ss_streams s) i = Some log \<Longrightarrow> P (s\<lparr>ss_streams := AList.update i (log @ [f]) (ss_streams s)\<rparr>)"
    and inv_delete: "P s \<Longrightarrow> P (s\<lparr>ss_streams := AList.delete i (ss_streams s)\<rparr>)"
    and inv_push: "P s \<Longrightarrow> length (ss_pending_streams s) < accept_backlog (ss_config s) \<Longrightarrow>
      P (s\<lparr>ss_pending_streams := ss_pending_streams s @ [h]\<rparr>)"
    and inv_pop: "P s \<Longrightarrow> ss_pending_streams s = h # hs \<Longrightarrow> P (s\<lparr>ss_pending_streams := hs\<rparr>)"
    and inv_pings: "P s \<Longrightarrow> P (s\<lparr>ss_pings := pings_insert i t (ss_pings s)\<rparr>)"
      "P s \<Longrightarrow> P (s\<lparr>ss_pings := pings_split_off i (pings_remove i (ss_pings s))\<rparr>)"
begin

lemmas inv_plain = inv_queues inv_scripts inv_timer

lemma inv_sbind:
  assumes "P s" and "sbind p k s = (r, s')"
    and "\<And>r1 s1. p s = (r1, s1) \<Longrightarrow> P s1"
    and "\<And>x s1 r2 s2. p s = (Inr x, s1) \<Longrightarrow> P s1 \<Longrightarrow> k x s1 = (r2, s2) \<Longrightarrow> P s2"
  shows "P s'"
  using assms(2) by (auto simp: sbind_def intro: assms(3,4) split: prod.splits sum.splits)

lemma inv_poll_complete: "P s \<Longrightarrow> poll_complete s = (r, s') \<Longrightarrow> P s'"
  by (auto simp: poll_complete_def inv_plain split: list.splits poll.splits sum.splits)

lemma inv_poll_ready: "P s \<Longrightarrow> poll_ready s = (r, s') \<Longrightarrow> P s'"
  by (auto simp: poll_ready_def inv_plain split: list.splits)

lemma inv_finish: "P s \<Longrightarrow> finish s = (r, s') \<Longrightarrow> P s'"
  by (auto simp: finish_def sbind_def sret_def dest: inv_poll_complete split: prod.splits sum.splits)

lemma inv_send_all:
  assumes "P s" and "send_all s = (r, s')"
  shows "P s'"
proof -
  have fin: "P s \<Longrightarrow> P (snd (finish s))" for s
    using inv_finish [of s "fst (finish s)" "snd (finish s)"] by simp
  have "P s \<Longrightarrow> P (snd (send_all s))"
  proof (rule send_all_rule [where Q = "\<lambda>s x. P s \<longrightarrow> P (snd x)", THEN mp])
    fix s f fs e s2
    assume "poll_ready (s\<lparr>ss_write_pending := fs\<rparr>) = (Ready (Inl e), s2)"
    then show "P s \<longrightarrow> P (snd (Inl e, s2))" using inv_poll_ready [of "s\<lparr>ss_write_pending := fs\<rparr>"] by (auto simp: inv_plain)
  next
    fix s f fs s2
    assume "poll_ready (s\<lparr>ss_write_pending := fs\<rparr>) = (Ready (Inr ()), s2)"
      "P (start_send f s2) \<longrightarrow> P (snd (send_all (start_send f s2)))"
    then show "P s \<longrightarrow> P (snd (send_all (start_send f s2)))"
      using inv_poll_ready [of "s\<lparr>ss_write_pending := fs\<rparr>"] by (auto simp: inv_plain inv_sent start_send_def)
  next
    fix s f fs s2 c s3
    assume "poll_ready (s\<lparr>ss_write_pending := fs\<rparr>) = (Pending, s2)"
      "poll_complete (s2\<lparr>ss_write_pending := f # fs\<rparr>) = (c, s3)"
    then show "P s \<longrightarrow> P (snd (c, s3))"
      using inv_poll_ready [of "s\<lparr>ss_write_pending := fs\<rparr>"] inv_poll_complete [of "s2\<lparr>ss_write_pending := f # fs\<rparr>"]
      by (auto simp: inv_plain)
  next
    fix s f fs s2 s3
    assume a: "poll_ready (s\<lparr>ss_write_pending := fs\<rparr>) = (Pending, s2)"
      and c: "poll_complete (s2\<lparr>ss_write_pending := f # fs\<rparr>) = (Inr False, s3)"
      and IH: "P s3 \<longrightarrow> P (snd (send_all s3))"
    show "P s \<longrightarrow> P (snd (send_all s3))"
    proof
      assume "P s"
      then have "P s2" using inv_poll_ready [OF _ a] by (simp add: inv_plain)
      then have "P s3" using inv_poll_complete [OF _ c] by (simp add: inv_plain)
      with IH show "P (snd (send_all s3))" by simp
    qed
  qed (auto simp: inv_plain fin)
  with assms show ?thesis by simp
qed

lemma inv_send_frame: "P s \<Longrightarrow> send_frame f s = (r, s') \<Longrightarrow> P s'"
  by (auto simp: send_frame_def sbind_def sret_def inv_plain split: prod.splits sum.splits
      dest: inv_send_all [rotated])

lemma inv_send_ping: "P s \<Longrightarrow> send_ping i s = (r, s') \<Longrightarrow> P s'"
  by (auto simp: send_ping_def sbind_def sret_def inv_plain Let_def split: option.splits prod.splits sum.splits
      dest: inv_send_frame [rotated])

lemma inv_go_away: "P s \<Longrightarrow> send_go_away_with_code c s = (r, s') \<Longrightarrow> P s'"
  by (auto simp: send_go_away_with_code_def sbind_def inv_plain inv_flags split: prod.splits sum.splits
      dest: inv_send_frame [rotated])

lemma inv_shutdown: "P s \<Longrightarrow> shutdown s = (r, s') \<Longrightarrow> P s'"
  by (auto simp: shutdown_def session_send_go_away_def inv_plain split: if_splits dest: inv_go_away [rotated])

lemma inv_keep_alive: "P s \<Longrightarrow> keep_alive t s = (r, s') \<Longrightarrow> P s'"
  by (auto simp: keep_alive_def sbind_def inv_pings split: if_splits prod.splits sum.splits
      dest: inv_send_ping [rotated])

lemma inv_create_stream:
  assumes "P s" and "create_stream i s = (r, s')"
  shows "P s' \<and> ss_pending_streams s' = ss_pending_streams s \<and> ss_config s' = ss_config s"
proof (cases i)
  case (Some j)
  with assms show ?thesis
    by (auto simp: create_stream_def inv_plain inv_insert Let_def split: option.splits)
next
  case None
  show ?thesis
  proof (cases "checked_add (ss_next_stream_id s) 2")
    case (Some n)
    have "P (s\<lparr>ss_next_stream_id := n\<rparr>)" using assms(1) Some by (rule inv_next_id)
    moreover from this have "P (s\<lparr>ss_next_stream_id := n, ss_streams := (j, []) # ss_streams s\<rparr>)"
      if "map_of (ss_streams s) j = None" for j
      using inv_insert [of "s\<lparr>ss_next_stream_id := n\<rparr>" j] that by simp
    ultimately show ?thesis
      using assms(2) None Some by (auto simp: create_stream_def inv_plain Let_def split: option.splits)
  qed (use assms None in \<open>auto simp: create_stream_def\<close>)
qed

lemma inv_open_stream: "P s \<Longrightarrow> open_stream s = (r, s') \<Longrightarrow> P s'"
  by (auto simp: open_stream_def split: if_splits dest: inv_create_stream)

lemma inv_accept_syn:
  assumes "P s" and "accept_syn f s = (r, s')"
  shows "P s'"
proof -
  obtain rc s1 where cs: "create_stream (Some (frame_stream_id f)) s = (rc, s1)" by fastforce
  have c: "P s1" "ss_pending_streams s1 = ss_pending_streams s" "ss_config s1 = ss_config s"
    using inv_create_stream [OF assms(1) cs] by simp_all
  have "P (s1\<lparr>ss_pending_streams := ss_pending_streams s1 @ [h]\<rparr>)"
    if "length (ss_pending_streams s) < accept_backlog (ss_config s)" for h
    using inv_push [OF c(1)] c that by simp
  with assms cs c show ?thesis
    by (auto simp: accept_syn_def sbind_def sret_def inv_plain Let_def split: if_splits sum.splits prod.splits
        dest: inv_send_frame [rotated] inv_go_away [rotated])
qed

lemma inv_deliver_frame:
  assumes "P s" and "deliver_frame f s = (b, s')"
  shows "P s'"
proof -
  let ?s1 = "s\<lparr>ss_sub := tl (ss_sub s)\<rparr>"
  have "P ?s1" using assms(1) by (simp add: inv_plain)
  with assms inv_log [of ?s1] inv_delete [of ?s1] show ?thesis
    by (auto simp: deliver_frame_def inv_plain Let_def split: option.splits send_answer.splits)
qed

lemma inv_distribute_loop: "P s \<Longrightarrow> distribute_loop fs blocked s = (r, s') \<Longrightarrow> P s'"
proof (induction fs arbitrary: blocked s)
  case (Cons f fs)
  show ?case
  proof (cases "frame_stream_id f \<in> set blocked")
    case True
    have "P (s\<lparr>ss_read_pending := ss_read_pending s @ [f]\<rparr>)" using Cons.prems(1) by (simp add: inv_plain)
    from Cons.IH [OF this] Cons.prems(2) True show ?thesis by simp
  next
    case False
    obtain a s1 where a: "accept_syn f s = (a, s1)" by fastforce
    obtain b s2 where b: "deliver_frame f s1 = (b, s2)" by fastforce
    have "P s1" using Cons.prems(1) a by (rule inv_accept_syn)
    moreover from this have "P s2" using b by (rule inv_deliver_frame)
    ultimately show ?thesis
      using Cons.IH [of s2] Cons.prems(2) False a b by (auto split: sum.splits bool.splits)
  qed
qed simp

lemma inv_distribute: "P s \<Longrightarrow> distribute_to_substream s = (r, s') \<Longrightarrow> P s'"
  unfolding distribute_to_substream_def by (rule inv_distribute_loop) (simp_all add: inv_plain)

lemma inv_flush: "P s \<Longrightarrow> session_flush s = (r, s') \<Longrightarrow> P s'"
  by (auto simp: session_flush_def sbind_def split: if_splits prod.splits sum.splits
      dest: inv_send_all [rotated] inv_distribute [rotated])

lemma inv_go_away_close: "P s \<Longrightarrow> go_away_close s = (r, s') \<Longrightarrow> P s'"
  by (auto simp: go_away_close_def session_send_go_away_def inv_plain inv_flags Let_def split: if_splits
      dest: inv_go_away [rotated])

lemma inv_handle_frame:
  assumes "P s" and "session_handle_frame f s = (r, s')"
  shows "P s'"
proof -
  have "P s'" if "handle_stream_message f s = (r, s')"
    using that assms(1) by (auto simp: handle_stream_message_def inv_plain dest: inv_distribute [rotated])
  moreover have "P s'" if "handle_ping f s = (r, s')"
    using that assms(1) by (auto simp: handle_ping_def sbind_def sret_def inv_pings
        split: if_splits prod.splits sum.splits dest: inv_send_ping [rotated])
  moreover have "P s'" if "handle_go_away f s = (r, s')"
    using that assms(1) by (auto simp: handle_go_away_def split: go_away_code.splits dest: inv_go_away_close [rotated])
  ultimately show ?thesis
    using assms(2) by (auto simp: session_handle_frame_def split: frame_type.splits)
qed

lemma inv_handle_event: "P s \<Longrightarrow> handle_event ev s = (r, s') \<Longrightarrow> P s'"
  by (auto simp: handle_event_def inv_delete split: stream_event.splits
      dest: inv_send_frame [rotated] inv_go_away [rotated])

lemma inv_recv_frames: "P s \<Longrightarrow> session_recv_frames s = (r, s') \<Longrightarrow> P s'"
  by (auto simp: session_recv_frames_def sbind_def sret_def inv_plain inv_flags
      split: list.splits stream_answer.splits prod.splits sum.splits dest: inv_handle_frame [rotated])

lemma inv_recv_events: "P s \<Longrightarrow> recv_events s = (r, s') \<Longrightarrow> P s'"
  by (auto simp: recv_events_def sbind_def sret_def inv_plain split: list.splits prod.splits sum.splits
      dest: inv_handle_event [rotated])

lemma inv_control_poll: "P s \<Longrightarrow> control_poll s = (r, s') \<Longrightarrow> P s'"
  by (auto simp: control_poll_def sbind_def inv_plain split: list.splits command.splits prod.splits sum.splits
      dest: inv_open_stream [rotated] inv_shutdown [rotated])

lemma inv_poll_keepalive: "P s \<Longrightarrow> poll_keepalive now s = (r, s') \<Longrightarrow> P s'"
  by (auto simp: poll_keepalive_def sbind_def sret_def inv_plain inv_flags Let_def
      split: option.splits list.splits tick.splits if_splits prod.splits sum.splits dest: inv_keep_alive [rotated])

lemma inv_poll_sources: "P s \<Longrightarrow> poll_sources s = (r, s') \<Longrightarrow> P s'"
  by (auto simp: poll_sources_def sbind_def sret_def split: prod.splits sum.splits
      dest: inv_control_poll [rotated] inv_recv_frames [rotated] inv_recv_events [rotated])

lemma inv_turn: "P s \<Longrightarrow> sbind session_flush (\<lambda>_. poll_complete) s = (r, s') \<Longrightarrow> P s'"
  by (auto simp: sbind_def split: prod.splits sum.splits dest: inv_flush [rotated] inv_poll_complete [rotated])

lemma inv_poll_loop: "P s \<Longrightarrow> poll_loop n w s = (r, s') \<Longrightarrow> P s'"
proof (induction n arbitrary: w s)
  case (Suc n)
  obtain r1 s1 where t: "sbind session_flush (\<lambda>_. poll_complete) s = (r1, s1)" by fastforce
  obtain r2 s2 where q: "poll_sources s1 = (r2, s2)" by fastforce
  have P1: "P s1" using Suc.prems(1) t by (rule inv_turn)
  then have P2: "P s2" using q by (rule inv_poll_sources)
  have IH: "poll_loop n True s2 = (r, s') \<Longrightarrow> P s'" using P2 by (rule Suc.IH)
  show ?case
    using Suc.prems t q P1 P2 inv_pop [OF P1] IH
    by (auto split: if_splits sum.splits list.splits bool.splits)
qed simp

lemma inv_poll_next:
  assumes "P s" and "session_poll_next now s = (r, s')"
  shows "P s'"
proof -
  obtain r1 s1 where k: "poll_keepalive now s = (r1, s1)" by fastforce
  obtain r2 s2 where l: "poll_loop 16 False s1 = (r2, s2)" by fastforce
  have "P s1" using assms(1) k by (rule inv_poll_keepalive)
  moreover from this have "P s2" using l by (rule inv_poll_loop)
  ultimately show ?thesis
    using assms k l by (auto simp: session_poll_next_def inv_plain split: if_splits sum.splits)
qed

end

section \<open>Reachable sessions\<close>

text \<open>
  The public operations, in any order; in between, the environment provides answers, events and commands,
  here any change of the scripts and channels.
\<close>

definition same_session :: "session \<Rightarrow> session \<Rightarrow> bool" where
  "same_session s s' \<longleftrightarrow>
     s' = s\<lparr>ss_events := ss_events s', ss_commands := ss_commands s', ss_ready := ss_ready s', ss_flush := ss_flush s',
       ss_incoming := ss_incoming s', ss_sub := ss_sub s', ss_ticks := ss_ticks s'\<rparr>"

inductive session_step :: "session \<Rightarrow> session \<Rightarrow> bool" where
  step_poll: "session_poll_next now s = (p, s') \<Longrightarrow> session_step s s'"
| step_open: "open_stream s = (r, s') \<Longrightarrow> session_step s s'"
| step_shutdown: "shutdown s = (q, s') \<Longrightarrow> session_step s s'"
| step_go_away: "session_send_go_away s = (q, s') \<Longrightarrow> session_step s s'"
| step_env: "same_session s s' \<Longrightarrow> session_step s s'"

inductive session_reach :: "session \<Rightarrow> session \<Rightarrow> bool" for s0 where
  sreach_refl: "session_reach s0 s0"
| sreach_step: "session_reach s0 s \<Longrightarrow> session_step s s' \<Longrightarrow> session_reach s0 s'"

context session_invariant
begin

lemma inv_env: "same_session s s' \<Longrightarrow> P s \<Longrightarrow> P s'"
  unfolding same_session_def by (drule arg_cong [of _ _ P]) (simp only: inv_plain)

lemma inv_step: "session_step s s' \<Longrightarrow> P s \<Longrightarrow> P s'"
  by (induction rule: session_step.induct)
    (auto simp: session_send_go_away_def dest: inv_poll_next inv_open_stream inv_shutdown inv_go_away inv_env)

lemma inv_reach: "session_reach s0 s \<Longrightarrow> P s0 \<Longrightarrow> P s"
  by (induction rule: session_reach.induct) (auto dest: inv_step)

end

section \<open>The tables\<close>

definition tables_ok :: "config \<Rightarrow> session_type \<Rightarrow> session \<Rightarrow> bool" where
  "tables_ok cfg ty s \<longleftrightarrow> ss_config s = cfg \<and> ss_ty s = ty \<and>
     distinct (map fst (ss_streams s)) \<and> sorted_wrt (<) (map fst (ss_pings s)) \<and>
     length (ss_pending_streams s) \<le> accept_backlog cfg \<and>
     odd (unat (ss_next_stream_id s)) = is_client ty"

lemma pings_insert_sorted:
  "sorted_wrt (<) (map fst ps) \<Longrightarrow> sorted_wrt (<) (map fst (pings_insert k v ps)) \<and>
     set (map fst (pings_insert k v ps)) = insert k (set (map fst ps))"
  by (induction k v ps rule: pings_insert.induct) auto

lemma sorted_filter_keys: "sorted_wrt (<) (map fst ps) \<Longrightarrow> sorted_wrt (<) (map fst (filter Q ps))"
  by (induction ps) auto

lemma next_id_parity: "checked_add i 2 = Some j \<Longrightarrow> odd (unat j) = odd (unat i) \<and> unat j = unat i + 2"
  by (auto simp: checked_add_Some unat_add_u32)

interpretation tables: session_invariant "tables_ok cfg ty"
  by unfold_locales
    (auto simp: tables_ok_def pings_insert_sorted pings_split_off_def pings_remove_def sorted_filter_keys
      next_id_parity distinct_update distinct_delete map_of_eq_None_iff)

interpretation flags: session_invariant
  "\<lambda>s. (remote \<longrightarrow> ss_remote_go_away s) \<and> (local \<longrightarrow> ss_local_go_away s) \<and> (ended \<longrightarrow> ss_eof s)"
  by unfold_locales auto

interpretation sent: session_invariant "\<lambda>s. prefix fs (ss_sent s)"
  by unfold_locales auto

end
