(* ===== verification/Yamux_Session_Safety.thy ===== *)
theory Yamux_Session_Safety
  imports Yamux_Session_Invariant
begin

text \<open>
  What the yamux session (\<^verbatim>\<open>yamux/src/session.rs\<close>) guarantees: consistent tables, frames sent and
  distributed in order and without loss, stream ids that never repeat, pings that time out, and go-away
  flags that end the session for good.
\<close>

section \<open>Sending in order\<close>

lemma poll_complete_same:
  "poll_complete s = (r, s') \<Longrightarrow> ss_sent s' = ss_sent s \<and> ss_write_pending s' = ss_write_pending s"
  by (auto simp: poll_complete_def split: list.splits poll.splits sum.splits)

lemma poll_ready_same:
  "poll_ready s = (r, s') \<Longrightarrow> ss_sent s' = ss_sent s \<and> ss_write_pending s' = ss_write_pending s \<and> is_dead s' = is_dead s"
  by (auto simp: poll_ready_def is_dead_def split: list.splits)

lemma poll_complete_dead: "poll_complete s = (r, s') \<Longrightarrow> is_dead s' = is_dead s"
  by (auto simp: poll_complete_def is_dead_def split: list.splits poll.splits sum.splits)

definition sends_in_order :: "session \<Rightarrow> (io_kind + bool) \<times> session \<Rightarrow> bool" where
  "sends_in_order s x \<longleftrightarrow>
     (case fst x of
        Inr busy \<Rightarrow> ss_sent (snd x) @ ss_write_pending (snd x) = ss_sent s @ ss_write_pending s \<and>
          (\<not> busy \<longrightarrow> ss_write_pending (snd x) = [])
      | Inl e \<Rightarrow> prefix (ss_sent (snd x)) (ss_sent s @ ss_write_pending s))"

lemma sends_in_order_eq:
  "ss_sent s1 @ ss_write_pending s1 = ss_sent s @ ss_write_pending s \<Longrightarrow> sends_in_order s1 x = sends_in_order s x"
  unfolding sends_in_order_def by (simp only:)

lemma send_all_in_order: "\<not> is_dead s \<Longrightarrow> sends_in_order s (send_all s)"
proof (rule send_all_rule [where Q = "\<lambda>s x. \<not> is_dead s \<longrightarrow> sends_in_order s x", THEN mp])
  fix s :: session
  assume "ss_write_pending s = []"
  then show "\<not> is_dead s \<longrightarrow> sends_in_order s (finish s)"
    by (auto simp: finish_def sbind_def sret_def sends_in_order_def dest: poll_complete_same
        split: prod.splits sum.splits)
next
  fix s f fs e s2
  assume "ss_write_pending s = f # fs" "poll_ready (s\<lparr>ss_write_pending := fs\<rparr>) = (Ready (Inl e), s2)"
  then show "\<not> is_dead s \<longrightarrow> sends_in_order s (Inl e, s2)"
    by (auto simp: sends_in_order_def dest!: poll_ready_same)
next
  fix s f fs s2
  assume w: "ss_write_pending s = f # fs" and a: "poll_ready (s\<lparr>ss_write_pending := fs\<rparr>) = (Ready (Inr ()), s2)"
    and IH: "\<not> is_dead (start_send f s2) \<longrightarrow> sends_in_order (start_send f s2) (send_all (start_send f s2))"
  from poll_ready_same [OF a] have eq: "ss_sent (start_send f s2) @ ss_write_pending (start_send f s2) = ss_sent s @ ss_write_pending s"
    "is_dead (start_send f s2) = is_dead s"
    using w by (simp_all add: start_send_def is_dead_def)
  with IH show "\<not> is_dead s \<longrightarrow> sends_in_order s (send_all (start_send f s2))"
    by (simp add: sends_in_order_eq [OF eq(1)])
next
  fix s f fs s2 c s3
  assume w: "ss_write_pending s = f # fs" and a: "poll_ready (s\<lparr>ss_write_pending := fs\<rparr>) = (Pending, s2)"
    and c: "poll_complete (s2\<lparr>ss_write_pending := f # fs\<rparr>) = (c, s3)" "c \<noteq> Inr False"
  from poll_ready_same [OF a] poll_complete_same [OF c(1)] w c(2)
  show "\<not> is_dead s \<longrightarrow> sends_in_order s (c, s3)"
    by (cases c) (auto simp: sends_in_order_def)
next
  fix s f fs s2 s3
  assume w: "ss_write_pending s = f # fs" and a: "poll_ready (s\<lparr>ss_write_pending := fs\<rparr>) = (Pending, s2)"
    and c: "poll_complete (s2\<lparr>ss_write_pending := f # fs\<rparr>) = (Inr False, s3)"
    and IH: "\<not> is_dead s3 \<longrightarrow> sends_in_order s3 (send_all s3)"
  from poll_ready_same [OF a] poll_complete_same [OF c] poll_complete_dead [OF c] w
  have eq: "ss_sent s3 @ ss_write_pending s3 = ss_sent s @ ss_write_pending s" "is_dead s3 = is_dead s"
    by (simp_all add: is_dead_def)
  with IH show "\<not> is_dead s \<longrightarrow> sends_in_order s (send_all s3)" by (simp add: sends_in_order_eq [OF eq(1)])
qed simp_all

section \<open>Distributing in order\<close>

text \<open>The frames waiting for a stream.\<close>

definition waiting :: "u32 \<Rightarrow> frame list \<Rightarrow> frame list" where
  "waiting i fs = filter (\<lambda>f. frame_stream_id f = i) fs"

lemma waiting_simps [simp]:
  "waiting i [] = []" "waiting i (f # fs) = (if frame_stream_id f = i then f # waiting i fs else waiting i fs)"
  "waiting i (fs @ gs) = waiting i fs @ waiting i gs"
  by (simp_all add: waiting_def)

lemma accept_syn_continue:
  assumes "accept_syn f s = (Inr True, s1)"
  shows "ss_read_pending s1 = ss_read_pending s"
    and "i \<noteq> frame_stream_id f \<Longrightarrow> map_of (ss_streams s1) i = map_of (ss_streams s) i"
    and "\<not> flags_contains (frame_flags f) Syn \<Longrightarrow> s1 = s"
  using assms
  by (auto simp: accept_syn_def create_stream_def sbind_def sret_def Let_def
      split: if_splits prod.splits sum.splits option.splits)

lemma accept_syn_stop:
  assumes "accept_syn f s = (Inr False, s1)"
  shows "ss_local_go_away s1"
proof -
  have "ss_local_go_away s'" if "send_frame g s = (r, s')" "ss_local_go_away s" for g r s'
    using flags.inv_send_frame [where remote = False and local = True and ended = False, OF _ that(1)] that(2) by simp
  with assms show ?thesis
    by (auto simp: accept_syn_def send_go_away_with_code_def sbind_def sret_def Let_def
        split: if_splits prod.splits sum.splits)
qed

lemma deliver_frame_other:
  assumes "deliver_frame f s = (b, s')" and "i \<noteq> frame_stream_id f"
  shows "map_of (ss_streams s') i = map_of (ss_streams s) i \<and>
    waiting i (ss_read_pending s') = waiting i (ss_read_pending s)"
  using assms
  by (auto simp: deliver_frame_def waiting_def update_conv' delete_conv' Let_def split: option.splits send_answer.splits)

lemma deliver_frame_own:
  assumes "deliver_frame f s = (b, s')" and "i = frame_stream_id f"
    and "map_of (ss_streams s) i = Some log" and "map_of (ss_streams s') i = Some log'"
  shows "log' @ waiting i (ss_read_pending s') =
      (if b then log @ waiting i (ss_read_pending s) @ [f] else (log @ [f]) @ waiting i (ss_read_pending s))"
  using assms
  by (auto simp: deliver_frame_def waiting_def update_conv' delete_conv' Let_def split: option.splits send_answer.splits)

lemma deliver_frame_absent:
  "deliver_frame f s = (b, s') \<Longrightarrow> map_of (ss_streams s) i = None \<Longrightarrow> map_of (ss_streams s') i = None"
  by (cases "i = frame_stream_id f")
    (auto simp: deliver_frame_def update_conv' delete_conv' Let_def split: option.splits send_answer.splits)

lemma distribute_absent:
  assumes "distribute_loop fs blocked s = (Inr (), s')" and "\<not> ss_local_go_away s'"
    and "\<forall>f \<in> set fs. frame_stream_id f = i \<longrightarrow> \<not> flags_contains (frame_flags f) Syn"
    and "map_of (ss_streams s) i = None"
  shows "map_of (ss_streams s') i = None"
  using assms
proof (induction fs arbitrary: blocked s)
  case (Cons f fs)
  show ?case
  proof (cases "frame_stream_id f \<in> set blocked")
    case True
    with Cons.prems Cons.IH [of blocked "s\<lparr>ss_read_pending := ss_read_pending s @ [f]\<rparr>"] show ?thesis by simp
  next
    case False
    obtain a s1 where a: "accept_syn f s = (a, s1)" by fastforce
    obtain b s2 where b: "deliver_frame f s1 = (b, s2)" by fastforce
    from Cons.prems(1,2) False a have True: "a = Inr True"
      using accept_syn_stop [of f s s1] by (auto split: sum.splits bool.splits)
    then have "map_of (ss_streams s1) i = None"
      using accept_syn_continue(2,3) [of f s s1] a Cons.prems(3,4) by (cases "i = frame_stream_id f") auto
    then have "map_of (ss_streams s2) i = None" using deliver_frame_absent [OF b] by simp
    then show ?thesis using Cons.IH [of _ s2] Cons.prems False a b True by (simp split: if_splits)
  qed
qed simp

lemma distribute_in_order:
  assumes "distribute_loop fs blocked s = (Inr (), s')" and "\<not> ss_local_go_away s'"
    and "\<forall>f \<in> set fs. frame_stream_id f = i \<longrightarrow> \<not> flags_contains (frame_flags f) Syn"
    and "map_of (ss_streams s) i = Some log" and "map_of (ss_streams s') i = Some log'"
    and "waiting i (ss_read_pending s) \<noteq> [] \<Longrightarrow> i \<in> set blocked"
  shows "log' @ waiting i (ss_read_pending s') = log @ waiting i (ss_read_pending s) @ waiting i fs"
  using assms
proof (induction fs arbitrary: blocked s log)
  case (Cons f fs)
  show ?case
  proof (cases "frame_stream_id f \<in> set blocked")
    case True
    with Cons.prems Cons.IH [of blocked "s\<lparr>ss_read_pending := ss_read_pending s @ [f]\<rparr>" log] show ?thesis
      by (auto simp: waiting_def split: if_splits)
  next
    case False
    obtain a s1 where a: "accept_syn f s = (a, s1)" by fastforce
    obtain b s2 where b: "deliver_frame f s1 = (b, s2)" by fastforce
    from Cons.prems(1,2) False a have True: "a = Inr True"
      using accept_syn_stop [of f s s1] by (auto split: sum.splits bool.splits)
    let ?blocked = "if b then frame_stream_id f # blocked else blocked"
    have loop: "distribute_loop fs ?blocked s2 = (Inr (), s')" using Cons.prems(1) False a b True by simp
    note acc = accept_syn_continue [of f s s1, OF a [unfolded True]]
    have log1: "map_of (ss_streams s1) i = Some log"
      using acc(2,3) Cons.prems(3,4) by (cases "i = frame_stream_id f") auto
    show ?thesis
    proof (cases "i = frame_stream_id f")
      case own: True
      then have empty: "waiting i (ss_read_pending s) = []" using Cons.prems(6) False by blast
      obtain log2 where log2: "map_of (ss_streams s2) i = Some log2"
        using distribute_absent [OF loop Cons.prems(2), of i] Cons.prems(3,5) by (cases "map_of (ss_streams s2) i") auto
      note own2 = deliver_frame_own [OF b own log1 log2]
      have "waiting i (ss_read_pending s2) \<noteq> [] \<Longrightarrow> i \<in> set ?blocked"
        using b own log1 acc(1) empty
        by (auto simp: deliver_frame_def waiting_def Let_def split: option.splits send_answer.splits)
      from Cons.IH [OF loop Cons.prems(2) _ log2 Cons.prems(5) this] Cons.prems(3) own own2 empty acc(1)
      show ?thesis by (auto simp: waiting_def split: if_splits)
    next
      case other: False
      note oth = deliver_frame_other [OF b other]
      from Cons.IH [OF loop Cons.prems(2) _ _ Cons.prems(5), of log] Cons.prems(3,6) oth log1 acc(1) other
      show ?thesis by (auto simp: waiting_def split: if_splits)
    qed
  qed
qed simp

section \<open>Stream ids\<close>

interpretation next_id: session_invariant "\<lambda>s. n \<le> ss_next_stream_id s"
  by unfold_locales (auto simp: word_le_nat_alt dest: next_id_parity)

lemma send_window_update_id: "sh_id (snd (send_window_update h)) = sh_id h"
  by (simp add: send_window_update_def get_flags_eq unbound_send_event_def Let_def split: prod.splits)

lemma open_stream_id:
  assumes "open_stream s = (Inr h, s')"
  shows "sh_id h = ss_next_stream_id s \<and> checked_add (ss_next_stream_id s) 2 = Some (ss_next_stream_id s')"
  using assms
  by (auto simp: open_stream_def create_stream_def Let_def send_window_update_id stream_new_def
      split: if_splits option.splits)

section \<open>Guarantees\<close>

text \<open>A session used to instantiate the guarantees.\<close>

definition sample_config :: config where
  "sample_config = \<lparr>accept_backlog = 2, enable_keepalive = True, keepalive_interval = 3, connection_write_timeout = 1,
     max_stream_count = 4, max_stream_window_size = INITIAL_STREAM_WINDOW\<rparr>"

definition sample_syn :: "u32 \<Rightarrow> frame" where
  "sample_syn i = new_window_update (flags_from Syn) i 0"

text \<open>A server that accepts the stream 1 and is polled once.\<close>

definition sample_polled :: session where
  "sample_polled = snd (session_poll_next 0 ((session_new sample_config Server)
     \<lparr>ss_incoming := [Incoming (sample_syn 1)], ss_sub := [SendOk]\<rparr>))"

lemma sample_polled_reach: "session_reach (session_new sample_config Server) sample_polled"
proof -
  let ?s = "(session_new sample_config Server)\<lparr>ss_incoming := [Incoming (sample_syn 1)], ss_sub := [SendOk]\<rparr>"
  have "session_step (session_new sample_config Server) ?s"
    by (rule step_env) (simp add: same_session_def session_new_def)
  then have "session_reach (session_new sample_config Server) ?s" by (rule sreach_step [OF sreach_refl])
  moreover have "session_step ?s sample_polled"
    by (rule step_poll [of 0 _ "fst (session_poll_next 0 ?s)"]) (simp add: sample_polled_def)
  ultimately show ?thesis by (rule sreach_step)
qed

lemma tables_ok_new: "tables_ok cfg ty (session_new cfg ty)"
  by (cases ty) (simp_all add: tables_ok_def session_new_def is_client_def)

text \<open>C18. In every reachable session the table of streams has at most one entry per id, the pings are sorted by
  strictly increasing id, no more streams wait to be accepted than the backlog allows, and the next id to
  be used for an own stream is odd for a client and even for a server.
\<close>

theorem session_tables:
  assumes "session_reach (session_new cfg ty) s"
  shows "distinct (map fst (ss_streams s)) \<and> sorted_wrt (<) (map fst (ss_pings s)) \<and>
    length (ss_pending_streams s) \<le> accept_backlog cfg \<and> odd (unat (ss_next_stream_id s)) = is_client ty"
  using tables.inv_reach [OF assms tables_ok_new] by (simp add: tables_ok_def)

theorem session_tables_witness:
  "distinct (map fst (ss_streams sample_polled)) \<and> length (ss_pending_streams sample_polled) \<le> 2 \<and>
   even (unat (ss_next_stream_id sample_polled))"
  using session_tables [OF sample_polled_reach] by (simp add: is_client_def sample_config_def)

text \<open>C35. A dead session stays dead: whatever is done to it, both go-away flags or the end of the stream stay,
  and polling it yields the end without any effect.
\<close>

theorem session_death_is_final:
  assumes "is_dead s0" and "session_reach s0 s"
  shows "is_dead s \<and> session_poll_next now s = (Ready None, s)"
proof -
  have "is_dead s"
    using assms flags.inv_reach [where remote = True and local = True and ended = False, OF assms(2)]
      flags.inv_reach [where remote = False and local = False and ended = True, OF assms(2)]
    by (auto simp: is_dead_def)
  then show ?thesis by (simp add: session_poll_next_def)
qed

definition sample_dead :: session where
  "sample_dead = (session_new sample_config Server)\<lparr>ss_eof := True\<rparr>"

theorem session_death_is_final_witness: "is_dead sample_dead \<and> session_poll_next 5 sample_dead = (Ready None, sample_dead)"
  using session_death_is_final [of sample_dead sample_dead 5] by (simp add: sample_dead_def is_dead_def sreach_refl)

text \<open>
  While the session is alive, sending keeps the order of the frames and loses none: what was given to the
  sink, followed by what is still pending, is unchanged; the result \<open>False\<close> means that all was given to the
  sink; and after an I/O error the frames in the sink are still a prefix of the queue.
\<close>

theorem send_all_fifo:
  assumes "\<not> is_dead s" and "send_all s = (r, s')"
  shows "case r of
      Inr busy \<Rightarrow> ss_sent s' @ ss_write_pending s' = ss_sent s @ ss_write_pending s \<and> (\<not> busy \<longrightarrow> ss_write_pending s' = [])
    | Inl e \<Rightarrow> prefix (ss_sent s') (ss_sent s @ ss_write_pending s)"
  using send_all_in_order [OF assms(1)] by (cases r) (auto simp: sends_in_order_def assms(2))

definition sample_sending :: session where
  "sample_sending = (session_new sample_config Server)
     \<lparr>ss_write_pending := [sample_syn 1, sample_syn 3, sample_syn 5],
      ss_ready := [Ready (Inr ()), Pending, Ready (Inr ()), Pending], ss_flush := [Ready (Inr ()), Pending]\<rparr>"

theorem send_all_fifo_witness:
  "ss_sent (snd (send_all sample_sending)) @ ss_write_pending (snd (send_all sample_sending)) =
     [sample_syn 1, sample_syn 3, sample_syn 5] \<and> fst (send_all sample_sending) = Inr True"
proof -
  have r: "fst (send_all sample_sending) = Inr True" by code_simp
  have "\<not> is_dead sample_sending" by code_simp
  from send_all_fifo [OF this, of "Inr True" "snd (send_all sample_sending)"] r show ?thesis
    by (simp add: prod_eq_iff sample_sending_def session_new_def)
qed

text \<open>
  A sink that is ready for every frame and can flush is given all of them.
\<close>

theorem send_all_completes:
  assumes "\<not> is_dead s" and "ss_ready s = replicate (length (ss_write_pending s)) (Ready (Inr ())) @ as"
    and "ss_flush s = Ready (Inr ()) # fl"
  shows "\<exists>s'. send_all s = (Inr False, s') \<and> ss_sent s' = ss_sent s @ ss_write_pending s \<and> ss_write_pending s' = []"
  using assms
proof (induction "ss_write_pending s" arbitrary: s)
  case Nil
  then show ?case by (simp add: send_all.simps [of s] sbind_def sret_def poll_complete_def)
next
  case (Cons f fs)
  let ?s = "start_send f (s\<lparr>ss_write_pending := fs, ss_ready := replicate (length fs) (Ready (Inr ())) @ as\<rparr>)"
  have w: "ss_write_pending s = f # fs" using Cons.hyps(2) by simp
  have "\<not> is_dead (s\<lparr>ss_write_pending := fs\<rparr>)" using Cons.prems(1) by (simp add: is_dead_def)
  then have "send_all s = send_all ?s"
    using Cons.prems(2) w by (simp add: send_all.simps [of s] poll_ready_def Let_def)
  moreover have "\<exists>s'. send_all ?s = (Inr False, s') \<and> ss_sent s' = ss_sent ?s @ ss_write_pending ?s \<and> ss_write_pending s' = []"
    by (rule Cons.hyps(1)) (use Cons.prems in \<open>simp_all add: start_send_def is_dead_def\<close>)
  ultimately show ?case by (simp add: start_send_def w)
qed

theorem send_all_completes_witness:
  "\<exists>s'. send_all ((session_new sample_config Client)\<lparr>ss_write_pending := [sample_syn 2], ss_ready := [Ready (Inr ())],
       ss_flush := [Ready (Inr ())]\<rparr>) = (Inr False, s') \<and> ss_sent s' = [sample_syn 2]"
  using send_all_completes [of "(session_new sample_config Client)\<lparr>ss_write_pending := [sample_syn 2],
      ss_ready := [Ready (Inr ())], ss_flush := [Ready (Inr ())]\<rparr>" "[]" "[]"]
  by (auto simp: is_dead_def session_new_def)

text \<open>
  Distributing keeps the order of the frames of a stream and loses none of them: for a stream that is open
  before and after, and is not opened anew by the batch, what its channel got, followed by what still waits
  for it, is unchanged, provided the session did not go away meanwhile.
\<close>

theorem distribute_fifo:
  assumes "distribute_to_substream s = (Inr (), s')" and "\<not> ss_local_go_away s'"
    and "\<And>f. f \<in> set (ss_read_pending s) \<Longrightarrow> frame_stream_id f = i \<Longrightarrow> \<not> flags_contains (frame_flags f) Syn"
    and "map_of (ss_streams s) i = Some log" and "map_of (ss_streams s') i = Some log'"
  shows "log' @ waiting i (ss_read_pending s') = log @ waiting i (ss_read_pending s)"
  using distribute_in_order [of "ss_read_pending s" "[]" "s\<lparr>ss_read_pending := []\<rparr>" s' i log log'] assms
  by (simp add: distribute_to_substream_def)

definition sample_dist :: session where
  "sample_dist = (session_new sample_config Server)\<lparr>ss_streams := [(1, []), (3, [])],
     ss_read_pending := [new_data 0 1 [5], new_data 0 3 [6], new_data 0 1 [7], new_data 0 3 [8]],
     ss_sub := [SendOk, SendFull, ReadyPending]\<rparr>"

lemma sample_dist_eval:
  "distribute_to_substream sample_dist = (Inr (), sample_dist\<lparr>ss_streams := [(1, [new_data 0 1 [5]]), (3, [])],
     ss_read_pending := [new_data 0 3 [6], new_data 0 1 [7], new_data 0 3 [8]], ss_sub := []\<rparr>)"
  by code_simp

theorem distribute_fifo_witness:
  "[new_data 0 1 [5]] @ waiting 1 [new_data 0 3 [6], new_data 0 1 [7], new_data 0 3 [8]] =
     waiting 1 (ss_read_pending sample_dist)"
proof -
  have "\<not> flags_contains (frame_flags f) Syn" if "f \<in> set (ss_read_pending sample_dist)" for f
    using that by (auto simp: sample_dist_def frame_defs flags_contains_def)
  from distribute_fifo [OF sample_dist_eval _ this, of 1 "[]"] show ?thesis
    by (simp add: sample_dist_def session_new_def)
qed

text \<open>
  The ids of the streams a session opens never repeat: a stream opened later, after anything else happened,
  has a greater id than one opened before.
\<close>

theorem opened_ids_increase:
  assumes "open_stream s = (Inr h, s')" and "session_reach s' t" and "open_stream t = (Inr h2, t')"
  shows "sh_id h < sh_id h2"
proof -
  have "ss_next_stream_id s' \<le> ss_next_stream_id t" by (rule next_id.inv_reach [OF assms(2) order_refl])
  with open_stream_id [OF assms(1)] open_stream_id [OF assms(3)] show ?thesis
    by (auto simp: word_le_nat_alt word_less_nat_alt dest: next_id_parity)
qed

definition sample_opened :: session where
  "sample_opened = snd (open_stream (session_new sample_config Client))"

theorem opened_ids_increase_witness:
  "\<exists>h h2. fst (open_stream (session_new sample_config Client)) = Inr h \<and> fst (open_stream sample_opened) = Inr h2 \<and>
     sh_id h < sh_id h2"
proof -
  obtain h where h: "open_stream (session_new sample_config Client) = (Inr h, sample_opened)"
    by (simp add: sample_opened_def open_stream_def is_dead_def session_new_def create_stream_def checked_add_def Let_def)
  obtain h2 t where h2: "open_stream sample_opened = (Inr h2, t)"
    by (simp add: sample_opened_def open_stream_def is_dead_def session_new_def create_stream_def checked_add_def Let_def)
  from opened_ids_increase [OF h sreach_refl h2] h h2 show ?thesis by auto
qed

text \<open>
  A peer that does not answer is noticed: when the keepalive timer fires while a ping is older than thirty
  seconds, the poll ends with a timeout error and nothing is sent.
\<close>

theorem unanswered_ping_times_out:
  assumes "\<not> is_dead s" and "\<not> ss_local_go_away s" and "ss_keepalive s = Some k" and "ss_ticks s = Tick # ts"
    and "(i, t) \<in> set (ss_pings s)" and "TIMEOUT < now - t"
  shows "session_poll_next now s = (Ready (Some (Inl IoTimedOut)), s\<lparr>ss_ticks := ts\<rparr>)"
proof -
  have "\<exists>(_, time) \<in> set (ss_pings s). now - time > TIMEOUT" using assms(5,6) by force
  with assms(1-4) show ?thesis
    by (simp add: session_poll_next_def poll_keepalive_def keep_alive_def sbind_def)
qed

theorem unanswered_ping_times_out_witness:
  "fst (session_poll_next 40000 ((session_new sample_config Client)\<lparr>ss_pings := [(1, 0)], ss_ticks := [Tick]\<rparr>)) =
     Ready (Some (Inl IoTimedOut))"
  using unanswered_ping_times_out [of "(session_new sample_config Client)\<lparr>ss_pings := [(1, 0)], ss_ticks := [Tick]\<rparr>" 3 "[]" 1 0 40000]
  by (simp add: is_dead_def session_new_def sample_config_def TIMEOUT_def)

text \<open>
  An acknowledged ping settles itself and all earlier ones: exactly the pings with a greater id stay
  outstanding.
\<close>

theorem ping_ack_discards:
  assumes "flags_contains (frame_flags f) Ack" and "\<not> flags_contains (frame_flags f) Syn"
  shows "handle_ping f s = (Inr (), s\<lparr>ss_pings := filter (\<lambda>(i, t). frame_length f < i) (ss_pings s)\<rparr>)"
proof -
  have "pings_split_off i (pings_remove i ps) = filter (\<lambda>(j, t). i < j) ps" for i ps
    unfolding pings_split_off_def pings_remove_def filter_filter by (rule filter_cong) auto
  with assms show ?thesis by (simp add: handle_ping_def)
qed

theorem ping_ack_discards_witness:
  "ss_pings (snd (handle_ping (new_ping (flags_from Ack) 2)
     ((session_new sample_config Client)\<lparr>ss_pings := [(1, 0), (2, 10), (3, 20)]\<rparr>))) = [(3, 20)]"
  using ping_ack_discards [of "new_ping (flags_from Ack) 2" "(session_new sample_config Client)\<lparr>ss_pings := [(1, 0), (2, 10), (3, 20)]\<rparr>"]
  by (simp add: frame_defs flags_contains_def flags_from_def)

text \<open>
  A go-away of the peer ends the session and is answered: the pending frames are dropped, the answer is
  the only frame that follows what was sent, and the session is dead.
\<close>

theorem go_away_is_answered:
  assumes "frame_ty f = GoAway" and "\<not> is_dead s" and "\<not> ss_local_go_away s"
    and "session_handle_frame f s = (Inr (), s')"
  shows "is_dead s' \<and> ss_sent s' @ ss_write_pending s' = ss_sent s @ [new_go_away GoNormal]"
proof -
  let ?s1 = "s\<lparr>ss_remote_go_away := True, ss_write_pending := [new_go_away GoNormal]\<rparr>"
  have close: "handle_go_away f = go_away_close" by (simp add: handle_go_away_def split: go_away_code.splits)
  obtain r s2 where send: "send_all ?s1 = (r, s2)" by fastforce
  have alive: "\<not> is_dead ?s1" using assms(2,3) by (simp add: is_dead_def)
  have rem: "ss_remote_go_away s2"
    using flags.inv_send_all [where remote = True and local = False and ended = False, OF _ send] by simp
  from assms(1,3,4) send close obtain b where r: "r = Inr b"
    and s': "ss_sent s' = ss_sent s2" "ss_write_pending s' = ss_write_pending s2" "ss_local_go_away s'"
      "ss_remote_go_away s' = ss_remote_go_away s2"
    by (cases r) (auto simp: session_handle_frame_def go_away_close_def session_send_go_away_def
        send_go_away_with_code_def send_frame_def sbind_def sret_def Let_def)
  from send_all_in_order [OF alive] have "ss_sent s2 @ ss_write_pending s2 = ss_sent s @ [new_go_away GoNormal]"
    by (simp add: sends_in_order_def send r)
  with s' rem show ?thesis by (simp add: is_dead_def)
qed

definition sample_go_away :: session where
  "sample_go_away = (session_new sample_config Server)\<lparr>ss_write_pending := [sample_syn 2], ss_ready := [Ready (Inr ())]\<rparr>"

theorem go_away_is_answered_witness:
  "is_dead (snd (session_handle_frame (new_go_away GoInternalError) sample_go_away)) \<and>
   ss_sent (snd (session_handle_frame (new_go_away GoInternalError) sample_go_away)) @
   ss_write_pending (snd (session_handle_frame (new_go_away GoInternalError) sample_go_away)) = [new_go_away GoNormal]"
proof -
  let ?x = "session_handle_frame (new_go_away GoInternalError) sample_go_away"
  have "fst ?x = Inr ()" by code_simp
  then have "?x = (Inr (), snd ?x)" by (metis prod.collapse)
  from go_away_is_answered [OF _ _ _ this] show ?thesis
    by (simp add: frame_defs sample_go_away_def session_new_def is_dead_def)
qed

text \<open>
  A stream beyond the limits is refused: when the table of streams or the backlog is full, a frame that
  opens a new stream changes neither of them; it is answered by a frame with \<open>Ack\<close> and \<open>Rst\<close> and dropped.
\<close>

theorem excess_stream_refused:
  assumes "flags_contains (frame_flags f) Syn" and "frame_ty f = WindowUpdate \<or> frame_ty f = Data"
    and "\<not> ss_local_go_away s" and "ss_read_pending s = []"
    and "map_of (ss_streams s) (frame_stream_id f) = None"
    and "max_stream_count (ss_config s) \<le> length (ss_streams s) \<or>
      accept_backlog (ss_config s) \<le> length (ss_pending_streams s)"
  shows "session_handle_frame f s = (Inr (), s\<lparr>ss_write_pending := ss_write_pending s @
    [new_window_update (flags_add (flags_from Ack) Rst) (frame_stream_id f) 0]\<rparr>)"
proof -
  let ?w = "[new_window_update (flags_add (flags_from Ack) Rst) (frame_stream_id f) 0]"
  have "accept_syn f (s\<lparr>ss_read_pending := []\<rparr>) = (Inr True, s\<lparr>ss_read_pending := [], ss_write_pending := ss_write_pending s @ ?w\<rparr>)"
    using assms(1,3,6) by (auto simp: accept_syn_def Let_def)
  moreover have "deliver_frame f (s\<lparr>ss_read_pending := [], ss_write_pending := ss_write_pending s @ ?w\<rparr>) =
      (False, s\<lparr>ss_read_pending := [], ss_write_pending := ss_write_pending s @ ?w\<rparr>)"
    using assms(5) by (simp add: deliver_frame_def)
  moreover have "s\<lparr>ss_read_pending := [], ss_write_pending := ws\<rparr> = s\<lparr>ss_write_pending := ws\<rparr>" for ws
    using assms(4) by (cases s) simp
  ultimately show ?thesis
    using assms(2,4) by (auto simp: session_handle_frame_def handle_stream_message_def distribute_to_substream_def)
qed

definition sample_full :: session where
  "sample_full = (session_new sample_config Server)\<lparr>ss_streams := [(1, []), (3, []), (5, []), (7, [])]\<rparr>"

theorem excess_stream_refused_witness:
  "ss_streams (snd (session_handle_frame (sample_syn 9) sample_full)) = ss_streams sample_full \<and>
   ss_write_pending (snd (session_handle_frame (sample_syn 9) sample_full)) =
     [new_window_update (flags_add (flags_from Ack) Rst) 9 0]"
proof -
  have "flags_contains (frame_flags (sample_syn 9)) Syn" "frame_ty (sample_syn 9) = WindowUpdate"
    "frame_stream_id (sample_syn 9) = 9"
    by code_simp+
  with excess_stream_refused [of "sample_syn 9" sample_full] show ?thesis
    by (simp add: sample_full_def session_new_def sample_config_def)
qed

definition sample_leaving :: session where
  "sample_leaving = (session_new sample_config Server)\<lparr>ss_local_go_away := True, ss_streams := [(1, [])],
     ss_read_pending := [sample_syn 3, new_data 0 1 [5]], ss_sub := [SendOk, SendOk]\<rparr>"

text \<open>
  The proviso of distributing in order is needed: after the session announced that it goes away, a frame
  that opens a stream ends the distribution, and the frames behind it in the batch, here one for the open
  stream 1, are neither delivered nor kept.
\<close>

theorem leaving_session_drops_frames:
  "fst (distribute_to_substream sample_leaving) = Inr () \<and>
   waiting 1 (ss_read_pending sample_leaving) = [new_data 0 1 [5]] \<and>
   map_of (ss_streams (snd (distribute_to_substream sample_leaving))) 1 = Some [] \<and>
   ss_read_pending (snd (distribute_to_substream sample_leaving)) = []"
  by code_simp

end
