(* ===== verification/Molecule.thy ===== *)
theory Molecule
  imports Prelude
begin

text \<open>
  The message layer: what the generated modules \<^verbatim>\<open>handshake_mol.rs\<close>, \<^verbatim>\<open>protocol_select_mol.rs\<close> and
  \<^verbatim>\<open>protocol_mol.rs\<close> of discovery, identify and ping do for each kind of type. A kind is a group of functions:
  the verification of a slice (\<^verbatim>\<open>verify\<close> of the readers), the accessors (\<^verbatim>\<open>raw_data\<close>, the fields of a table,
  \<^verbatim>\<open>get_unchecked\<close> of a vector, \<^verbatim>\<open>to_enum\<close>, \<^verbatim>\<open>to_opt\<close>), and the builder (\<^verbatim>\<open>write\<close>). The message theories put
  them together as the generated types do.

  The modules come from two versions of the generator, which check the header of a table or vector in a different
  order; the definitions of the older one have the suffix \<open>_old\<close>.

  Accessors do not check; a slice out of range is \<open>None\<close>, a panic. The packing of numbers belongs to the crate
  \<^verbatim>\<open>molecule\<close> and is a parameter, the record \<open>molecule\<close>; \<open>mol_ok\<close> states what the crate documents of it.
\<close>

section \<open>Numbers\<close>

record molecule =
  pack_number :: "u32 \<Rightarrow> bytes"
  unpack_number :: "bytes \<Rightarrow> u32"

definition mol_ok :: "molecule \<Rightarrow> bool" where
  "mol_ok mo \<longleftrightarrow>
     (\<forall>n. length (pack_number mo n) = 4) \<and>
     (\<forall>n. unpack_number mo (pack_number mo n) = n) \<and>
     (\<forall>b. 4 \<le> length b \<longrightarrow> unpack_number mo b = unpack_number mo (take 4 b))"

text \<open>\<^verbatim>\<open>unpack_number(&slice[i..]) as usize\<close>, and a \<^verbatim>\<open>usize\<close> written \<^verbatim>\<open>as Number\<close>.\<close>

definition number_at :: "molecule \<Rightarrow> bytes \<Rightarrow> nat \<Rightarrow> nat" where
  "number_at mo sl i = unat (unpack_number mo (drop i sl))"

definition pack :: "molecule \<Rightarrow> nat \<Rightarrow> bytes" where
  "pack mo n = pack_number mo (of_nat n)"

datatype mol_error =
  HeaderIsBroken nat nat
  | TotalSizeNotMatch nat nat
  | UnknownItem nat u32
  | OffsetsNotMatch
  | FieldCountNotMatch nat nat

text \<open>A verification returns an error or unit, or panics.\<close>

type_synonym verifier = "bytes \<Rightarrow> bool \<Rightarrow> (mol_error + unit) option"

text \<open>\<^verbatim>\<open>&slice[i..j]\<close>.\<close>

definition sub_slice :: "bytes \<Rightarrow> nat \<Rightarrow> nat \<Rightarrow> bytes option" where
  "sub_slice b i j = (if i \<le> j \<and> j \<le> length b then Some (take (j - i) (drop i b)) else None)"

section \<open>Arrays, byte vectors, options and unions\<close>

definition array_verify :: "nat \<Rightarrow> verifier" where
  "array_verify TOTAL_SIZE sl compatible =
     Some (if length sl \<noteq> TOTAL_SIZE then Inl (TotalSizeNotMatch TOTAL_SIZE (length sl)) else Inr ())"

definition fixvec_verify :: "molecule \<Rightarrow> verifier" where
  "fixvec_verify mo sl compatible = Some
     (let slice_len = length sl in
      if slice_len < 4 then Inl (HeaderIsBroken 4 slice_len)
      else let item_count = number_at mo sl 0 in
        if item_count = 0 then (if slice_len \<noteq> 4 then Inl (TotalSizeNotMatch 4 slice_len) else Inr ())
        else let total_size = 4 + item_count in
          if slice_len \<noteq> total_size then Inl (TotalSizeNotMatch total_size slice_len) else Inr ())"

definition fixvec_raw_data :: "bytes \<Rightarrow> bytes option" where
  "fixvec_raw_data sl = sub_slice sl 4 (length sl)"

definition fixvec_write :: "molecule \<Rightarrow> bytes \<Rightarrow> bytes" where
  "fixvec_write mo b = pack mo (length b) @ b"

definition option_verify :: "verifier \<Rightarrow> verifier" where
  "option_verify v sl compatible = (if sl \<noteq> [] then v sl compatible else Some (Inr ()))"

definition to_opt :: "bytes \<Rightarrow> bytes option" where
  "to_opt sl = (if sl = [] then None else Some sl)"

definition option_write :: "bytes option \<Rightarrow> bytes" where
  "option_write x = (case x of None \<Rightarrow> [] | Some b \<Rightarrow> b)"

text \<open>The items of a union are numbered from zero.\<close>

definition union_verify :: "molecule \<Rightarrow> verifier list \<Rightarrow> verifier" where
  "union_verify mo items sl compatible =
     (if length sl < 4 then Some (Inl (HeaderIsBroken 4 (length sl)))
      else let item_id = unpack_number mo sl in
        if unat item_id < length items then (items ! unat item_id) (drop 4 sl) compatible
        else Some (Inl (UnknownItem (length items) item_id)))"

definition to_enum :: "molecule \<Rightarrow> nat \<Rightarrow> bytes \<Rightarrow> (nat \<times> bytes) option" where
  "to_enum mo items_count sl =
     (case sub_slice sl 4 (length sl) of
        None \<Rightarrow> None
      | Some inner \<Rightarrow>
          let item_id = number_at mo sl 0 in
          if item_id < items_count then Some (item_id, inner) else None)"

definition union_write :: "molecule \<Rightarrow> nat \<Rightarrow> bytes \<Rightarrow> bytes" where
  "union_write mo item_id inner = pack mo item_id @ inner"

section \<open>Tables and vectors of dynamic items\<close>

text \<open>The offsets after the total size, with the total size at the end, and the check of neighbours.\<close>

definition offsets_of :: "molecule \<Rightarrow> bytes \<Rightarrow> nat \<Rightarrow> nat list" where
  "offsets_of mo sl n = map (\<lambda>i. unat (unpack_number mo (take 4 (drop (4 * (1 + i)) sl)))) [0..<n]"

fun unordered :: "nat list \<Rightarrow> bool" where
  "unordered (a # b # r) = (a > b \<or> unordered (b # r))"
| "unordered _ = False"

definition ordered_offsets :: "molecule \<Rightarrow> bytes \<Rightarrow> nat \<Rightarrow> nat \<Rightarrow> mol_error + nat list" where
  "ordered_offsets mo sl n total_size =
     (let offsets = offsets_of mo sl n @ [total_size] in
      if unordered offsets then Inl OffsetsNotMatch else Inr offsets)"

definition table_offsets :: "molecule \<Rightarrow> nat \<Rightarrow> bytes \<Rightarrow> bool \<Rightarrow> mol_error + nat list" where
  "table_offsets mo FIELD_COUNT sl compatible =
     (let slice_len = length sl in
      if slice_len < 4 then Inl (HeaderIsBroken 4 slice_len)
      else let total_size = number_at mo sl 0 in
      if slice_len \<noteq> total_size then Inl (TotalSizeNotMatch total_size slice_len)
      else if slice_len < 8 then Inl (HeaderIsBroken 8 slice_len)
      else let offset_first = number_at mo sl 4 in
      if offset_first mod 4 \<noteq> 0 \<or> offset_first < 8 then Inl OffsetsNotMatch
      else if slice_len < offset_first then Inl (HeaderIsBroken offset_first slice_len)
      else let field_count = offset_first div 4 - 1 in
      if field_count < FIELD_COUNT then Inl (FieldCountNotMatch FIELD_COUNT field_count)
      else if \<not> compatible \<and> field_count > FIELD_COUNT then Inl (FieldCountNotMatch FIELD_COUNT field_count)
      else ordered_offsets mo sl field_count total_size)"

definition table_offsets_old :: "molecule \<Rightarrow> nat \<Rightarrow> bytes \<Rightarrow> bool \<Rightarrow> mol_error + nat list" where
  "table_offsets_old mo FIELD_COUNT sl compatible =
     (let slice_len = length sl in
      if slice_len < 4 then Inl (HeaderIsBroken 4 slice_len)
      else let total_size = number_at mo sl 0 in
      if slice_len \<noteq> total_size then Inl (TotalSizeNotMatch total_size slice_len)
      else if slice_len = 4 \<and> FIELD_COUNT = 0 then Inr []
      else if slice_len < 8 then Inl (HeaderIsBroken 8 slice_len)
      else let offset_first = number_at mo sl 4 in
      if offset_first mod 4 \<noteq> 0 \<or> offset_first < 8 then Inl OffsetsNotMatch
      else let field_count = offset_first div 4 - 1 in
      if field_count < FIELD_COUNT then Inl (FieldCountNotMatch FIELD_COUNT field_count)
      else if \<not> compatible \<and> field_count > FIELD_COUNT then Inl (FieldCountNotMatch FIELD_COUNT field_count)
      else let header_size = 4 * (field_count + 1) in
      if slice_len < header_size then Inl (HeaderIsBroken header_size slice_len)
      else ordered_offsets mo sl field_count total_size)"

text \<open>The verification of the parts between neighbouring offsets; a table stops at its last known field.\<close>

fun verify_parts :: "bytes \<Rightarrow> bool \<Rightarrow> verifier list \<Rightarrow> nat list \<Rightarrow> (mol_error + unit) option" where
  "verify_parts sl compatible (v # vs) (a # b # r) =
     (case sub_slice sl a b of
        None \<Rightarrow> None
      | Some part \<Rightarrow>
          (case v part compatible of
             None \<Rightarrow> None
           | Some (Inl e) \<Rightarrow> Some (Inl e)
           | Some (Inr _) \<Rightarrow> verify_parts sl compatible vs (b # r)))"
| "verify_parts sl compatible [] _ = Some (Inr ())"
| "verify_parts sl compatible _ _ = None"

definition table_verify :: "molecule \<Rightarrow> verifier list \<Rightarrow> verifier" where
  "table_verify mo fs sl compatible =
     (case table_offsets mo (length fs) sl compatible of
        Inl e \<Rightarrow> Some (Inl e)
      | Inr offsets \<Rightarrow> verify_parts sl compatible fs offsets)"

definition table_verify_old :: "molecule \<Rightarrow> verifier list \<Rightarrow> verifier" where
  "table_verify_old mo fs sl compatible =
     (case table_offsets_old mo (length fs) sl compatible of
        Inl e \<Rightarrow> Some (Inl e)
      | Inr offsets \<Rightarrow> verify_parts sl compatible fs offsets)"

definition dynvec_offsets :: "molecule \<Rightarrow> bytes \<Rightarrow> mol_error + nat list" where
  "dynvec_offsets mo sl =
     (let slice_len = length sl in
      if slice_len < 4 then Inl (HeaderIsBroken 4 slice_len)
      else let total_size = number_at mo sl 0 in
      if slice_len \<noteq> total_size then Inl (TotalSizeNotMatch total_size slice_len)
      else if slice_len = 4 then Inr []
      else if slice_len < 8 then Inl (TotalSizeNotMatch 8 slice_len)
      else let offset_first = number_at mo sl 4 in
      if offset_first mod 4 \<noteq> 0 \<or> offset_first < 8 then Inl OffsetsNotMatch
      else if slice_len < offset_first then Inl (HeaderIsBroken offset_first slice_len)
      else ordered_offsets mo sl (offset_first div 4 - 1) total_size)"

definition dynvec_offsets_old :: "molecule \<Rightarrow> bytes \<Rightarrow> mol_error + nat list" where
  "dynvec_offsets_old mo sl =
     (let slice_len = length sl in
      if slice_len < 4 then Inl (HeaderIsBroken 4 slice_len)
      else let total_size = number_at mo sl 0 in
      if slice_len \<noteq> total_size then Inl (TotalSizeNotMatch total_size slice_len)
      else if slice_len = 4 then Inr []
      else if slice_len < 8 then Inl (TotalSizeNotMatch 8 slice_len)
      else let offset_first = number_at mo sl 4 in
      if offset_first mod 4 \<noteq> 0 \<or> offset_first < 8 then Inl OffsetsNotMatch
      else let item_count = offset_first div 4 - 1; header_size = 4 * (item_count + 1) in
      if slice_len < header_size then Inl (HeaderIsBroken header_size slice_len)
      else ordered_offsets mo sl item_count total_size)"

definition dynvec_verify :: "molecule \<Rightarrow> verifier \<Rightarrow> verifier" where
  "dynvec_verify mo item sl compatible =
     (case dynvec_offsets mo sl of
        Inl e \<Rightarrow> Some (Inl e)
      | Inr offsets \<Rightarrow> verify_parts sl compatible (replicate (length offsets - 1) item) offsets)"

definition dynvec_verify_old :: "molecule \<Rightarrow> verifier \<Rightarrow> verifier" where
  "dynvec_verify_old mo item sl compatible =
     (case dynvec_offsets_old mo sl of
        Inl e \<Rightarrow> Some (Inl e)
      | Inr offsets \<Rightarrow> verify_parts sl compatible (replicate (length offsets - 1) item) offsets)"

text \<open>A number read by an accessor, which panics beyond the end.\<close>

definition read_number :: "molecule \<Rightarrow> bytes \<Rightarrow> nat \<Rightarrow> nat option" where
  "read_number mo sl i = (if i + 4 \<le> length sl then Some (number_at mo sl i) else None)"

text \<open>\<^verbatim>\<open>field_count\<close> of a table, \<^verbatim>\<open>item_count\<close> of a vector. The subtraction of the code underflows if the first offset is
  less than 4; no verified slice has such an offset.\<close>

definition part_count :: "molecule \<Rightarrow> bytes \<Rightarrow> nat option" where
  "part_count mo sl =
     (case read_number mo sl 0 of
        None \<Rightarrow> None
      | Some total_size \<Rightarrow>
          if total_size = 4 then Some 0 else map_option (\<lambda>n. n div 4 - 1) (read_number mo sl 4))"

text \<open>A part between two offsets of the header, or from one offset to the end.\<close>

definition part_between :: "molecule \<Rightarrow> bytes \<Rightarrow> nat \<Rightarrow> nat \<Rightarrow> bytes option" where
  "part_between mo sl i j =
     Option.bind (read_number mo sl i) (\<lambda>start. Option.bind (read_number mo sl j) (sub_slice sl start))"

definition part_to_end :: "molecule \<Rightarrow> bytes \<Rightarrow> nat \<Rightarrow> bytes option" where
  "part_to_end mo sl i = Option.bind (read_number mo sl i) (\<lambda>start. sub_slice sl start (length sl))"

text \<open>A field of a table: the last one known ends at the end of the slice, or before an extra field.\<close>

definition table_field :: "molecule \<Rightarrow> nat \<Rightarrow> nat \<Rightarrow> bytes \<Rightarrow> bytes option" where
  "table_field mo FIELD_COUNT i sl =
     (if i = FIELD_COUNT - 1 then
        Option.bind (part_count mo sl) (\<lambda>field_count.
          if FIELD_COUNT \<noteq> field_count then part_between mo sl (4 * (1 + i)) (4 * (2 + i))
          else part_to_end mo sl (4 * (1 + i)))
      else part_between mo sl (4 * (1 + i)) (4 * (2 + i)))"

definition get_unchecked :: "molecule \<Rightarrow> bytes \<Rightarrow> nat \<Rightarrow> bytes option" where
  "get_unchecked mo sl idx =
     Option.bind (part_count mo sl) (\<lambda>n.
       if idx = n - 1 then part_to_end mo sl (4 * (1 + idx))
       else part_between mo sl (4 * (1 + idx)) (4 * (1 + idx) + 4))"

text \<open>All items in the order of the iterator; a panic in one of them is a panic.\<close>

fun all_some :: "'a option list \<Rightarrow> 'a list option" where
  "all_some [] = Some []"
| "all_some (x # xs) = (case x of None \<Rightarrow> None | Some a \<Rightarrow> map_option ((#) a) (all_some xs))"

definition dynvec_iter :: "molecule \<Rightarrow> bytes \<Rightarrow> bytes list option" where
  "dynvec_iter mo sl = Option.bind (part_count mo sl) (\<lambda>n. all_some (map (get_unchecked mo sl) [0..<n]))"

text \<open>The writer of tables and of vectors that are not empty.\<close>

fun running :: "nat \<Rightarrow> bytes list \<Rightarrow> nat list" where
  "running total_size [] = []"
| "running total_size (f # fs) = total_size # running (total_size + length f) fs"

definition table_write :: "molecule \<Rightarrow> bytes list \<Rightarrow> bytes" where
  "table_write mo fs =
     (let header_size = 4 * (length fs + 1); total_size = header_size + length (concat fs) in
      pack mo total_size @ concat (map (pack mo) (running header_size fs)) @ concat fs)"

definition dynvec_write :: "molecule \<Rightarrow> bytes list \<Rightarrow> bytes" where
  "dynvec_write mo items = (if items = [] then pack mo 4 else table_write mo items)"

section \<open>Accessors on a verified slice\<close>

text \<open>What a verified header says: the offsets are in order, the first one is the size of the header, and the last
  one, the total size, is the length of the slice.\<close>

definition layout :: "molecule \<Rightarrow> bytes \<Rightarrow> nat list \<Rightarrow> bool" where
  "layout mo sl os \<longleftrightarrow>
     2 \<le> length os \<and> 4 * length os \<le> length sl \<and> number_at mo sl 0 = length sl \<and>
     (\<forall>i < length os - 1. number_at mo sl (4 * (1 + i)) = os ! i) \<and>
     os ! 0 = 4 * length os \<and> sorted os \<and> os ! (length os - 1) = length sl"

lemma unordered_sorted: "\<not> unordered xs \<longleftrightarrow> sorted xs"
  by (induction xs rule: unordered.induct) (auto simp: not_less intro: order.trans)

lemma number_take:
  assumes "mol_ok mo" and "i + 4 \<le> length sl"
  shows "unat (unpack_number mo (take 4 (drop i sl))) = number_at mo sl i"
proof -
  have "4 \<le> length (drop i sl)" using assms(2) by simp
  with assms(1) have "unpack_number mo (drop i sl) = unpack_number mo (take 4 (drop i sl))"
    unfolding mol_ok_def by blast
  then show ?thesis by (simp add: number_at_def)
qed

lemma ordered_offsets_layout:
  assumes mo: "mol_ok mo" and r: "ordered_offsets mo sl n (length sl) = Inr os" and n: "0 < n"
    and total: "number_at mo sl 0 = length sl" and first: "number_at mo sl 4 = 4 * (n + 1)"
    and len: "4 * (n + 1) \<le> length sl"
  shows "layout mo sl os \<and> length os = n + 1"
proof -
  from r have os: "os = offsets_of mo sl n @ [length sl]" and sorted: "sorted os"
    by (auto simp: ordered_offsets_def Let_def unordered_sorted split: if_splits)
  have nth: "number_at mo sl (4 * (1 + i)) = os ! i" if "i < n" for i
  proof -
    have "4 * (1 + i) + 4 \<le> length sl" using that len by simp
    from number_take [OF mo this] that show ?thesis by (simp add: os offsets_of_def nth_append)
  qed
  have "length os = n + 1" by (simp add: os offsets_of_def)
  with nth [of 0] nth n total first len sorted show ?thesis
    by (auto simp: layout_def os offsets_of_def nth_append)
qed

lemma table_offsets_layout:
  assumes "mol_ok mo" and "table_offsets mo c sl compatible = Inr os"
  shows "layout mo sl os \<and> c < length os"
proof -
  let ?n = "number_at mo sl 4 div 4 - 1"
  from assms(2) have *: "length sl = number_at mo sl 0" "number_at mo sl 4 mod 4 = 0" "8 \<le> number_at mo sl 4"
    "number_at mo sl 4 \<le> length sl" "c \<le> ?n" "ordered_offsets mo sl ?n (length sl) = Inr os"
    by (auto simp: table_offsets_def Let_def split: if_splits)
  then have "0 < ?n" "number_at mo sl 4 = 4 * (?n + 1)" by auto
  with ordered_offsets_layout [OF assms(1) *(6)] * show ?thesis by auto
qed

lemma dynvec_offsets_layout:
  assumes "mol_ok mo" and "dynvec_offsets mo sl = Inr os"
  shows "number_at mo sl 0 = length sl \<and> (if length sl = 4 then os = [] else layout mo sl os)"
proof (cases "length sl = 4")
  case True
  with assms(2) show ?thesis by (auto simp: dynvec_offsets_def Let_def split: if_splits)
next
  case False
  let ?n = "number_at mo sl 4 div 4 - 1"
  from assms(2) False have *: "length sl = number_at mo sl 0" "number_at mo sl 4 mod 4 = 0" "8 \<le> number_at mo sl 4"
    "number_at mo sl 4 \<le> length sl" "ordered_offsets mo sl ?n (length sl) = Inr os"
    by (auto simp: dynvec_offsets_def Let_def split: if_splits)
  then have "0 < ?n" "number_at mo sl 4 = 4 * (?n + 1)" by auto
  with ordered_offsets_layout [OF assms(1) *(5)] * False show ?thesis by auto
qed

text \<open>The two generators accept the same slices.\<close>

lemma table_offsets_old_eq:
  "0 < c \<Longrightarrow> table_offsets_old mo c sl compatible = Inr os \<longleftrightarrow> table_offsets mo c sl compatible = Inr os"
  by (auto simp: table_offsets_def table_offsets_old_def Let_def)

lemma dynvec_offsets_old_eq: "dynvec_offsets_old mo sl = Inr os \<longleftrightarrow> dynvec_offsets mo sl = Inr os"
  by (auto simp: dynvec_offsets_def dynvec_offsets_old_def Let_def)

definition part :: "bytes \<Rightarrow> nat list \<Rightarrow> nat \<Rightarrow> bytes" where
  "part sl os i = take (os ! Suc i - os ! i) (drop (os ! i) sl)"

lemma layout_slice:
  assumes "layout mo sl os" and "Suc i < length os"
  shows "sub_slice sl (os ! i) (os ! Suc i) = Some (part sl os i)"
proof -
  have s: "sorted os" and last: "os ! (length os - 1) = length sl" using assms(1) by (simp_all add: layout_def)
  have "os ! i \<le> os ! Suc i" using sorted_nth_mono [OF s, of i "Suc i"] assms(2) by simp
  moreover have "os ! Suc i \<le> length sl" using sorted_nth_mono [OF s, of "Suc i" "length os - 1"] assms(2) last by simp
  ultimately show ?thesis by (simp add: sub_slice_def part_def)
qed

lemma layout_number: "layout mo sl os \<Longrightarrow> i < length os - 1 \<Longrightarrow> read_number mo sl (4 * (1 + i)) = Some (os ! i)"
  by (auto simp: layout_def read_number_def)

lemma layout_count:
  assumes "layout mo sl os"
  shows "part_count mo sl = Some (length os - 1)"
proof -
  have "read_number mo sl 4 = Some (os ! 0)" using layout_number [OF assms, of 0] assms by (simp add: layout_def)
  with assms show ?thesis by (auto simp: part_count_def layout_def read_number_def)
qed

lemma layout_between:
  "layout mo sl os \<Longrightarrow> Suc i < length os - 1 \<Longrightarrow> part_between mo sl (4 * (1 + i)) (4 * (1 + Suc i)) = Some (part sl os i)"
  using layout_number [of mo sl os i] layout_number [of mo sl os "Suc i"] layout_slice [of mo sl os i]
  by (simp add: part_between_def)

lemma layout_to_end:
  assumes "layout mo sl os"
  shows "part_to_end mo sl (4 * (1 + (length os - 2))) = Some (part sl os (length os - 2))"
proof -
  have len: "2 \<le> length os" and stop: "os ! (length os - 1) = length sl" using assms by (simp_all add: layout_def)
  have "Suc (length os - 2) = length os - 1" using len by arith
  with stop have last: "os ! Suc (length os - 2) = length sl" by simp
  have "read_number mo sl (4 * (1 + (length os - 2))) = Some (os ! (length os - 2))"
    using layout_number [OF assms, of "length os - 2"] len by simp
  with layout_slice [OF assms, of "length os - 2"] last len show ?thesis by (simp add: part_to_end_def)
qed

lemma layout_field:
  assumes l: "layout mo sl os" and "i < c" and "c < length os"
  shows "table_field mo c i sl = Some (part sl os i)"
proof -
  have two: "4 * (2 + i) = 4 * (1 + Suc i)" by simp
  consider "Suc i < length os - 1" | "c = length os - 1" "i = length os - 2" using assms by linarith
  then show ?thesis
  proof cases
    case 1
    with layout_between [OF l 1] layout_count [OF l] assms(2) show ?thesis by (auto simp: table_field_def two simp del: mult_Suc_right)
  next
    case 2
    with layout_to_end [OF l] layout_count [OF l] assms(2) show ?thesis by (simp add: table_field_def numeral_2_eq_2)
  qed
qed

lemma layout_get:
  assumes l: "layout mo sl os" and "i < length os - 1"
  shows "get_unchecked mo sl i = Some (part sl os i)"
proof -
  have two: "4 * (1 + i) + 4 = 4 * (1 + Suc i)" by simp
  consider "Suc i < length os - 1" | "i = length os - 2" "i = length os - 1 - 1" using assms by linarith
  then show ?thesis
  proof cases
    case 1
    then have "i \<noteq> length os - 1 - 1" by linarith
    with layout_between [OF l 1] layout_count [OF l] show ?thesis unfolding get_unchecked_def two by simp
  next
    case 2
    with layout_to_end [OF l] layout_count [OF l] show ?thesis by (simp add: get_unchecked_def numeral_2_eq_2)
  qed
qed

text \<open>A slice of which each part passes.\<close>

definition passes :: "verifier \<Rightarrow> bool \<Rightarrow> bytes \<Rightarrow> bool" where
  "passes v compatible sl \<longleftrightarrow> v sl compatible = Some (Inr ())"

definition no_panic :: "verifier \<Rightarrow> bool" where
  "no_panic v \<longleftrightarrow> (\<forall>sl compatible. v sl compatible \<noteq> None)"

lemma verify_parts_step:
  assumes l: "layout mo sl os" and k: "Suc k < length os"
  shows "verify_parts sl c (v # vs) (drop k os) =
    (case v (part sl os k) c of
       None \<Rightarrow> None
     | Some (Inl e) \<Rightarrow> Some (Inl e)
     | Some (Inr _) \<Rightarrow> verify_parts sl c vs (drop (Suc k) os))"
proof -
  have "drop k os = os ! k # os ! Suc k # drop (Suc (Suc k)) os"
    using k by (metis Cons_nth_drop_Suc Suc_lessD)
  moreover have "drop (Suc k) os = os ! Suc k # drop (Suc (Suc k)) os" using k by (metis Cons_nth_drop_Suc)
  ultimately show ?thesis using layout_slice [OF l k] by (simp split: option.split sum.split)
qed

lemma verify_parts_passes:
  assumes "layout mo sl os"
  shows "k + length vs < length os \<Longrightarrow>
    verify_parts sl c vs (drop k os) = Some (Inr ()) \<longleftrightarrow> (\<forall>i < length vs. passes (vs ! i) c (part sl os (k + i)))"
proof (induction vs arbitrary: k)
  case (Cons v vs)
  then have k: "Suc k < length os" by simp
  show ?case
    using Cons verify_parts_step [OF assms k]
    by (auto simp: passes_def less_Suc_eq_0_disj split: option.splits sum.splits)
qed simp

lemma verify_parts_no_panic:
  assumes "layout mo sl os"
  shows "k + length vs < length os \<Longrightarrow> (\<And>v. v \<in> set vs \<Longrightarrow> no_panic v) \<Longrightarrow> verify_parts sl c vs (drop k os) \<noteq> None"
proof (induction vs arbitrary: k)
  case (Cons v vs)
  then have k: "Suc k < length os" by simp
  have "no_panic v" using Cons.prems(2) by simp
  then obtain r where "v (part sl os k) c = Some r" unfolding no_panic_def by fast
  with Cons verify_parts_step [OF assms k] show ?case by (simp split: sum.splits)
qed simp

lemma table_verify_passes:
  assumes mo: "mol_ok mo" and p: "passes (table_verify mo fs) c sl" and i: "i < length fs"
  shows "\<exists>x. table_field mo (length fs) i sl = Some x \<and> passes (fs ! i) c x"
proof -
  from p obtain os where os: "table_offsets mo (length fs) sl c = Inr os"
    and parts: "verify_parts sl c fs (drop 0 os) = Some (Inr ())"
    by (auto simp: passes_def table_verify_def split: sum.splits)
  from table_offsets_layout [OF mo os] have l: "layout mo sl os" "length fs < length os" by auto
  with verify_parts_passes [OF l(1), of 0 fs c] parts i layout_field [OF l(1) i l(2)] show ?thesis by auto
qed

lemma dynvec_offsets_parts:
  assumes mo: "mol_ok mo" and os: "dynvec_offsets mo sl = Inr os"
  shows "dynvec_iter mo sl = Some (map (part sl os) [0..<length os - 1]) \<and>
    (no_panic v \<longrightarrow> verify_parts sl c (replicate (length os - 1) v) os \<noteq> None) \<and>
    (verify_parts sl c (replicate (length os - 1) v) os = Some (Inr ()) \<longrightarrow> (\<forall>i < length os - 1. passes v c (part sl os i)))"
proof (cases "length sl = 4")
  case True
  with dynvec_offsets_layout [OF mo os] show ?thesis by (simp add: dynvec_iter_def part_count_def read_number_def)
next
  case False
  with dynvec_offsets_layout [OF mo os] have l: "layout mo sl os" by simp
  then have len: "0 + length (replicate (length os - 1) v) < length os" by (auto simp: layout_def)
  have all: "all_some (map f xs) = Some (map g xs)" if "\<And>x. x \<in> set xs \<Longrightarrow> f x = Some (g x)"
    for f :: "nat \<Rightarrow> bytes option" and g xs
    using that by (induction xs) auto
  have "dynvec_iter mo sl = Some (map (part sl os) [0..<length os - 1])"
    using layout_count [OF l] layout_get [OF l] by (auto simp: dynvec_iter_def intro!: all)
  with verify_parts_passes [OF l len, of c] verify_parts_no_panic [OF l len, of c] show ?thesis by auto
qed

lemma dynvec_verify_passes:
  assumes mo: "mol_ok mo" and p: "passes (dynvec_verify mo v) c sl"
  shows "\<exists>ps. dynvec_iter mo sl = Some ps \<and> (\<forall>x \<in> set ps. passes v c x)"
proof -
  from p obtain os where "dynvec_offsets mo sl = Inr os"
    and "verify_parts sl c (replicate (length os - 1) v) os = Some (Inr ())"
    by (auto simp: passes_def dynvec_verify_def split: sum.splits)
  with dynvec_offsets_parts [OF mo, of sl os v c] show ?thesis by auto
qed

text \<open>Verification itself does not panic.\<close>

named_theorems panic_free \<open>verifications that do not panic\<close>

lemma array_no_panic [panic_free]: "no_panic (array_verify n)"
  by (simp add: no_panic_def array_verify_def)

lemma fixvec_no_panic [panic_free]: "no_panic (fixvec_verify mo)"
  by (simp add: no_panic_def fixvec_verify_def)

lemma option_no_panic [panic_free]: "no_panic v \<Longrightarrow> no_panic (option_verify v)"
  by (simp add: no_panic_def option_verify_def)

lemma union_no_panic [panic_free]: "(\<And>v. v \<in> set items \<Longrightarrow> no_panic v) \<Longrightarrow> no_panic (union_verify mo items)"
  by (auto simp: no_panic_def union_verify_def Let_def)

lemma table_no_panic [panic_free]:
  assumes mo: "mol_ok mo" and fs: "\<And>v. v \<in> set fs \<Longrightarrow> no_panic v"
  shows "no_panic (table_verify mo fs)"
proof -
  have "verify_parts sl c fs os \<noteq> None" if "table_offsets mo (length fs) sl c = Inr os" for sl c os
    using table_offsets_layout [OF mo that] verify_parts_no_panic [of mo sl os 0 fs c] fs by simp
  then show ?thesis by (auto simp: no_panic_def table_verify_def split: sum.splits)
qed

lemma dynvec_no_panic [panic_free]: "mol_ok mo \<Longrightarrow> no_panic v \<Longrightarrow> no_panic (dynvec_verify mo v)"
  using dynvec_offsets_parts [of mo] by (fastforce simp: no_panic_def dynvec_verify_def split: sum.splits)

text \<open>The older generator: the same slices pass, and no panic either.\<close>

lemma table_verify_old_passes: "fs \<noteq> [] \<Longrightarrow> passes (table_verify_old mo fs) c sl \<longleftrightarrow> passes (table_verify mo fs) c sl"
proof -
  assume "fs \<noteq> []"
  have "passes (table_verify mo fs) c sl \<longleftrightarrow>
      (\<exists>os. table_offsets mo (length fs) sl c = Inr os \<and> verify_parts sl c fs os = Some (Inr ()))"
    by (auto simp: passes_def table_verify_def split: sum.splits)
  moreover have "passes (table_verify_old mo fs) c sl \<longleftrightarrow>
      (\<exists>os. table_offsets_old mo (length fs) sl c = Inr os \<and> verify_parts sl c fs os = Some (Inr ()))"
    by (auto simp: passes_def table_verify_old_def split: sum.splits)
  ultimately show ?thesis using \<open>fs \<noteq> []\<close> by (simp add: table_offsets_old_eq)
qed

lemma dynvec_verify_old_passes: "passes (dynvec_verify_old mo v) c sl \<longleftrightarrow> passes (dynvec_verify mo v) c sl"
proof -
  have "passes (dynvec_verify mo v) c sl \<longleftrightarrow>
      (\<exists>os. dynvec_offsets mo sl = Inr os \<and> verify_parts sl c (replicate (length os - 1) v) os = Some (Inr ()))"
    by (auto simp: passes_def dynvec_verify_def split: sum.splits)
  moreover have "passes (dynvec_verify_old mo v) c sl \<longleftrightarrow>
      (\<exists>os. dynvec_offsets_old mo sl = Inr os \<and> verify_parts sl c (replicate (length os - 1) v) os = Some (Inr ()))"
    by (auto simp: passes_def dynvec_verify_old_def split: sum.splits)
  ultimately show ?thesis by (simp add: dynvec_offsets_old_eq)
qed

lemma table_old_no_panic [panic_free]:
  assumes "mol_ok mo" and "fs \<noteq> []" and "\<And>v. v \<in> set fs \<Longrightarrow> no_panic v"
  shows "no_panic (table_verify_old mo fs)"
proof -
  have "verify_parts sl c fs os \<noteq> None" if "table_offsets_old mo (length fs) sl c = Inr os" for sl c os
    using table_offsets_layout [OF assms(1), of "length fs" sl c os] table_offsets_old_eq [of "length fs" mo sl c os] that
      assms(2) verify_parts_no_panic [of mo sl os 0 fs c] assms(3) by simp
  then show ?thesis by (auto simp: no_panic_def table_verify_old_def split: sum.splits)
qed

lemma dynvec_old_no_panic [panic_free]: "mol_ok mo \<Longrightarrow> no_panic v \<Longrightarrow> no_panic (dynvec_verify_old mo v)"
  using dynvec_offsets_parts [of mo] dynvec_offsets_old_eq [of mo]
  by (fastforce simp: no_panic_def dynvec_verify_old_def split: sum.splits)

section \<open>Reading back what a builder wrote\<close>

lemma length_pack [simp]: "mol_ok mo \<Longrightarrow> length (pack mo n) = 4"
  by (simp add: pack_def mol_ok_def)

lemma number_at_pack:
  assumes "mol_ok mo" and "n < 2 ^ 32" and "length pre = i"
  shows "number_at mo (pre @ pack mo n @ post) i = n"
proof -
  have "unpack_number mo (pack mo n @ post) = unpack_number mo (pack mo n)"
    using assms(1) unfolding mol_ok_def pack_def
    by (metis append_eq_conv_conj length_append le_add1)
  also have "\<dots> = of_nat n" using assms(1) by (simp add: mol_ok_def pack_def)
  finally show ?thesis using assms(2,3) by (auto simp: number_at_def unat_of_nat)
qed

lemma length_concat_pack: "mol_ok mo \<Longrightarrow> length (concat (map (pack mo) xs)) = 4 * length xs"
  by (induction xs) simp_all

lemma length_running [simp]: "length (running s fs) = length fs"
  by (induction fs arbitrary: s) simp_all

lemma running_nth: "i < length fs \<Longrightarrow> running s fs ! i = s + length (concat (take i fs))"
proof (induction fs arbitrary: s i)
  case (Cons f fs)
  then show ?case by (cases i) simp_all
qed simp

lemma running_bounds: "x \<in> set (running s fs) \<Longrightarrow> s \<le> x \<and> x \<le> s + length (concat fs)"
  by (induction fs arbitrary: s) fastforce+

lemma running_sorted: "sorted (running s fs @ [s + length (concat fs)])"
proof (induction fs arbitrary: s)
  case (Cons f fs)
  have "s \<le> x" if "x \<in> set (running (s + length f) fs)" for x using running_bounds [OF that] by simp
  with Cons [of "s + length f"] show ?case by (auto simp: add.assoc)
qed simp

text \<open>The shape of a written table.\<close>

lemma table_write_length: "mol_ok mo \<Longrightarrow> length (table_write mo fs) = 4 * (length fs + 1) + length (concat fs)"
  by (simp add: table_write_def Let_def length_concat_pack)

lemma table_write_number:
  assumes mo: "mol_ok mo" and small: "length (table_write mo fs) < 2 ^ 32"
  shows "number_at mo (table_write mo fs) 0 = length (table_write mo fs)"
    and "i < length fs \<Longrightarrow> number_at mo (table_write mo fs) (4 * (1 + i)) = running (4 * (length fs + 1)) fs ! i"
proof -
  let ?h = "4 * (length fs + 1)" and ?t = "4 * (length fs + 1) + length (concat fs)"
  have t: "?t < 2 ^ 32" using small table_write_length [OF mo, of fs] by simp
  show "number_at mo (table_write mo fs) 0 = length (table_write mo fs)"
    using number_at_pack [OF mo t, of "[]" 0] table_write_length [OF mo, of fs] by (simp add: table_write_def Let_def)
  assume i: "i < length fs"
  let ?r = "running ?h fs"
  have "?r = take i ?r @ ?r ! i # drop (Suc i) ?r" using i by (intro id_take_nth_drop) simp
  then have "concat (map (pack mo) ?r) =
      concat (map (pack mo) (take i ?r)) @ pack mo (?r ! i) @ concat (map (pack mo) (drop (Suc i) ?r))"
    by (metis (no_types, lifting) concat.simps(2) concat_append list.simps(9) map_append)
  then have "table_write mo fs = (pack mo ?t @ concat (map (pack mo) (take i ?r))) @ pack mo (?r ! i) @
      concat (map (pack mo) (drop (Suc i) ?r)) @ concat fs"
    by (simp add: table_write_def Let_def)
  moreover have "length (pack mo ?t @ concat (map (pack mo) (take i ?r))) = 4 * (1 + i)"
    using i mo by (simp add: length_concat_pack)
  moreover have "?r ! i < 2 ^ 32" using running_bounds [of "?r ! i" ?h fs] i t by (simp add: less_le_trans le_less_trans)
  ultimately show "number_at mo (table_write mo fs) (4 * (1 + i)) = ?r ! i"
    using number_at_pack [OF mo] by metis
qed

lemma table_write_offsets:
  assumes mo: "mol_ok mo" and small: "length (table_write mo fs) < 2 ^ 32" and ne: "fs \<noteq> []"
  shows "ordered_offsets mo (table_write mo fs) (length fs) (length (table_write mo fs)) =
    Inr (running (4 * (length fs + 1)) fs @ [length (table_write mo fs)])"
proof -
  let ?b = "table_write mo fs" and ?r = "running (4 * (length fs + 1)) fs"
  have "unat (unpack_number mo (take 4 (drop (4 * (1 + i)) ?b))) = ?r ! i" if "i < length fs" for i
    using number_take [OF mo, of "4 * (1 + i)" ?b] table_write_number(2) [OF mo small that]
      table_write_length [OF mo, of fs] that by simp
  then have "offsets_of mo ?b (length fs) = ?r"
    unfolding offsets_of_def by (intro nth_equalityI) auto
  moreover have "\<not> unordered (?r @ [length ?b])"
    using running_sorted [of "4 * (length fs + 1)" fs] by (simp add: unordered_sorted table_write_length [OF mo])
  ultimately show ?thesis by (simp add: ordered_offsets_def Let_def)
qed

lemma table_write_headers:
  assumes mo: "mol_ok mo" and small: "length (table_write mo fs) < 2 ^ 32" and ne: "fs \<noteq> []"
  shows "table_offsets mo (length fs) (table_write mo fs) c =
      Inr (running (4 * (length fs + 1)) fs @ [length (table_write mo fs)])"
    and "dynvec_offsets mo (table_write mo fs) =
      Inr (running (4 * (length fs + 1)) fs @ [length (table_write mo fs)])"
proof -
  let ?b = "table_write mo fs"
  have first: "number_at mo ?b 4 = 4 * (length fs + 1)"
    using table_write_number(2) [OF mo small, of 0] ne running_nth [of 0 fs] by simp
  have "4 * (length fs + 1) \<le> length ?b" using table_write_length [OF mo, of fs] by simp
  moreover have "8 \<le> 4 * (length fs + 1)" using ne by (cases fs) simp_all
  ultimately have "4 * (length fs + 1) \<le> length ?b \<and> 8 \<le> length ?b \<and> 8 \<le> 4 * (length fs + 1)" by linarith
  with first table_write_number(1) [OF mo small] table_write_offsets [OF assms]
  show "table_offsets mo (length fs) ?b c = Inr (running (4 * (length fs + 1)) fs @ [length ?b])"
    "dynvec_offsets mo ?b = Inr (running (4 * (length fs + 1)) fs @ [length ?b])"
    by (auto simp: table_offsets_def dynvec_offsets_def Let_def)
qed

lemma table_write_part:
  assumes mo: "mol_ok mo" and i: "i < length fs"
  shows "part (table_write mo fs) (running (4 * (length fs + 1)) fs @ [length (table_write mo fs)]) i = fs ! i"
proof -
  let ?h = "4 * (length fs + 1)" and ?b = "table_write mo fs"
  let ?os = "running ?h fs @ [length ?b]"
  have start: "?os ! i = ?h + length (concat (take i fs))" using i by (simp add: nth_append running_nth)
  have fs: "fs = take i fs @ fs ! i # drop (Suc i) fs" using i by (rule id_take_nth_drop)
  then have cat: "concat fs = concat (take i fs) @ fs ! i @ concat (drop (Suc i) fs)"
    by (metis concat.simps(2) concat_append)
  have "?os ! Suc i = ?h + length (concat (take (Suc i) fs))"
    using i table_write_length [OF mo, of fs] by (cases "Suc i < length fs") (auto simp: nth_append running_nth)
  then have stop: "?os ! Suc i = ?os ! i + length (fs ! i)"
    using i start by (simp add: take_Suc_conv_app_nth)
  have "drop ?h ?b = concat fs" using mo by (simp add: table_write_def Let_def length_concat_pack)
  then have "drop (?os ! i) ?b = fs ! i @ concat (drop (Suc i) fs)"
    unfolding start by (metis add.commute append_eq_conv_conj cat drop_drop)
  with stop show ?thesis by (simp add: part_def)
qed

text \<open>One lemma for each kind: what was written passes, and the accessors return it.\<close>

lemma array_written: "passes (array_verify n) c b \<longleftrightarrow> length b = n"
  by (simp add: passes_def array_verify_def)

lemma fixvec_written:
  assumes mo: "mol_ok mo" and len: "length b < 2 ^ 32"
  shows "passes (fixvec_verify mo) c (fixvec_write mo b)" and "fixvec_raw_data (fixvec_write mo b) = Some b"
proof -
  have "number_at mo (fixvec_write mo b) 0 = length b"
    using number_at_pack [OF mo len, of "[]" 0] by (simp add: fixvec_write_def)
  with mo show "passes (fixvec_verify mo) c (fixvec_write mo b)"
    by (simp add: passes_def fixvec_verify_def Let_def fixvec_write_def)
  show "fixvec_raw_data (fixvec_write mo b) = Some b"
    using mo by (simp add: fixvec_raw_data_def sub_slice_def fixvec_write_def)
qed

lemma fixvec_passes: "passes (fixvec_verify mo) c sl \<Longrightarrow> \<exists>b. fixvec_raw_data sl = Some b"
  by (auto simp: passes_def fixvec_verify_def Let_def fixvec_raw_data_def sub_slice_def split: if_splits)

lemma option_written:
  assumes "\<And>b. x = Some b \<Longrightarrow> b \<noteq> [] \<and> passes v c b"
  shows "passes (option_verify v) c (option_write x)" and "to_opt (option_write x) = x"
  using assms by (cases x; simp add: passes_def option_verify_def option_write_def to_opt_def)+

lemma option_passes: "passes (option_verify v) c sl \<Longrightarrow> to_opt sl = Some b \<Longrightarrow> passes v c b"
  by (auto simp: passes_def option_verify_def to_opt_def split: if_splits)

lemma union_written:
  assumes mo: "mol_ok mo" and k: "k < length items" "k < 2 ^ 32" and p: "passes (items ! k) c b"
  shows "passes (union_verify mo items) c (union_write mo k b)" and "to_enum mo (length items) (union_write mo k b) = Some (k, b)"
proof -
  have n: "number_at mo (union_write mo k b) 0 = k"
    using number_at_pack [OF mo k(2), of "[]" 0] by (simp add: union_write_def)
  then have "unat (unpack_number mo (union_write mo k b)) = k" by (simp add: number_at_def)
  with mo k p show "passes (union_verify mo items) c (union_write mo k b)"
    by (simp add: passes_def union_verify_def Let_def) (simp add: union_write_def)
  show "to_enum mo (length items) (union_write mo k b) = Some (k, b)"
    using mo k n by (simp add: to_enum_def Let_def sub_slice_def) (simp add: union_write_def)
qed

lemma union_passes:
  assumes "passes (union_verify mo items) c sl"
  shows "\<exists>k b. to_enum mo (length items) sl = Some (k, b) \<and> k < length items \<and> passes (items ! k) c b"
  using assms by (auto simp: passes_def union_verify_def to_enum_def Let_def sub_slice_def number_at_def split: if_splits)

lemma table_written:
  assumes mo: "mol_ok mo" and len: "length bs = length fs" "fs \<noteq> []" and small: "length (table_write mo bs) < 2 ^ 32"
    and p: "\<And>i. i < length fs \<Longrightarrow> passes (fs ! i) c (bs ! i)"
  shows "passes (table_verify mo fs) c (table_write mo bs)"
    and "i < length fs \<Longrightarrow> table_field mo (length fs) i (table_write mo bs) = Some (bs ! i)"
proof -
  let ?b = "table_write mo bs" and ?os = "running (4 * (length bs + 1)) bs @ [length (table_write mo bs)]"
  have ne: "bs \<noteq> []" using len by auto
  have os: "table_offsets mo (length fs) ?b c = Inr ?os" using table_write_headers(1) [OF mo small ne, of c] len(1) by simp
  from table_offsets_layout [OF mo os] have l: "layout mo ?b ?os" "length fs < length ?os" by auto
  have "verify_parts ?b c fs (drop 0 ?os) = Some (Inr ())"
    using verify_parts_passes [OF l(1), of 0 fs c] l(2) p table_write_part [OF mo, of _ bs] len(1) by simp
  with os show "passes (table_verify mo fs) c ?b" by (simp add: passes_def table_verify_def)
  assume "i < length fs"
  with layout_field [OF l(1) _ l(2), of i] table_write_part [OF mo, of i bs] len(1)
  show "table_field mo (length fs) i ?b = Some (bs ! i)" by simp
qed

lemma dynvec_written:
  assumes mo: "mol_ok mo" and small: "length (dynvec_write mo items) < 2 ^ 32" and p: "\<And>x. x \<in> set items \<Longrightarrow> passes v c x"
  shows "passes (dynvec_verify mo v) c (dynvec_write mo items)" and "dynvec_iter mo (dynvec_write mo items) = Some items"
proof -
  have "passes (dynvec_verify mo v) c (dynvec_write mo items) \<and> dynvec_iter mo (dynvec_write mo items) = Some items"
  proof (cases "items = []")
    case True
    have "number_at mo (pack mo 4) 0 = 4" using number_at_pack [OF mo, of 4 "[]" 0 "[]"] by simp
    with True mo show ?thesis
      by (simp add: passes_def dynvec_verify_def dynvec_offsets_def Let_def dynvec_write_def dynvec_iter_def
          part_count_def read_number_def)
  next
    case False
    let ?b = "table_write mo items" and ?os = "running (4 * (length items + 1)) items @ [length (table_write mo items)]"
    have b: "dynvec_write mo items = ?b" using False by (simp add: dynvec_write_def)
    have os: "dynvec_offsets mo ?b = Inr ?os" using table_write_headers(2) [OF mo _ False] small b by simp
    have "length ?b \<noteq> 4" using table_write_length [OF mo, of items] False by simp
    with dynvec_offsets_layout [OF mo os] have l: "layout mo ?b ?os" by simp
    have "verify_parts ?b c (replicate (length items) v) (drop 0 ?os) = Some (Inr ())"
      using verify_parts_passes [OF l, of 0 "replicate (length items) v" c] p table_write_part [OF mo, of _ items] by simp
    moreover have "map (part ?b ?os) [0..<length items] = items"
      using table_write_part [OF mo, of _ items] by (intro nth_equalityI) simp_all
    ultimately show ?thesis
      using os dynvec_offsets_parts [OF mo os, of v c] by (simp add: b passes_def dynvec_verify_def)
  qed
  then show "passes (dynvec_verify mo v) c (dynvec_write mo items)" "dynvec_iter mo (dynvec_write mo items) = Some items"
    by auto
qed

section \<open>Messages\<close>

text \<open>What every message type of the protocols promises, for parameters that keep their laws: an encoded message is
  decoded to itself, and decoding returns on all bytes.\<close>

locale wire_message =
  fixes lawful :: "'e \<Rightarrow> bool" and enc :: "'e \<Rightarrow> 'm \<Rightarrow> bytes" and dec :: "'e \<Rightarrow> bytes \<Rightarrow> 'm option option"
    and ok :: "'e \<Rightarrow> 'm \<Rightarrow> bool"
  assumes read_back: "lawful e \<Longrightarrow> ok e m \<Longrightarrow> dec e (enc e m) = Some (Some m)"
    and dec_total: "lawful e \<Longrightarrow> \<exists>r. dec e b = Some r"
begin

lemma enc_inject: "lawful e \<Longrightarrow> ok e m \<Longrightarrow> ok e n \<Longrightarrow> enc e m = enc e n \<longleftrightarrow> m = n"
  using read_back by (metis option.inject)

lemma never_panics: "lawful e \<Longrightarrow> dec e b \<noteq> None"
  using dec_total by (metis option.distinct(1))

end

section \<open>Little-endian numbers\<close>

text \<open>An instance of the parameter.\<close>

fun le_unpack :: "bytes \<Rightarrow> u32" where
  "le_unpack (a # b # c # d # r) = be32 d c b a"
| "le_unpack _ = 0"

definition le_numbers :: molecule where
  "le_numbers = \<lparr>pack_number = (\<lambda>n. rev (put_u32 n)), unpack_number = le_unpack\<rparr>"

lemma le_numbers_ok: "mol_ok le_numbers"
proof -
  have unpacked: "le_unpack (rev (put_u32 n)) = n" for n by (rule put_u32_cases [of n]) simp
  have prefix: "4 \<le> length b \<Longrightarrow> le_unpack b = le_unpack (take 4 b)" for b
    by (cases b rule: le_unpack.cases) simp_all
  show ?thesis
    unfolding mol_ok_def le_numbers_def molecule.select_convs
    by (intro conjI allI impI; (rule unpacked prefix | simp); assumption?)
qed

end
