(* ===== verification/Secio_Messages.thy ===== *)
theory Secio_Messages
  imports Molecule
begin

text \<open>
  The messages of the secio handshake (\<^verbatim>\<open>secio/src/handshake/handshake_struct.rs\<close> and the generated types it
  uses, \<^verbatim>\<open>handshake_mol.rs\<close>): the proposition, the exchange and the public key, with their encoding and decoding.
  A decoder returns \<open>Some None\<close> for \<^verbatim>\<open>None\<close>, and \<open>None\<close> if it panics; the interpretations of \<open>wire_message\<close> show
  that it never does.
\<close>

section \<open>The generated types\<close>

definition propose_verify :: "molecule \<Rightarrow> verifier" where
  "propose_verify mo =
     table_verify mo [fixvec_verify mo, fixvec_verify mo, fixvec_verify mo, fixvec_verify mo, fixvec_verify mo]"

definition propose_field :: "molecule \<Rightarrow> nat \<Rightarrow> bytes \<Rightarrow> bytes option" where
  "propose_field mo i sl = Option.bind (table_field mo 5 i sl) fixvec_raw_data"

definition propose_write :: "molecule \<Rightarrow> bytes \<Rightarrow> bytes \<Rightarrow> bytes \<Rightarrow> bytes \<Rightarrow> bytes \<Rightarrow> bytes" where
  "propose_write mo r p e c h = table_write mo [r, p, e, c, h]"

definition exchange_verify :: "molecule \<Rightarrow> verifier" where
  "exchange_verify mo = table_verify mo [fixvec_verify mo, fixvec_verify mo]"

definition exchange_field :: "molecule \<Rightarrow> nat \<Rightarrow> bytes \<Rightarrow> bytes option" where
  "exchange_field mo i sl = Option.bind (table_field mo 2 i sl) fixvec_raw_data"

definition exchange_write :: "molecule \<Rightarrow> bytes \<Rightarrow> bytes \<Rightarrow> bytes" where
  "exchange_write mo e s = table_write mo [e, s]"

definition public_key_verify :: "molecule \<Rightarrow> verifier" where
  "public_key_verify mo = union_verify mo [fixvec_verify mo]"

definition public_key_to_enum :: "molecule \<Rightarrow> bytes \<Rightarrow> (nat \<times> bytes) option" where
  "public_key_to_enum mo sl = to_enum mo 1 sl"

definition public_key_write :: "molecule \<Rightarrow> bytes \<Rightarrow> bytes" where
  "public_key_write mo secp256k1 = union_write mo 0 secp256k1"

section \<open>The messages\<close>

record propose =
  p_rand :: bytes
  p_pubkey :: bytes
  p_exchange :: bytes
  p_ciphers :: bytes
  p_hashes :: bytes

record exchange =
  e_epubkey :: bytes
  e_signature :: bytes

record public_key =
  pk_key :: bytes

definition propose_encode :: "molecule \<Rightarrow> propose \<Rightarrow> bytes" where
  "propose_encode mo p =
     propose_write mo (fixvec_write mo (p_rand p)) (fixvec_write mo (p_pubkey p)) (fixvec_write mo (p_exchange p))
       (fixvec_write mo (p_ciphers p)) (fixvec_write mo (p_hashes p))"

text \<open>\<^verbatim>\<open>from_compatible_slice(data).ok()?\<close>, and \<^verbatim>\<open>String::from_utf8(x).ok()?\<close>.\<close>

definition verified :: "(mol_error + unit) option \<Rightarrow> 'a option option \<Rightarrow> 'a option option" where
  "verified r k = (case r of None \<Rightarrow> None | Some (Inl _) \<Rightarrow> Some None | Some (Inr _) \<Rightarrow> k)"

definition from_utf8 :: "bytes option \<Rightarrow> (bytes \<Rightarrow> 'a option option) \<Rightarrow> 'a option option" where
  "from_utf8 x k = Option.bind x (\<lambda>s. if utf8_valid s then k s else Some None)"

definition propose_decode :: "molecule \<Rightarrow> bytes \<Rightarrow> propose option option" where
  "propose_decode mo data =
     verified (propose_verify mo data True)
       (Option.bind (propose_field mo 0 data) (\<lambda>r.
        Option.bind (propose_field mo 1 data) (\<lambda>p.
        from_utf8 (propose_field mo 2 data) (\<lambda>e.
        from_utf8 (propose_field mo 3 data) (\<lambda>c.
        from_utf8 (propose_field mo 4 data) (\<lambda>h.
          Some (Some \<lparr>p_rand = r, p_pubkey = p, p_exchange = e, p_ciphers = c, p_hashes = h\<rparr>)))))))"

definition exchange_encode :: "molecule \<Rightarrow> exchange \<Rightarrow> bytes" where
  "exchange_encode mo x = exchange_write mo (fixvec_write mo (e_epubkey x)) (fixvec_write mo (e_signature x))"

definition exchange_decode :: "molecule \<Rightarrow> bytes \<Rightarrow> exchange option option" where
  "exchange_decode mo data =
     verified (exchange_verify mo data True)
       (Option.bind (exchange_field mo 0 data) (\<lambda>e.
        Option.bind (exchange_field mo 1 data) (\<lambda>s.
          Some (Some \<lparr>e_epubkey = e, e_signature = s\<rparr>))))"

definition public_key_encode :: "molecule \<Rightarrow> public_key \<Rightarrow> bytes" where
  "public_key_encode mo k = public_key_write mo (fixvec_write mo (pk_key k))"

definition public_key_decode :: "molecule \<Rightarrow> bytes \<Rightarrow> public_key option option" where
  "public_key_decode mo data =
     verified (public_key_verify mo data True)
       (Option.bind (public_key_to_enum mo data) (\<lambda>(_, inner).
        Option.bind (fixvec_raw_data inner) (\<lambda>b. Some (Some \<lparr>pk_key = b\<rparr>))))"

section \<open>Decoding returns, and reads back what was encoded\<close>

text \<open>The total size of a message is a 32-bit number.\<close>

definition propose_ok :: "molecule \<Rightarrow> propose \<Rightarrow> bool" where
  "propose_ok mo p \<longleftrightarrow> utf8_valid (p_exchange p) \<and> utf8_valid (p_ciphers p) \<and> utf8_valid (p_hashes p) \<and>
     length (propose_encode mo p) < 2 ^ 32"

definition exchange_ok :: "molecule \<Rightarrow> exchange \<Rightarrow> bool" where
  "exchange_ok mo x \<longleftrightarrow> length (exchange_encode mo x) < 2 ^ 32"

definition public_key_ok :: "molecule \<Rightarrow> public_key \<Rightarrow> bool" where
  "public_key_ok mo k \<longleftrightarrow> length (pk_key k) < 2 ^ 32"

lemma verified_total:
  assumes "no_panic v" and "passes v True data \<Longrightarrow> \<exists>r. k = Some r"
  shows "\<exists>r. verified (v data True) k = Some r"
proof -
  from assms(1) obtain x where "v data True = Some x" unfolding no_panic_def by fast
  with assms(2) show ?thesis by (cases x) (auto simp: verified_def passes_def)
qed

lemma verified_passes: "passes v True data \<Longrightarrow> verified (v data True) k = k"
  by (simp add: verified_def passes_def)

lemma from_utf8_total: "x = Some s \<Longrightarrow> (\<And>s. \<exists>r. k s = Some r) \<Longrightarrow> \<exists>r. from_utf8 x k = Some r"
  by (simp add: from_utf8_def)

text \<open>A field of a verified table of byte vectors.\<close>

lemma byte_field:
  assumes "mol_ok mo" and "passes (table_verify mo (replicate n (fixvec_verify mo))) c sl" and "i < n"
  shows "\<exists>b. Option.bind (table_field mo n i sl) fixvec_raw_data = Some b"
  using table_verify_passes [OF assms(1,2), of i] assms(3) fixvec_passes by fastforce

lemma byte_table_written:
  assumes mo: "mol_ok mo" and n: "length ds = n" "0 < n" and small: "length (table_write mo (map (fixvec_write mo) ds)) < 2 ^ 32"
  shows "passes (table_verify mo (replicate n (fixvec_verify mo))) c (table_write mo (map (fixvec_write mo) ds))"
    and "i < n \<Longrightarrow>
      Option.bind (table_field mo n i (table_write mo (map (fixvec_write mo) ds))) fixvec_raw_data = Some (ds ! i)"
proof -
  let ?fs = "replicate n (fixvec_verify mo)" and ?bs = "map (fixvec_write mo) ds"
  have part: "length (ds ! i) < 2 ^ 32" if "i < n" for i
  proof -
    have "length (ds ! i) \<le> length (fixvec_write mo (ds ! i))" by (simp add: fixvec_write_def)
    also have "\<dots> \<le> length (concat ?bs)"
      using that n(1) by (auto simp: length_concat intro!: member_le_sum_list)
    also have "\<dots> < 2 ^ 32" using small table_write_length [OF mo, of ?bs] by simp
    finally show ?thesis .
  qed
  have len: "length ?bs = length ?fs" "?fs \<noteq> []" using n by simp_all
  note w = table_written [OF mo len small]
  show "passes (table_verify mo ?fs) c (table_write mo ?bs)"
    by (rule w(1)) (use part fixvec_written(1) [OF mo] n(1) in simp)
  assume i: "i < n"
  have "table_field mo (length ?fs) i (table_write mo ?bs) = Some (?bs ! i)"
    by (rule w(2)) (use part fixvec_written(1) [OF mo] i n(1) in simp_all)
  then show "Option.bind (table_field mo n i (table_write mo ?bs)) fixvec_raw_data = Some (ds ! i)"
    using i n(1) fixvec_written(2) [OF mo part [OF i]] by simp
qed

lemma propose_verify_eq: "propose_verify mo = table_verify mo (replicate 5 (fixvec_verify mo))"
  by (simp add: propose_verify_def numeral_eq_Suc)

lemma exchange_verify_eq: "exchange_verify mo = table_verify mo (replicate 2 (fixvec_verify mo))"
  by (simp add: exchange_verify_def numeral_eq_Suc)

interpretation propose_msg: wire_message mol_ok propose_encode propose_decode propose_ok
proof unfold_locales
  fix mo p assume mo: "mol_ok mo" and ok: "propose_ok mo p"
  let ?ds = "[p_rand p, p_pubkey p, p_exchange p, p_ciphers p, p_hashes p]"
  have e: "propose_encode mo p = table_write mo (map (fixvec_write mo) ?ds)"
    by (simp add: propose_encode_def propose_write_def)
  have small: "length (table_write mo (map (fixvec_write mo) ?ds)) < 2 ^ 32" using ok e by (simp add: propose_ok_def)
  have n: "length ?ds = 5" "0 < (5 :: nat)" by simp_all
  note w = byte_table_written [OF mo n small]
  have f: "propose_field mo i (propose_encode mo p) = Some (?ds ! i)" if "i < 5" for i
    using w(2) [OF that] unfolding e propose_field_def .
  have "passes (propose_verify mo) True (propose_encode mo p)" using w(1) unfolding e propose_verify_eq .
  with f [of 0] f [of 1] f [of 2] f [of 3] f [of 4] ok show "propose_decode mo (propose_encode mo p) = Some (Some p)"
    by (simp add: propose_decode_def verified_passes from_utf8_def propose_ok_def)
next
  fix mo b assume mo: "mol_ok mo"
  have "no_panic (propose_verify mo)" unfolding propose_verify_eq by (rule table_no_panic [OF mo]) (auto intro: fixvec_no_panic)
  then show "\<exists>r. propose_decode mo b = Some r"
    unfolding propose_decode_def
  proof (rule verified_total)
    assume "passes (propose_verify mo) True b"
    then have "\<exists>x. propose_field mo i b = Some x" if "i < 5" for i
      unfolding propose_verify_eq propose_field_def using byte_field [OF mo _ that] by blast
    from this [of 0] this [of 1] this [of 2] this [of 3] this [of 4]
    show "\<exists>r. Option.bind (propose_field mo 0 b) (\<lambda>r. Option.bind (propose_field mo 1 b) (\<lambda>p.
        from_utf8 (propose_field mo 2 b) (\<lambda>e. from_utf8 (propose_field mo 3 b) (\<lambda>c. from_utf8 (propose_field mo 4 b) (\<lambda>h.
          Some (Some \<lparr>p_rand = r, p_pubkey = p, p_exchange = e, p_ciphers = c, p_hashes = h\<rparr>)))))) = Some r"
      by (auto simp: from_utf8_def)
  qed
qed

interpretation exchange_msg: wire_message mol_ok exchange_encode exchange_decode exchange_ok
proof unfold_locales
  fix mo x assume mo: "mol_ok mo" and ok: "exchange_ok mo x"
  let ?ds = "[e_epubkey x, e_signature x]"
  have e: "exchange_encode mo x = table_write mo (map (fixvec_write mo) ?ds)"
    by (simp add: exchange_encode_def exchange_write_def)
  have small: "length (table_write mo (map (fixvec_write mo) ?ds)) < 2 ^ 32" using ok e by (simp add: exchange_ok_def)
  have n: "length ?ds = 2" "0 < (2 :: nat)" by simp_all
  note w = byte_table_written [OF mo n small]
  have f: "exchange_field mo i (exchange_encode mo x) = Some (?ds ! i)" if "i < 2" for i
    using w(2) [OF that] unfolding e exchange_field_def .
  have "passes (exchange_verify mo) True (exchange_encode mo x)" using w(1) unfolding e exchange_verify_eq .
  with f [of 0] f [of 1] show "exchange_decode mo (exchange_encode mo x) = Some (Some x)"
    by (simp add: exchange_decode_def verified_passes)
next
  fix mo b assume mo: "mol_ok mo"
  have "no_panic (exchange_verify mo)"
    unfolding exchange_verify_eq by (rule table_no_panic [OF mo]) (auto intro: fixvec_no_panic)
  then show "\<exists>r. exchange_decode mo b = Some r"
    unfolding exchange_decode_def
  proof (rule verified_total)
    assume "passes (exchange_verify mo) True b"
    then have "\<exists>x. exchange_field mo i b = Some x" if "i < 2" for i
      unfolding exchange_verify_eq exchange_field_def using byte_field [OF mo _ that] by blast
    from this [of 0] this [of 1]
    show "\<exists>r. Option.bind (exchange_field mo 0 b) (\<lambda>e. Option.bind (exchange_field mo 1 b) (\<lambda>s.
        Some (Some \<lparr>e_epubkey = e, e_signature = s\<rparr>))) = Some r"
      by auto
  qed
qed

interpretation public_key_msg: wire_message mol_ok public_key_encode public_key_decode public_key_ok
proof unfold_locales
  fix mo k assume mo: "mol_ok mo" and "public_key_ok mo k"
  then have len: "length (pk_key k) < 2 ^ 32" by (simp add: public_key_ok_def)
  have "passes ([fixvec_verify mo] ! 0) True (fixvec_write mo (pk_key k))" using fixvec_written(1) [OF mo len] by simp
  note w = union_written [OF mo _ _ this]
  have "passes (public_key_verify mo) True (public_key_encode mo k)"
    "public_key_to_enum mo (public_key_encode mo k) = Some (0, fixvec_write mo (pk_key k))"
    using w by (simp_all add: public_key_verify_def public_key_to_enum_def public_key_encode_def public_key_write_def)
  with fixvec_written(2) [OF mo len] show "public_key_decode mo (public_key_encode mo k) = Some (Some k)"
    by (simp add: public_key_decode_def verified_passes)
next
  fix mo b assume mo: "mol_ok mo"
  have "no_panic (public_key_verify mo)"
    unfolding public_key_verify_def by (rule union_no_panic) (auto intro: fixvec_no_panic)
  then show "\<exists>r. public_key_decode mo b = Some r"
    unfolding public_key_decode_def
  proof (rule verified_total)
    assume "passes (public_key_verify mo) True b"
    then have "passes (union_verify mo [fixvec_verify mo]) True b" unfolding public_key_verify_def .
    from union_passes [OF this] fixvec_passes obtain i inner x where "to_enum mo 1 b = Some (i, inner)"
      "fixvec_raw_data inner = Some x" by fastforce
    then show "\<exists>r. Option.bind (public_key_to_enum mo b) (\<lambda>(_, inner). Option.bind (fixvec_raw_data inner)
        (\<lambda>b. Some (Some \<lparr>pk_key = b\<rparr>))) = Some r"
      by (simp add: public_key_to_enum_def)
  qed
qed

section \<open>Properties\<close>

text \<open>The handshake messages are read back: a proposition, an exchange and a public key decode from their
  encoding, so that both sides sign and verify the same data.\<close>

theorem handshake_messages_roundtrip:
  assumes "mol_ok mo" and "propose_ok mo p" and "exchange_ok mo x" and "public_key_ok mo k"
  shows "propose_decode mo (propose_encode mo p) = Some (Some p) \<and>
    exchange_decode mo (exchange_encode mo x) = Some (Some x) \<and>
    public_key_decode mo (public_key_encode mo k) = Some (Some k)"
  using propose_msg.read_back [OF assms(1,2)] exchange_msg.read_back [OF assms(1,3)]
    public_key_msg.read_back [OF assms(1,4)] by blast

theorem handshake_messages_roundtrip_witness:
  "propose_decode le_numbers (propose_encode le_numbers
     \<lparr>p_rand = [1, 2], p_pubkey = [3], p_exchange = ascii ''P-256'', p_ciphers = [], p_hashes = []\<rparr>) =
     Some (Some \<lparr>p_rand = [1, 2], p_pubkey = [3], p_exchange = ascii ''P-256'', p_ciphers = [], p_hashes = []\<rparr>)"
proof -
  let ?p = "\<lparr>p_rand = [1, 2], p_pubkey = [3], p_exchange = ascii ''P-256'', p_ciphers = [], p_hashes = []\<rparr>"
  have "propose_ok le_numbers ?p"
    using le_numbers_ok
    by (simp add: propose_ok_def propose_encode_def propose_write_def table_write_length fixvec_write_def ascii_def utf8_valid_def)
  moreover have "exchange_ok le_numbers \<lparr>e_epubkey = [], e_signature = []\<rparr>"
    using le_numbers_ok by (simp add: exchange_ok_def exchange_encode_def exchange_write_def table_write_length fixvec_write_def)
  moreover have "public_key_ok le_numbers \<lparr>pk_key = []\<rparr>" by (simp add: public_key_ok_def)
  ultimately show ?thesis using handshake_messages_roundtrip [OF le_numbers_ok] by blast
qed

text \<open>Decoding what a peer sends cannot panic: for arbitrary bytes the verification of the three messages
  and all accessors behind it return, no slice is out of range.\<close>

theorem handshake_decoding_never_panics:
  assumes "mol_ok mo"
  shows "propose_decode mo b \<noteq> None \<and> exchange_decode mo b \<noteq> None \<and> public_key_decode mo b \<noteq> None"
  using propose_msg.never_panics [OF assms] exchange_msg.never_panics [OF assms] public_key_msg.never_panics [OF assms]
  by blast

theorem handshake_decoding_never_panics_witness: "propose_decode le_numbers [9, 0, 0, 0, 8] \<noteq> None"
  using handshake_decoding_never_panics [OF le_numbers_ok] by blast

end
