(* ===== verification/Framed_Socket.thy ===== *)
theory Framed_Socket
  imports Prelude
begin

text \<open>
  A framed socket (\<^verbatim>\<open>tokio_util::codec::Framed\<close>) as its users see it, a sink and a stream of frames. It is a script of
  answers: what its next polls return, and the frames it was given. A poll when the script has no more answers is
  pending.
\<close>

section \<open>The socket\<close>

record framed_socket =
  so_in :: "(io_kind + bytes) option poll list"
  so_ready :: "(io_kind + unit) poll list"
  so_send :: "(io_kind + unit) list"
  so_flush :: "(io_kind + unit) poll list"
  so_close :: "(io_kind + unit) poll list"
  so_out :: "bytes list"

definition poll_next_unpin :: "framed_socket \<Rightarrow> (io_kind + bytes) option poll \<times> framed_socket" where
  "poll_next_unpin so = (case so_in so of [] \<Rightarrow> (Pending, so) | a # r \<Rightarrow> (a, so\<lparr>so_in := r\<rparr>))"

definition poll_ready_unpin :: "framed_socket \<Rightarrow> (io_kind + unit) poll \<times> framed_socket" where
  "poll_ready_unpin so = (case so_ready so of [] \<Rightarrow> (Pending, so) | a # r \<Rightarrow> (a, so\<lparr>so_ready := r\<rparr>))"

text \<open>A frame is taken unless the sink reports an error.\<close>

definition start_send_unpin :: "bytes \<Rightarrow> framed_socket \<Rightarrow> (io_kind + unit) \<times> framed_socket" where
  "start_send_unpin frame so =
     (case so_send so of
        Inl e # r \<Rightarrow> (Inl e, so\<lparr>so_send := r\<rparr>)
      | _ \<Rightarrow> (Inr (), so\<lparr>so_send := drop 1 (so_send so), so_out := so_out so @ [frame]\<rparr>))"

definition poll_flush_unpin :: "framed_socket \<Rightarrow> (io_kind + unit) poll \<times> framed_socket" where
  "poll_flush_unpin so = (case so_flush so of [] \<Rightarrow> (Pending, so) | a # r \<Rightarrow> (a, so\<lparr>so_flush := r\<rparr>))"

definition poll_close_unpin :: "framed_socket \<Rightarrow> (io_kind + unit) poll \<times> framed_socket" where
  "poll_close_unpin so = (case so_close so of [] \<Rightarrow> (Pending, so) | a # r \<Rightarrow> (a, so\<lparr>so_close := r\<rparr>))"

section \<open>What a script delivers\<close>

fun frames_of :: "(io_kind + bytes) option poll list \<Rightarrow> bytes list" where
  "frames_of [] = []"
| "frames_of (a # r) = (case a of Ready (Some (Inr f)) \<Rightarrow> f # frames_of r | _ \<Rightarrow> frames_of r)"

text \<open>A socket that fails neither nor ends.\<close>

definition open_socket :: "(io_kind + bytes) option poll list \<Rightarrow> bool" where
  "open_socket as = list_all (\<lambda>a. case a of Pending \<Rightarrow> True | Ready (Some (Inr _)) \<Rightarrow> True | _ \<Rightarrow> False) as"

end
