(* ===== verification/Secio_Crypto.thy ===== *)
theory Secio_Crypto
  imports Prelude
begin

text \<open>
  The stream ciphers of secio (\<^verbatim>\<open>secio/src/crypto\<close>): the cipher types, the nonce counter, the three
  implementations of \<^verbatim>\<open>StreamCipher\<close> over OpenSSL, ring and the \<^verbatim>\<open>chacha20poly1305\<close> crate, and the choice between
  them that conditional compilation makes, here the argument \<open>platform\<close>.

  The authenticated encryption of these libraries is a parameter, the record \<open>aead\<close>, from the key, the nonce and the
  plain text to the encrypted text and the tag, and back; \<open>aead_ok\<close> states what they document. All three libraries
  implement the same standards, so one parameter stands for them.
\<close>

section \<open>Types\<close>

datatype cipher_type = Aes128Gcm | Aes256Gcm | ChaCha20Poly1305

fun key_size :: "cipher_type \<Rightarrow> nat" where
  "key_size Aes128Gcm = 16"
| "key_size Aes256Gcm = 32"
| "key_size ChaCha20Poly1305 = 2 * 16"

fun iv_size :: "cipher_type \<Rightarrow> nat" where
  "iv_size Aes128Gcm = 96 div 8"
| "iv_size Aes256Gcm = 96 div 8"
| "iv_size ChaCha20Poly1305 = 96 div 8"

fun tag_size :: "cipher_type \<Rightarrow> nat" where
  "tag_size Aes128Gcm = 16"
| "tag_size Aes256Gcm = 16"
| "tag_size ChaCha20Poly1305 = 16"

datatype secio_error =
  IoError io_kind
  | Openssl
  | CryptoError
  | NotSupportKeyProvider
  | EphemeralKeyGenerationFailed
  | SecretGenerationFailed
  | NoSupportIntersection
  | NonceVerificationFailed
  | FrameTooShort
  | ConnectSelf
  | HandshakeParsingFailure
  | SignatureVerificationFailed
  | InvalidMessage
  | InvalidProposition string

text \<open>\<^verbatim>\<open>From<SecioError> for io::Error\<close>.\<close>

definition to_io :: "secio_error \<Rightarrow> io_kind" where
  "to_io err = (case err of IoError e \<Rightarrow> e | _ \<Rightarrow> IoBrokenPipe)"

record aead =
  aead_encrypt :: "cipher_type \<Rightarrow> bytes \<Rightarrow> bytes \<Rightarrow> bytes \<Rightarrow> (bytes \<times> bytes) option"
  aead_decrypt :: "cipher_type \<Rightarrow> bytes \<Rightarrow> bytes \<Rightarrow> bytes \<Rightarrow> bytes \<Rightarrow> bytes option"

definition aead_ok :: "aead \<Rightarrow> bool" where
  "aead_ok ae \<longleftrightarrow>
     (\<forall>t key iv input. length key = key_size t \<longrightarrow> length iv = iv_size t \<longrightarrow>
        (\<exists>out tag. aead_encrypt ae t key iv input = Some (out, tag) \<and> length out = length input \<and>
          length tag = tag_size t \<and> aead_decrypt ae t key iv out tag = Some input))"

section \<open>The nonce counter\<close>

fun nonce_advance :: "bytes \<Rightarrow> bytes" where
  "nonce_advance [] = []"
| "nonce_advance (i # r) = (if i = 255 then 0 # nonce_advance r else (i + 1) # r)"

section \<open>Implementations\<close>

datatype crypto_mode = Encrypt | Decrypt

record crypt =
  c_type :: cipher_type
  c_key :: bytes
  c_iv :: bytes

definition crypt_new :: "cipher_type \<Rightarrow> bytes \<Rightarrow> crypt" where
  "crypt_new t key = \<lparr>c_type = t, c_key = key, c_iv = replicate (iv_size t) 0\<rparr>"

definition advance :: "crypt \<Rightarrow> crypt" where
  "advance c = c\<lparr>c_iv := nonce_advance (c_iv c)\<rparr>"

text \<open>OpenSSL: the nonce is advanced before the length check.\<close>

definition openssl_encrypt :: "aead \<Rightarrow> crypt \<Rightarrow> bytes \<Rightarrow> (secio_error + bytes) \<times> crypt" where
  "openssl_encrypt ae c input =
     (let c = advance c in
      case aead_encrypt ae (c_type c) (c_key c) (c_iv c) input of
        None \<Rightarrow> (Inl Openssl, c)
      | Some (output, tag) \<Rightarrow> (Inr (output @ tag), c))"

definition openssl_decrypt :: "aead \<Rightarrow> crypt \<Rightarrow> bytes \<Rightarrow> (secio_error + bytes) \<times> crypt" where
  "openssl_decrypt ae c input =
     (let c = advance c in
      if length input < tag_size (c_type c) then (Inl FrameTooShort, c)
      else let crypt_data_len = length input - tag_size (c_type c) in
        (case aead_decrypt ae (c_type c) (c_key c) (c_iv c) (take crypt_data_len input) (drop crypt_data_len input) of
           None \<Rightarrow> (Inl Openssl, c)
         | Some out \<Rightarrow> (Inr out, c)))"

text \<open>ring: sealing and opening keys take their next nonce from the sequence; opening in place leaves the plain text
  before the tag, which is cut off.\<close>

definition ring_encrypt :: "aead \<Rightarrow> crypt \<Rightarrow> bytes \<Rightarrow> (secio_error + bytes) \<times> crypt" where
  "ring_encrypt ae c input =
     (let c = advance c in
      case aead_encrypt ae (c_type c) (c_key c) (c_iv c) input of
        None \<Rightarrow> (Inl CryptoError, c)
      | Some (output, tag) \<Rightarrow> (Inr (output @ tag), c))"

definition ring_decrypt :: "aead \<Rightarrow> crypt \<Rightarrow> bytes \<Rightarrow> (secio_error + bytes) \<times> crypt" where
  "ring_decrypt ae c input =
     (if length input < tag_size (c_type c) then (Inl FrameTooShort, c)
      else let output_len = length input - tag_size (c_type c); c = advance c in
        (case aead_decrypt ae (c_type c) (c_key c) (c_iv c) (take output_len input) (drop output_len input) of
           None \<Rightarrow> (Inl CryptoError, c)
         | Some out \<Rightarrow> (Inr (take output_len (out @ drop output_len input)), c)))"

text \<open>The pure Rust cipher takes the tag from the end of the input, and fails on an input without one.\<close>

definition wasm_encrypt :: "aead \<Rightarrow> crypt \<Rightarrow> bytes \<Rightarrow> (secio_error + bytes) \<times> crypt" where
  "wasm_encrypt ae c input =
     (let c = advance c in
      case aead_encrypt ae (c_type c) (c_key c) (c_iv c) input of
        None \<Rightarrow> (Inl CryptoError, c)
      | Some (output, tag) \<Rightarrow> (Inr (output @ tag), c))"

definition wasm_decrypt :: "aead \<Rightarrow> crypt \<Rightarrow> bytes \<Rightarrow> (secio_error + bytes) \<times> crypt" where
  "wasm_decrypt ae c input =
     (let c = advance c in
      if length input < tag_size (c_type c) then (Inl CryptoError, c)
      else let n = length input - tag_size (c_type c) in
        (case aead_decrypt ae (c_type c) (c_key c) (c_iv c) (take n input) (drop n input) of
           None \<Rightarrow> (Inl CryptoError, c)
         | Some out \<Rightarrow> (Inr out, c)))"

section \<open>The trait\<close>

datatype stream_cipher = OpenSsLCrypt crypt | RingAeadCipher crypto_mode crypt | WasmCrypt crypt

text \<open>A ring cipher used in the wrong mode is unreachable code, \<open>None\<close>.\<close>

fun encrypt :: "aead \<Rightarrow> stream_cipher \<Rightarrow> bytes \<Rightarrow> ((secio_error + bytes) \<times> stream_cipher) option" where
  "encrypt ae (OpenSsLCrypt c) input = Some (map_prod id OpenSsLCrypt (openssl_encrypt ae c input))"
| "encrypt ae (RingAeadCipher m c) input =
     (case m of
        Encrypt \<Rightarrow> Some (map_prod id (RingAeadCipher m) (ring_encrypt ae c input))
      | Decrypt \<Rightarrow> None)"
| "encrypt ae (WasmCrypt c) input = Some (map_prod id WasmCrypt (wasm_encrypt ae c input))"

fun is_in_place :: "stream_cipher \<Rightarrow> bool" where
  "is_in_place (OpenSsLCrypt _) = False"
| "is_in_place (RingAeadCipher _ _) = True"
| "is_in_place (WasmCrypt _) = True"

fun decrypt :: "aead \<Rightarrow> stream_cipher \<Rightarrow> bytes \<Rightarrow> ((secio_error + bytes) \<times> stream_cipher) option" where
  "decrypt ae (OpenSsLCrypt c) input = Some (map_prod id OpenSsLCrypt (openssl_decrypt ae c input))"
| "decrypt ae (RingAeadCipher m c) input =
     (if length input < tag_size (c_type c) then Some (Inl FrameTooShort, RingAeadCipher m c)
      else (case m of
        Decrypt \<Rightarrow> Some (map_prod id (RingAeadCipher m) (ring_decrypt ae c input))
      | Encrypt \<Rightarrow> None))"
| "decrypt ae (WasmCrypt c) input = Some (map_prod id WasmCrypt (wasm_decrypt ae c input))"

text \<open>Decryption in place has its result in the buffer; OpenSSL keeps the default of the trait, an error.\<close>

fun decrypt_in_place :: "aead \<Rightarrow> stream_cipher \<Rightarrow> bytes \<Rightarrow> ((secio_error + bytes) \<times> stream_cipher) option" where
  "decrypt_in_place ae (OpenSsLCrypt c) input =
     Some (Inl (InvalidProposition ''don't support in place decrypted''), OpenSsLCrypt c)"
| "decrypt_in_place ae (RingAeadCipher m c) input = decrypt ae (RingAeadCipher m c) input"
| "decrypt_in_place ae (WasmCrypt c) input = decrypt ae (WasmCrypt c) input"

text \<open>The conditions \<^verbatim>\<open>all(ossl110, unix)\<close>, \<^verbatim>\<open>all(not(ossl110), unix)\<close>, \<^verbatim>\<open>not(unix)\<close> and \<^verbatim>\<open>target_family = "wasm"\<close>.\<close>

datatype platform = UnixOssl110 | UnixOldOssl | NotUnix | Wasm

definition openssl_new :: "platform \<Rightarrow> cipher_type \<Rightarrow> bytes \<Rightarrow> stream_cipher option" where
  "openssl_new pf t key =
     (if t = ChaCha20Poly1305 \<and> pf \<noteq> UnixOssl110 then None else Some (OpenSsLCrypt (crypt_new t key)))"

text \<open>ring and \<^verbatim>\<open>chacha20poly1305\<close> refuse a key of the wrong length.\<close>

definition ring_new :: "cipher_type \<Rightarrow> bytes \<Rightarrow> crypto_mode \<Rightarrow> stream_cipher option" where
  "ring_new t key mode = (if length key = key_size t then Some (RingAeadCipher mode (crypt_new t key)) else None)"

definition wasm_new :: "cipher_type \<Rightarrow> bytes \<Rightarrow> stream_cipher option" where
  "wasm_new t key =
     (if t = ChaCha20Poly1305 \<and> length key = key_size t then Some (WasmCrypt (crypt_new t key)) else None)"

definition new_stream :: "platform \<Rightarrow> cipher_type \<Rightarrow> bytes \<Rightarrow> crypto_mode \<Rightarrow> stream_cipher option" where
  "new_stream pf t key mode =
     (case pf of
        UnixOssl110 \<Rightarrow> openssl_new pf t key
      | UnixOldOssl \<Rightarrow>
          (case t of
             ChaCha20Poly1305 \<Rightarrow> ring_new t key mode
           | _ \<Rightarrow> openssl_new pf t key)
      | NotUnix \<Rightarrow> ring_new t key mode
      | Wasm \<Rightarrow> wasm_new t key)"

section \<open>Nonces\<close>

fun nonce_value :: "bytes \<Rightarrow> nat" where
  "nonce_value [] = 0"
| "nonce_value (b # r) = unat b + 256 * nonce_value r"

lemma length_nonce_advance [simp]: "length (nonce_advance n) = length n"
  by (induction n) auto

lemma nonce_value_less: "nonce_value n < 256 ^ length n"
proof (induction n)
  case (Cons b n)
  have "unat b < 256" using unsigned_less [of b, where ?'a = nat] by simp
  moreover have "256 * Suc (nonce_value n) \<le> 256 * 256 ^ length n" using Cons by (intro mult_le_mono2) simp
  ultimately show ?case by simp
qed simp

lemma nonce_advance_value: "nonce_value (nonce_advance n) = (nonce_value n + 1) mod 256 ^ length n"
proof (induction n)
  case (Cons b n)
  have b: "unat b < 256" using unsigned_less [of b, where ?'a = nat] by simp
  show ?case
  proof (cases "b = 255")
    case True
    have "256 * ((nonce_value n + 1) mod 256 ^ length n) = (256 * (nonce_value n + 1)) mod (256 * 256 ^ length n)"
      by (simp add: mult_mod_right)
    with Cons True show ?thesis by simp
  next
    case False
    then have "unat b \<noteq> unat (255 :: u8)" by (metis unsigned_word_eqI)
    then have "unat b \<noteq> 255" by simp
    then have "unat (b + 1) = unat b + 1" using b by (simp add: unat_word_ariths)
    moreover have "nonce_value (b # n) + 1 < 256 ^ length (b # n)"
    proof -
      have "256 * Suc (nonce_value n) \<le> 256 * 256 ^ length n" using nonce_value_less [of n] by (intro mult_le_mono2) simp
      with \<open>unat b \<noteq> 255\<close> b show ?thesis by simp
    qed
    ultimately show ?thesis using False by simp
  qed
qed simp

lemma nonce_value_inject: "length m = length n \<Longrightarrow> nonce_value m = nonce_value n \<Longrightarrow> m = n"
proof (induction m arbitrary: n)
  case (Cons b m)
  then obtain b' n' where n: "n = b' # n'" "length m = length n'" by (cases n) auto
  have small: "unat b < 256" "unat b' < 256"
    using unsigned_less [of b, where ?'a = nat] unsigned_less [of b', where ?'a = nat] by simp_all
  have eq: "unat b + 256 * nonce_value m = unat b' + 256 * nonce_value n'" using Cons.prems n by simp
  then have "(unat b + 256 * nonce_value m) mod 256 = (unat b' + 256 * nonce_value n') mod 256" by simp
  then have "unat b = unat b'" using small by simp
  then have "b = b'" by (rule unsigned_word_eqI)
  with eq Cons.IH [OF n(2)] n show ?case by simp
qed simp

lemma nonce_after: "nonce_value ((nonce_advance ^^ k) (replicate m 0)) = k mod 256 ^ m"
proof (induction k)
  case 0
  have "nonce_value (replicate m 0) = 0" by (induction m) simp_all
  then show ?case by simp
next
  case (Suc k)
  have "length ((nonce_advance ^^ k) (replicate m 0)) = m" by (induction k) simp_all
  with Suc show ?case by (simp add: nonce_advance_value mod_Suc_eq)
qed

section \<open>A sender and a receiver in step\<close>

fun crypt_of :: "stream_cipher \<Rightarrow> crypt" where
  "crypt_of (OpenSsLCrypt c) = c"
| "crypt_of (RingAeadCipher m c) = c"
| "crypt_of (WasmCrypt c) = c"

definition in_step :: "stream_cipher \<Rightarrow> stream_cipher \<Rightarrow> bool" where
  "in_step s r \<longleftrightarrow>
     crypt_of s = crypt_of r \<and> length (c_key (crypt_of s)) = key_size (c_type (crypt_of s)) \<and>
     length (c_iv (crypt_of s)) = iv_size (c_type (crypt_of s)) \<and>
     (\<forall>c. s \<noteq> RingAeadCipher Decrypt c) \<and> (\<forall>c. r \<noteq> RingAeadCipher Encrypt c)"

lemma encrypt_cases:
  assumes "\<And>c. s \<noteq> RingAeadCipher Decrypt c" and "crypt_of s = c"
    and "aead_encrypt ae (c_type c) (c_key c) (nonce_advance (c_iv c)) input = Some (out, tag)"
  shows "\<exists>s'. encrypt ae s input = Some (Inr (out @ tag), s') \<and> crypt_of s' = advance c \<and> (\<forall>c. s' \<noteq> RingAeadCipher Decrypt c)"
  using assms
  by (cases s; cases "\<exists>c. s = RingAeadCipher Encrypt c")
    (auto simp: openssl_encrypt_def ring_encrypt_def wasm_encrypt_def advance_def Let_def split: crypto_mode.splits)

lemma decrypt_cases:
  assumes "\<And>c. r \<noteq> RingAeadCipher Encrypt c" and "crypt_of r = c" and "length tag = tag_size (c_type c)"
    and "aead_decrypt ae (c_type c) (c_key c) (nonce_advance (c_iv c)) out tag = Some input" and "length out = length input"
  shows "\<exists>r'. decrypt ae r (out @ tag) = Some (Inr input, r') \<and> crypt_of r' = advance c \<and> (\<forall>c. r' \<noteq> RingAeadCipher Encrypt c)"
  using assms
  by (cases r) (auto simp: openssl_decrypt_def ring_decrypt_def wasm_decrypt_def advance_def Let_def split: crypto_mode.splits)

lemma in_step_message:
  assumes ae: "aead_ok ae" and s: "in_step s r"
  shows "\<exists>m s' r'. encrypt ae s input = Some (Inr m, s') \<and> decrypt ae r m = Some (Inr input, r') \<and> in_step s' r'"
proof -
  let ?c = "crypt_of s"
  have len: "length (c_key ?c) = key_size (c_type ?c)" "length (nonce_advance (c_iv ?c)) = iv_size (c_type ?c)"
    using s by (auto simp: in_step_def)
  with ae obtain out tag where a: "aead_encrypt ae (c_type ?c) (c_key ?c) (nonce_advance (c_iv ?c)) input = Some (out, tag)"
    and b: "length out = length input" "length tag = tag_size (c_type ?c)"
    "aead_decrypt ae (c_type ?c) (c_key ?c) (nonce_advance (c_iv ?c)) out tag = Some input"
    unfolding aead_ok_def by meson
  from encrypt_cases [OF _ refl a] s obtain s' where s': "encrypt ae s input = Some (Inr (out @ tag), s')"
    "crypt_of s' = advance ?c" "\<forall>c. s' \<noteq> RingAeadCipher Decrypt c" by (auto simp: in_step_def)
  have "crypt_of r = ?c" "\<And>c. r \<noteq> RingAeadCipher Encrypt c" using s by (auto simp: in_step_def)
  from decrypt_cases [OF this(2,1) b(2,3,1)] obtain r' where r': "decrypt ae r (out @ tag) = Some (Inr input, r')"
    "crypt_of r' = advance ?c" "\<forall>c. r' \<noteq> RingAeadCipher Encrypt c" by auto
  have "in_step s' r'" using s' r' len by (simp add: in_step_def advance_def)
  with s' r' show ?thesis by blast
qed

lemma new_stream_crypt:
  assumes "new_stream pf t key m = Some s"
  shows "crypt_of s = crypt_new t key \<and> (\<forall>c m'. s = RingAeadCipher m' c \<longrightarrow> m' = m)"
  using assms
  by (auto simp: new_stream_def openssl_new_def ring_new_def wasm_new_def split: platform.splits cipher_type.splits if_splits)

lemma new_stream_in_step:
  assumes "length key = key_size t" and "new_stream pf t key Encrypt = Some s" and "new_stream pf' t key Decrypt = Some r"
  shows "in_step s r"
proof -
  note n = new_stream_crypt [OF assms(2)] new_stream_crypt [OF assms(3)]
  then have "s \<noteq> RingAeadCipher Decrypt c" "r \<noteq> RingAeadCipher Encrypt c" for c by blast+
  with n assms(1) show ?thesis by (simp add: in_step_def crypt_new_def)
qed

section \<open>Channels\<close>

text \<open>What a stream needs of its ciphers: as long as the two ends are paired, a message sent is a message received, and
  they stay paired. The messages of a whole sequence then arrive in order.\<close>

fun seal_all :: "('s \<Rightarrow> bytes \<Rightarrow> (bytes \<times> 's) option) \<Rightarrow> 's \<Rightarrow> bytes list \<Rightarrow> (bytes list \<times> 's) option" where
  "seal_all f s [] = Some ([], s)"
| "seal_all f s (x # xs) =
     (case f s x of
        None \<Rightarrow> None
      | Some (m, s) \<Rightarrow> (case seal_all f s xs of None \<Rightarrow> None | Some (ms, s) \<Rightarrow> Some (m # ms, s)))"

locale message_channel =
  fixes lawful :: "'e \<Rightarrow> bool" and seal :: "'e \<Rightarrow> 's \<Rightarrow> bytes \<Rightarrow> (bytes \<times> 's) option"
    and unseal :: "'e \<Rightarrow> 'r \<Rightarrow> bytes \<Rightarrow> (bytes \<times> 'r) option" and paired :: "'s \<Rightarrow> 'r \<Rightarrow> bool"
  assumes transfer: "lawful e \<Longrightarrow> paired s r \<Longrightarrow>
    \<exists>m s' r'. seal e s x = Some (m, s') \<and> unseal e r m = Some (x, r') \<and> paired s' r'"
begin

lemma transfer_all:
  assumes "lawful e"
  shows "paired s r \<Longrightarrow>
    \<exists>ms s' r'. seal_all (seal e) s xs = Some (ms, s') \<and> seal_all (unseal e) r ms = Some (xs, r') \<and> paired s' r'"
proof (induction xs arbitrary: s r)
  case (Cons x xs)
  from transfer [OF assms Cons.prems, of x] obtain m s1 r1 where
    1: "seal e s x = Some (m, s1)" "unseal e r m = Some (x, r1)" "paired s1 r1" by blast
  from Cons.IH [OF 1(3)] obtain ms s' r' where
    "seal_all (seal e) s1 xs = Some (ms, s')" "seal_all (unseal e) r1 ms = Some (xs, r')" "paired s' r'" by blast
  with 1 show ?case by (intro exI [of _ "m # ms"]) auto
qed auto

lemma seal_total: "lawful e \<Longrightarrow> paired s r \<Longrightarrow> \<exists>m s'. seal e s x = Some (m, s')"
  using transfer by metis

end

definition encrypted :: "aead \<Rightarrow> stream_cipher \<Rightarrow> bytes \<Rightarrow> (bytes \<times> stream_cipher) option" where
  "encrypted ae s input = (case encrypt ae s input of Some (Inr m, s') \<Rightarrow> Some (m, s') | _ \<Rightarrow> None)"

definition decrypted :: "aead \<Rightarrow> stream_cipher \<Rightarrow> bytes \<Rightarrow> (bytes \<times> stream_cipher) option" where
  "decrypted ae r m = (case decrypt ae r m of Some (Inr input, r') \<Rightarrow> Some (input, r') | _ \<Rightarrow> None)"

interpretation ciphers: message_channel aead_ok encrypted decrypted in_step
proof unfold_locales
  fix ae s r x assume "aead_ok ae" "in_step s r"
  from in_step_message [OF this, of x]
  show "\<exists>m s' r'. encrypted ae s x = Some (m, s') \<and> decrypted ae r m = Some (x, r') \<and> in_step s' r'"
    unfolding encrypted_def decrypted_def by fastforce
qed

section \<open>A cipher for examples\<close>

text \<open>No secrecy, but the lengths and the reading back of the parameter.\<close>

definition plain_aead :: aead where
  "plain_aead =
     \<lparr>aead_encrypt = (\<lambda>t key iv input. Some (input, replicate (tag_size t) 7)),
      aead_decrypt = (\<lambda>t key iv data tag. if tag = replicate (tag_size t) 7 then Some data else None)\<rparr>"

lemma plain_aead_ok: "aead_ok plain_aead"
  by (simp add: aead_ok_def plain_aead_def)

section \<open>Properties\<close>

text \<open>Ciphers of different platforms work together: for every pair of them, what one encrypts with a key the
  other decrypts with the same key, message after message in the same order.\<close>

theorem ciphers_interoperate:
  assumes "aead_ok ae" and "length key = key_size t"
    and "new_stream pf t key Encrypt = Some s" and "new_stream pf' t key Decrypt = Some r"
  shows "\<exists>ms s' r'. seal_all (encrypted ae) s inputs = Some (ms, s') \<and> seal_all (decrypted ae) r ms = Some (inputs, r')"
  using ciphers.transfer_all [OF assms(1) new_stream_in_step [OF assms(2-4)], of inputs] by blast

theorem ciphers_interoperate_witness:
  "\<exists>ms s' r'. seal_all (encrypted plain_aead) (OpenSsLCrypt (crypt_new ChaCha20Poly1305 (replicate 32 1))) [[1, 2], [], [3]] = Some (ms, s') \<and>
     seal_all (decrypted plain_aead) (WasmCrypt (crypt_new ChaCha20Poly1305 (replicate 32 1))) ms = Some ([[1, 2], [], [3]], r')"
  by (rule ciphers_interoperate [OF plain_aead_ok, of "replicate 32 1" ChaCha20Poly1305 UnixOssl110 _ Wasm])
    (simp_all add: new_stream_def openssl_new_def wasm_new_def)

text \<open>A nonce is not used twice: the nonces of any two of the first \<open>2 ^ 96\<close> messages of a cipher differ.\<close>

theorem nonces_never_repeat:
  assumes "i < j" and "j < 2 ^ 96"
  shows "c_iv ((advance ^^ i) (crypt_new t key)) \<noteq> c_iv ((advance ^^ j) (crypt_new t key))"
proof -
  have iv: "c_iv ((advance ^^ k) c) = (nonce_advance ^^ k) (c_iv c)" for k c
    by (induction k) (simp_all add: advance_def)
  have size: "iv_size t = 12" by (cases t) simp_all
  have small: "k mod 256 ^ 12 = k" if "k < 2 ^ 96" for k :: nat using that by simp
  have "nonce_value ((nonce_advance ^^ i) (replicate 12 0)) \<noteq> nonce_value ((nonce_advance ^^ j) (replicate 12 0))"
    unfolding nonce_after using small [of i] small [of j] assms by simp
  then show ?thesis by (auto simp: iv crypt_new_def size)
qed

theorem nonces_never_repeat_witness:
  "c_iv ((advance ^^ 1) (crypt_new Aes128Gcm [])) \<noteq> c_iv ((advance ^^ 257) (crypt_new Aes128Gcm []))"
  by (rule nonces_never_repeat) simp_all

end
