(* ===== verification/Secio_Stream.thy ===== *)
theory Secio_Stream
  imports Framed_Socket Secio_Crypto
begin

text \<open>
  The encrypted stream (\<^verbatim>\<open>secio/src/codec/secure_stream.rs\<close>). It lies on a framed socket. The asynchronous reads and writes of \<^verbatim>\<open>tokio\<close> on top of
  \<^verbatim>\<open>poll_read\<close> and \<^verbatim>\<open>poll_write\<close> that the handshake uses are written out; one that is still waiting when the script
  ends is \<open>Waits\<close>. A failing \<^verbatim>\<open>unwrap\<close> is a panic, \<open>None\<close> or \<open>Panics\<close>.
\<close>

section \<open>The stream\<close>

datatype recv_buf = RVec bytes | RByte bytes

fun buffered :: "recv_buf \<Rightarrow> bytes" where
  "buffered (RVec b) = b"
| "buffered (RByte b) = b"

definition recv_len :: "recv_buf \<Rightarrow> nat" where "recv_len b = length (buffered b)"
definition recv_is_empty :: "recv_buf \<Rightarrow> bool" where "recv_is_empty b \<longleftrightarrow> recv_len b = 0"

text \<open>What is put to the reader's buffer, and what is left.\<close>

fun recv_drain_to :: "recv_buf \<Rightarrow> nat \<Rightarrow> bytes \<times> recv_buf" where
  "recv_drain_to (RVec b) n = (take n b, RVec (drop n b))"
| "recv_drain_to (RByte b) n = (take n b, RByte (drop n b))"

record secure_stream =
  ss_socket :: framed_socket
  ss_decode_cipher :: stream_cipher
  ss_encode_cipher :: stream_cipher
  ss_nonce :: bytes
  ss_recv_buf :: recv_buf

definition secure_stream_new ::
  "framed_socket \<Rightarrow> stream_cipher \<Rightarrow> stream_cipher \<Rightarrow> bytes \<Rightarrow> secure_stream" where
  "secure_stream_new socket decode_cipher encode_cipher nonce =
     \<lparr>ss_socket = socket, ss_decode_cipher = decode_cipher, ss_encode_cipher = encode_cipher, ss_nonce = nonce,
      ss_recv_buf = (if is_in_place decode_cipher then RByte [] else RVec [])\<rparr>"

definition decode_buffer :: "aead \<Rightarrow> bytes \<Rightarrow> secure_stream \<Rightarrow> ((secio_error + recv_buf) \<times> secure_stream) option" where
  "decode_buffer ae frame s =
     (if is_in_place (ss_decode_cipher s) then
        map_option (\<lambda>(r, c). (map_sum id RByte r, s\<lparr>ss_decode_cipher := c\<rparr>)) (decrypt_in_place ae (ss_decode_cipher s) frame)
      else
        map_option (\<lambda>(r, c). (map_sum id RVec r, s\<lparr>ss_decode_cipher := c\<rparr>)) (decrypt ae (ss_decode_cipher s) frame))"

definition encode_buffer :: "aead \<Rightarrow> bytes \<Rightarrow> secure_stream \<Rightarrow> (bytes \<times> secure_stream) option" where
  "encode_buffer ae buf s =
     (case encrypt ae (ss_encode_cipher s) buf of
        Some (Inr out, c) \<Rightarrow> Some (out, s\<lparr>ss_encode_cipher := c\<rparr>)
      | _ \<Rightarrow> None)"

text \<open>Into a buffer with \<open>room\<close> bytes left; the count is the length of what is copied.\<close>

definition drain :: "nat \<Rightarrow> secure_stream \<Rightarrow> bytes \<times> secure_stream" where
  "drain room s =
     (if recv_is_empty (ss_recv_buf s) then ([], s)
      else let n = min room (recv_len (ss_recv_buf s)); (b, rest) = recv_drain_to (ss_recv_buf s) n in
        (b, s\<lparr>ss_recv_buf := rest\<rparr>))"

definition stream_poll_read :: "aead \<Rightarrow> nat \<Rightarrow> secure_stream \<Rightarrow> ((io_kind + bytes) poll \<times> secure_stream) option" where
  "stream_poll_read ae room s =
     (let (copied, s) = drain room s in
      if length copied > 0 then Some (Ready (Inr copied), s)
      else let (next_frame, so) = poll_next_unpin (ss_socket s); s = s\<lparr>ss_socket := so\<rparr> in
        (case next_frame of
           Ready (Some (Inr t)) \<Rightarrow>
             (case decode_buffer ae t s of
                None \<Rightarrow> None
              | Some (Inl err, s) \<Rightarrow> Some (Ready (Inl (to_io err)), s)
              | Some (Inr decoded, s) \<Rightarrow>
                  if room \<ge> recv_len decoded then Some (Ready (Inr (buffered decoded)), s)
                  else let (b, s) = drain room (s\<lparr>ss_recv_buf := decoded\<rparr>) in Some (Ready (Inr b), s))
         | Ready (Some (Inl err)) \<Rightarrow> Some (Ready (Inl err), s)
         | Ready None \<Rightarrow> Some (Ready (Inl IoBrokenPipe), s)
         | Pending \<Rightarrow> Some (Pending, s)))"

definition stream_poll_write :: "aead \<Rightarrow> bytes \<Rightarrow> secure_stream \<Rightarrow> ((io_kind + nat) poll \<times> secure_stream) option" where
  "stream_poll_write ae buf s =
     (let (r, so) = poll_ready_unpin (ss_socket s); s = s\<lparr>ss_socket := so\<rparr> in
      case r of
        Ready (Inr _) \<Rightarrow>
          (case encode_buffer ae buf s of
             None \<Rightarrow> None
           | Some (frame, s) \<Rightarrow>
               let (sent, so) = start_send_unpin frame (ss_socket s); s = s\<lparr>ss_socket := so\<rparr> in
               (case sent of
                  Inl e \<Rightarrow> Some (Ready (Inl e), s)
                | Inr _ \<Rightarrow>
                    let (flushed, so) = poll_flush_unpin (ss_socket s); s = s\<lparr>ss_socket := so\<rparr> in
                    (case flushed of
                       Ready (Inl e) \<Rightarrow> Some (Ready (Inl e), s)
                     | _ \<Rightarrow> Some (Ready (Inr (length buf)), s))))
      | Pending \<Rightarrow> Some (Pending, s)
      | Ready (Inl e) \<Rightarrow> Some (Ready (Inl e), s))"

definition stream_poll_flush :: "secure_stream \<Rightarrow> (io_kind + unit) poll \<times> secure_stream" where
  "stream_poll_flush s = (let (r, so) = poll_flush_unpin (ss_socket s) in (r, s\<lparr>ss_socket := so\<rparr>))"

definition stream_poll_shutdown :: "secure_stream \<Rightarrow> (io_kind + unit) poll \<times> secure_stream" where
  "stream_poll_shutdown s = (let (r, so) = poll_close_unpin (ss_socket s) in (r, s\<lparr>ss_socket := so\<rparr>))"

section \<open>Reads and writes that wait\<close>

datatype 'a run = Finished 'a | Waits | Panics

lemma drain_props:
  assumes "drain room s = (b, s')"
  shows "length b \<le> room" and "ss_socket s' = ss_socket s" and "ss_decode_cipher s' = ss_decode_cipher s"
    and "ss_encode_cipher s' = ss_encode_cipher s" and "ss_nonce s' = ss_nonce s"
    and "b @ buffered (ss_recv_buf s') = buffered (ss_recv_buf s)"
    and "0 < room \<Longrightarrow> b = [] \<Longrightarrow> buffered (ss_recv_buf s) = []"
proof -
  have "b = take room (buffered (ss_recv_buf s)) \<and> buffered (ss_recv_buf s') = drop room (buffered (ss_recv_buf s)) \<and>
      ss_socket s' = ss_socket s \<and> ss_decode_cipher s' = ss_decode_cipher s \<and>
      ss_encode_cipher s' = ss_encode_cipher s \<and> ss_nonce s' = ss_nonce s"
  proof (cases "buffered (ss_recv_buf s) = []")
    case True
    with assms show ?thesis by (auto simp: drain_def recv_is_empty_def recv_len_def)
  next
    case False
    with assms show ?thesis
      by (cases "ss_recv_buf s") (auto simp: drain_def recv_is_empty_def recv_len_def Let_def min_def)
  qed
  then show "length b \<le> room" "ss_socket s' = ss_socket s" "ss_decode_cipher s' = ss_decode_cipher s"
    "ss_encode_cipher s' = ss_encode_cipher s" "ss_nonce s' = ss_nonce s"
    "b @ buffered (ss_recv_buf s') = buffered (ss_recv_buf s)"
    "0 < room \<Longrightarrow> b = [] \<Longrightarrow> buffered (ss_recv_buf s) = []"
    by auto
qed

lemma decode_buffer_socket: "decode_buffer ae t s = Some (r, s') \<Longrightarrow> ss_socket s' = ss_socket s"
  by (auto simp: decode_buffer_def split: if_splits)

lemma poll_next_uses:
  "poll_next_unpin so = (f, so') \<Longrightarrow>
    length (so_in so') \<le> length (so_in so) \<and> (so_in so \<noteq> [] \<longrightarrow> length (so_in so') < length (so_in so))"
  by (auto simp: poll_next_unpin_def split: list.splits)

text \<open>A poll that is not served from the buffer takes the next answer of the socket.\<close>

lemma poll_read_uses:
  assumes "stream_poll_read ae room s = Some (r, s')"
  shows "length (so_in (ss_socket s')) \<le> length (so_in (ss_socket s))"
    and "r = Pending \<Longrightarrow> so_in (ss_socket s) \<noteq> [] \<Longrightarrow> length (so_in (ss_socket s')) < length (so_in (ss_socket s))"
    and "r = Ready (Inr b) \<Longrightarrow> length b \<le> room"
proof -
  obtain c s1 where d: "drain room s = (c, s1)" by force
  note dp = drain_props [OF d]
  show "length (so_in (ss_socket s')) \<le> length (so_in (ss_socket s))"
    "r = Pending \<Longrightarrow> so_in (ss_socket s) \<noteq> [] \<Longrightarrow> length (so_in (ss_socket s')) < length (so_in (ss_socket s))"
    using assms dp(2) unfolding stream_poll_read_def d
    by (auto simp: Let_def split: if_splits poll.splits option.splits sum.splits prod.splits
        dest!: poll_next_uses decode_buffer_socket drain_props(2))
  show "r = Ready (Inr b) \<Longrightarrow> length b \<le> room"
    using assms dp(1) unfolding stream_poll_read_def d
    by (auto simp: Let_def recv_len_def split: if_splits poll.splits option.splits sum.splits prod.splits
        dest!: drain_props(1))
qed

lemma poll_read_measure:
  assumes "stream_poll_read ae want s = Some (Ready (Inr b), s')" and "b \<noteq> []" and "0 < want"
  shows "want - length b + length (so_in (ss_socket s')) < want + length (so_in (ss_socket s))"
  using poll_read_uses(1) [OF assms(1)] assms(2,3) by (cases b) auto

text \<open>\<^verbatim>\<open>AsyncReadExt::read_exact\<close>: a read without data is the end of the stream.\<close>

function read_exact :: "aead \<Rightarrow> nat \<Rightarrow> secure_stream \<Rightarrow> ((io_kind + bytes) \<times> secure_stream) run" where
  "read_exact ae want s =
     (if want = 0 then Finished (Inr [], s)
      else (case stream_poll_read ae want s of
        None \<Rightarrow> Panics
      | Some (Pending, s') \<Rightarrow> if so_in (ss_socket s) = [] then Waits else read_exact ae want s'
      | Some (Ready (Inl e), s') \<Rightarrow> Finished (Inl e, s')
      | Some (Ready (Inr b), s') \<Rightarrow>
          if b = [] then Finished (Inl IoUnexpectedEof, s')
          else (case read_exact ae (want - length b) s' of
                  Finished (Inr r, s'') \<Rightarrow> Finished (Inr (b @ r), s'')
                | x \<Rightarrow> x)))"
  by pat_completeness auto

termination
  by (relation "measure (\<lambda>(ae, want, s). want + length (so_in (ss_socket s)))")
    (auto intro: poll_read_measure poll_read_uses(2))

declare read_exact.simps [simp del]

definition verify_nonce :: "aead \<Rightarrow> secure_stream \<Rightarrow> ((secio_error + unit) \<times> secure_stream) run" where
  "verify_nonce ae s =
     (if ss_nonce s \<noteq> [] then
        (case read_exact ae (length (ss_nonce s)) s of
           Panics \<Rightarrow> Panics
         | Waits \<Rightarrow> Waits
         | Finished (Inl e, s) \<Rightarrow> Finished (Inl (IoError e), s)
         | Finished (Inr nonce, s) \<Rightarrow>
             let n = min (length nonce) (length (ss_nonce s)) in
             if take n nonce \<noteq> take n (ss_nonce s) then Finished (Inl NonceVerificationFailed, s)
             else Finished (Inr (), s\<lparr>ss_nonce := drop n (ss_nonce s)\<rparr>))
      else Finished (Inr (), s))"

text \<open>\<^verbatim>\<open>AsyncWriteExt::write_all\<close> and \<^verbatim>\<open>flush\<close>, polled until the socket is ready; \<^verbatim>\<open>poll_write\<close> takes the whole buffer.\<close>

lemma poll_write_uses:
  assumes "stream_poll_write ae buf s = Some (Pending, s')" and "so_ready (ss_socket s) \<noteq> []"
  shows "length (so_ready (ss_socket s')) < length (so_ready (ss_socket s))"
  using assms
  by (auto simp: stream_poll_write_def poll_ready_unpin_def Let_def split: list.splits poll.splits sum.splits option.splits prod.splits)

function write_all :: "aead \<Rightarrow> bytes \<Rightarrow> secure_stream \<Rightarrow> ((io_kind + unit) \<times> secure_stream) run" where
  "write_all ae buf s =
     (if buf = [] then Finished (Inr (), s)
      else (case stream_poll_write ae buf s of
        None \<Rightarrow> Panics
      | Some (Pending, s') \<Rightarrow> if so_ready (ss_socket s) = [] then Waits else write_all ae buf s'
      | Some (Ready (Inl e), s') \<Rightarrow> Finished (Inl e, s')
      | Some (Ready (Inr n), s') \<Rightarrow> Finished (Inr (), s')))"
  by pat_completeness auto

termination
  by (relation "measure (\<lambda>(ae, buf, s). length (so_ready (ss_socket s)))") (auto dest: poll_write_uses)

declare write_all.simps [simp del]

function flush :: "secure_stream \<Rightarrow> ((io_kind + unit) \<times> secure_stream) run" where
  "flush s =
     (if so_flush (ss_socket s) = [] then Waits
      else (case stream_poll_flush s of
              (Pending, s') \<Rightarrow> flush s'
            | (Ready r, s') \<Rightarrow> Finished (r, s')))"
  by pat_completeness auto

termination
  by (relation "measure (\<lambda>s. length (so_flush (ss_socket s)))")
    (auto simp: stream_poll_flush_def poll_flush_unpin_def Let_def split: list.splits prod.splits)

declare flush.simps [simp del]

section \<open>What a stream still has to deliver\<close>

definition carries :: "aead \<Rightarrow> secure_stream \<Rightarrow> bytes list \<Rightarrow> bool" where
  "carries ae s ws \<longleftrightarrow> open_socket (so_in (ss_socket s)) \<and>
     (\<exists>c. seal_all (decrypted ae) (ss_decode_cipher s) (frames_of (so_in (ss_socket s))) = Some (ws, c))"

fun got :: "(io_kind + bytes) poll \<Rightarrow> bytes" where
  "got (Ready (Inr b)) = b"
| "got _ = []"

lemma decode_buffer_decrypted:
  assumes "decrypted ae (ss_decode_cipher s) t = Some (x, c)"
  shows "\<exists>d. decode_buffer ae t s = Some (Inr d, s\<lparr>ss_decode_cipher := c\<rparr>) \<and> buffered d = x"
proof -
  have d: "decrypt ae (ss_decode_cipher s) t = Some (Inr x, c)"
    using assms by (auto simp: decrypted_def split: option.splits sum.splits prod.splits)
  have "decrypt_in_place ae (ss_decode_cipher s) t = decrypt ae (ss_decode_cipher s) t" if "is_in_place (ss_decode_cipher s)"
    using that by (cases "ss_decode_cipher s") simp_all
  with d show ?thesis by (auto simp: decode_buffer_def)
qed

lemma poll_read_empty_buffer:
  assumes "carries ae s ws" and "buffered (ss_recv_buf s) = []" and "0 < room"
  shows "\<exists>r s' ws'. stream_poll_read ae room s = Some (r, s') \<and> (r = Pending \<or> r = Ready (Inr (got r))) \<and>
    concat ws = got r @ buffered (ss_recv_buf s') @ concat ws' \<and> carries ae s' ws'"
proof -
  have drain: "drain n s = ([], s)" for n
    using assms(2) by (simp add: drain_def recv_is_empty_def recv_len_def)
  show ?thesis
  proof (cases "so_in (ss_socket s)")
    case Nil
    then have "stream_poll_read ae room s = Some (Pending, s\<lparr>ss_socket := ss_socket s\<rparr>)"
      by (simp add: stream_poll_read_def drain poll_next_unpin_def)
    with assms(1,2) show ?thesis by auto
  next
    case (Cons a as)
    let ?s = "s\<lparr>ss_socket := (ss_socket s)\<lparr>so_in := as\<rparr>\<rparr>"
    have nxt: "poll_next_unpin (ss_socket s) = (a, (ss_socket s)\<lparr>so_in := as\<rparr>)"
      using Cons by (simp add: poll_next_unpin_def)
    from assms(1) Cons consider "a = Pending" | f where "a = Ready (Some (Inr f))"
      by (auto simp: carries_def open_socket_def split: poll.splits option.splits sum.splits)
    then show ?thesis
    proof cases
      case 1
      then have "stream_poll_read ae room s = Some (Pending, ?s)" by (simp add: stream_poll_read_def drain nxt)
      moreover have "carries ae ?s ws" using assms(1) Cons 1 by (simp add: carries_def open_socket_def)
      ultimately show ?thesis using assms(2) by auto
    next
      case (2 f)
      with assms(1) Cons obtain x c ws' c' where x: "decrypted ae (ss_decode_cipher s) f = Some (x, c)" "ws = x # ws'"
        "seal_all (decrypted ae) c (frames_of as) = Some (ws', c')" and as: "open_socket as"
        by (auto simp: carries_def open_socket_def split: option.splits prod.splits)
      let ?t = "?s\<lparr>ss_decode_cipher := c\<rparr>"
      from decode_buffer_decrypted [of ae ?s f x c] x(1) obtain d where d: "decode_buffer ae f ?s = Some (Inr d, ?t)" "buffered d = x"
        by auto
      have carries: "carries ae (?t\<lparr>ss_recv_buf := b\<rparr>) ws'" "carries ae ?t ws'" for b
        using x(3) as by (auto simp: carries_def)
      show ?thesis
      proof (cases "recv_len d \<le> room")
        case True
        then have "stream_poll_read ae room s = Some (Ready (Inr x), ?t)"
          using 2 d by (simp add: stream_poll_read_def drain nxt)
        with carries(2) x(2) assms(2) show ?thesis by auto
      next
        case False
        obtain b s' where b: "drain room (?t\<lparr>ss_recv_buf := d\<rparr>) = (b, s')" by force
        with False 2 d have "stream_poll_read ae room s = Some (Ready (Inr b), s')"
          by (simp add: stream_poll_read_def drain nxt)
        moreover have "carries ae s' ws'"
          using drain_props(2,3) [OF b] carries(1) [of d] by (simp add: carries_def)
        moreover have "b @ buffered (ss_recv_buf s') = x" using drain_props(6) [OF b] d(2) by simp
        ultimately show ?thesis using x(2) by auto
      qed
    qed
  qed
qed

lemma poll_read_delivers:
  assumes "carries ae s ws" and "0 < room"
  shows "\<exists>r s' ws'. stream_poll_read ae room s = Some (r, s') \<and> (r = Pending \<or> r = Ready (Inr (got r))) \<and>
    buffered (ss_recv_buf s) @ concat ws = got r @ buffered (ss_recv_buf s') @ concat ws' \<and> carries ae s' ws'"
proof (cases "buffered (ss_recv_buf s) = []")
  case True
  with poll_read_empty_buffer [OF assms(1) True assms(2)] show ?thesis by simp
next
  case False
  obtain b s' where d: "drain room s = (b, s')" by force
  note dp = drain_props [OF d]
  have "b \<noteq> []" using False dp(7) assms(2) by auto
  then have "stream_poll_read ae room s = Some (Ready (Inr b), s')" by (simp add: stream_poll_read_def d)
  moreover have "carries ae s' ws" using assms(1) dp(2,3) by (simp add: carries_def)
  moreover have "buffered (ss_recv_buf s) @ concat ws = b @ buffered (ss_recv_buf s') @ concat ws"
    using dp(6) by (metis append.assoc)
  ultimately show ?thesis by auto
qed

text \<open>Several reads with buffers of the given sizes, and several writes that are all taken.\<close>

fun reads :: "aead \<Rightarrow> secure_stream \<Rightarrow> nat list \<Rightarrow> (bytes \<times> secure_stream) option" where
  "reads ae s [] = Some ([], s)"
| "reads ae s (n # ns) =
     (case stream_poll_read ae n s of
        None \<Rightarrow> None
      | Some (Ready (Inl _), _) \<Rightarrow> None
      | Some (r, s') \<Rightarrow> map_option (\<lambda>(b, s''). (got r @ b, s'')) (reads ae s' ns))"

fun writes :: "aead \<Rightarrow> secure_stream \<Rightarrow> bytes list \<Rightarrow> secure_stream option" where
  "writes ae s [] = Some s"
| "writes ae s (x # xs) =
     (case stream_poll_write ae x s of
        Some (Ready (Inr _), s') \<Rightarrow> writes ae s' xs
      | _ \<Rightarrow> None)"

lemma reads_deliver:
  assumes "list_all (\<lambda>n. 0 < n) ns"
  shows "carries ae s ws \<Longrightarrow> \<exists>b s' ws'. reads ae s ns = Some (b, s') \<and>
    buffered (ss_recv_buf s) @ concat ws = b @ buffered (ss_recv_buf s') @ concat ws' \<and> carries ae s' ws'"
  using assms
proof (induction ns arbitrary: s ws)
  case Nil
  then show ?case by auto
next
  case (Cons n ns)
  then have "0 < n" by simp
  from poll_read_delivers [OF Cons.prems(1) this] obtain r s1 ws1 where
    1: "stream_poll_read ae n s = Some (r, s1)" "r = Pending \<or> r = Ready (Inr (got r))"
      "buffered (ss_recv_buf s) @ concat ws = got r @ buffered (ss_recv_buf s1) @ concat ws1" "carries ae s1 ws1" by blast
  from Cons.IH [OF 1(4)] Cons.prems(2) obtain b s' ws' where
    2: "reads ae s1 ns = Some (b, s')" "buffered (ss_recv_buf s1) @ concat ws1 = b @ buffered (ss_recv_buf s') @ concat ws'"
      "carries ae s' ws'" by auto
  have "reads ae s (n # ns) = Some (got r @ b, s')" using 1(1,2) 2(1) by (auto split: poll.splits sum.splits)
  with 1(3) 2(2,3) show ?case by (intro exI [of _ "got r @ b"] exI [of _ s'] exI [of _ ws']) simp
qed

lemma poll_write_out:
  assumes "stream_poll_write ae x s = Some (Ready (Inr n), s')"
  shows "\<exists>m c. encrypted ae (ss_encode_cipher s) x = Some (m, c) \<and> ss_encode_cipher s' = c \<and>
    so_out (ss_socket s') = so_out (ss_socket s) @ [m]"
  using assms
  by (auto simp: stream_poll_write_def poll_ready_unpin_def start_send_unpin_def poll_flush_unpin_def encode_buffer_def
      encrypted_def Let_def split: list.splits poll.splits sum.splits option.splits prod.splits if_splits)

lemma writes_out:
  "writes ae s xs = Some s' \<Longrightarrow> \<exists>ms c. seal_all (encrypted ae) (ss_encode_cipher s) xs = Some (ms, c) \<and>
    so_out (ss_socket s') = so_out (ss_socket s) @ ms"
proof (induction xs arbitrary: s)
  case (Cons x xs)
  then obtain n s1 where 1: "stream_poll_write ae x s = Some (Ready (Inr n), s1)" "writes ae s1 xs = Some s'"
    by (auto split: option.splits prod.splits poll.splits sum.splits)
  from poll_write_out [OF 1(1)] Cons.IH [OF 1(2)] show ?case by fastforce
qed simp

lemma seal_all_take:
  "seal_all f s xs = Some (ys, s') \<Longrightarrow> \<exists>s''. seal_all f s (take k xs) = Some (take k ys, s'')"
proof (induction xs arbitrary: s ys k)
  case (Cons x xs)
  then obtain y s1 zs where "f s x = Some (y, s1)" "seal_all f s1 xs = Some (zs, s')" "ys = y # zs"
    by (auto split: option.splits prod.splits)
  with Cons.IH [of s1 zs "k - 1"] show ?case by (cases k) auto
qed simp

lemma seal_all_length: "seal_all f s xs = Some (ys, s') \<Longrightarrow> length ys = length xs"
  by (induction xs arbitrary: s ys) (auto split: option.splits prod.splits)

section \<open>Samples\<close>

definition sample_crypt :: crypt where "sample_crypt = crypt_new Aes128Gcm (replicate 16 1)"

definition sample_socket :: framed_socket where
  "sample_socket = \<lparr>so_in = [], so_ready = [Ready (Inr ()), Ready (Inr ())], so_send = [], so_flush = [], so_close = [], so_out = []\<rparr>"

definition sample_writer :: secure_stream where
  "sample_writer = secure_stream_new sample_socket (OpenSsLCrypt sample_crypt) (OpenSsLCrypt sample_crypt) []"

definition sample_reader :: "(io_kind + bytes) option poll list \<Rightarrow> secure_stream" where
  "sample_reader as = secure_stream_new (sample_socket\<lparr>so_in := as\<rparr>) (RingAeadCipher Decrypt sample_crypt) (RingAeadCipher Encrypt sample_crypt) []"

definition sample_answers :: "(io_kind + bytes) option poll list" where
  "sample_answers = [Pending, Ready (Some (Inr ([1, 2, 3] @ replicate 16 7))), Ready (Some (Inr ([4] @ replicate 16 7)))]"

lemmas sample_defs = sample_crypt_def sample_socket_def sample_writer_def sample_reader_def sample_answers_def
  secure_stream_new_def crypt_new_def

lemma sample_in_step: "in_step (ss_encode_cipher sample_writer) (ss_decode_cipher (sample_reader as))"
  by (simp add: in_step_def sample_defs)

lemma sample_decrypted:
  "decrypted plain_aead (RingAeadCipher Decrypt sample_crypt) (x @ replicate 16 7) =
     Some (x, RingAeadCipher Decrypt (advance sample_crypt))"
  by (simp add: decrypted_def ring_decrypt_def plain_aead_def Let_def sample_crypt_def crypt_new_def advance_def)

lemma sample_writes:
  "\<exists>w. writes plain_aead sample_writer [[1, 2, 3], [4]] = Some w \<and> so_out (ss_socket w) = frames_of sample_answers"
proof -
  have "map_option (\<lambda>w. so_out (ss_socket w)) (writes plain_aead sample_writer [[1, 2, 3], [4]]) = Some (frames_of sample_answers)"
    by code_simp
  then show ?thesis by auto
qed

section \<open>Properties\<close>

text \<open>C21. The bytes written to an encrypted stream are the bytes read from it at the other end: if the first \<open>k\<close> of
  the frames a writer has sent arrive, then reads with buffers of any positive sizes neither fail nor panic, and
  what they return, followed by what is buffered and what the frames still to be read contain, is what was written.
  (A read with an empty buffer is excluded: it discards what is buffered.)\<close>

theorem secure_stream_integrity:
  assumes "aead_ok ae" and "in_step (ss_encode_cipher w) (ss_decode_cipher r)" and "so_out (ss_socket w) = []"
    and "writes ae w ws = Some w'" and "open_socket (so_in (ss_socket r))"
    and "frames_of (so_in (ss_socket r)) = take k (so_out (ss_socket w'))"
    and "buffered (ss_recv_buf r) = []" and "list_all (\<lambda>n. 0 < n) ns"
  shows "\<exists>b r' ws'. reads ae r ns = Some (b, r') \<and> concat (take k ws) = b @ buffered (ss_recv_buf r') @ concat ws' \<and>
    length ws' = length (frames_of (so_in (ss_socket r')))"
proof -
  from writes_out [OF assms(4)] assms(3) obtain ms c where
    ms: "seal_all (encrypted ae) (ss_encode_cipher w) ws = Some (ms, c)" "so_out (ss_socket w') = ms" by auto
  from ciphers.transfer_all [OF assms(1,2), of ws] ms(1) obtain r1 where
    "seal_all (decrypted ae) (ss_decode_cipher r) ms = Some (ws, r1)" by auto
  from seal_all_take [OF this, of k] have "carries ae r (take k ws)"
    using assms(5,6) ms(2) by (auto simp: carries_def)
  from reads_deliver [OF assms(8) this] assms(7) obtain b r' ws' where
    "reads ae r ns = Some (b, r')" "concat (take k ws) = b @ buffered (ss_recv_buf r') @ concat ws'" "carries ae r' ws'" by auto
  moreover then have "length ws' = length (frames_of (so_in (ss_socket r')))"
    by (auto simp: carries_def dest: seal_all_length)
  ultimately show ?thesis by blast
qed

theorem secure_stream_integrity_witness:
  "\<exists>b r' ws'. reads plain_aead (sample_reader sample_answers) [1, 2, 5, 5, 5] = Some (b, r') \<and>
     concat (take 2 [[1, 2, 3], [4]]) = b @ buffered (ss_recv_buf r') @ concat ws' \<and>
     length ws' = length (frames_of (so_in (ss_socket r')))"
proof -
  from sample_writes obtain w where w: "writes plain_aead sample_writer [[1, 2, 3], [4]] = Some w"
    "so_out (ss_socket w) = frames_of sample_answers" by blast
  have "open_socket (so_in (ss_socket (sample_reader sample_answers)))" by (simp add: open_socket_def sample_defs)
  moreover have "frames_of (so_in (ss_socket (sample_reader sample_answers))) = take 2 (so_out (ss_socket w))"
    by (simp add: w(2)) (simp add: sample_defs)
  moreover have "buffered (ss_recv_buf (sample_reader sample_answers)) = []" "so_out (ss_socket sample_writer) = []"
    by (simp_all add: sample_defs)
  ultimately show ?thesis
    by (intro secure_stream_integrity [OF plain_aead_ok sample_in_step _ w(1)]) simp_all
qed

text \<open>A read with an empty buffer loses data: while bytes are still buffered, a poll without room copies
  nothing, takes the next frame from the socket, and puts it in the place of the buffered bytes.\<close>

theorem zero_length_read_loses_data:
  assumes "so_in (ss_socket s) = Ready (Some (Inr f)) # as" and "decrypted ae (ss_decode_cipher s) f = Some (x, c)" and "x \<noteq> []"
  shows "\<exists>s'. stream_poll_read ae 0 s = Some (Ready (Inr []), s') \<and> buffered (ss_recv_buf s') = x"
proof -
  obtain b s1 where d: "drain 0 s = (b, s1)" by force
  note dp = drain_props [OF d]
  have b: "b = []" using dp(1) by simp
  let ?s = "s1\<lparr>ss_socket := (ss_socket s1)\<lparr>so_in := as\<rparr>\<rparr>"
  have nxt: "poll_next_unpin (ss_socket s1) = (Ready (Some (Inr f)), (ss_socket s1)\<lparr>so_in := as\<rparr>)"
    using assms(1) dp(2) by (simp add: poll_next_unpin_def)
  from decode_buffer_decrypted [of ae ?s f x c] assms(2) dp(3) obtain e where
    e: "decode_buffer ae f ?s = Some (Inr e, ?s\<lparr>ss_decode_cipher := c\<rparr>)" "buffered e = x" by auto
  obtain b' s' where d': "drain 0 (?s\<lparr>ss_decode_cipher := c, ss_recv_buf := e\<rparr>) = (b', s')" by force
  have "b' = []" "buffered (ss_recv_buf s') = x" using drain_props(1,6) [OF d'] e(2) by simp_all
  moreover have "\<not> recv_len e \<le> 0" using e(2) assms(3) by (simp add: recv_len_def)
  ultimately show ?thesis using b d' e(1) by (simp add: stream_poll_read_def d nxt)
qed

theorem zero_length_read_loses_data_witness:
  "\<exists>s'. stream_poll_read plain_aead 0 ((sample_reader (drop 1 sample_answers))\<lparr>ss_recv_buf := RByte [9, 9]\<rparr>) =
     Some (Ready (Inr []), s') \<and> buffered (ss_recv_buf s') = [1, 2, 3]"
proof (rule zero_length_read_loses_data)
  show "decrypted plain_aead (ss_decode_cipher ((sample_reader (drop 1 sample_answers))\<lparr>ss_recv_buf := RByte [9, 9]\<rparr>))
      ([1, 2, 3] @ replicate 16 7) = Some ([1, 2, 3], RingAeadCipher Decrypt (advance sample_crypt))"
    using sample_decrypted [of "[1, 2, 3]"] by (simp add: sample_reader_def secure_stream_new_def)
qed (simp_all add: sample_defs)

text \<open>An empty message looks like the end of the stream: a frame whose content is empty, as a write of an empty
  buffer sends it, makes a read succeed with no data, by which readers recognize the end, and \<^verbatim>\<open>read_exact\<close> fails.\<close>

theorem empty_message_reads_as_end:
  assumes "so_in (ss_socket s) = Ready (Some (Inr f)) # as" and "decrypted ae (ss_decode_cipher s) f = Some ([], c)"
    and "buffered (ss_recv_buf s) = []" and "0 < n"
  shows "\<exists>s'. stream_poll_read ae n s = Some (Ready (Inr []), s') \<and> read_exact ae n s = Finished (Inl IoUnexpectedEof, s')"
proof -
  have d: "drain n s = ([], s)" using assms(3) by (simp add: drain_def recv_is_empty_def recv_len_def)
  let ?s = "s\<lparr>ss_socket := (ss_socket s)\<lparr>so_in := as\<rparr>\<rparr>"
  have nxt: "poll_next_unpin (ss_socket s) = (Ready (Some (Inr f)), (ss_socket s)\<lparr>so_in := as\<rparr>)"
    using assms(1) by (simp add: poll_next_unpin_def)
  from decode_buffer_decrypted [of ae ?s f "[]" c] assms(2) obtain e where
    e: "decode_buffer ae f ?s = Some (Inr e, ?s\<lparr>ss_decode_cipher := c\<rparr>)" "buffered e = []" by auto
  then have "stream_poll_read ae n s = Some (Ready (Inr []), ?s\<lparr>ss_decode_cipher := c\<rparr>)"
    by (simp add: stream_poll_read_def d nxt recv_len_def)
  with assms(4) show ?thesis by (simp add: read_exact.simps)
qed

theorem empty_message_reads_as_end_witness:
  "\<exists>s'. stream_poll_read plain_aead 8 (sample_reader (Ready (Some (Inr (replicate 16 7))) # sample_answers)) = Some (Ready (Inr []), s') \<and>
     read_exact plain_aead 8 (sample_reader (Ready (Some (Inr (replicate 16 7))) # sample_answers)) = Finished (Inl IoUnexpectedEof, s')"
proof (rule empty_message_reads_as_end)
  show "decrypted plain_aead (ss_decode_cipher (sample_reader (Ready (Some (Inr (replicate 16 7))) # sample_answers)))
      (replicate 16 7) = Some ([], RingAeadCipher Decrypt (advance sample_crypt))"
    using sample_decrypted [of "[]"] by (simp add: sample_reader_def secure_stream_new_def)
qed (simp_all add: sample_defs)

end
