(* ===== verification/Secio_Support.thy ===== *)
theory Secio_Support
  imports Secio_Crypto
begin

text \<open>
  The negotiation of algorithms (\<^verbatim>\<open>secio/src/support.rs\<close>, with the enumerations of \<^verbatim>\<open>dh_compat/mod.rs\<close> and
  \<^verbatim>\<open>lib.rs\<close>): the proposition strings, and the choice of the first algorithm of the preferred side that the other
  side has too. The constants are those of builds that are not for WebAssembly.
\<close>

section \<open>Algorithms\<close>

datatype key_agreement = EcdhP256 | EcdhP384 | X25519
datatype digest = Sha256 | Sha512

definition num_bytes :: "digest \<Rightarrow> nat" where
  "num_bytes d = (case d of Sha256 \<Rightarrow> 256 div 8 | Sha512 \<Rightarrow> 512 div 8)"

text \<open>\<^verbatim>\<open>std::cmp::Ordering\<close>, and the order of byte slices.\<close>

datatype ordering = Less | Equal | Greater

fun cmp_bytes :: "bytes \<Rightarrow> bytes \<Rightarrow> ordering" where
  "cmp_bytes [] [] = Equal"
| "cmp_bytes [] (_ # _) = Less"
| "cmp_bytes (_ # _) [] = Greater"
| "cmp_bytes (a # x) (b # y) = (if a < b then Less else if b < a then Greater else cmp_bytes x y)"

definition ECDH_P256 :: bytes where "ECDH_P256 = ascii ''P-256''"
definition ECDH_P384 :: bytes where "ECDH_P384 = ascii ''P-384''"
definition X25519_NAME :: bytes where "X25519_NAME = ascii ''X25519''"
definition AES_128_GCM :: bytes where "AES_128_GCM = ascii ''AES-128-GCM''"
definition AES_256_GCM :: bytes where "AES_256_GCM = ascii ''AES-256-GCM''"
definition CHACHA20_POLY1305 :: bytes where "CHACHA20_POLY1305 = ascii ''CHACHA20_POLY1305''"
definition SHA_256 :: bytes where "SHA_256 = ascii ''SHA256''"
definition SHA_512 :: bytes where "SHA_512 = ascii ''SHA512''"

definition DEFAULT_AGREEMENTS_PROPOSITION :: bytes where
  "DEFAULT_AGREEMENTS_PROPOSITION = ascii ''P-256,P-384,X25519''"

definition DEFAULT_CIPHERS_PROPOSITION :: bytes where
  "DEFAULT_CIPHERS_PROPOSITION = ascii ''AES-128-GCM,AES-256-GCM,CHACHA20_POLY1305''"

definition DEFAULT_DIGESTS_PROPOSITION :: bytes where
  "DEFAULT_DIGESTS_PROPOSITION = ascii ''SHA256,SHA512''"

section \<open>Propositions\<close>

fun agreement_name :: "key_agreement \<Rightarrow> bytes" where
  "agreement_name EcdhP256 = ECDH_P256"
| "agreement_name EcdhP384 = ECDH_P384"
| "agreement_name X25519 = X25519_NAME"

fun cipher_name :: "cipher_type \<Rightarrow> bytes" where
  "cipher_name Aes128Gcm = AES_128_GCM"
| "cipher_name Aes256Gcm = AES_256_GCM"
| "cipher_name ChaCha20Poly1305 = CHACHA20_POLY1305"

fun digest_name :: "digest \<Rightarrow> bytes" where
  "digest_name Sha256 = SHA_256"
| "digest_name Sha512 = SHA_512"

text \<open>\<^verbatim>\<open>push_str\<close> and \<^verbatim>\<open>push(',')\<close> for each, and \<^verbatim>\<open>pop\<close> at the end.\<close>

definition key_agreements_proposition :: "key_agreement list \<Rightarrow> bytes" where
  "key_agreements_proposition xs = butlast (concat (map (\<lambda>x. agreement_name x @ [0x2C]) xs))"

definition ciphers_proposition :: "cipher_type list \<Rightarrow> bytes" where
  "ciphers_proposition cs = butlast (concat (map (\<lambda>c. cipher_name c @ [0x2C]) cs))"

definition digests_proposition :: "digest list \<Rightarrow> bytes" where
  "digests_proposition ds = butlast (concat (map (\<lambda>d. digest_name d @ [0x2C]) ds))"

section \<open>Selection\<close>

definition preferred :: "ordering \<Rightarrow> 'a \<Rightarrow> 'a \<Rightarrow> 'a \<times> 'a" where
  "preferred r ours theirs = (case r of Greater \<Rightarrow> (ours, theirs) | _ \<Rightarrow> (theirs, ours))"

text \<open>The loop over the preferred names: a common name that is not known is skipped.\<close>

fun select_loop :: "(bytes \<Rightarrow> 'a option) \<Rightarrow> bytes list \<Rightarrow> bytes list \<Rightarrow> secio_error + 'a" where
  "select_loop known [] b = Inl NoSupportIntersection"
| "select_loop known (x # a) b =
     (if x \<in> set b then (case known x of Some v \<Rightarrow> Inr v | None \<Rightarrow> select_loop known a b)
      else select_loop known a b)"

definition agreement_known :: "bytes \<Rightarrow> key_agreement option" where
  "agreement_known x =
     (if x = ECDH_P256 then Some EcdhP256 else if x = ECDH_P384 then Some EcdhP384
      else if x = X25519_NAME then Some X25519 else None)"

definition digest_known :: "bytes \<Rightarrow> digest option" where
  "digest_known x = (if x = SHA_256 then Some Sha256 else if x = SHA_512 then Some Sha512 else None)"

definition cipher_known :: "bytes \<Rightarrow> cipher_type option" where
  "cipher_known x =
     (if x = AES_128_GCM then Some Aes128Gcm else if x = AES_256_GCM then Some Aes256Gcm
      else if x = CHACHA20_POLY1305 then Some ChaCha20Poly1305 else None)"

definition select_agreement :: "ordering \<Rightarrow> bytes \<Rightarrow> bytes \<Rightarrow> secio_error + key_agreement" where
  "select_agreement r ours theirs =
     (let (a, b) = preferred r ours theirs in select_loop agreement_known (split_on 0x2C a) (split_on 0x2C b))"

definition select_digest :: "ordering \<Rightarrow> bytes \<Rightarrow> bytes \<Rightarrow> secio_error + digest" where
  "select_digest r ours theirs =
     (let (a, b) = preferred r ours theirs in select_loop digest_known (split_on 0x2C a) (split_on 0x2C b))"

definition select_cipher :: "ordering \<Rightarrow> bytes \<Rightarrow> bytes \<Rightarrow> secio_error + cipher_type" where
  "select_cipher r ours theirs =
     (let (a, b) = preferred r ours theirs in select_loop cipher_known (split_on 0x2C a) (split_on 0x2C b))"

section \<open>The contract of a negotiation\<close>

text \<open>A kind of algorithm has names without commas, by which it is known.\<close>

locale named_algorithms =
  fixes name :: "'a \<Rightarrow> bytes" and known :: "bytes \<Rightarrow> 'a option"
  assumes known_iff: "known x = Some a \<longleftrightarrow> x = name a"
    and name_plain: "0x2C \<notin> set (name a)"
    and name_nonempty: "name a \<noteq> []"
begin

lemma name_inject: "name a = name b \<longleftrightarrow> a = b"
  using known_iff by (metis option.inject)

lemma split_proposition:
  "split_on 0x2C (butlast (concat (map (\<lambda>x. name x @ [0x2C]) xs))) = (if xs = [] then [[]] else map name xs)"
proof (cases xs rule: rev_cases)
  case (snoc ys y)
  have "split_on 0x2C (concat (map (\<lambda>x. name x @ [0x2C]) zs) @ name y) = map name (zs @ [y])" for zs
    by (induction zs) (simp_all add: split_on_append split_on_plain name_plain)
  with snoc show ?thesis by (simp add: butlast_append)
qed simp

lemma select_loop_names:
  "select_loop known (map name a) (map name b) =
     (case find (\<lambda>x. x \<in> set b) a of None \<Rightarrow> Inl NoSupportIntersection | Some x \<Rightarrow> Inr x)"
proof (induction a)
  case (Cons x a)
  have "known (name x) = Some x" by (simp add: known_iff)
  moreover have "name x \<in> name ` set b \<longleftrightarrow> x \<in> set b" using name_inject by auto
  ultimately show ?case using Cons by simp
qed simp

lemma known_nothing: "known [] = None"
  using known_iff name_nonempty by (metis not_None_eq)

lemma select_loop_nothing: "select_loop known (map name a) [[]] = Inl NoSupportIntersection"
  using name_nonempty by (induction a) auto

text \<open>Selecting from two proposition strings is finding the first preferred algorithm the other side has.\<close>

lemma select_propositions:
  "select_loop known (split_on 0x2C (butlast (concat (map (\<lambda>x. name x @ [0x2C]) a))))
     (split_on 0x2C (butlast (concat (map (\<lambda>x. name x @ [0x2C]) b)))) =
   (case find (\<lambda>x. x \<in> set b) a of None \<Rightarrow> Inl NoSupportIntersection | Some x \<Rightarrow> Inr x)"
proof -
  have "find (\<lambda>x. False) a = None" by (induction a) simp_all
  then show ?thesis
    using select_loop_names [of a b] select_loop_nothing [of a]
    by (auto simp: split_proposition known_nothing)
qed

end

interpretation agreements: named_algorithms agreement_name agreement_known
proof unfold_locales
  show "agreement_known x = Some a \<longleftrightarrow> x = agreement_name a" for x a
    by (cases a) (auto simp: agreement_known_def ECDH_P256_def ECDH_P384_def X25519_NAME_def ascii_def)
  show "0x2C \<notin> set (agreement_name a)" "agreement_name a \<noteq> []" for a
    by (cases a; simp add: ECDH_P256_def ECDH_P384_def X25519_NAME_def ascii_def)+
qed

interpretation digests: named_algorithms digest_name digest_known
proof unfold_locales
  show "digest_known x = Some a \<longleftrightarrow> x = digest_name a" for x a
    by (cases a) (auto simp: digest_known_def SHA_256_def SHA_512_def ascii_def)
  show "0x2C \<notin> set (digest_name a)" "digest_name a \<noteq> []" for a
    by (cases a; simp add: SHA_256_def SHA_512_def ascii_def)+
qed

interpretation cipher_types: named_algorithms cipher_name cipher_known
proof unfold_locales
  show "cipher_known x = Some a \<longleftrightarrow> x = cipher_name a" for x a
    by (cases a) (auto simp: cipher_known_def AES_128_GCM_def AES_256_GCM_def CHACHA20_POLY1305_def ascii_def)
  show "0x2C \<notin> set (cipher_name a)" "cipher_name a \<noteq> []" for a
    by (cases a; simp add: AES_128_GCM_def AES_256_GCM_def CHACHA20_POLY1305_def ascii_def)+
qed

lemma cmp_bytes_Equal: "cmp_bytes x y = Equal \<longleftrightarrow> x = y"
  by (induction x y rule: cmp_bytes.induct) auto

fun flipped :: "ordering \<Rightarrow> ordering" where
  "flipped Less = Greater"
| "flipped Equal = Equal"
| "flipped Greater = Less"

lemma cmp_bytes_flipped: "cmp_bytes y x = flipped (cmp_bytes x y)"
  by (induction x y rule: cmp_bytes.induct) auto

lemma preferred_flipped: "r \<noteq> Equal \<Longrightarrow> preferred (flipped r) theirs ours = preferred r ours theirs"
  by (cases r) (simp_all add: preferred_def)

lemma select_flipped:
  assumes "r \<noteq> Equal"
  shows "select_agreement (flipped r) theirs ours = select_agreement r ours theirs"
    and "select_digest (flipped r) theirs ours = select_digest r ours theirs"
    and "select_cipher (flipped r) theirs ours = select_cipher r ours theirs"
  by (simp_all add: select_agreement_def select_digest_def select_cipher_def preferred_flipped [OF assms])

section \<open>Properties\<close>

text \<open>C32. Negotiation: for two lists of algorithms, made to proposition strings and compared as strings, each of the
  three selections yields the first algorithm of the preferred side that the other side has as well, and fails
  exactly if there is none. Both sides of a connection, which see the two strings in opposite roles and the
  opposite ordering, select the same.\<close>

theorem selection_refines_first_common:
  "select_agreement r (key_agreements_proposition xs) (key_agreements_proposition ys) =
     (let (a, b) = preferred r xs ys in
      case find (\<lambda>x. x \<in> set b) a of None \<Rightarrow> Inl NoSupportIntersection | Some x \<Rightarrow> Inr x) \<and>
   select_cipher r (ciphers_proposition cs) (ciphers_proposition ds) =
     (let (a, b) = preferred r cs ds in
      case find (\<lambda>x. x \<in> set b) a of None \<Rightarrow> Inl NoSupportIntersection | Some x \<Rightarrow> Inr x) \<and>
   select_digest r (digests_proposition hs) (digests_proposition gs) =
     (let (a, b) = preferred r hs gs in
      case find (\<lambda>x. x \<in> set b) a of None \<Rightarrow> Inl NoSupportIntersection | Some x \<Rightarrow> Inr x) \<and>
   (r = Equal \<or> select_agreement (flipped r) theirs ours = select_agreement r ours theirs \<and>
      select_cipher (flipped r) theirs ours = select_cipher r ours theirs \<and>
      select_digest (flipped r) theirs ours = select_digest r ours theirs)"
  using agreements.select_propositions cipher_types.select_propositions digests.select_propositions select_flipped
  by (cases r) (auto simp: select_agreement_def select_cipher_def select_digest_def preferred_def
      key_agreements_proposition_def ciphers_proposition_def digests_proposition_def)

end
