(* ===== verification/Secio_Keys.thy ===== *)
theory Secio_Keys
  imports Secio_Messages Secio_Stream Secio_Support
begin

text \<open>
  The keys of a secio handshake: the key providers (\<^verbatim>\<open>secio/src/lib.rs\<close>), the agreement on a secret for each platform
  (\<^verbatim>\<open>dh_compat\<close>), and the derivation of the two cipher keys (\<^verbatim>\<open>stretch_key\<close> and
  \<^verbatim>\<open>generate_stream_cipher_and_hmac\<close> of \<^verbatim>\<open>handshake/procedure.rs\<close>).

  Parameters are what the cryptographic libraries compute, the record \<open>crypto\<close>: hashing, public keys and shared
  secrets. The random private keys are arguments. \<open>None\<close> as the result of a definition is a panic, unless stated.
\<close>

section \<open>Parameters\<close>

text \<open>\<open>cr_derive\<close> reads the public key and derives a secret, or fails; \<open>cr_diffie_hellman\<close> is the same of the crate for
  WebAssembly, which cannot fail.\<close>

record crypto =
  cr_sha256 :: "bytes \<Rightarrow> bytes"
  cr_hmac :: "digest \<Rightarrow> bytes \<Rightarrow> bytes \<Rightarrow> bytes"
  cr_public :: "key_agreement \<Rightarrow> bytes \<Rightarrow> bytes"
  cr_derive :: "key_agreement \<Rightarrow> bytes \<Rightarrow> bytes \<Rightarrow> bytes option"
  cr_diffie_hellman :: "bytes \<Rightarrow> bytes \<Rightarrow> bytes"
  cr_mol :: molecule
  cr_aead :: aead

section \<open>Key providers\<close>

text \<open>\<^verbatim>\<open>KeyProvider\<close>: signing, the public key, and checking the signature of a public key on a message.\<close>

record key_provider =
  kp_sign_ecdsa :: "bytes \<Rightarrow> secio_error + bytes"
  kp_pubkey :: bytes
  kp_verify_ecdsa :: "bytes \<Rightarrow> bytes \<Rightarrow> bytes \<Rightarrow> bool"

text \<open>The library of the curve: \<open>None\<close> where it reports a wrong format.\<close>

record secp256k1 =
  sp_message :: "bytes \<Rightarrow> bytes option"
  sp_sign :: "bytes \<Rightarrow> bytes \<Rightarrow> bytes"
  sp_pubkey_of :: "bytes \<Rightarrow> bytes"
  sp_signature_from_der :: "bytes \<Rightarrow> bytes option"
  sp_pubkey_from_slice :: "bytes \<Rightarrow> bytes option"
  sp_verify :: "bytes \<Rightarrow> bytes \<Rightarrow> bytes \<Rightarrow> bool"

definition keypair_sign_ecdsa :: "secp256k1 \<Rightarrow> bytes \<Rightarrow> bytes \<Rightarrow> secio_error + bytes" where
  "keypair_sign_ecdsa sp private message =
     (case sp_message sp message of
        None \<Rightarrow> Inl InvalidMessage
      | Some msg \<Rightarrow> Inr (sp_sign sp msg private))"

definition keypair_pubkey :: "secp256k1 \<Rightarrow> bytes \<Rightarrow> bytes" where
  "keypair_pubkey sp private = sp_pubkey_of sp private"

definition keypair_verify_ecdsa :: "secp256k1 \<Rightarrow> bytes \<Rightarrow> bytes \<Rightarrow> bytes \<Rightarrow> bool" where
  "keypair_verify_ecdsa sp pubkey message signature =
     (case (sp_signature_from_der sp signature, sp_message sp message, sp_pubkey_from_slice sp pubkey) of
        (Some signature, Some message, Some pubkey) \<Rightarrow> sp_verify sp message signature pubkey
      | _ \<Rightarrow> False)"

definition secio_key_pair :: "secp256k1 \<Rightarrow> bytes \<Rightarrow> key_provider" where
  "secio_key_pair sp private =
     \<lparr>kp_sign_ecdsa = keypair_sign_ecdsa sp private, kp_pubkey = keypair_pubkey sp private,
      kp_verify_ecdsa = keypair_verify_ecdsa sp\<rparr>"

definition noop_key_provider :: key_provider where
  "noop_key_provider =
     \<lparr>kp_sign_ecdsa = (\<lambda>_. Inl NotSupportKeyProvider), kp_pubkey = [], kp_verify_ecdsa = (\<lambda>_ _ _. False)\<rparr>"

section \<open>Key agreement\<close>

definition pubkey_len :: "key_agreement \<Rightarrow> nat" where
  "pubkey_len al = (case al of EcdhP256 \<Rightarrow> 1 + 2 * 32 | EcdhP384 \<Rightarrow> 1 + 2 * 48 | X25519 \<Rightarrow> 32)"

text \<open>The argument is what the generator of private keys returns for each algorithm; it fails with \<open>None\<close>.\<close>

definition openssl_generate :: "crypto \<Rightarrow> key_agreement \<Rightarrow> bytes option \<Rightarrow> secio_error + bytes \<times> bytes" where
  "openssl_generate cr al sk = (case sk of None \<Rightarrow> Inl Openssl | Some k \<Rightarrow> Inr (k, cr_public cr al k))"

definition ring_generate :: "crypto \<Rightarrow> key_agreement \<Rightarrow> bytes option \<Rightarrow> secio_error + bytes \<times> bytes" where
  "ring_generate cr al sk =
     (case sk of None \<Rightarrow> Inl EphemeralKeyGenerationFailed | Some k \<Rightarrow> Inr (k, cr_public cr al k))"

definition wasm_generate :: "crypto \<Rightarrow> key_agreement \<Rightarrow> bytes option \<Rightarrow> (secio_error + bytes \<times> bytes) option" where
  "wasm_generate cr al sk =
     (case al of
        X25519 \<Rightarrow> (case sk of None \<Rightarrow> None | Some k \<Rightarrow> Some (Inr (k, cr_public cr al k)))
      | EcdhP256 \<Rightarrow> Some (Inl EphemeralKeyGenerationFailed)
      | EcdhP384 \<Rightarrow> Some (Inl EphemeralKeyGenerationFailed))"

definition openssl_agree :: "crypto \<Rightarrow> key_agreement \<Rightarrow> bytes \<Rightarrow> bytes \<Rightarrow> secio_error + bytes" where
  "openssl_agree cr al my_private_key other_public_key =
     (if length other_public_key \<noteq> pubkey_len al then Inl SecretGenerationFailed
      else (case cr_derive cr al my_private_key other_public_key of None \<Rightarrow> Inl Openssl | Some k \<Rightarrow> Inr k))"

definition ring_agree :: "crypto \<Rightarrow> key_agreement \<Rightarrow> bytes \<Rightarrow> bytes \<Rightarrow> secio_error + bytes" where
  "ring_agree cr al my_private_key other_public_key =
     (case cr_derive cr al my_private_key other_public_key of None \<Rightarrow> Inl SecretGenerationFailed | Some k \<Rightarrow> Inr k)"

text \<open>\<^verbatim>\<open>copy_from_slice\<close> panics if the lengths differ.\<close>

definition wasm_agree :: "crypto \<Rightarrow> key_agreement \<Rightarrow> bytes \<Rightarrow> bytes \<Rightarrow> (secio_error + bytes) option" where
  "wasm_agree cr al my_private_key other_public_key =
     (if al \<noteq> X25519 \<or> length other_public_key < 32 then Some (Inl SecretGenerationFailed)
      else if length other_public_key \<noteq> 32 then None
      else Some (Inr (cr_diffie_hellman cr my_private_key other_public_key)))"

text \<open>The module in use, by platform. An old OpenSSL leaves X25519 to ring.\<close>

definition generate_agreement ::
  "crypto \<Rightarrow> platform \<Rightarrow> key_agreement \<Rightarrow> bytes option \<Rightarrow> (secio_error + bytes \<times> bytes) option" where
  "generate_agreement cr pf al sk =
     (case pf of
        UnixOssl110 \<Rightarrow> Some (openssl_generate cr al sk)
      | UnixOldOssl \<Rightarrow> Some (if al = X25519 then ring_generate cr al sk else openssl_generate cr al sk)
      | NotUnix \<Rightarrow> Some (ring_generate cr al sk)
      | Wasm \<Rightarrow> wasm_generate cr al sk)"

definition agree :: "crypto \<Rightarrow> platform \<Rightarrow> key_agreement \<Rightarrow> bytes \<Rightarrow> bytes \<Rightarrow> (secio_error + bytes) option" where
  "agree cr pf al sk pk =
     (case pf of
        UnixOssl110 \<Rightarrow> Some (openssl_agree cr al sk pk)
      | UnixOldOssl \<Rightarrow> Some (if al = X25519 then ring_agree cr al sk pk else openssl_agree cr al sk pk)
      | NotUnix \<Rightarrow> Some (ring_agree cr al sk pk)
      | Wasm \<Rightarrow> wasm_agree cr al sk pk)"

section \<open>Cipher keys\<close>

definition SEED :: bytes where "SEED = ascii ''key expansion''"

text \<open>The loop of \<^verbatim>\<open>stretch_key\<close> for the bytes not yet filled; \<open>None\<close> if it does not end.\<close>

partial_function (option) stretch_loop :: "(bytes \<Rightarrow> bytes) \<Rightarrow> bytes \<Rightarrow> nat \<Rightarrow> bytes option" where
  "stretch_loop hmac a missing =
     (if missing = 0 then Some []
      else let b = hmac (a @ SEED); todo = min (length b) missing in
        Option.bind (stretch_loop hmac (hmac a) (missing - todo)) (\<lambda>r. Some (take todo b @ r)))"

definition stretch_key :: "(bytes \<Rightarrow> bytes) \<Rightarrow> nat \<Rightarrow> bytes option" where
  "stretch_key hmac n = stretch_loop hmac (hmac SEED) n"

definition generate_stream_cipher_and_hmac ::
  "platform \<Rightarrow> cipher_type \<Rightarrow> crypto_mode \<Rightarrow> bytes \<Rightarrow> nat \<Rightarrow> nat \<Rightarrow> stream_cipher option" where
  "generate_stream_cipher_and_hmac pf t mode info ksize ivsize =
     (if ivsize + ksize \<le> length info then
        let rest = drop ivsize info; cipher_key = take ksize rest in new_stream pf t cipher_key mode
      else None)"

section \<open>The loops end, and both sides derive the same keys\<close>

lemma stretch_loop_length:
  assumes "\<And>x. hmac x \<noteq> []"
  shows "\<exists>r. stretch_loop hmac a n = Some r \<and> length r = n"
proof (induction n arbitrary: a rule: less_induct)
  case (less n)
  let ?b = "hmac (a @ SEED)"
  show ?case
  proof (cases "n = 0")
    case True
    then show ?thesis by (subst stretch_loop.simps) simp
  next
    case False
    with assms [of "a @ SEED"] have "n - min (length ?b) n < n" by (cases ?b) auto
    from less [OF this, of "hmac a"] obtain r where
      r: "stretch_loop hmac (hmac a) (n - min (length ?b) n) = Some r" "length r = n - min (length ?b) n" by blast
    have "stretch_loop hmac a n = Some (take (min (length ?b) n) ?b @ r)"
      using False r(1) by (subst stretch_loop.simps) (simp add: Let_def)
    then show ?thesis using r(2) by simp
  qed
qed

lemma stretch_key_length: "(\<And>x. hmac x \<noteq> []) \<Longrightarrow> \<exists>r. stretch_key hmac n = Some r \<and> length r = n"
  unfolding stretch_key_def by (rule stretch_loop_length)

text \<open>What the libraries promise for a pair of private keys: public keys have their length, and both sides derive the
  same secret.\<close>

definition dh_ok :: "crypto \<Rightarrow> key_agreement \<Rightarrow> bytes \<Rightarrow> bytes \<Rightarrow> bool" where
  "dh_ok cr al a b \<longleftrightarrow> length (cr_public cr al b) = pubkey_len al \<and>
     (\<exists>k. cr_derive cr al a (cr_public cr al b) = Some k \<and> (al = X25519 \<longrightarrow> cr_diffie_hellman cr a (cr_public cr al b) = k))"

definition secret :: "crypto \<Rightarrow> key_agreement \<Rightarrow> bytes \<Rightarrow> bytes \<Rightarrow> bytes" where
  "secret cr al a b = (case cr_derive cr al a (cr_public cr al b) of Some k \<Rightarrow> k | None \<Rightarrow> [])"

lemma generate_agreement_Inr:
  "generate_agreement cr pf al sk = Some (Inr (k, p)) \<Longrightarrow> sk = Some k \<and> p = cr_public cr al k \<and> (pf = Wasm \<longrightarrow> al = X25519)"
  by (auto simp: generate_agreement_def openssl_generate_def ring_generate_def wasm_generate_def
      split: platform.splits if_splits option.splits key_agreement.splits)

lemma agree_secret:
  "dh_ok cr al a b \<Longrightarrow> (pf = Wasm \<longrightarrow> al = X25519) \<Longrightarrow> agree cr pf al a (cr_public cr al b) = Some (Inr (secret cr al a b))"
  by (auto simp: dh_ok_def agree_def openssl_agree_def ring_agree_def wasm_agree_def secret_def pubkey_len_def
      split: platform.splits)

lemma agree_panics: "agree cr pf al sk pk = None \<longleftrightarrow> pf = Wasm \<and> al = X25519 \<and> 32 < length pk"
  by (auto simp: agree_def wasm_agree_def split: platform.splits)

text \<open>The library of the curve, as its documentation has it: a message is 32 bytes, and a signature is read back and
  verified.\<close>

definition secp256k1_ok :: "secp256k1 \<Rightarrow> bytes \<Rightarrow> bool" where
  "secp256k1_ok sp private \<longleftrightarrow>
     (\<forall>m. length m = 32 \<longrightarrow> (\<exists>h. sp_message sp m = Some h \<and>
       (\<exists>s p. sp_signature_from_der sp (sp_sign sp h private) = Some s \<and>
          sp_pubkey_from_slice sp (sp_pubkey_of sp private) = Some p \<and> sp_verify sp h s p)))"

text \<open>A provider accepts the signatures of another on messages of 32 bytes.\<close>

definition accepts :: "key_provider \<Rightarrow> key_provider \<Rightarrow> bool" where
  "accepts kb ka \<longleftrightarrow>
     (\<forall>m. length m = 32 \<longrightarrow> (\<exists>s. kp_sign_ecdsa ka m = Inr s \<and> kp_verify_ecdsa kb (kp_pubkey ka) m s))"

lemma key_pairs_accept: "secp256k1_ok sp a \<Longrightarrow> accepts (secio_key_pair sp b) (secio_key_pair sp a)"
  by (fastforce simp: accepts_def secp256k1_ok_def secio_key_pair_def keypair_sign_ecdsa_def keypair_pubkey_def
      keypair_verify_ecdsa_def split: option.splits)

end
