(* ===== verification/Secio_Handshake.thy ===== *)
theory Secio_Handshake
  imports Secio_Keys
begin

text \<open>
  The secio handshake (\<^verbatim>\<open>secio/src/handshake/mod.rs\<close>, \<^verbatim>\<open>handshake_context.rs\<close> and \<^verbatim>\<open>procedure.rs\<close>). It runs on the
  script of a framed socket; its result is the encrypted stream and the keys, or an error, or it waits for an answer
  the script does not have. The framing, with its limit on the length of a frame, is a part of the socket. The random
  choices, a nonce and the private keys, are arguments.
\<close>

section \<open>Configuration\<close>

record hs_config =
  hc_key_provider :: key_provider
  hc_agreements_proposal :: "bytes option"
  hc_ciphers_proposal :: "bytes option"
  hc_digests_proposal :: "bytes option"
  hc_max_frame_length :: nat

definition MAX_FRAME_SIZE :: nat where "MAX_FRAME_SIZE = 1024 * 1024 * 8"

definition hs_config_new :: "key_provider \<Rightarrow> hs_config" where
  "hs_config_new kp =
     \<lparr>hc_key_provider = kp, hc_agreements_proposal = None, hc_ciphers_proposal = None, hc_digests_proposal = None,
      hc_max_frame_length = MAX_FRAME_SIZE\<rparr>"

definition hs_max_frame_length :: "nat \<Rightarrow> hs_config \<Rightarrow> hs_config" where
  "hs_max_frame_length n c = c\<lparr>hc_max_frame_length := n\<rparr>"

definition key_agreements :: "key_agreement list \<Rightarrow> hs_config \<Rightarrow> hs_config" where
  "key_agreements xs c = c\<lparr>hc_agreements_proposal := Some (key_agreements_proposition xs)\<rparr>"

definition hs_ciphers :: "cipher_type list \<Rightarrow> hs_config \<Rightarrow> hs_config" where
  "hs_ciphers xs c = c\<lparr>hc_ciphers_proposal := Some (ciphers_proposition xs)\<rparr>"

definition hs_digests :: "digest list \<Rightarrow> hs_config \<Rightarrow> hs_config" where
  "hs_digests xs c = c\<lparr>hc_digests_proposal := Some (digests_proposition xs)\<rparr>"

definition our_agreements :: "hs_config \<Rightarrow> bytes" where
  "our_agreements c = (case hc_agreements_proposal c of None \<Rightarrow> DEFAULT_AGREEMENTS_PROPOSITION | Some s \<Rightarrow> s)"

definition our_ciphers :: "hs_config \<Rightarrow> bytes" where
  "our_ciphers c = (case hc_ciphers_proposal c of None \<Rightarrow> DEFAULT_CIPHERS_PROPOSITION | Some s \<Rightarrow> s)"

definition our_digests :: "hs_config \<Rightarrow> bytes" where
  "our_digests c = (case hc_digests_proposal c of None \<Rightarrow> DEFAULT_DIGESTS_PROPOSITION | Some s \<Rightarrow> s)"

section \<open>Contexts\<close>

record local_state =
  lo_nonce :: bytes
  lo_public_key :: public_key
  lo_proposition_bytes :: bytes

record remote_state =
  re_local :: local_state
  re_proposition_bytes :: bytes
  re_public_key :: public_key
  re_nonce :: bytes
  re_hashes_ordering :: ordering
  re_chosen_exchange :: key_agreement
  re_chosen_cipher :: cipher_type
  re_chosen_hash :: digest

record ephemeral_state =
  ep_remote :: remote_state
  ep_local_tmp_priv_key :: bytes
  ep_local_tmp_pub_key :: bytes

record pub_ephemeral_state =
  pe_remote :: remote_state
  pe_local_tmp_pub_key :: bytes

definition our_public_key :: "hs_config \<Rightarrow> public_key" where
  "our_public_key c = \<lparr>pk_key = kp_pubkey (hc_key_provider c)\<rparr>"

definition our_proposition :: "crypto \<Rightarrow> hs_config \<Rightarrow> bytes \<Rightarrow> propose" where
  "our_proposition cr c nonce =
     \<lparr>p_rand = nonce, p_pubkey = public_key_encode (cr_mol cr) (our_public_key c), p_exchange = our_agreements c,
      p_ciphers = our_ciphers c, p_hashes = our_digests c\<rparr>"

definition with_local :: "crypto \<Rightarrow> hs_config \<Rightarrow> bytes \<Rightarrow> local_state" where
  "with_local cr c nonce =
     \<lparr>lo_nonce = nonce, lo_public_key = our_public_key c,
      lo_proposition_bytes = propose_encode (cr_mol cr) (our_proposition cr c nonce)\<rparr>"

definition hashes_ordering :: "crypto \<Rightarrow> local_state \<Rightarrow> public_key \<Rightarrow> bytes \<Rightarrow> ordering" where
  "hashes_ordering cr l public_key nonce =
     (let oh1 = cr_sha256 cr (pk_key public_key @ lo_nonce l); oh2 = cr_sha256 cr (pk_key (lo_public_key l) @ nonce) in
      cmp_bytes oh1 oh2)"

definition with_remote :: "crypto \<Rightarrow> hs_config \<Rightarrow> local_state \<Rightarrow> bytes \<Rightarrow> (secio_error + remote_state) option" where
  "with_remote cr c l remote_bytes =
     (case propose_decode (cr_mol cr) remote_bytes of
        None \<Rightarrow> None
      | Some None \<Rightarrow> Some (Inl HandshakeParsingFailure)
      | Some (Some propose) \<Rightarrow>
          let nonce = p_rand propose in
          (case public_key_decode (cr_mol cr) (p_pubkey propose) of
             None \<Rightarrow> None
           | Some None \<Rightarrow> Some (Inl HandshakeParsingFailure)
           | Some (Some public_key) \<Rightarrow>
               if public_key = lo_public_key l then Some (Inl ConnectSelf)
               else let order = hashes_ordering cr l public_key nonce in
               (case select_agreement order (our_agreements c) (p_exchange propose) of
                  Inl err \<Rightarrow> Some (Inl err)
                | Inr chosen_exchange \<Rightarrow>
               (case select_cipher order (our_ciphers c) (p_ciphers propose) of
                  Inl err \<Rightarrow> Some (Inl err)
                | Inr chosen_cipher \<Rightarrow>
               (case select_digest order (our_digests c) (p_hashes propose) of
                  Inl err \<Rightarrow> Some (Inl err)
                | Inr chosen_hash \<Rightarrow>
                    Some (Inr \<lparr>re_local = l, re_proposition_bytes = remote_bytes, re_public_key = public_key,
                      re_nonce = nonce, re_hashes_ordering = order, re_chosen_exchange = chosen_exchange,
                      re_chosen_cipher = chosen_cipher, re_chosen_hash = chosen_hash\<rparr>))))))"

definition with_ephemeral :: "remote_state \<Rightarrow> bytes \<Rightarrow> bytes \<Rightarrow> ephemeral_state" where
  "with_ephemeral r sk pk = \<lparr>ep_remote = r, ep_local_tmp_priv_key = sk, ep_local_tmp_pub_key = pk\<rparr>"

definition take_private_key :: "ephemeral_state \<Rightarrow> pub_ephemeral_state \<times> bytes" where
  "take_private_key e =
     (\<lparr>pe_remote = ep_remote e, pe_local_tmp_pub_key = ep_local_tmp_pub_key e\<rparr>, ep_local_tmp_priv_key e)"

section \<open>The procedure\<close>

text \<open>\<^verbatim>\<open>?\<close> on what is awaited.\<close>

fun run_bind :: "(secio_error + 'a) run \<Rightarrow> ('a \<Rightarrow> (secio_error + 'b) run) \<Rightarrow> (secio_error + 'b) run" where
  "run_bind (Finished (Inr x)) k = k x"
| "run_bind (Finished (Inl e)) k = Finished (Inl e)"
| "run_bind Waits k = Waits"
| "run_bind Panics k = Panics"

fun io_run :: "((io_kind + 'a) \<times> 's) run \<Rightarrow> (secio_error + 'a \<times> 's) run" where
  "io_run (Finished (Inr x, s)) = Finished (Inr (x, s))"
| "io_run (Finished (Inl e, s)) = Finished (Inl (IoError e))"
| "io_run Waits = Waits"
| "io_run Panics = Panics"

fun secio_run :: "((secio_error + 'a) \<times> 's) run \<Rightarrow> (secio_error + 'a \<times> 's) run" where
  "secio_run (Finished (Inr x, s)) = Finished (Inr (x, s))"
| "secio_run (Finished (Inl e, s)) = Finished (Inl e)"
| "secio_run Waits = Waits"
| "secio_run Panics = Panics"

text \<open>\<^verbatim>\<open>SinkExt::send\<close> and \<^verbatim>\<open>StreamExt::next\<close>, polled until they are ready.\<close>

function framed_ready :: "framed_socket \<Rightarrow> ((io_kind + unit) \<times> framed_socket) run" where
  "framed_ready so =
     (if so_ready so = [] then Waits
      else (case poll_ready_unpin so of (Pending, so') \<Rightarrow> framed_ready so' | (Ready r, so') \<Rightarrow> Finished (r, so')))"
  by pat_completeness auto

termination
  by (relation "measure (\<lambda>so. length (so_ready so))") (auto simp: poll_ready_unpin_def split: list.splits)

declare framed_ready.simps [simp del]

function framed_flush :: "framed_socket \<Rightarrow> ((io_kind + unit) \<times> framed_socket) run" where
  "framed_flush so =
     (if so_flush so = [] then Waits
      else (case poll_flush_unpin so of (Pending, so') \<Rightarrow> framed_flush so' | (Ready r, so') \<Rightarrow> Finished (r, so')))"
  by pat_completeness auto

termination
  by (relation "measure (\<lambda>so. length (so_flush so))") (auto simp: poll_flush_unpin_def split: list.splits)

declare framed_flush.simps [simp del]

definition framed_send :: "bytes \<Rightarrow> framed_socket \<Rightarrow> (secio_error + framed_socket) run" where
  "framed_send frame so =
     run_bind (io_run (framed_ready so)) (\<lambda>(_, so).
     run_bind (io_run (Finished (start_send_unpin frame so))) (\<lambda>(_, so).
     run_bind (io_run (framed_flush so)) (\<lambda>(_, so). Finished (Inr so))))"

text \<open>The end of the stream is an error of the handshake.\<close>

function framed_next :: "framed_socket \<Rightarrow> (secio_error + bytes \<times> framed_socket) run" where
  "framed_next so =
     (if so_in so = [] then Waits
      else (case poll_next_unpin so of
              (Pending, so') \<Rightarrow> framed_next so'
            | (Ready None, so') \<Rightarrow> Finished (Inl (IoError IoUnexpectedEof))
            | (Ready (Some (Inl e)), so') \<Rightarrow> Finished (Inl (IoError e))
            | (Ready (Some (Inr p)), so') \<Rightarrow> Finished (Inr (p, so'))))"
  by pat_completeness auto

termination
  by (relation "measure (\<lambda>so. length (so_in so))") (auto simp: poll_next_unpin_def split: list.splits)

declare framed_next.simps [simp del]

text \<open>A result that may be a panic or an error.\<close>

fun or_fail :: "(secio_error + 'a) option \<Rightarrow> (secio_error + 'a) run" where
  "or_fail None = Panics"
| "or_fail (Some r) = Finished r"

text \<open>Propositions are exchanged.\<close>

definition hs_propose :: "crypto \<Rightarrow> hs_config \<Rightarrow> bytes \<Rightarrow> framed_socket \<Rightarrow> (secio_error + remote_state \<times> framed_socket) run" where
  "hs_propose cr c nonce so =
     (let local_context = with_local cr c nonce in
      run_bind (framed_send (lo_proposition_bytes local_context) so) (\<lambda>so.
      run_bind (framed_next so) (\<lambda>(p, so).
      run_bind (or_fail (with_remote cr c local_context p)) (\<lambda>r. Finished (Inr (r, so))))))"

text \<open>Signed ephemeral keys are exchanged.\<close>

definition signed_data :: "crypto \<Rightarrow> bytes \<Rightarrow> bytes \<Rightarrow> bytes \<Rightarrow> bytes" where
  "signed_data cr sender receiver epubkey = cr_sha256 cr (sender @ receiver @ epubkey)"

definition hs_exchange ::
  "crypto \<Rightarrow> platform \<Rightarrow> hs_config \<Rightarrow> (key_agreement \<Rightarrow> bytes option) \<Rightarrow> remote_state \<Rightarrow> framed_socket \<Rightarrow>
     (secio_error + ephemeral_state \<times> exchange \<times> framed_socket) run" where
  "hs_exchange cr pf c tmp r so =
     run_bind (or_fail (generate_agreement cr pf (re_chosen_exchange r) (tmp (re_chosen_exchange r)))) (\<lambda>(tmp_priv_key, tmp_pub_key).
     let ephemeral_context = with_ephemeral r tmp_priv_key tmp_pub_key;
         ours = lo_proposition_bytes (re_local r); theirs = re_proposition_bytes r in
     run_bind (Finished (kp_sign_ecdsa (hc_key_provider c) (signed_data cr ours theirs tmp_pub_key))) (\<lambda>signature.
     run_bind (framed_send (exchange_encode (cr_mol cr) \<lparr>e_epubkey = tmp_pub_key, e_signature = signature\<rparr>) so) (\<lambda>so.
     run_bind (framed_next so) (\<lambda>(raw_exchanges, so).
     (case exchange_decode (cr_mol cr) raw_exchanges of
        None \<Rightarrow> Panics
      | Some None \<Rightarrow> Finished (Inl HandshakeParsingFailure)
      | Some (Some remote_exchanges) \<Rightarrow>
          if \<not> kp_verify_ecdsa (hc_key_provider c) (pk_key (re_public_key r))
                 (signed_data cr theirs ours (e_epubkey remote_exchanges)) (e_signature remote_exchanges)
          then Finished (Inl SignatureVerificationFailed)
          else Finished (Inr (ephemeral_context, remote_exchanges, so)))))))"

text \<open>The secret is agreed on and the two ciphers are made. A loop of \<open>stretch_key\<close> that did not end would not
  finish.\<close>

definition hs_ciphers_of ::
  "platform \<Rightarrow> cipher_type \<Rightarrow> ordering \<Rightarrow> bytes \<Rightarrow> (secio_error + stream_cipher \<times> stream_cipher) option" where
  "hs_ciphers_of pf t order longer_key =
     (let first_half = take (length longer_key div 2) longer_key; second_half = drop (length longer_key div 2) longer_key in
      case (case order of Equal \<Rightarrow> None | Less \<Rightarrow> Some (second_half, first_half) | Greater \<Rightarrow> Some (first_half, second_half)) of
        None \<Rightarrow> Some (Inl (InvalidProposition ''equal digest of public key and nonce for local and remote''))
      | Some (local_infos, remote_infos) \<Rightarrow>
          (case (generate_stream_cipher_and_hmac pf t Encrypt local_infos (key_size t) (iv_size t),
                 generate_stream_cipher_and_hmac pf t Decrypt remote_infos (key_size t) (iv_size t)) of
             (Some encode_cipher, Some decode_cipher) \<Rightarrow> Some (Inr (encode_cipher, decode_cipher))
           | _ \<Rightarrow> None))"

definition hs_stream ::
  "crypto \<Rightarrow> platform \<Rightarrow> ephemeral_state \<Rightarrow> exchange \<Rightarrow> framed_socket \<Rightarrow> (secio_error + secure_stream) run" where
  "hs_stream cr pf e remote_exchanges so =
     (let (pub_ephemeral_context, local_priv_key) = take_private_key e; r = pe_remote pub_ephemeral_context;
          chosen_cipher = re_chosen_cipher r in
      run_bind (or_fail (agree cr pf (re_chosen_exchange r) local_priv_key (e_epubkey remote_exchanges))) (\<lambda>key_material.
      (case stretch_key (cr_hmac cr (re_chosen_hash r) key_material) (2 * (iv_size chosen_cipher + key_size chosen_cipher + 20)) of
         None \<Rightarrow> Waits
       | Some longer_key \<Rightarrow>
           run_bind (or_fail (hs_ciphers_of pf chosen_cipher (re_hashes_ordering r) longer_key)) (\<lambda>(encode_cipher, decode_cipher).
           Finished (Inr (secure_stream_new so decode_cipher encode_cipher (lo_nonce (re_local r))))))))"

text \<open>The nonce of the remote is sent back, and ours is expected.\<close>

definition hs_confirm :: "crypto \<Rightarrow> remote_state \<Rightarrow> secure_stream \<Rightarrow> (secio_error + secure_stream) run" where
  "hs_confirm cr r s =
     run_bind (io_run (write_all (cr_aead cr) (re_nonce r) s)) (\<lambda>(_, s).
     run_bind (io_run (flush s)) (\<lambda>(_, s).
     run_bind (secio_run (verify_nonce (cr_aead cr) s)) (\<lambda>(_, s). Finished (Inr s))))"

definition handshake ::
  "crypto \<Rightarrow> platform \<Rightarrow> hs_config \<Rightarrow> bytes \<Rightarrow> (key_agreement \<Rightarrow> bytes option) \<Rightarrow> framed_socket \<Rightarrow>
     (secio_error + secure_stream \<times> public_key \<times> bytes) run" where
  "handshake cr pf c nonce tmp so =
     run_bind (hs_propose cr c nonce so) (\<lambda>(r, so).
     run_bind (hs_exchange cr pf c tmp r so) (\<lambda>(e, x, so).
     run_bind (hs_stream cr pf e x so) (\<lambda>s.
     run_bind (hs_confirm cr r s) (\<lambda>s.
     Finished (Inr (s, re_public_key r, ep_local_tmp_pub_key e))))))"

section \<open>Awaiting\<close>

lemma run_bind_Finished:
  "run_bind x k = Finished (Inr y) \<longleftrightarrow> (\<exists>a. x = Finished (Inr a) \<and> k a = Finished (Inr y))"
  by (cases "(x, k)" rule: run_bind.cases) auto

lemma io_run_Finished: "io_run x = Finished (Inr (a, s)) \<longleftrightarrow> x = Finished (Inr a, s)"
  by (cases x rule: io_run.cases) auto

lemma secio_run_Finished: "secio_run x = Finished (Inr (a, s)) \<longleftrightarrow> x = Finished (Inr a, s)"
  by (cases x rule: secio_run.cases) auto

lemma or_fail_Finished: "or_fail x = Finished r \<longleftrightarrow> x = Some r"
  by (cases x) auto

lemmas run_defs = run_bind_Finished io_run_Finished secio_run_Finished or_fail_Finished

text \<open>The sink is willing: it does not fail, and is ready at least \<open>n\<close> times.\<close>

fun willing :: "nat \<Rightarrow> (io_kind + unit) poll list \<Rightarrow> bool" where
  "willing n [] = (n = 0)"
| "willing n (Pending # as) = willing n as"
| "willing n (Ready (Inr _) # as) = willing (n - 1) as"
| "willing n (Ready (Inl _) # as) = False"

definition takes_frames :: "(io_kind + unit) list \<Rightarrow> bool" where
  "takes_frames as = list_all (\<lambda>a. a = Inr ()) as"

lemma willing_Suc:
  "willing (Suc n) as \<Longrightarrow> \<exists>k rest. as = replicate k Pending @ Ready (Inr ()) # rest \<and> willing n rest"
proof (induction "Suc n" as rule: willing.induct)
  case (2 as)
  then obtain k rest where "as = replicate k Pending @ Ready (Inr ()) # rest" "willing n rest" by auto
  then have "Pending # as = replicate (Suc k) Pending @ Ready (Inr ()) # rest" by simp
  then show ?case using \<open>willing n rest\<close> by blast
next
  case (3 u as)
  then have "Ready (Inr u) # as = replicate 0 Pending @ Ready (Inr ()) # as" "willing n as" by simp_all
  then show ?case by blast
qed simp_all

lemma willing_less: "willing (Suc n) as \<Longrightarrow> willing n as"
proof (induction n as rule: willing.induct)
  case (3 n u as)
  then show ?case by (cases n) simp_all
qed auto

lemma framed_ready_replicate:
  "so_ready so = replicate k Pending @ Ready (Inr ()) # rest \<Longrightarrow> framed_ready so = Finished (Inr (), so\<lparr>so_ready := rest\<rparr>)"
  by (induction k arbitrary: so) (subst framed_ready.simps, simp add: poll_ready_unpin_def)+

lemma framed_flush_replicate:
  "so_flush so = replicate k Pending @ Ready (Inr ()) # rest \<Longrightarrow> framed_flush so = Finished (Inr (), so\<lparr>so_flush := rest\<rparr>)"
  by (induction k arbitrary: so) (subst framed_flush.simps, simp add: poll_flush_unpin_def)+

lemma flush_replicate:
  "so_flush (ss_socket s) = replicate k Pending @ Ready (Inr ()) # rest \<Longrightarrow>
    flush s = Finished (Inr (), s\<lparr>ss_socket := (ss_socket s)\<lparr>so_flush := rest\<rparr>\<rparr>)"
  by (induction k arbitrary: s) (subst flush.simps, simp add: stream_poll_flush_def poll_flush_unpin_def)+

text \<open>A socket that is ready for so many sends and flushes, and delivers the frames.\<close>

definition serves :: "nat \<Rightarrow> nat \<Rightarrow> bytes list \<Rightarrow> framed_socket \<Rightarrow> bool" where
  "serves n m fs so \<longleftrightarrow> willing n (so_ready so) \<and> willing m (so_flush so) \<and> takes_frames (so_send so) \<and>
     open_socket (so_in so) \<and> frames_of (so_in so) = fs"

lemma start_send_serves:
  assumes "takes_frames (so_send so)"
  shows "start_send_unpin f so = (Inr (), so\<lparr>so_send := drop (Suc 0) (so_send so), so_out := so_out so @ [f]\<rparr>)"
  using assms by (auto simp: start_send_unpin_def takes_frames_def split: list.splits sum.splits)

lemma framed_send_serves:
  assumes "serves (Suc n) (Suc m) fs so"
  shows "\<exists>so'. framed_send f so = Finished (Inr so') \<and> so_out so' = so_out so @ [f] \<and> serves n m fs so'"
proof -
  from assms willing_Suc obtain k a l b where a: "so_ready so = replicate k Pending @ Ready (Inr ()) # a" "willing n a"
    and b: "so_flush so = replicate l Pending @ Ready (Inr ()) # b" "willing m b" unfolding serves_def by metis
  let ?so = "so\<lparr>so_ready := a, so_send := drop (Suc 0) (so_send so), so_out := so_out so @ [f]\<rparr>"
  have send: "start_send_unpin f (so\<lparr>so_ready := a\<rparr>) = (Inr (), ?so)"
    using assms by (subst start_send_serves) (simp_all add: serves_def)
  have fl: "framed_flush ?so = Finished (Inr (), ?so\<lparr>so_flush := b\<rparr>)" by (rule framed_flush_replicate) (simp add: b(1))
  have "framed_send f so = Finished (Inr (?so\<lparr>so_flush := b\<rparr>))"
    unfolding framed_send_def by (simp add: framed_ready_replicate [OF a(1)] send fl)
  moreover have "serves n m fs (?so\<lparr>so_flush := b\<rparr>)"
    using assms a b by (auto simp: serves_def takes_frames_def list_all_iff dest: in_set_dropD)
  ultimately show ?thesis by simp
qed

lemma frames_split:
  "frames_of as = f # fs \<Longrightarrow> open_socket as \<Longrightarrow>
    \<exists>k rest. as = replicate k Pending @ Ready (Some (Inr f)) # rest \<and> frames_of rest = fs \<and> open_socket rest"
proof (induction as)
  case (Cons a as)
  show ?case
  proof (cases a)
    case Pending
    with Cons obtain k rest where "as = replicate k Pending @ Ready (Some (Inr f)) # rest" "frames_of rest = fs" "open_socket rest"
      by (auto simp: open_socket_def)
    with Pending show ?thesis by (intro exI [of _ "Suc k"] exI [of _ rest]) simp
  next
    case (Ready x)
    with Cons.prems have "a # as = replicate 0 Pending @ Ready (Some (Inr f)) # as" "frames_of as = fs" "open_socket as"
      by (auto simp: open_socket_def split: option.splits sum.splits)
    then show ?thesis by blast
  qed
qed simp

lemma framed_next_replicate:
  "so_in so = replicate k Pending @ Ready (Some (Inr f)) # rest \<Longrightarrow> framed_next so = Finished (Inr (f, so\<lparr>so_in := rest\<rparr>))"
  by (induction k arbitrary: so) (subst framed_next.simps, simp add: poll_next_unpin_def)+

lemma framed_next_serves:
  assumes "serves n m (f # fs) so"
  shows "\<exists>so'. framed_next so = Finished (Inr (f, so')) \<and> so_out so' = so_out so \<and> serves n m fs so'"
proof -
  from assms frames_split obtain k rest where "so_in so = replicate k Pending @ Ready (Some (Inr f)) # rest"
    "frames_of rest = fs" "open_socket rest" unfolding serves_def by metis
  with assms show ?thesis using framed_next_replicate [of so k f rest] by (auto simp: serves_def)
qed

text \<open>What was received when a frame was taken.\<close>

lemma framed_next_takes:
  "framed_next so = Finished (Inr (f, so')) \<Longrightarrow> frames_of (so_in so) = f # frames_of (so_in so') \<and> so_out so' = so_out so"
proof (induction so rule: framed_next.induct)
  case (1 so)
  then show ?case
    by (subst (asm) (2) framed_next.simps)
      (auto simp: poll_next_unpin_def split: if_splits list.splits poll.splits option.splits sum.splits)
qed

lemma framed_ready_keeps: "framed_ready so = Finished (r, so') \<Longrightarrow> so_in so' = so_in so \<and> so_out so' = so_out so"
proof (induction so rule: framed_ready.induct)
  case (1 so)
  then show ?case
    by (subst (asm) (2) framed_ready.simps) (auto simp: poll_ready_unpin_def split: if_splits list.splits poll.splits)
qed

lemma framed_flush_keeps: "framed_flush so = Finished (r, so') \<Longrightarrow> so_in so' = so_in so \<and> so_out so' = so_out so"
proof (induction so rule: framed_flush.induct)
  case (1 so)
  then show ?case
    by (subst (asm) (2) framed_flush.simps) (auto simp: poll_flush_unpin_def split: if_splits list.splits poll.splits)
qed

lemma start_send_keeps:
  "start_send_unpin f so = (Inr u, so') \<Longrightarrow> so_in so' = so_in so \<and> so_out so' = so_out so @ [f]"
  by (auto simp: start_send_unpin_def split: list.splits sum.splits)

lemma framed_send_keeps:
  "framed_send f so = Finished (Inr so') \<Longrightarrow> so_in so' = so_in so \<and> so_out so' = so_out so @ [f]"
  unfolding framed_send_def
  by (auto simp: run_defs dest!: framed_ready_keeps framed_flush_keeps start_send_keeps)

end
