(* ===== verification/Secio_Handshake_Safety.thy ===== *)
theory Secio_Handshake_Safety
  imports Secio_Handshake
begin

text \<open>
  The handshake of two honest parties, and what a party knows about its peer when the handshake has succeeded.
\<close>

section \<open>Writing and reading the nonces\<close>

lemma poll_flush_willing:
  assumes "willing (Suc m) (so_flush so)"
  shows "\<exists>r as. poll_flush_unpin so = (r, so\<lparr>so_flush := as\<rparr>) \<and> (r = Pending \<or> r = Ready (Inr ())) \<and> willing m as"
proof -
  from willing_Suc [OF assms] obtain k rest where r: "so_flush so = replicate k Pending @ Ready (Inr ()) # rest" "willing m rest"
    by blast
  show ?thesis
  proof (cases k)
    case 0
    with r show ?thesis by (auto simp: poll_flush_unpin_def)
  next
    case (Suc l)
    with r assms have as: "so_flush so = Pending # replicate l Pending @ Ready (Inr ()) # rest"
      "willing (Suc m) (replicate l Pending @ Ready (Inr ()) # rest)" by simp_all
    from willing_less [OF as(2)] show ?thesis using as(1) by (auto simp: poll_flush_unpin_def)
  qed
qed

lemma encode_buffer_encrypted:
  "encrypted ae (ss_encode_cipher s) x = Some (msg, c) \<Longrightarrow> encode_buffer ae x s = Some (msg, s\<lparr>ss_encode_cipher := c\<rparr>)"
  by (auto simp: encrypted_def encode_buffer_def split: option.splits sum.splits prod.splits)

lemma poll_write_serves:
  assumes so: "serves (Suc n) (Suc m) fs (ss_socket s)" and ready: "so_ready (ss_socket s) = Ready (Inr ()) # a" "willing n a"
    and x: "encrypted ae (ss_encode_cipher s) x = Some (msg, c)"
  shows "\<exists>so'. stream_poll_write ae x s = Some (Ready (Inr (length x)), s\<lparr>ss_socket := so', ss_encode_cipher := c\<rparr>) \<and>
    so_out so' = so_out (ss_socket s) @ [msg] \<and> serves n m fs so'"
proof -
  let ?so = "(ss_socket s)\<lparr>so_ready := a, so_send := drop (Suc 0) (so_send (ss_socket s)), so_out := so_out (ss_socket s) @ [msg]\<rparr>"
  have send: "start_send_unpin msg ((ss_socket s)\<lparr>so_ready := a\<rparr>) = (Inr (), ?so)"
    using so by (subst start_send_serves) (simp_all add: serves_def)
  have "willing (Suc m) (so_flush ?so)" using so by (simp add: serves_def)
  from poll_flush_willing [OF this] obtain r as where
    r: "poll_flush_unpin ?so = (r, ?so\<lparr>so_flush := as\<rparr>)" "r = Pending \<or> r = Ready (Inr ())" "willing m as" by blast
  have e: "encode_buffer ae x (s\<lparr>ss_socket := (ss_socket s)\<lparr>so_ready := a\<rparr>\<rparr>) =
      Some (msg, s\<lparr>ss_socket := (ss_socket s)\<lparr>so_ready := a\<rparr>, ss_encode_cipher := c\<rparr>)"
    using encode_buffer_encrypted [of ae "s\<lparr>ss_socket := (ss_socket s)\<lparr>so_ready := a\<rparr>\<rparr>" x msg c] x by simp
  have "stream_poll_write ae x s = Some (Ready (Inr (length x)), s\<lparr>ss_socket := ?so\<lparr>so_flush := as\<rparr>, ss_encode_cipher := c\<rparr>)"
    using r(2) by (auto simp: stream_poll_write_def poll_ready_unpin_def ready(1) e send r(1))
  moreover have "serves n m fs (?so\<lparr>so_flush := as\<rparr>)"
    using so ready r(3) by (auto simp: serves_def takes_frames_def list_all_iff dest: in_set_dropD)
  ultimately show ?thesis by (intro exI [of _ "?so\<lparr>so_flush := as\<rparr>"]) simp
qed

lemma write_all_serves:
  assumes "serves (Suc n) (Suc m) fs (ss_socket s)" and "encrypted ae (ss_encode_cipher s) x = Some (msg, c)" and "x \<noteq> []"
  shows "\<exists>so'. write_all ae x s = Finished (Inr (), s\<lparr>ss_socket := so', ss_encode_cipher := c\<rparr>) \<and>
    so_out so' = so_out (ss_socket s) @ [msg] \<and> serves n m fs so'"
proof -
  from assms(1) willing_Suc obtain k a where k: "so_ready (ss_socket s) = replicate k Pending @ Ready (Inr ()) # a" "willing n a"
    unfolding serves_def by metis
  show ?thesis
    using k(1) assms(1,2)
  proof (induction k arbitrary: s)
    case 0
    then have "so_ready (ss_socket s) = Ready (Inr ()) # a" by simp
    from poll_write_serves [OF 0(2) this k(2) 0(3)] assms(3) show ?case by (subst write_all.simps) auto
  next
    case (Suc k)
    let ?so = "(ss_socket s)\<lparr>so_ready := replicate k Pending @ Ready (Inr ()) # a\<rparr>"
    have "stream_poll_write ae x s = Some (Pending, s\<lparr>ss_socket := ?so\<rparr>)"
      using Suc.prems(1) by (simp add: stream_poll_write_def poll_ready_unpin_def)
    then have "write_all ae x s = write_all ae x (s\<lparr>ss_socket := ?so\<rparr>)"
      using Suc.prems(1) assms(3) by (subst write_all.simps) simp
    moreover have "serves (Suc n) (Suc m) fs ?so" using Suc.prems(1,2) by (simp add: serves_def)
    ultimately show ?case using Suc.IH [of "s\<lparr>ss_socket := ?so\<rparr>"] Suc.prems(3) by simp
  qed
qed

lemma flush_serves:
  assumes "serves n (Suc m) fs (ss_socket s)"
  shows "\<exists>so'. flush s = Finished (Inr (), s\<lparr>ss_socket := so'\<rparr>) \<and> so_out so' = so_out (ss_socket s) \<and> serves n m fs so'"
proof -
  from assms willing_Suc obtain k a where k: "so_flush (ss_socket s) = replicate k Pending @ Ready (Inr ()) # a" "willing m a"
    unfolding serves_def by metis
  then show ?thesis using flush_replicate [OF k(1)] assms
    by (intro exI [of _ "(ss_socket s)\<lparr>so_flush := a\<rparr>"]) (simp add: serves_def)
qed

lemma read_exact_frame:
  assumes "so_in (ss_socket s) = replicate k Pending @ Ready (Some (Inr f)) # rest"
    and "decrypted ae (ss_decode_cipher s) f = Some (x, d)" and "x \<noteq> []" and "buffered (ss_recv_buf s) = []"
  shows "read_exact ae (length x) s = Finished (Inr x, s\<lparr>ss_socket := (ss_socket s)\<lparr>so_in := rest\<rparr>, ss_decode_cipher := d\<rparr>)"
  using assms
proof (induction k arbitrary: s)
  case 0
  let ?s = "s\<lparr>ss_socket := (ss_socket s)\<lparr>so_in := rest\<rparr>\<rparr>"
  from decode_buffer_decrypted [of ae ?s f x d] 0(2) obtain b where
    b: "decode_buffer ae f ?s = Some (Inr b, ?s\<lparr>ss_decode_cipher := d\<rparr>)" "buffered b = x" by auto
  have "drain n s = ([], s)" for n using 0(4) by (simp add: drain_def recv_is_empty_def recv_len_def)
  then have "stream_poll_read ae (length x) s = Some (Ready (Inr x), ?s\<lparr>ss_decode_cipher := d\<rparr>)"
    using 0(1) b by (simp add: stream_poll_read_def poll_next_unpin_def recv_len_def)
  with 0(3) show ?case by (subst read_exact.simps) (simp add: read_exact.simps [of ae 0])
next
  case (Suc k)
  let ?s = "s\<lparr>ss_socket := (ss_socket s)\<lparr>so_in := replicate k Pending @ Ready (Some (Inr f)) # rest\<rparr>\<rparr>"
  have "drain n s = ([], s)" for n using Suc(5) by (simp add: drain_def recv_is_empty_def recv_len_def)
  then have "stream_poll_read ae (length x) s = Some (Pending, ?s)"
    using Suc(2) by (simp add: stream_poll_read_def poll_next_unpin_def)
  then have "read_exact ae (length x) s = read_exact ae (length x) ?s"
    using Suc(2,4) by (subst read_exact.simps) simp
  with Suc.IH [of ?s] Suc.prems show ?case by simp
qed

lemma hs_confirm_serves:
  assumes so: "serves (Suc n) (Suc (Suc m)) (f # fs) (ss_socket s)"
    and out: "encrypted (cr_aead cr) (ss_encode_cipher s) (re_nonce r) = Some (msg, c)" "re_nonce r \<noteq> []"
    and inp: "decrypted (cr_aead cr) (ss_decode_cipher s) f = Some (ss_nonce s, d)" "ss_nonce s \<noteq> []" "buffered (ss_recv_buf s) = []"
  shows "\<exists>s'. hs_confirm cr r s = Finished (Inr s') \<and> so_out (ss_socket s') = so_out (ss_socket s) @ [msg] \<and>
    serves n m fs (ss_socket s') \<and> ss_encode_cipher s' = c \<and> ss_decode_cipher s' = d \<and> ss_nonce s' = [] \<and>
    buffered (ss_recv_buf s') = []"
proof -
  from write_all_serves [OF so out] obtain so1 where
    1: "write_all (cr_aead cr) (re_nonce r) s = Finished (Inr (), s\<lparr>ss_socket := so1, ss_encode_cipher := c\<rparr>)"
      "so_out so1 = so_out (ss_socket s) @ [msg]" "serves n (Suc m) (f # fs) so1" by blast
  from flush_serves [of n m "f # fs" "s\<lparr>ss_socket := so1, ss_encode_cipher := c\<rparr>"] 1(3) obtain so2 where
    2: "flush (s\<lparr>ss_socket := so1, ss_encode_cipher := c\<rparr>) = Finished (Inr (), s\<lparr>ss_encode_cipher := c, ss_socket := so2\<rparr>)"
      "so_out so2 = so_out so1" "serves n m (f # fs) so2" by auto
  let ?s = "s\<lparr>ss_encode_cipher := c, ss_socket := so2\<rparr>"
  from 2(3) frames_split obtain k rest where rest: "so_in so2 = replicate k Pending @ Ready (Some (Inr f)) # rest"
    "frames_of rest = fs" "open_socket rest" unfolding serves_def by metis
  from read_exact_frame [of ?s k f rest "cr_aead cr" "ss_nonce s" d] rest(1) inp have
    "read_exact (cr_aead cr) (length (ss_nonce s)) ?s =
       Finished (Inr (ss_nonce s), ?s\<lparr>ss_socket := so2\<lparr>so_in := rest\<rparr>, ss_decode_cipher := d\<rparr>)" by simp
  then have 3: "verify_nonce (cr_aead cr) ?s =
      Finished (Inr (), ?s\<lparr>ss_socket := so2\<lparr>so_in := rest\<rparr>, ss_decode_cipher := d, ss_nonce := []\<rparr>)"
    using inp(2) by (simp add: verify_nonce_def)
  have "serves n m fs (so2\<lparr>so_in := rest\<rparr>)" using 2(3) rest(2,3) by (simp add: serves_def)
  then show ?thesis using 1(1,2) 2(1,2) 3 inp(3) unfolding hs_confirm_def by simp
qed

section \<open>Two honest parties\<close>

record party =
  pa_config :: hs_config
  pa_nonce :: bytes
  pa_tmp :: "key_agreement \<Rightarrow> bytes option"
  pa_platform :: platform

abbreviation provider :: "party \<Rightarrow> key_provider" where
  "provider a \<equiv> hc_key_provider (pa_config a)"

abbreviation party_key :: "party \<Rightarrow> public_key" where
  "party_key a \<equiv> our_public_key (pa_config a)"

abbreviation party_local :: "crypto \<Rightarrow> party \<Rightarrow> local_state" where
  "party_local cr a \<equiv> with_local cr (pa_config a) (pa_nonce a)"

abbreviation party_proposition :: "crypto \<Rightarrow> party \<Rightarrow> bytes" where
  "party_proposition cr a \<equiv> lo_proposition_bytes (party_local cr a)"

abbreviation party_handshake :: "crypto \<Rightarrow> party \<Rightarrow> framed_socket \<Rightarrow> (secio_error + secure_stream \<times> public_key \<times> bytes) run" where
  "party_handshake cr a so \<equiv> handshake cr (pa_platform a) (pa_config a) (pa_nonce a) (pa_tmp a) so"

text \<open>What is documented of the libraries.\<close>

definition crypto_ok :: "crypto \<Rightarrow> bool" where
  "crypto_ok cr \<longleftrightarrow> mol_ok (cr_mol cr) \<and> aead_ok (cr_aead cr) \<and> (\<forall>x. length (cr_sha256 cr x) = 32) \<and>
     (\<forall>d k x. length (cr_hmac cr d k x) = num_bytes d)"

text \<open>The order of the hashes as \<open>a\<close> computes it in a handshake with \<open>b\<close>.\<close>

definition order_of :: "crypto \<Rightarrow> party \<Rightarrow> party \<Rightarrow> ordering" where
  "order_of cr a b = hashes_ordering cr (party_local cr a) (party_key b) (pa_nonce b)"

lemma order_of_flipped: "order_of cr b a = flipped (order_of cr a b)"
  unfolding order_of_def hashes_ordering_def Let_def by (subst cmp_bytes_flipped) (simp add: with_local_def)

text \<open>A party that can take part: its messages fit their size fields, its nonce is not empty, and it can make keys for
  the algorithms.\<close>

definition party_ok :: "crypto \<Rightarrow> party \<Rightarrow> key_agreement \<Rightarrow> cipher_type \<Rightarrow> bool" where
  "party_ok cr a al t \<longleftrightarrow>
     propose_ok (cr_mol cr) (our_proposition cr (pa_config a) (pa_nonce a)) \<and> public_key_ok (cr_mol cr) (party_key a) \<and>
     pa_nonce a \<noteq> [] \<and> (\<forall>m s. kp_sign_ecdsa (provider a) m = Inr s \<longrightarrow> length s < 2 ^ 16) \<and>
     pa_tmp a al \<noteq> None \<and> (pa_platform a = Wasm \<longrightarrow> al = X25519 \<and> t = ChaCha20Poly1305)"

definition tmp_key :: "party \<Rightarrow> key_agreement \<Rightarrow> bytes" where
  "tmp_key a al = (case pa_tmp a al of Some k \<Rightarrow> k | None \<Rightarrow> [])"

definition tmp_public :: "crypto \<Rightarrow> party \<Rightarrow> key_agreement \<Rightarrow> bytes" where
  "tmp_public cr a al = cr_public cr al (tmp_key a al)"

text \<open>The algorithms that \<open>a\<close> selects for the proposition of \<open>b\<close>.\<close>

definition negotiated :: "crypto \<Rightarrow> party \<Rightarrow> party \<Rightarrow> key_agreement \<Rightarrow> cipher_type \<Rightarrow> digest \<Rightarrow> bool" where
  "negotiated cr a b al t h \<longleftrightarrow> order_of cr a b \<noteq> Equal \<and>
     select_agreement (order_of cr a b) (our_agreements (pa_config a)) (our_agreements (pa_config b)) = Inr al \<and>
     select_cipher (order_of cr a b) (our_ciphers (pa_config a)) (our_ciphers (pa_config b)) = Inr t \<and>
     select_digest (order_of cr a b) (our_digests (pa_config a)) (our_digests (pa_config b)) = Inr h"

lemma negotiated_sym:
  assumes "negotiated cr a b al t h"
  shows "negotiated cr b a al t h"
proof -
  have "order_of cr a b \<noteq> Equal" using assms by (simp add: negotiated_def)
  note f = select_flipped [OF this]
  have "flipped (order_of cr a b) \<noteq> Equal" using \<open>order_of cr a b \<noteq> Equal\<close> by (cases "order_of cr a b") simp_all
  then show ?thesis using assms unfolding negotiated_def order_of_flipped [of cr b a] f by blast
qed

definition remote_view :: "crypto \<Rightarrow> party \<Rightarrow> party \<Rightarrow> key_agreement \<Rightarrow> cipher_type \<Rightarrow> digest \<Rightarrow> remote_state" where
  "remote_view cr a b al t h =
     \<lparr>re_local = party_local cr a, re_proposition_bytes = party_proposition cr b, re_public_key = party_key b,
      re_nonce = pa_nonce b, re_hashes_ordering = order_of cr a b, re_chosen_exchange = al, re_chosen_cipher = t,
      re_chosen_hash = h\<rparr>"

lemma with_remote_honest:
  assumes "crypto_ok cr" and "party_ok cr b al t" and "negotiated cr a b al t h" and "party_key b \<noteq> party_key a"
  shows "with_remote cr (pa_config a) (party_local cr a) (party_proposition cr b) = Some (Inr (remote_view cr a b al t h))"
proof -
  let ?p = "our_proposition cr (pa_config b) (pa_nonce b)"
  have mo: "mol_ok (cr_mol cr)" using assms(1) by (simp add: crypto_ok_def)
  have "propose_decode (cr_mol cr) (party_proposition cr b) = Some (Some ?p)"
    using propose_msg.read_back [OF mo, of ?p] assms(2) by (simp add: party_ok_def with_local_def)
  moreover have "public_key_decode (cr_mol cr) (p_pubkey ?p) = Some (Some (party_key b))"
    using public_key_msg.read_back [OF mo, of "party_key b"] assms(2) by (simp add: party_ok_def our_proposition_def)
  moreover have "lo_public_key (party_local cr a) = party_key a" by (simp add: with_local_def)
  ultimately show ?thesis
    using assms(3,4) by (simp add: with_remote_def negotiated_def order_of_def remote_view_def our_proposition_def Let_def)
qed

lemma hs_propose_honest:
  assumes "crypto_ok cr" and "party_ok cr b al t" and "negotiated cr a b al t h" and "party_key b \<noteq> party_key a"
    and "serves (Suc n) (Suc m) (party_proposition cr b # fs) so"
  shows "\<exists>so'. hs_propose cr (pa_config a) (pa_nonce a) so = Finished (Inr (remote_view cr a b al t h, so')) \<and>
    so_out so' = so_out so @ [party_proposition cr a] \<and> serves n m fs so'"
proof -
  from framed_send_serves [OF assms(5)] obtain so1 where 1: "framed_send (party_proposition cr a) so = Finished (Inr so1)"
    "so_out so1 = so_out so @ [party_proposition cr a]" "serves n m (party_proposition cr b # fs) so1" by blast
  from framed_next_serves [OF 1(3)] obtain so2 where "framed_next so1 = Finished (Inr (party_proposition cr b, so2))"
    "so_out so2 = so_out so1" "serves n m fs so2" by blast
  with 1 with_remote_honest [OF assms(1-4)] show ?thesis by (simp add: hs_propose_def Let_def)
qed

definition party_signature :: "crypto \<Rightarrow> party \<Rightarrow> party \<Rightarrow> key_agreement \<Rightarrow> bytes" where
  "party_signature cr a b al =
     (case kp_sign_ecdsa (provider a) (signed_data cr (party_proposition cr a) (party_proposition cr b) (tmp_public cr a al)) of
        Inr s \<Rightarrow> s | Inl _ \<Rightarrow> [])"

definition party_exchange :: "crypto \<Rightarrow> party \<Rightarrow> party \<Rightarrow> key_agreement \<Rightarrow> exchange" where
  "party_exchange cr a b al = \<lparr>e_epubkey = tmp_public cr a al, e_signature = party_signature cr a b al\<rparr>"

lemma signature_accepted:
  assumes "crypto_ok cr" and "accepts (provider b) (provider a)"
  shows "kp_sign_ecdsa (provider a) (signed_data cr (party_proposition cr a) (party_proposition cr b) (tmp_public cr a al)) =
      Inr (party_signature cr a b al)"
    and "kp_verify_ecdsa (provider b) (pk_key (party_key a))
      (signed_data cr (party_proposition cr a) (party_proposition cr b) (tmp_public cr a al)) (party_signature cr a b al)"
proof -
  let ?m = "signed_data cr (party_proposition cr a) (party_proposition cr b) (tmp_public cr a al)"
  have "length ?m = 32" using assms(1) by (simp add: crypto_ok_def signed_data_def)
  with assms(2) obtain s where "kp_sign_ecdsa (provider a) ?m = Inr s" "kp_verify_ecdsa (provider b) (kp_pubkey (provider a)) ?m s"
    unfolding accepts_def by blast
  then show "kp_sign_ecdsa (provider a) ?m = Inr (party_signature cr a b al)"
    "kp_verify_ecdsa (provider b) (pk_key (party_key a)) ?m (party_signature cr a b al)"
    by (simp_all add: party_signature_def our_public_key_def)
qed

lemma generate_honest:
  "party_ok cr a al t \<Longrightarrow> generate_agreement cr (pa_platform a) al (pa_tmp a al) = Some (Inr (tmp_key a al, tmp_public cr a al))"
  by (auto simp: party_ok_def tmp_key_def tmp_public_def generate_agreement_def openssl_generate_def ring_generate_def
      wasm_generate_def split: platform.splits)

lemma exchange_ok_honest:
  assumes "crypto_ok cr" and "accepts (provider b) (provider a)" and "party_ok cr a al t" and "length (tmp_public cr a al) < 2 ^ 16"
  shows "exchange_ok (cr_mol cr) (party_exchange cr a b al)"
proof -
  have "length (party_signature cr a b al) < 2 ^ 16"
    using signature_accepted(1) [OF assms(1,2)] assms(3) unfolding party_ok_def by blast
  then show ?thesis
    using assms(1,4) by (simp add: exchange_ok_def exchange_encode_def exchange_write_def table_write_length fixvec_write_def
      party_exchange_def crypto_ok_def)
qed

lemma hs_exchange_honest:
  assumes cr: "crypto_ok cr" and a: "party_ok cr a al t" and b: "party_ok cr b al t"
    and trust: "accepts (provider b) (provider a)" "accepts (provider a) (provider b)"
    and len: "length (tmp_public cr b al) < 2 ^ 16"
    and so: "serves (Suc n) (Suc m) (exchange_encode (cr_mol cr) (party_exchange cr b a al) # fs) so"
  shows "\<exists>so'. hs_exchange cr (pa_platform a) (pa_config a) (pa_tmp a) (remote_view cr a b al t h) so =
      Finished (Inr (with_ephemeral (remote_view cr a b al t h) (tmp_key a al) (tmp_public cr a al), party_exchange cr b a al, so')) \<and>
    so_out so' = so_out so @ [exchange_encode (cr_mol cr) (party_exchange cr a b al)] \<and> serves n m fs so'"
proof -
  let ?x = "exchange_encode (cr_mol cr) (party_exchange cr a b al)" and ?y = "exchange_encode (cr_mol cr) (party_exchange cr b a al)"
  from framed_send_serves [OF so] obtain so1 where 1: "framed_send ?x so = Finished (Inr so1)"
    "so_out so1 = so_out so @ [?x]" "serves n m (?y # fs) so1" by blast
  from framed_next_serves [OF 1(3)] obtain so2 where 2: "framed_next so1 = Finished (Inr (?y, so2))"
    "so_out so2 = so_out so1" "serves n m fs so2" by blast
  have "exchange_decode (cr_mol cr) ?y = Some (Some (party_exchange cr b a al))"
    using exchange_msg.read_back exchange_ok_honest [OF cr trust(2) b len] cr by (simp add: crypto_ok_def)
  with 1 2 generate_honest [OF a] signature_accepted(1) [OF cr trust(1), of al] signature_accepted(2) [OF cr trust(2), of al]
  show ?thesis by (simp add: hs_exchange_def remote_view_def party_exchange_def Let_def)
qed

section \<open>The two ciphers\<close>

text \<open>The key of the side whose hash is ordered so.\<close>

definition side_key :: "cipher_type \<Rightarrow> ordering \<Rightarrow> bytes \<Rightarrow> bytes" where
  "side_key t order lk = take (key_size t) (drop (iv_size t)
     (if order = Greater then take (length lk div 2) lk else drop (length lk div 2) lk))"

lemma new_stream_total:
  "length key = key_size t \<Longrightarrow> (pf = Wasm \<longrightarrow> t = ChaCha20Poly1305) \<Longrightarrow> \<exists>s. new_stream pf t key m = Some s"
  by (cases pf; cases t) (auto simp: new_stream_def openssl_new_def ring_new_def wasm_new_def)

lemma side_key_length: "length lk = 2 * (iv_size t + key_size t + 20) \<Longrightarrow> length (side_key t order lk) = key_size t"
  by (simp add: side_key_def)

lemma hs_ciphers_honest:
  assumes len: "length lk = 2 * (iv_size t + key_size t + 20)" and "order \<noteq> Equal" and "pf = Wasm \<longrightarrow> t = ChaCha20Poly1305"
  shows "\<exists>enc dec. hs_ciphers_of pf t order lk = Some (Inr (enc, dec)) \<and> new_stream pf t (side_key t order lk) Encrypt = Some enc \<and>
    new_stream pf t (side_key t (flipped order) lk) Decrypt = Some dec"
proof -
  from new_stream_total [OF side_key_length [OF len] assms(3)] obtain enc dec where
    s: "new_stream pf t (side_key t order lk) Encrypt = Some enc" "new_stream pf t (side_key t (flipped order) lk) Decrypt = Some dec"
    by meson
  with assms(2) len show ?thesis
    by (cases order) (simp_all add: hs_ciphers_of_def generate_stream_cipher_and_hmac_def side_key_def Let_def)
qed

definition key_length :: "cipher_type \<Rightarrow> nat" where
  "key_length t = 2 * (iv_size t + key_size t + 20)"

lemma hs_stream_honest:
  assumes "party_ok cr a al t" and "negotiated cr a b al t h" and dh: "dh_ok cr al (tmp_key a al) (tmp_key b al)"
    and lk: "stretch_key (cr_hmac cr h (secret cr al (tmp_key a al) (tmp_key b al))) (key_length t) = Some lk" "length lk = key_length t"
  shows "\<exists>enc dec. hs_stream cr (pa_platform a) (with_ephemeral (remote_view cr a b al t h) (tmp_key a al) (tmp_public cr a al))
      (party_exchange cr b a al) so = Finished (Inr (secure_stream_new so dec enc (pa_nonce a))) \<and>
    new_stream (pa_platform a) t (side_key t (order_of cr a b) lk) Encrypt = Some enc \<and>
    new_stream (pa_platform a) t (side_key t (order_of cr b a) lk) Decrypt = Some dec"
proof -
  have wasm: "pa_platform a = Wasm \<longrightarrow> al = X25519" "pa_platform a = Wasm \<longrightarrow> t = ChaCha20Poly1305"
    using assms(1) by (auto simp: party_ok_def)
  have "order_of cr a b \<noteq> Equal" using assms(2) by (simp add: negotiated_def)
  from hs_ciphers_honest [OF _ this wasm(2)] lk(2) obtain enc dec where
    c: "hs_ciphers_of (pa_platform a) t (order_of cr a b) lk = Some (Inr (enc, dec))"
      "new_stream (pa_platform a) t (side_key t (order_of cr a b) lk) Encrypt = Some enc"
      "new_stream (pa_platform a) t (side_key t (order_of cr b a) lk) Decrypt = Some dec"
    unfolding key_length_def order_of_flipped [of cr b a] by blast
  with agree_secret [OF dh wasm(1)] lk(1) show ?thesis
    by (auto simp: hs_stream_def take_private_key_def with_ephemeral_def remote_view_def party_exchange_def tmp_public_def
        key_length_def with_local_def Let_def)
qed

text \<open>One side, given the last messages of both.\<close>

lemma party_side:
  assumes cr: "crypto_ok cr" and a: "party_ok cr a al t" and b: "party_ok cr b al t" and neg: "negotiated cr a b al t h"
    and keys: "party_key b \<noteq> party_key a" and trust: "accepts (provider b) (provider a)" "accepts (provider a) (provider b)"
    and dh: "dh_ok cr al (tmp_key a al) (tmp_key b al)"
    and stream: "\<And>so. hs_stream cr (pa_platform a) (with_ephemeral (remote_view cr a b al t h) (tmp_key a al) (tmp_public cr a al))
      (party_exchange cr b a al) so = Finished (Inr (secure_stream_new so dec enc (pa_nonce a)))"
    and out: "encrypted (cr_aead cr) enc (pa_nonce b) = Some (ma, enc')"
    and inp: "decrypted (cr_aead cr) dec mb = Some (pa_nonce a, dec')"
    and so: "serves 3 4 [party_proposition cr b, exchange_encode (cr_mol cr) (party_exchange cr b a al), mb] so"
  shows "\<exists>s. party_handshake cr a so = Finished (Inr (s, party_key b, tmp_public cr a al)) \<and>
    so_out (ss_socket s) = so_out so @ [party_proposition cr a, exchange_encode (cr_mol cr) (party_exchange cr a b al), ma] \<and>
    ss_encode_cipher s = enc' \<and> ss_decode_cipher s = dec' \<and> buffered (ss_recv_buf s) = []"
proof -
  have "serves (Suc 2) (Suc 3) [party_proposition cr b, exchange_encode (cr_mol cr) (party_exchange cr b a al), mb] so"
    using so by (simp add: numeral_eq_Suc)
  from hs_propose_honest [OF cr b neg keys this] obtain so1 where
    1: "hs_propose cr (pa_config a) (pa_nonce a) so = Finished (Inr (remote_view cr a b al t h, so1))"
      "so_out so1 = so_out so @ [party_proposition cr a]"
      "serves (Suc 1) (Suc 2) [exchange_encode (cr_mol cr) (party_exchange cr b a al), mb] so1" by (auto simp: numeral_eq_Suc)
  have "length (tmp_public cr b al) < 2 ^ 16" using dh by (cases al) (simp_all add: dh_ok_def tmp_public_def pubkey_len_def)
  from hs_exchange_honest [OF cr a b trust this 1(3)] obtain so2 where
    2: "hs_exchange cr (pa_platform a) (pa_config a) (pa_tmp a) (remote_view cr a b al t h) so1 =
        Finished (Inr (with_ephemeral (remote_view cr a b al t h) (tmp_key a al) (tmp_public cr a al), party_exchange cr b a al, so2))"
      "so_out so2 = so_out so1 @ [exchange_encode (cr_mol cr) (party_exchange cr a b al)]" "serves 1 2 [mb] so2" by blast
  let ?s = "secure_stream_new so2 dec enc (pa_nonce a)" and ?r = "remote_view cr a b al t h"
  have s: "ss_socket ?s = so2" "ss_encode_cipher ?s = enc" "ss_decode_cipher ?s = dec" "ss_nonce ?s = pa_nonce a"
    "buffered (ss_recv_buf ?s) = []" "re_nonce ?r = pa_nonce b"
    by (simp_all add: secure_stream_new_def remote_view_def)
  have "serves (Suc 0) (Suc (Suc 0)) [mb] (ss_socket ?s)" using 2(3) s(1) by (simp add: numeral_2_eq_2)
  from hs_confirm_serves [OF this, of cr ?r ma enc' dec'] out inp s a b obtain s' where
    3: "hs_confirm cr ?r ?s = Finished (Inr s')" "so_out (ss_socket s') = so_out so2 @ [ma]"
      "ss_encode_cipher s' = enc'" "ss_decode_cipher s' = dec'" "buffered (ss_recv_buf s') = []" by (auto simp: party_ok_def)
  have e: "ep_local_tmp_pub_key (with_ephemeral ?r (tmp_key a al) (tmp_public cr a al)) = tmp_public cr a al"
    "re_public_key ?r = party_key b" by (simp_all add: with_ephemeral_def remote_view_def)
  show ?thesis using 1(1,2) 2(1,2) 3 stream [of so2] e by (simp add: handshake_def)
qed

section \<open>What has been received\<close>

lemma decode_buffer_Inr:
  assumes "decode_buffer ae t s = Some (Inr d, s')"
  shows "\<exists>c. decrypted ae (ss_decode_cipher s) t = Some (buffered d, c) \<and> s' = s\<lparr>ss_decode_cipher := c\<rparr>"
proof -
  have *: "decrypt_in_place ae (ss_decode_cipher s) t = decrypt ae (ss_decode_cipher s) t" if "is_in_place (ss_decode_cipher s)"
    using that by (cases "ss_decode_cipher s") simp_all
  have "\<exists>x c. decrypt ae (ss_decode_cipher s) t = Some (Inr x, c) \<and> buffered d = x \<and> s' = s\<lparr>ss_decode_cipher := c\<rparr>"
  proof (cases "is_in_place (ss_decode_cipher s)")
    case True
    with assms obtain r c where "decrypt ae (ss_decode_cipher s) t = Some (r, c)" "map_sum id RByte r = Inr d" "s' = s\<lparr>ss_decode_cipher := c\<rparr>"
      unfolding decode_buffer_def * [OF True] by auto
    then show ?thesis by (cases r) auto
  next
    case False
    with assms obtain r c where "decrypt ae (ss_decode_cipher s) t = Some (r, c)" "map_sum id RVec r = Inr d" "s' = s\<lparr>ss_decode_cipher := c\<rparr>"
      unfolding decode_buffer_def by auto
    then show ?thesis by (cases r) auto
  qed
  then show ?thesis by (auto simp: decrypted_def)
qed

text \<open>From one stream to a later one, some frames were taken, and their content is what was read or is buffered.\<close>

definition took :: "aead \<Rightarrow> secure_stream \<Rightarrow> bytes \<Rightarrow> secure_stream \<Rightarrow> bool" where
  "took ae s b s' \<longleftrightarrow> (\<exists>fs ws. frames_of (so_in (ss_socket s)) = fs @ frames_of (so_in (ss_socket s')) \<and>
     seal_all (decrypted ae) (ss_decode_cipher s) fs = Some (ws, ss_decode_cipher s') \<and>
     buffered (ss_recv_buf s) @ concat ws = b @ buffered (ss_recv_buf s'))"

lemma seal_all_append:
  "seal_all f s xs = Some (a, s1) \<Longrightarrow> seal_all f s1 ys = Some (b, s2) \<Longrightarrow> seal_all f s (xs @ ys) = Some (a @ b, s2)"
  by (induction xs arbitrary: s a) (auto split: option.splits prod.splits)

lemma took_trans:
  assumes "took ae s b s1" and "took ae s1 c s2"
  shows "took ae s (b @ c) s2"
proof -
  from assms obtain fs ws gs xs where "frames_of (so_in (ss_socket s)) = fs @ gs @ frames_of (so_in (ss_socket s2))"
    "seal_all (decrypted ae) (ss_decode_cipher s) fs = Some (ws, ss_decode_cipher s1)"
    "seal_all (decrypted ae) (ss_decode_cipher s1) gs = Some (xs, ss_decode_cipher s2)"
    "buffered (ss_recv_buf s) @ concat ws = b @ buffered (ss_recv_buf s1)"
    "buffered (ss_recv_buf s1) @ concat xs = c @ buffered (ss_recv_buf s2)"
    unfolding took_def by auto
  then show ?thesis unfolding took_def
    by (intro exI [of _ "fs @ gs"] exI [of _ "ws @ xs"]) (simp add: seal_all_append, metis append.assoc)
qed

lemma took_drain:
  "drain room s = (b, s') \<Longrightarrow> took ae s b s'"
  unfolding took_def by (rule exI [of _ "[]"], rule exI [of _ "[]"]) (use drain_props(2,3,6) in auto)

lemma took_next:
  assumes "so_in (ss_socket s) = Ready (Some (Inr t)) # rest" and "buffered (ss_recv_buf s) = []"
    and "decode_buffer ae t (s\<lparr>ss_socket := (ss_socket s)\<lparr>so_in := rest\<rparr>\<rparr>) = Some (Inr d, s1)"
  shows "took ae s (buffered d) s1" and "took ae s [] (s1\<lparr>ss_recv_buf := d\<rparr>)"
  unfolding took_def
  by (rule exI [of _ "[t]"], rule exI [of _ "[buffered d]"], use assms decode_buffer_Inr [OF assms(3)] in auto)+

lemma poll_read_took:
  assumes "stream_poll_read ae room s = Some (r, s')" and "0 < room"
  shows "r = Ready (Inr b) \<Longrightarrow> took ae s b s'" and "r = Pending \<Longrightarrow> took ae s [] s'"
proof -
  obtain c s1 where d: "drain room s = (c, s1)" by force
  show "took ae s b s'" if "r = Ready (Inr b)"
  proof (cases "c = []")
    case False
    with assms that d show ?thesis using took_drain [OF d] by (simp add: stream_poll_read_def)
  next
    case True
    from drain_props [OF d] True assms(2) have s1: "s1 = s" "buffered (ss_recv_buf s) = []"
      using d by (auto simp: drain_def recv_is_empty_def recv_len_def split: prod.splits)
    from assms(1) that True obtain t rest e s2 where
      t: "so_in (ss_socket s) = Ready (Some (Inr t)) # rest"
        "decode_buffer ae t (s\<lparr>ss_socket := (ss_socket s)\<lparr>so_in := rest\<rparr>\<rparr>) = Some (Inr e, s2)"
        "recv_len e \<le> room \<and> b = buffered e \<and> s' = s2 \<or> drain room (s2\<lparr>ss_recv_buf := e\<rparr>) = (b, s')"
      unfolding stream_poll_read_def d s1
      by (auto simp: poll_next_unpin_def Let_def split: list.splits poll.splits option.splits sum.splits if_splits prod.splits)
    from t(3) show ?thesis
      using took_next [OF t(1) s1(2) t(2)] took_trans [of ae s "[]" "s2\<lparr>ss_recv_buf := e\<rparr>" b s'] took_drain by auto
  qed
  show "took ae s [] s'" if "r = Pending"
    using assms(1) that took_drain [OF d] unfolding stream_poll_read_def d
    by (auto simp: took_def poll_next_unpin_def Let_def split: list.splits poll.splits option.splits sum.splits if_splits prod.splits)
qed

lemma read_exact_took: "read_exact ae want s = Finished (Inr b, s') \<Longrightarrow> took ae s b s' \<and> length b = want"
proof (induction ae want s arbitrary: b rule: read_exact.induct)
  case (1 ae want s)
  show ?case
  proof (cases "want = 0")
    case True
    with 1(3) show ?thesis by (auto simp: read_exact.simps [of ae 0] took_def intro: exI [of _ "[]"])
  next
    case False
    from 1(3) False consider s1 where "stream_poll_read ae want s = Some (Pending, s1)" "so_in (ss_socket s) \<noteq> []"
        "read_exact ae want s1 = Finished (Inr b, s')"
      | c s1 d where "stream_poll_read ae want s = Some (Ready (Inr c), s1)" "c \<noteq> []"
        "read_exact ae (want - length c) s1 = Finished (Inr d, s')" "b = c @ d"
      by (subst (asm) read_exact.simps) (auto split: option.splits poll.splits sum.splits prod.splits if_splits run.splits)
    then show ?thesis
    proof cases
      case 1
      from \<open>want \<noteq> 0\<close> 1 "1.IH"(2) [OF _ 1(1) refl refl 1(2) 1(3)] poll_read_took(2) [OF 1(1)] show ?thesis
        using took_trans by fastforce
    next
      case 2
      from \<open>want \<noteq> 0\<close> "1.IH"(1) [OF _ 2(1) refl refl refl 2(2) 2(3)] poll_read_took(1) [OF 2(1) _ refl] poll_read_uses(3) [OF 2(1) refl]
      show ?thesis using 2(4) took_trans by fastforce
    qed
  qed
qed

section \<open>Steps of a handshake that succeeded\<close>

lemma poll_read_nonce: "stream_poll_read ae n s = Some (r, s') \<Longrightarrow> ss_nonce s' = ss_nonce s"
  by (auto simp: stream_poll_read_def Let_def decode_buffer_def dest!: drain_props(5)
      split: if_splits poll.splits option.splits sum.splits prod.splits)

lemma read_exact_nonce: "read_exact ae want s = Finished (r, s') \<Longrightarrow> ss_nonce s' = ss_nonce s"
proof (induction ae want s arbitrary: r rule: read_exact.induct)
  case (1 ae want s)
  then show ?case
    by (subst (asm) (3) read_exact.simps)
      (fastforce dest: poll_read_nonce split: if_splits option.splits poll.splits sum.splits prod.splits run.splits)
qed

lemma with_remote_Inr:
  assumes "with_remote cr c l p = Some (Inr r)"
  shows "re_local r = l \<and> re_proposition_bytes r = p \<and> re_public_key r \<noteq> lo_public_key l \<and>
    (\<exists>prop. propose_decode (cr_mol cr) p = Some (Some prop) \<and> re_nonce r = p_rand prop \<and>
       public_key_decode (cr_mol cr) (p_pubkey prop) = Some (Some (re_public_key r)))"
  using assms by (auto simp: with_remote_def Let_def split: option.splits if_splits sum.splits)

lemma hs_propose_Inr:
  assumes "hs_propose cr c nonce so = Finished (Inr (r, so'))"
  shows "\<exists>p. frames_of (so_in so) = p # frames_of (so_in so') \<and> with_remote cr c (with_local cr c nonce) p = Some (Inr r)"
  using assms
  by (fastforce simp: hs_propose_def Let_def run_defs dest!: framed_send_keeps framed_next_takes)

lemma hs_exchange_Inr:
  assumes "hs_exchange cr pf c tmp r so = Finished (Inr (e, x, so'))"
  shows "ep_remote e = r \<and> (\<exists>p. frames_of (so_in so) = p # frames_of (so_in so') \<and> exchange_decode (cr_mol cr) p = Some (Some x) \<and>
    kp_verify_ecdsa (hc_key_provider c) (pk_key (re_public_key r))
      (signed_data cr (re_proposition_bytes r) (lo_proposition_bytes (re_local r)) (e_epubkey x)) (e_signature x))"
  using assms
  by (fastforce simp: hs_exchange_def Let_def run_defs with_ephemeral_def
      dest!: framed_send_keeps framed_next_takes split: option.splits if_splits prod.splits)

lemma hs_stream_Inr:
  assumes "hs_stream cr pf e x so = Finished (Inr s)"
  shows "ss_socket s = so \<and> ss_nonce s = lo_nonce (re_local (ep_remote e)) \<and> buffered (ss_recv_buf s) = [] \<and>
    (\<exists>k. agree cr pf (re_chosen_exchange (ep_remote e)) (ep_local_tmp_priv_key e) (e_epubkey x) = Some (Inr k))"
  using assms
  by (auto simp: hs_stream_def Let_def run_defs take_private_key_def secure_stream_new_def
      split: option.splits prod.splits)

text \<open>Writing does not touch what is read.\<close>

definition same_input :: "secure_stream \<Rightarrow> secure_stream \<Rightarrow> bool" where
  "same_input s s' \<longleftrightarrow> so_in (ss_socket s') = so_in (ss_socket s) \<and> ss_decode_cipher s' = ss_decode_cipher s \<and>
     ss_nonce s' = ss_nonce s \<and> ss_recv_buf s' = ss_recv_buf s"

lemma poll_write_same_input: "stream_poll_write ae x s = Some (r, s') \<Longrightarrow> same_input s s'"
  by (auto simp: stream_poll_write_def poll_ready_unpin_def start_send_unpin_def poll_flush_unpin_def encode_buffer_def
      same_input_def Let_def split: list.splits poll.splits sum.splits option.splits prod.splits if_splits)

lemma write_all_same_input: "write_all ae x s = Finished (r, s') \<Longrightarrow> same_input s s'"
proof (induction ae x s rule: write_all.induct)
  case (1 ae x s)
  show ?case
    using 1(2) poll_write_same_input 1(1)
    by (subst (asm) write_all.simps)
      (fastforce simp: same_input_def split: if_splits option.splits prod.splits poll.splits sum.splits)
qed

lemma flush_same_input: "flush s = Finished (r, s') \<Longrightarrow> same_input s s'"
proof (induction s rule: flush.induct)
  case (1 s)
  then show ?case
    by (subst (asm) (2) flush.simps)
      (auto simp: stream_poll_flush_def poll_flush_unpin_def same_input_def split: if_splits list.splits poll.splits prod.splits)
qed

lemma verify_nonce_took:
  assumes "verify_nonce ae s = Finished (Inr (), s')"
  shows "took ae s (ss_nonce s) s' \<and> ss_nonce s' = []"
proof (cases "ss_nonce s = []")
  case True
  with assms show ?thesis by (auto simp: verify_nonce_def took_def intro: exI [of _ "[]"])
next
  case False
  with assms obtain b s1 where r: "read_exact ae (length (ss_nonce s)) s = Finished (Inr b, s1)"
    and v: "take (min (length b) (length (ss_nonce s1))) b = take (min (length b) (length (ss_nonce s1))) (ss_nonce s1)"
      "s' = s1\<lparr>ss_nonce := drop (min (length b) (length (ss_nonce s1))) (ss_nonce s1)\<rparr>"
    by (auto simp: verify_nonce_def Let_def split: run.splits prod.splits sum.splits if_splits)
  have n: "ss_nonce s1 = ss_nonce s" using read_exact_nonce [OF r] .
  from read_exact_took [OF r] v n show ?thesis by (auto simp: took_def)
qed

lemma hs_confirm_Inr:
  assumes "hs_confirm cr r s = Finished (Inr s')"
  shows "took (cr_aead cr) s (ss_nonce s) s' \<and> ss_nonce s' = []"
proof -
  from assms obtain s1 s2 where "write_all (cr_aead cr) (re_nonce r) s = Finished (Inr (), s1)" "flush s1 = Finished (Inr (), s2)"
    and v: "verify_nonce (cr_aead cr) s2 = Finished (Inr (), s')"
    by (auto simp: hs_confirm_def run_defs)
  then have "same_input s s2" using write_all_same_input flush_same_input by (fastforce simp: same_input_def)
  with verify_nonce_took [OF v] show ?thesis by (simp add: same_input_def took_def)
qed

section \<open>A session\<close>

lemma honest_sessions:
  assumes "crypto_ok cr" and "party_ok cr a al t" and "party_ok cr b al t" and "negotiated cr a b al t h"
    and "party_key a \<noteq> party_key b" and "accepts (provider b) (provider a)" and "accepts (provider a) (provider b)"
    and "dh_ok cr al (tmp_key a al) (tmp_key b al)" and "dh_ok cr al (tmp_key b al) (tmp_key a al)"
    and "secret cr al (tmp_key a al) (tmp_key b al) = secret cr al (tmp_key b al) (tmp_key a al)"
  shows "\<exists>fa fb ea da eb db. in_step ea db \<and> in_step eb da \<and>
    (\<forall>so. serves 3 4 fb so \<longrightarrow> (\<exists>s. party_handshake cr a so = Finished (Inr (s, party_key b, tmp_public cr a al)) \<and>
       so_out (ss_socket s) = so_out so @ fa \<and> ss_encode_cipher s = ea \<and> ss_decode_cipher s = da \<and> buffered (ss_recv_buf s) = [])) \<and>
    (\<forall>so. serves 3 4 fa so \<longrightarrow> (\<exists>s. party_handshake cr b so = Finished (Inr (s, party_key a, tmp_public cr b al)) \<and>
       so_out (ss_socket s) = so_out so @ fb \<and> ss_encode_cipher s = eb \<and> ss_decode_cipher s = db \<and> buffered (ss_recv_buf s) = []))"
proof -
  note neg = assms(4) negotiated_sym [OF assms(4)]
  have "\<And>x. cr_hmac cr h (secret cr al (tmp_key a al) (tmp_key b al)) x \<noteq> []"
    using assms(1) by (cases h) (auto simp: crypto_ok_def num_bytes_def dest: arg_cong [where f = length])
  from stretch_key_length [where hmac = "cr_hmac cr h (secret cr al (tmp_key a al) (tmp_key b al))" and n = "key_length t", OF this] obtain lk where
    lk: "stretch_key (cr_hmac cr h (secret cr al (tmp_key a al) (tmp_key b al))) (key_length t) = Some lk" "length lk = key_length t" by blast
  let ?dec = "\<lambda>a b. the (new_stream (pa_platform a) t (side_key t (order_of cr b a) lk) Decrypt)"
    and ?enc = "\<lambda>a b. the (new_stream (pa_platform a) t (side_key t (order_of cr a b) lk) Encrypt)"
  have A: "hs_stream cr (pa_platform a) (with_ephemeral (remote_view cr a b al t h) (tmp_key a al) (tmp_public cr a al))
      (party_exchange cr b a al) so = Finished (Inr (secure_stream_new so (?dec a b) (?enc a b) (pa_nonce a)))" for so
    using hs_stream_honest [OF assms(2) neg(1) assms(8) lk] by force
  have B: "hs_stream cr (pa_platform b) (with_ephemeral (remote_view cr b a al t h) (tmp_key b al) (tmp_public cr b al))
      (party_exchange cr a b al) so = Finished (Inr (secure_stream_new so (?dec b a) (?enc b a) (pa_nonce b)))" for so
    using hs_stream_honest [OF assms(3) neg(2) assms(9), of lk] lk assms(10) by force
  have len: "length (side_key t order lk) = key_size t" for order using side_key_length lk(2) by (simp add: key_length_def)
  have plat: "pa_platform a = Wasm \<longrightarrow> t = ChaCha20Poly1305" "pa_platform b = Wasm \<longrightarrow> t = ChaCha20Poly1305"
    using assms(2,3) by (auto simp: party_ok_def)
  have total: "new_stream (pa_platform x) t (side_key t order lk) mode = Some (the (new_stream (pa_platform x) t (side_key t order lk) mode))"
    if "x \<in> {a, b}" for x order mode
    using that plat new_stream_total [OF len] by (metis empty_iff insert_iff option.sel)
  have step: "in_step (?enc a b) (?dec b a)" "in_step (?enc b a) (?dec a b)"
    by (rule new_stream_in_step [OF len total total]; simp)+
  have ae: "aead_ok (cr_aead cr)" using assms(1) by (simp add: crypto_ok_def)
  from ciphers.transfer [OF ae step(1), of "pa_nonce b"] obtain ma ea db where
    ma: "encrypted (cr_aead cr) (?enc a b) (pa_nonce b) = Some (ma, ea)" "decrypted (cr_aead cr) (?dec b a) ma = Some (pa_nonce b, db)" "in_step ea db" by blast
  from ciphers.transfer [OF ae step(2), of "pa_nonce a"] obtain mb eb da where
    mb: "encrypted (cr_aead cr) (?enc b a) (pa_nonce a) = Some (mb, eb)" "decrypted (cr_aead cr) (?dec a b) mb = Some (pa_nonce a, da)" "in_step eb da" by blast
  note sides = party_side [OF assms(1-3) neg(1) assms(5) [symmetric] assms(6,7,8) A ma(1) mb(2)]
    party_side [OF assms(1,3,2) neg(2) assms(5,7,6,9) B mb(1) ma(2)]
  show ?thesis using ma(3) mb(3) sides by blast
qed


section \<open>Samples\<close>

text \<open>Libraries without secrecy that obey the laws, and two parties on different platforms; the one in a browser proposes
  what its platform has. The argument is the length of public keys for X25519.\<close>

definition sample_crypto :: "nat \<Rightarrow> crypto" where
  "sample_crypto n =
     \<lparr>cr_sha256 = (\<lambda>x. take 32 (x @ replicate 32 0)), cr_hmac = (\<lambda>d k x. replicate (num_bytes d) 5),
      cr_public = (\<lambda>al k. replicate (if al = X25519 then n else pubkey_len al) 9), cr_derive = (\<lambda>al k p. Some [1]),
      cr_diffie_hellman = (\<lambda>k p. [1]), cr_mol = le_numbers, cr_aead = plain_aead\<rparr>"

definition sample_curve :: secp256k1 where
  "sample_curve =
     \<lparr>sp_message = (\<lambda>m. if length m = 32 then Some m else None), sp_sign = (\<lambda>m k. k @ m), sp_pubkey_of = (\<lambda>k. k),
      sp_signature_from_der = Some, sp_pubkey_from_slice = Some, sp_verify = (\<lambda>m s p. s = p @ m)\<rparr>"

definition sample_party :: "platform \<Rightarrow> u8 \<Rightarrow> party" where
  "sample_party pf k =
     \<lparr>pa_config = (let c = hs_config_new (secio_key_pair sample_curve [k]) in
        if pf = Wasm then key_agreements [X25519] (hs_ciphers [ChaCha20Poly1305] c) else c),
      pa_nonce = replicate 16 k, pa_tmp = (\<lambda>_. Some [k]), pa_platform = pf\<rparr>"

definition sample_frames :: "bytes list \<Rightarrow> framed_socket" where
  "sample_frames fs =
     \<lparr>so_in = Pending # map (\<lambda>f. Ready (Some (Inr f))) fs, so_ready = replicate 3 (Ready (Inr ())), so_send = [],
      so_flush = Pending # replicate 4 (Ready (Inr ())), so_close = [], so_out = []\<rparr>"

abbreviation native_party :: party where "native_party \<equiv> sample_party UnixOssl110 1"
abbreviation browser_party :: party where "browser_party \<equiv> sample_party Wasm 2"

lemmas sample_party_defs = sample_party_def hs_config_new_def key_agreements_def hs_ciphers_def our_agreements_def our_ciphers_def
  our_digests_def key_agreements_proposition_def ciphers_proposition_def DEFAULT_AGREEMENTS_PROPOSITION_def
  DEFAULT_CIPHERS_PROPOSITION_def DEFAULT_DIGESTS_PROPOSITION_def X25519_NAME_def CHACHA20_POLY1305_def ascii_def

lemma sample_serves: "serves 3 4 fs (sample_frames fs)"
proof -
  have "frames_of (map (\<lambda>f. Ready (Some (Inr f))) fs) = fs" by (induction fs) simp_all
  then show ?thesis by (simp add: serves_def sample_frames_def takes_frames_def open_socket_def list_all_iff numeral_eq_Suc)
qed

lemma sample_crypto_ok: "crypto_ok (sample_crypto n)"
  by (simp add: crypto_ok_def sample_crypto_def le_numbers_ok plain_aead_ok min_def)

lemma sample_accepts: "accepts (provider (sample_party pf k)) (provider (sample_party pf' k'))"
proof -
  have p: "provider (sample_party pf k) = secio_key_pair sample_curve [k]" for pf k
    by (simp add: sample_party_def hs_config_new_def key_agreements_def hs_ciphers_def Let_def)
  have "secp256k1_ok sample_curve [k']" by (simp add: secp256k1_ok_def sample_curve_def)
  then show ?thesis unfolding p by (rule key_pairs_accept)
qed

lemma sample_party_ok:
  "party_ok (sample_crypto n) native_party X25519 ChaCha20Poly1305"
  "party_ok (sample_crypto n) browser_party X25519 ChaCha20Poly1305"
  using le_numbers_ok
  by (simp_all add: party_ok_def propose_ok_def propose_encode_def propose_write_def table_write_length fixvec_write_def
      our_proposition_def public_key_ok_def our_public_key_def public_key_encode_def public_key_write_def union_write_def
      sample_crypto_def secio_key_pair_def keypair_sign_ecdsa_def keypair_pubkey_def sample_curve_def
      sample_party_defs utf8_valid_def split: if_splits)

lemma sample_negotiated:
  "negotiated (sample_crypto n) browser_party native_party X25519 ChaCha20Poly1305 Sha256"
proof -
  have "order_of (sample_crypto n) browser_party native_party = Less"
    by (simp add: order_of_def hashes_ordering_def sample_crypto_def with_local_def our_public_key_def sample_party_def hs_config_new_def
      key_agreements_def hs_ciphers_def secio_key_pair_def keypair_pubkey_def sample_curve_def)
  then show ?thesis
    by (simp add: negotiated_def select_agreement_def select_cipher_def select_digest_def preferred_def sample_party_defs
      agreement_known_def cipher_known_def digest_known_def SHA_256_def SHA_512_def ECDH_P256_def ECDH_P384_def AES_128_GCM_def AES_256_GCM_def)
qed

lemma sample_keys: "party_key browser_party \<noteq> party_key native_party"
  by (simp add: our_public_key_def sample_party_def hs_config_new_def key_agreements_def hs_ciphers_def secio_key_pair_def
      keypair_pubkey_def sample_curve_def)

lemma sample_dh: "dh_ok (sample_crypto 32) X25519 a b" "secret (sample_crypto 32) X25519 a b = [1]"
  by (simp_all add: dh_ok_def secret_def sample_crypto_def pubkey_len_def)

lemmas sample_session = honest_sessions [OF sample_crypto_ok sample_party_ok(2,1) sample_negotiated sample_keys
  sample_accepts sample_accepts sample_dh(1) sample_dh(1) trans [OF sample_dh(2) sample_dh(2) [symmetric]]]

section \<open>Properties\<close>

text \<open>C5. An honest handshake succeeds and leaves both parties with the same session. Two parties with different keys,
  whatever their platforms and the delays of their sockets, which have algorithms in common and accept each other's
  signatures, each send three frames; given the frames of the other, each finishes with the public key of the other and
  its own ephemeral public key, and the cipher with which one encrypts is in step with the one with which the other
  decrypts, in both directions.\<close>

theorem honest_handshake:
  assumes "crypto_ok cr" and "party_ok cr a al t" and "party_ok cr b al t" and "negotiated cr a b al t h"
    and "party_key a \<noteq> party_key b" and "accepts (provider b) (provider a)" and "accepts (provider a) (provider b)"
    and "dh_ok cr al (tmp_key a al) (tmp_key b al)" and "dh_ok cr al (tmp_key b al) (tmp_key a al)"
    and "secret cr al (tmp_key a al) (tmp_key b al) = secret cr al (tmp_key b al) (tmp_key a al)"
  shows "\<exists>fa fb ea da eb db. in_step ea db \<and> in_step eb da \<and>
    (\<forall>so. serves 3 4 fb so \<longrightarrow> (\<exists>s. party_handshake cr a so = Finished (Inr (s, party_key b, tmp_public cr a al)) \<and>
       so_out (ss_socket s) = so_out so @ fa \<and> ss_encode_cipher s = ea \<and> ss_decode_cipher s = da \<and> buffered (ss_recv_buf s) = [])) \<and>
    (\<forall>so. serves 3 4 fa so \<longrightarrow> (\<exists>s. party_handshake cr b so = Finished (Inr (s, party_key a, tmp_public cr b al)) \<and>
       so_out (ss_socket s) = so_out so @ fb \<and> ss_encode_cipher s = eb \<and> ss_decode_cipher s = db \<and> buffered (ss_recv_buf s) = []))"
  by (rule honest_sessions [OF assms])

theorem honest_handshake_witness:
  "\<exists>fa fb sa sb. party_handshake (sample_crypto 32) browser_party (sample_frames fb) =
       Finished (Inr (sa, party_key native_party, replicate 32 9)) \<and>
     party_handshake (sample_crypto 32) native_party (sample_frames fa) =
       Finished (Inr (sb, party_key browser_party, replicate 32 9)) \<and>
     so_out (ss_socket sa) = fa \<and> so_out (ss_socket sb) = fb \<and> in_step (ss_encode_cipher sa) (ss_decode_cipher sb)"
proof -
  have e: "tmp_public (sample_crypto 32) p X25519 = replicate 32 9" "so_out (sample_frames fs) = []" for p fs
    by (simp_all add: tmp_public_def sample_crypto_def sample_frames_def)
  note h = honest_handshake [OF sample_crypto_ok sample_party_ok(2,1) sample_negotiated sample_keys
    sample_accepts sample_accepts sample_dh(1) sample_dh(1) trans [OF sample_dh(2) sample_dh(2) [symmetric]]]
  then obtain fa fb ea da eb db where step: "in_step ea db"
    and a: "\<And>so. serves 3 4 fb so \<Longrightarrow> \<exists>s. party_handshake (sample_crypto 32) browser_party so =
        Finished (Inr (s, party_key native_party, tmp_public (sample_crypto 32) browser_party X25519)) \<and>
        so_out (ss_socket s) = so_out so @ fa \<and> ss_encode_cipher s = ea"
    and b: "\<And>so. serves 3 4 fa so \<Longrightarrow> \<exists>s. party_handshake (sample_crypto 32) native_party so =
        Finished (Inr (s, party_key browser_party, tmp_public (sample_crypto 32) native_party X25519)) \<and>
        so_out (ss_socket s) = so_out so @ fb \<and> ss_decode_cipher s = db"
    by blast
  from a [OF sample_serves] b [OF sample_serves] step show ?thesis unfolding e by fastforce
qed

text \<open>C6. A handshake that succeeds has authenticated the peer: the public key it returns is not the own one and stands in
  the proposition received; the exchange received after it carries a signature of this key on the peer's proposition,
  the own proposition and the ephemeral key; the ciphers are derived from this ephemeral key; and the frames after it,
  decrypted with them, start with the own nonce.\<close>

theorem handshake_authenticates:
  assumes "handshake cr pf c nonce tmp so = Finished (Inr (s, pk, epk))"
  shows "\<exists>p q rest prop x e so' s0. frames_of (so_in so) = p # q # rest \<and>
    propose_decode (cr_mol cr) p = Some (Some prop) \<and> public_key_decode (cr_mol cr) (p_pubkey prop) = Some (Some pk) \<and>
    pk \<noteq> our_public_key c \<and> exchange_decode (cr_mol cr) q = Some (Some x) \<and>
    kp_verify_ecdsa (hc_key_provider c) (pk_key pk)
      (signed_data cr p (lo_proposition_bytes (with_local cr c nonce)) (e_epubkey x)) (e_signature x) \<and>
    hs_stream cr pf e x so' = Finished (Inr s0) \<and> frames_of (so_in (ss_socket s0)) = rest \<and> buffered (ss_recv_buf s0) = [] \<and>
    took (cr_aead cr) s0 nonce s"
proof -
  from assms obtain r so1 e x so2 s0 where 1: "hs_propose cr c nonce so = Finished (Inr (r, so1))"
    and 2: "hs_exchange cr pf c tmp r so1 = Finished (Inr (e, x, so2))" and 3: "hs_stream cr pf e x so2 = Finished (Inr s0)"
    and 4: "hs_confirm cr r s0 = Finished (Inr s)" "pk = re_public_key r"
    by (auto simp: handshake_def run_bind_Finished)
  from hs_propose_Inr [OF 1] obtain p where p: "frames_of (so_in so) = p # frames_of (so_in so1)"
    "with_remote cr c (with_local cr c nonce) p = Some (Inr r)" by blast
  note w = with_remote_Inr [OF p(2)]
  have "lo_public_key (with_local cr c nonce) = our_public_key c" "lo_nonce (with_local cr c nonce) = nonce"
    by (simp_all add: with_local_def)
  with w hs_exchange_Inr [OF 2] hs_stream_Inr [OF 3] hs_confirm_Inr [OF 4(1)] p(1) 3 4(2) show ?thesis by fastforce
qed

theorem handshake_authenticates_witness:
  "\<exists>so s pk epk p q rest prop x e so' s0. party_handshake (sample_crypto 32) browser_party so = Finished (Inr (s, pk, epk)) \<and>
    frames_of (so_in so) = p # q # rest \<and>
    propose_decode le_numbers p = Some (Some prop) \<and> public_key_decode le_numbers (p_pubkey prop) = Some (Some pk) \<and>
    exchange_decode le_numbers q = Some (Some x) \<and>
    hs_stream (sample_crypto 32) Wasm e x so' = Finished (Inr s0) \<and> took plain_aead s0 (replicate 16 2) s"
proof -
  from sample_session sample_serves obtain fb s epk where
    h: "party_handshake (sample_crypto 32) browser_party (sample_frames fb) = Finished (Inr (s, party_key native_party, epk))" by blast
  have e: "cr_mol (sample_crypto 32) = le_numbers" "cr_aead (sample_crypto 32) = plain_aead" "pa_platform browser_party = Wasm"
    "pa_nonce browser_party = replicate 16 2" by (simp_all add: sample_crypto_def sample_party_def)
  from handshake_authenticates [OF h] h show ?thesis unfolding e by blast
qed

text \<open>C36. A peer can crash a node in a browser: if X25519 is chosen and the signed exchange carries an ephemeral key of more
  than 32 bytes, the handshake panics where the key is copied, instead of failing.\<close>

theorem oversized_key_panics:
  assumes "hs_propose cr c nonce so = Finished (Inr (r, so1))" and "re_chosen_exchange r = X25519"
    and "hs_exchange cr Wasm c tmp r so1 = Finished (Inr (e, x, so2))" and "32 < length (e_epubkey x)"
  shows "handshake cr Wasm c nonce tmp so = Panics"
proof -
  have "ep_remote e = r" using hs_exchange_Inr [OF assms(3)] by blast
  moreover have "agree cr Wasm X25519 k (e_epubkey x) = None" for k using assms(4) by (simp add: agree_panics)
  ultimately have "hs_stream cr Wasm e x so2 = Panics"
    using assms(2) by (simp add: hs_stream_def take_private_key_def Let_def)
  with assms(1,3) show ?thesis by (simp add: handshake_def)
qed

theorem oversized_key_panics_witness:
  "\<exists>so. party_handshake (sample_crypto 33) browser_party so = Panics"
proof -
  let ?cr = "sample_crypto 33" and ?a = browser_party and ?b = native_party
  let ?fs = "[party_proposition ?cr ?b, exchange_encode (cr_mol ?cr) (party_exchange ?cr ?b ?a X25519)]"
  have "serves (Suc 2) (Suc 3) ?fs (sample_frames ?fs)" using sample_serves [of ?fs] by (simp add: numeral_eq_Suc)
  from hs_propose_honest [OF sample_crypto_ok sample_party_ok(1) sample_negotiated sample_keys [symmetric] this] obtain so1 where
    1: "hs_propose ?cr (pa_config ?a) (pa_nonce ?a) (sample_frames ?fs) =
        Finished (Inr (remote_view ?cr ?a ?b X25519 ChaCha20Poly1305 Sha256, so1))"
      "serves (Suc 1) (Suc 2) [exchange_encode (cr_mol ?cr) (party_exchange ?cr ?b ?a X25519)] so1"
    by (auto simp: numeral_eq_Suc)
  have len: "length (tmp_public ?cr ?b X25519) = 33" by (simp add: tmp_public_def sample_crypto_def)
  then have "length (tmp_public ?cr ?b X25519) < 2 ^ 16" by simp
  from hs_exchange_honest [OF sample_crypto_ok sample_party_ok(2,1) sample_accepts sample_accepts this 1(2), where h = Sha256]
  obtain e so2 where 2: "hs_exchange ?cr (pa_platform ?a) (pa_config ?a) (pa_tmp ?a)
      (remote_view ?cr ?a ?b X25519 ChaCha20Poly1305 Sha256) so1 = Finished (Inr (e, party_exchange ?cr ?b ?a X25519, so2))" by blast
  have p: "pa_platform ?a = Wasm" by (simp add: sample_party_def)
  have "party_handshake ?cr ?a (sample_frames ?fs) = Panics"
    unfolding p by (rule oversized_key_panics [OF 1(1) _ 2 [unfolded p]]) (use len in \<open>simp_all add: remote_view_def party_exchange_def\<close>)
  then show ?thesis by blast
qed

end
