(* ===== verification/Channel.thy ===== *)
theory Channel
  imports Prelude
begin

text \<open>
  The bounded priority channel (\<^verbatim>\<open>tentacle/src/channel/mod.rs\<close> and \<^verbatim>\<open>bound.rs\<close>) between a service, its sessions and
  their substreams. It has one receiver and any number of senders; each sender has a number, and its task handle stays
  in the parked queue when the sender is dropped. A machine has 64 bits.

  Every method is one step: the interleavings inside a method, with the spinning of \<^verbatim>\<open>queue.rs\<close> and the repetition of
  \<^verbatim>\<open>compare_exchange\<close>, are not modelled, and a queue is a list. \<open>None\<close> is a failing assertion or \<^verbatim>\<open>expect\<close>.
\<close>

section \<open>The state word\<close>

definition OPEN_MASK :: u64 where "OPEN_MASK = (- 1) - drop_bit 1 (- 1)"
definition INIT_STATE :: u64 where "INIT_STATE = OPEN_MASK"
definition MAX_CAPACITY :: u64 where "MAX_CAPACITY = NOT OPEN_MASK"
definition MAX_BUFFER :: u64 where "MAX_BUFFER = drop_bit 1 MAX_CAPACITY"

record chan_state =
  is_open :: bool
  num_messages :: u64

definition is_closed :: "chan_state \<Rightarrow> bool" where
  "is_closed s \<longleftrightarrow> \<not> is_open s \<and> num_messages s = 0"

definition decode_state :: "u64 \<Rightarrow> chan_state" where
  "decode_state num = \<lparr>is_open = (num AND OPEN_MASK = OPEN_MASK), num_messages = num AND MAX_CAPACITY\<rparr>"

definition encode_state :: "chan_state \<Rightarrow> u64" where
  "encode_state s = (if is_open s then num_messages s OR OPEN_MASK else num_messages s)"

section \<open>The channel\<close>

datatype priority = High | Normal

fun is_high :: "priority \<Rightarrow> bool" where
  "is_high High = True"
| "is_high Normal = False"

text \<open>A sender: the task to be woken, if one is registered, and whether it is parked. \<open>snd_alive\<close> is the sender that has
  not been dropped.\<close>

record chan_sender =
  snd_task :: bool
  snd_is_parked :: bool
  snd_maybe_parked :: bool
  snd_alive :: bool

record 'a channel =
  ch_buffer :: u64
  ch_state :: u64
  ch_message_queue :: "'a list"
  ch_quick_message_queue :: "'a list"
  ch_parked_queue :: "nat list"
  ch_num_senders :: u64
  ch_senders :: "chan_sender list"
  ch_receiver :: bool
  ch_recv_task :: bool
  ch_woken :: "nat list"

text \<open>\<open>ch_woken\<close> records the senders whose tasks were woken. A new sender is not parked.\<close>

definition new_sender :: chan_sender where
  "new_sender = \<lparr>snd_task = False, snd_is_parked = False, snd_maybe_parked = False, snd_alive = True\<rparr>"

definition channel_new :: "u64 \<Rightarrow> 'a channel option" where
  "channel_new buffer =
     (if buffer < MAX_BUFFER then
        Some \<lparr>ch_buffer = buffer, ch_state = INIT_STATE, ch_message_queue = [], ch_quick_message_queue = [],
          ch_parked_queue = [], ch_num_senders = 1, ch_senders = [new_sender], ch_receiver = True, ch_recv_task = False,
          ch_woken = []\<rparr>
      else None)"

definition max_senders :: "'a channel \<Rightarrow> u64" where
  "max_senders ch = MAX_CAPACITY - ch_buffer ch"

definition set_closed :: "'a channel \<Rightarrow> 'a channel" where
  "set_closed ch =
     (if \<not> is_open (decode_state (ch_state ch)) then ch else ch\<lparr>ch_state := ch_state ch AND NOT OPEN_MASK\<rparr>)"

text \<open>\<^verbatim>\<open>SenderTask::notify\<close> of a handle taken from the parked queue.\<close>

definition notify :: "nat \<Rightarrow> 'a channel \<Rightarrow> 'a channel" where
  "notify i ch =
     (let t = ch_senders ch ! i in
      ch\<lparr>ch_senders := (ch_senders ch)[i := t\<lparr>snd_is_parked := False, snd_task := False\<rparr>],
         ch_woken := (if snd_task t then ch_woken ch @ [i] else ch_woken ch)\<rparr>)"

section \<open>Senders\<close>

text \<open>The second argument tells whether there is a task to be registered.\<close>

definition poll_unparked :: "nat \<Rightarrow> bool \<Rightarrow> 'a channel \<Rightarrow> unit poll \<times> 'a channel" where
  "poll_unparked i cx ch =
     (let t = ch_senders ch ! i in
      if snd_maybe_parked t then
        if \<not> snd_is_parked t then
          (Ready (), ch\<lparr>ch_senders := (ch_senders ch)[i := t\<lparr>snd_maybe_parked := False\<rparr>]\<rparr>)
        else (Pending, ch\<lparr>ch_senders := (ch_senders ch)[i := t\<lparr>snd_task := cx\<rparr>]\<rparr>)
      else (Ready (), ch))"

definition inc_num_messages :: "'a channel \<Rightarrow> (u64 option \<times> 'a channel) option" where
  "inc_num_messages ch =
     (let s = decode_state (ch_state ch) in
      if \<not> is_open s then Some (None, ch)
      else if \<not> num_messages s < MAX_CAPACITY then None
      else let s = s\<lparr>num_messages := num_messages s + 1\<rparr> in
        Some (Some (num_messages s), ch\<lparr>ch_state := encode_state s\<rparr>))"

definition park :: "nat \<Rightarrow> 'a channel \<Rightarrow> 'a channel" where
  "park i ch =
     (let t = (ch_senders ch ! i)\<lparr>snd_task := False, snd_is_parked := True\<rparr>;
          s = decode_state (ch_state ch) in
      ch\<lparr>ch_senders := (ch_senders ch)[i := t\<lparr>snd_maybe_parked := is_open s\<rparr>], ch_parked_queue := ch_parked_queue ch @ [i]\<rparr>)"

definition queue_push_and_signal :: "'a \<Rightarrow> priority \<Rightarrow> 'a channel \<Rightarrow> 'a channel" where
  "queue_push_and_signal msg p ch =
     (let ch = (case p of
          High \<Rightarrow> ch\<lparr>ch_quick_message_queue := ch_quick_message_queue ch @ [msg]\<rparr>
        | Normal \<Rightarrow> ch\<lparr>ch_message_queue := ch_message_queue ch @ [msg]\<rparr>) in
      ch\<lparr>ch_recv_task := False\<rparr>)"

datatype try_send_result = SendOk | SendFull | SendDisconnected

definition do_send_b :: "nat \<Rightarrow> 'a \<Rightarrow> priority \<Rightarrow> 'a channel \<Rightarrow> (try_send_result \<times> 'a channel) option" where
  "do_send_b i msg p ch =
     (case inc_num_messages ch of
        None \<Rightarrow> None
      | Some (None, ch) \<Rightarrow> Some (SendDisconnected, ch)
      | Some (Some n, ch) \<Rightarrow>
          let park_self = n > ch_buffer ch; ch = (if park_self then park i ch else ch) in
          Some (SendOk, queue_push_and_signal msg p ch))"

text \<open>\<^verbatim>\<open>Sender::try_send\<close> and \<^verbatim>\<open>try_quick_send\<close>; a message that was not taken is given back.\<close>

definition try_send :: "nat \<Rightarrow> 'a \<Rightarrow> priority \<Rightarrow> 'a channel \<Rightarrow> (try_send_result \<times> 'a channel) option" where
  "try_send i msg p ch =
     (if \<not> snd_alive (ch_senders ch ! i) then Some (SendDisconnected, ch)
      else (case poll_unparked i False ch of
              (Pending, ch) \<Rightarrow> Some (SendFull, ch)
            | (Ready _, ch) \<Rightarrow> do_send_b i msg p ch))"

text \<open>\<open>Inl ()\<close> is \<^verbatim>\<open>Disconnected\<close>.\<close>

definition chan_poll_ready :: "nat \<Rightarrow> 'a channel \<Rightarrow> (unit + unit) poll \<times> 'a channel" where
  "chan_poll_ready i ch =
     (if \<not> snd_alive (ch_senders ch ! i) then (Ready (Inl ()), ch)
      else if \<not> is_open (decode_state (ch_state ch)) then (Ready (Inl ()), ch)
      else (case poll_unparked i True ch of
              (Ready _, ch) \<Rightarrow> (Ready (Inr ()), ch)
            | (Pending, ch) \<Rightarrow> (Pending, ch)))"

definition close_channel :: "nat \<Rightarrow> 'a channel \<Rightarrow> 'a channel" where
  "close_channel i ch =
     (if snd_alive (ch_senders ch ! i) then (set_closed ch)\<lparr>ch_recv_task := False\<rparr> else ch)"

text \<open>\<^verbatim>\<open>Clone\<close>; the new sender has the next number.\<close>

definition clone_sender :: "nat \<Rightarrow> 'a channel \<Rightarrow> 'a channel option" where
  "clone_sender i ch =
     (if \<not> snd_alive (ch_senders ch ! i) then
        Some (ch\<lparr>ch_senders := ch_senders ch @ [new_sender\<lparr>snd_alive := False\<rparr>]\<rparr>)
      else if ch_num_senders ch = max_senders ch then None
      else Some (ch\<lparr>ch_num_senders := ch_num_senders ch + 1, ch_senders := ch_senders ch @ [new_sender]\<rparr>))"

text \<open>\<^verbatim>\<open>disconnect\<close>, or the sender is dropped; the last one closes the channel.\<close>

definition disconnect :: "nat \<Rightarrow> 'a channel \<Rightarrow> 'a channel" where
  "disconnect i ch =
     (if \<not> snd_alive (ch_senders ch ! i) then ch
      else let prev = ch_num_senders ch; ch = ch\<lparr>ch_num_senders := prev - 1\<rparr>;
               ch = (if prev = 1 then close_channel i ch else ch) in
        ch\<lparr>ch_senders := (ch_senders ch)[i := (ch_senders ch ! i)\<lparr>snd_alive := False\<rparr>]\<rparr>)"

section \<open>The receiver\<close>

fun notify_all :: "nat list \<Rightarrow> 'a channel \<Rightarrow> 'a channel" where
  "notify_all [] ch = ch\<lparr>ch_parked_queue := []\<rparr>"
| "notify_all (i # is) ch = notify_all is (notify i ch)"

definition recv_close :: "'a channel \<Rightarrow> 'a channel" where
  "recv_close ch = (if ch_receiver ch then let ch = set_closed ch in notify_all (ch_parked_queue ch) ch else ch)"

definition unpark_one :: "'a channel \<Rightarrow> 'a channel" where
  "unpark_one ch =
     (case ch_parked_queue ch of
        [] \<Rightarrow> ch
      | i # r \<Rightarrow> notify i (ch\<lparr>ch_parked_queue := r\<rparr>))"

definition dec_num_messages :: "'a channel \<Rightarrow> 'a channel" where
  "dec_num_messages ch = ch\<lparr>ch_state := ch_state ch - 1\<rparr>"

definition next_message :: "'a channel \<Rightarrow> ((priority \<times> 'a) option poll \<times> 'a channel) option" where
  "next_message ch =
     (if \<not> ch_receiver ch then None
      else (case ch_quick_message_queue ch of
        msg # q \<Rightarrow> Some (Ready (Some (High, msg)), dec_num_messages (unpark_one (ch\<lparr>ch_quick_message_queue := q\<rparr>)))
      | [] \<Rightarrow>
          (case ch_message_queue ch of
             msg # q \<Rightarrow> Some (Ready (Some (Normal, msg)), dec_num_messages (unpark_one (ch\<lparr>ch_message_queue := q\<rparr>)))
           | [] \<Rightarrow>
               if is_closed (decode_state (ch_state ch)) then Some (Ready None, ch\<lparr>ch_receiver := False\<rparr>)
               else Some (Pending, ch))))"

text \<open>When there is nothing, the task is registered and the queues are tried again.\<close>

definition recv_poll_next :: "'a channel \<Rightarrow> ((priority \<times> 'a) option poll \<times> 'a channel) option" where
  "recv_poll_next ch =
     (case next_message ch of
        None \<Rightarrow> None
      | Some (Ready msg, ch) \<Rightarrow> Some (Ready msg, if msg = None then ch\<lparr>ch_receiver := False\<rparr> else ch)
      | Some (Pending, ch) \<Rightarrow> next_message (ch\<lparr>ch_recv_task := True\<rparr>))"

text \<open>Dropping the receiver: close and drain.\<close>

fun drain_loop :: "nat \<Rightarrow> 'a channel \<Rightarrow> 'a channel option" where
  "drain_loop 0 ch = None"
| "drain_loop (Suc n) ch =
     (case next_message ch of
        None \<Rightarrow> None
      | Some (Ready (Some _), ch) \<Rightarrow> drain_loop n ch
      | Some (Ready None, ch) \<Rightarrow> Some ch
      | Some (Pending, ch) \<Rightarrow> if is_closed (decode_state (ch_state ch)) then Some ch else drain_loop n ch)"

definition recv_drop :: "'a channel \<Rightarrow> 'a channel option" where
  "recv_drop ch =
     (let ch = recv_close ch in
      if ch_receiver ch then drain_loop (length (ch_quick_message_queue ch) + length (ch_message_queue ch) + 1) ch
      else Some ch)"

section \<open>The state word is a flag and a number\<close>

lemma OPEN_MASK_value: "OPEN_MASK = 0x8000000000000000"
  by (simp add: OPEN_MASK_def mask_eq_exp_minus_1)

lemma MAX_CAPACITY_mask: "MAX_CAPACITY = mask 63"
  by (simp add: MAX_CAPACITY_def OPEN_MASK_value mask_eq_exp_minus_1)

definition pack_state :: "bool \<Rightarrow> nat \<Rightarrow> u64" where
  "pack_state b n = encode_state \<lparr>is_open = b, num_messages = of_nat n\<rparr>"

lemma small_number:
  assumes "n < 2 ^ 63"
  shows "(of_nat n :: u64) AND MAX_CAPACITY = of_nat n" and "(of_nat n :: u64) AND OPEN_MASK = 0" and "unat (of_nat n :: u64) = n"
proof -
  show u: "unat (of_nat n :: u64) = n" using assms by (simp add: unat_of_nat)
  show m: "(of_nat n :: u64) AND MAX_CAPACITY = of_nat n"
    unfolding MAX_CAPACITY_mask take_bit_eq_mask [symmetric]
    by (rule unsigned_word_eqI [where ?'a = nat]) (use assms u in \<open>simp add: unsigned_take_bit_eq take_bit_nat_eq_self\<close>)
  have "(of_nat n :: u64) AND OPEN_MASK = (of_nat n AND MAX_CAPACITY) AND OPEN_MASK" unfolding m ..
  also have "\<dots> = 0" by (simp add: MAX_CAPACITY_def and.assoc)
  finally show "(of_nat n :: u64) AND OPEN_MASK = 0" .
qed

lemma decode_pack [simp]:
  assumes "n < 2 ^ 63"
  shows "decode_state (pack_state b n) = \<lparr>is_open = b, num_messages = of_nat n\<rparr>"
proof -
  note n = small_number [OF assms]
  have "OPEN_MASK \<noteq> 0" "OPEN_MASK AND MAX_CAPACITY = 0" by (simp_all add: OPEN_MASK_value MAX_CAPACITY_def)
  with n show ?thesis
    by (auto simp: decode_state_def pack_state_def encode_state_def bit.conj_disj_distrib2)
qed

lemma pack_close [simp]: "n < 2 ^ 63 \<Longrightarrow> pack_state b n AND NOT OPEN_MASK = pack_state False n"
  using small_number [of n]
  by (auto simp: pack_state_def encode_state_def bit.conj_disj_distrib2 MAX_CAPACITY_def)

lemma pack_open: "n < 2 ^ 63 \<Longrightarrow> pack_state True n = of_nat n + OPEN_MASK"
  using small_number(2) [of n] by (simp add: pack_state_def encode_state_def disjunctive_add_eq_or)

lemma pack_pred [simp]: "0 < n \<Longrightarrow> n < 2 ^ 63 \<Longrightarrow> pack_state b n - 1 = pack_state b (n - 1)"
  using pack_open [of n] pack_open [of "n - 1"]
  by (cases b) (simp_all add: pack_state_def encode_state_def of_nat_diff)

lemma INIT_STATE_pack: "INIT_STATE = pack_state True 0"
  by (simp add: INIT_STATE_def pack_state_def encode_state_def)

section \<open>Invariant\<close>

definition queued :: "'a channel \<Rightarrow> nat" where
  "queued ch = length (ch_quick_message_queue ch) + length (ch_message_queue ch)"

definition opened :: "'a channel \<Rightarrow> bool" where
  "opened ch = is_open (decode_state (ch_state ch))"

text \<open>The number in the state is the number of messages.\<close>

definition state_ok :: "'a channel \<Rightarrow> bool" where
  "state_ok ch \<longleftrightarrow> ch_state ch = pack_state (opened ch) (queued ch) \<and> queued ch < 2 ^ 63"

text \<open>The parked queue holds exactly the parked senders, which will ask for the lock.\<close>

definition parking_ok :: "nat list \<Rightarrow> chan_sender list \<Rightarrow> bool" where
  "parking_ok q ss \<longleftrightarrow> distinct q \<and> (\<forall>i. i \<in> set q \<longleftrightarrow> i < length ss \<and> snd_is_parked (ss ! i)) \<and>
     (\<forall>i < length ss. snd_is_parked (ss ! i) \<longrightarrow> snd_maybe_parked (ss ! i))"

text \<open>A message beyond the buffer has parked its sender.\<close>

definition capacity_ok :: "'a channel \<Rightarrow> bool" where
  "capacity_ok ch \<longleftrightarrow> length (ch_parked_queue ch) \<le> queued ch \<and>
     (opened ch \<longrightarrow> queued ch \<le> unat (ch_buffer ch) + length (ch_parked_queue ch)) \<and>
     queued ch \<le> unat (ch_buffer ch) + length (ch_senders ch)"

definition senders_ok :: "'a channel \<Rightarrow> bool" where
  "senders_ok ch \<longleftrightarrow> unat (ch_num_senders ch) = length (filter snd_alive (ch_senders ch)) \<and>
     ch_num_senders ch \<le> max_senders ch \<and> (ch_num_senders ch = 0 \<longrightarrow> \<not> opened ch) \<and> ch_buffer ch < MAX_BUFFER"

definition chan_ok :: "'a channel \<Rightarrow> bool" where
  "chan_ok ch \<longleftrightarrow> state_ok ch \<and> parking_ok (ch_parked_queue ch) (ch_senders ch) \<and> capacity_ok ch \<and> senders_ok ch"

lemma filter_update_length:
  "i < length xs \<Longrightarrow> length (filter P (xs[i := y])) + (if P (xs ! i) then 1 else 0) = length (filter P xs) + (if P y then 1 else 0)"
proof (induction xs arbitrary: i)
  case (Cons x xs)
  then show ?case by (cases i) auto
qed simp

lemma filter_update_same: "P y = P (xs ! i) \<Longrightarrow> length (filter P (xs[i := y])) = length (filter P xs)"
  by (cases "i < length xs") (use filter_update_length [of i xs P y] in \<open>auto simp: not_less list_update_beyond split: if_splits\<close>)

lemma parking_distinct_length:
  assumes "parking_ok q ss"
  shows "length q \<le> length ss"
proof -
  have "set q \<subseteq> {..<length ss}" using assms by (auto simp: parking_ok_def)
  then have "card (set q) \<le> card {..<length ss}" by (intro card_mono) simp_all
  then show ?thesis using assms by (simp add: parking_ok_def distinct_card)
qed

lemma parking_keep:
  "parking_ok q ss \<Longrightarrow> snd_is_parked y = snd_is_parked (ss ! i) \<Longrightarrow> (snd_is_parked y \<Longrightarrow> snd_maybe_parked y) \<Longrightarrow>
    parking_ok q (ss[i := y])"
  by (cases "i < length ss") (auto simp: parking_ok_def nth_list_update not_less list_update_beyond)

lemma parking_push:
  "parking_ok q ss \<Longrightarrow> i < length ss \<Longrightarrow> \<not> snd_is_parked (ss ! i) \<Longrightarrow> snd_is_parked y \<Longrightarrow> snd_maybe_parked y \<Longrightarrow>
    parking_ok (q @ [i]) (ss[i := y])"
  by (auto simp: parking_ok_def nth_list_update)

lemma parking_pop:
  "parking_ok (i # q) ss \<Longrightarrow> \<not> snd_is_parked y \<Longrightarrow> parking_ok q (ss[i := y])"
  by (cases "i < length ss") (auto simp: parking_ok_def nth_list_update not_less list_update_beyond)

lemma parking_append:
  "parking_ok q ss \<Longrightarrow> \<not> snd_is_parked y \<Longrightarrow> parking_ok q (ss @ [y])"
  by (auto simp: parking_ok_def nth_append less_Suc_eq)

lemmas chan_defs = chan_ok_def state_ok_def capacity_ok_def senders_ok_def queued_def opened_def max_senders_def

lemma channel_new_ok: "channel_new b = Some ch \<Longrightarrow> chan_ok ch"
  by (auto simp: channel_new_def chan_defs INIT_STATE_pack new_sender_def parking_ok_def MAX_BUFFER_def MAX_CAPACITY_mask
      mask_eq_exp_minus_1 word_le_nat_alt word_less_nat_alt unat_sub split: if_splits)

lemma state_decoded:
  "state_ok ch \<Longrightarrow> decode_state (ch_state ch) = \<lparr>is_open = opened ch, num_messages = of_nat (queued ch)\<rparr>"
  unfolding state_ok_def by (metis decode_pack)

text \<open>Changing a task, closing, and sending keep the invariant.\<close>

lemma task_ok:
  assumes "chan_ok ch" and "snd_is_parked y = snd_is_parked (ch_senders ch ! i)" and "snd_is_parked y \<Longrightarrow> snd_maybe_parked y"
    and "snd_alive y = snd_alive (ch_senders ch ! i)"
  shows "chan_ok (ch\<lparr>ch_senders := (ch_senders ch)[i := y]\<rparr>)"
  using assms parking_keep [of "ch_parked_queue ch" "ch_senders ch" y i] filter_update_same [of snd_alive y "ch_senders ch" i]
  by (simp add: chan_defs)

lemma poll_unparked_ok:
  assumes "chan_ok ch" and "i < length (ch_senders ch)" and "poll_unparked i cx ch = (r, ch')"
  shows "chan_ok ch' \<and> (r = Ready () \<longrightarrow> \<not> snd_is_parked (ch_senders ch' ! i)) \<and> length (ch_senders ch') = length (ch_senders ch) \<and>
    snd_alive (ch_senders ch' ! i) = snd_alive (ch_senders ch ! i)"
proof -
  have p: "snd_is_parked (ch_senders ch ! i) \<Longrightarrow> snd_maybe_parked (ch_senders ch ! i)"
    using assms(1,2) by (auto simp: chan_ok_def parking_ok_def)
  show ?thesis
    using assms p by (auto simp: poll_unparked_def Let_def split: if_splits intro!: task_ok)
qed

lemma set_closed_ok: "chan_ok ch \<Longrightarrow> chan_ok (set_closed ch)"
proof -
  assume ok: "chan_ok ch"
  then have st: "ch_state ch = pack_state (opened ch) (queued ch)" "queued ch < 2 ^ 63" by (auto simp: chan_ok_def state_ok_def)
  show ?thesis
  proof (cases "opened ch")
    case True
    then have "set_closed ch = ch\<lparr>ch_state := pack_state False (queued ch)\<rparr>"
      using st by (simp add: set_closed_def opened_def [symmetric])
    moreover have "\<not> opened (ch\<lparr>ch_state := pack_state False (queued ch)\<rparr>)" using st by (simp add: opened_def)
    ultimately show ?thesis using ok st unfolding chan_ok_def state_ok_def capacity_ok_def senders_ok_def
      by (simp add: queued_def max_senders_def)
  qed (use ok in \<open>simp add: set_closed_def opened_def\<close>)
qed

lemma inc_num_messages_cases:
  assumes "state_ok ch" and "inc_num_messages ch = Some (r, ch')"
  obtains "\<not> opened ch" "r = None" "ch' = ch"
    | "opened ch" "Suc (queued ch) < 2 ^ 63" "r = Some (of_nat (Suc (queued ch)))" "ch' = ch\<lparr>ch_state := pack_state True (Suc (queued ch))\<rparr>"
proof -
  have q: "queued ch < 2 ^ 63" "unat (of_nat (queued ch) :: u64) = queued ch"
    using assms(1) small_number(3) by (auto simp: state_ok_def)
  have "unat MAX_CAPACITY = 2 ^ 63 - 1" by (simp add: MAX_CAPACITY_mask mask_eq_exp_minus_1)
  then have "(of_nat (queued ch) :: u64) < MAX_CAPACITY \<longleftrightarrow> Suc (queued ch) < 2 ^ 63"
    unfolding word_less_nat_alt q(2) by simp
  with assms that show thesis
    by (auto simp: inc_num_messages_def state_decoded pack_state_def Let_def add.commute split: if_splits)
qed

definition pushed :: "'a \<Rightarrow> priority \<Rightarrow> 'a channel \<Rightarrow> 'a channel" where
  "pushed m p ch = (case p of High \<Rightarrow> ch\<lparr>ch_quick_message_queue := ch_quick_message_queue ch @ [m]\<rparr>
     | Normal \<Rightarrow> ch\<lparr>ch_message_queue := ch_message_queue ch @ [m]\<rparr>)"

lemma push_and_signal: "queue_push_and_signal m p ch = (pushed m p ch)\<lparr>ch_recv_task := False\<rparr>"
  by (cases p) (simp_all add: queue_push_and_signal_def pushed_def)

lemma pushed_simps [simp]:
  "ch_buffer (pushed m p ch) = ch_buffer ch" "ch_state (pushed m p ch) = ch_state ch"
  "ch_parked_queue (pushed m p ch) = ch_parked_queue ch" "ch_num_senders (pushed m p ch) = ch_num_senders ch"
  "ch_senders (pushed m p ch) = ch_senders ch" "queued (pushed m p ch) = Suc (queued ch)"
  by (cases p; simp add: pushed_def queued_def)+

lemma do_send_b_ok:
  assumes ok: "chan_ok ch" and i: "i < length (ch_senders ch)" "\<not> snd_is_parked (ch_senders ch ! i)"
    and r: "do_send_b i m p ch = Some (r, ch')"
  shows "chan_ok ch'"
proof -
  have st: "state_ok ch" using ok by (simp add: chan_ok_def)
  from r obtain o1 ch1 where inc: "inc_num_messages ch = Some (o1, ch1)"
    and rest: "case o1 of None \<Rightarrow> ch' = ch1 | Some n \<Rightarrow>
      ch' = queue_push_and_signal m p (if n > ch_buffer ch1 then park i ch1 else ch1)"
    by (auto simp: do_send_b_def Let_def split: option.splits)
  from st inc show ?thesis
  proof (cases rule: inc_num_messages_cases)
    case 1
    with rest ok show ?thesis by simp
  next
    case 2
    let ?q = "Suc (queued ch)"
    have gt: "(of_nat ?q :: u64) > ch_buffer ch \<longleftrightarrow> ?q > unat (ch_buffer ch)"
      using small_number(3) [OF 2(2)] by (simp add: word_less_nat_alt)
    let ?t = "(ch_senders ch ! i)\<lparr>snd_task := False, snd_is_parked := True, snd_maybe_parked := True\<rparr>"
    have ch': "ch' = (pushed m p (if ?q > unat (ch_buffer ch) then
        ch\<lparr>ch_state := pack_state True ?q, ch_senders := (ch_senders ch)[i := ?t], ch_parked_queue := ch_parked_queue ch @ [i]\<rparr>
        else ch\<lparr>ch_state := pack_state True ?q\<rparr>))\<lparr>ch_recv_task := False\<rparr>"
      using rest 2 gt by (simp add: push_and_signal park_def Let_def)
    have e: "ch_state ch' = pack_state True ?q" "queued ch' = ?q" "ch_buffer ch' = ch_buffer ch" "ch_num_senders ch' = ch_num_senders ch"
      unfolding ch' by (auto simp: queued_def) (cases p; simp add: pushed_def)+
    have op: "opened ch'" using 2(2) e(1) by (simp add: opened_def)
    show ?thesis
    proof (cases "?q > unat (ch_buffer ch)")
      case True
      have s: "ch_senders ch' = (ch_senders ch)[i := ?t]" "ch_parked_queue ch' = ch_parked_queue ch @ [i]"
        unfolding ch' using True by simp_all
      have park: "parking_ok (ch_parked_queue ch') (ch_senders ch')"
        unfolding s by (rule parking_push) (use ok i in \<open>simp_all add: chan_ok_def\<close>)
      have "length (filter snd_alive (ch_senders ch')) = length (filter snd_alive (ch_senders ch))"
        unfolding s by (rule filter_update_same) simp
      moreover have "length (ch_parked_queue ch') \<le> length (ch_senders ch)" using parking_distinct_length [OF park] s(1) by simp
      ultimately show ?thesis
        using ok 2(1,2) e op park s by (simp add: chan_ok_def state_ok_def capacity_ok_def senders_ok_def max_senders_def)
    next
      case False
      have s: "ch_senders ch' = ch_senders ch" "ch_parked_queue ch' = ch_parked_queue ch" unfolding ch' using False by simp_all
      show ?thesis
        using ok 2(1,2) e op s False by (simp add: chan_ok_def state_ok_def capacity_ok_def senders_ok_def max_senders_def)
    qed
  qed
qed

lemma try_send_ok:
  assumes "chan_ok ch" and "i < length (ch_senders ch)" and "try_send i m p ch = Some (r, ch')"
  shows "chan_ok ch'"
proof -
  obtain x ch1 where "poll_unparked i False ch = (x, ch1)" by force
  with poll_unparked_ok [OF assms(1,2) this] assms show ?thesis
    by (auto simp: try_send_def split: if_splits poll.splits intro: do_send_b_ok)
qed

lemma chan_poll_ready_ok:
  assumes "chan_ok ch" and "i < length (ch_senders ch)" and "chan_poll_ready i ch = (r, ch')"
  shows "chan_ok ch'"
proof -
  obtain x ch1 where "poll_unparked i True ch = (x, ch1)" by force
  with poll_unparked_ok [OF assms(1,2) this] assms show ?thesis
    by (auto simp: chan_poll_ready_def split: if_splits poll.splits)
qed

lemma recv_task_ok: "chan_ok (ch\<lparr>ch_recv_task := b\<rparr>) = chan_ok ch"
  by (simp add: chan_defs)

lemma close_channel_ok: "chan_ok ch \<Longrightarrow> chan_ok (close_channel i ch)"
  by (simp add: close_channel_def recv_task_ok set_closed_ok)

lemma set_closed_not_opened:
  assumes "state_ok ch"
  shows "\<not> opened (set_closed ch)"
proof (cases "opened ch")
  case True
  with assms have "ch_state ch = pack_state True (queued ch)" "queued ch < 2 ^ 63" by (simp_all add: state_ok_def)
  then show ?thesis by (simp add: set_closed_def opened_def)
qed (simp add: set_closed_def opened_def)

lemma inc_less:
  assumes "(a :: u64) < b"
  shows "unat (a + 1) = Suc (unat a)" and "a + 1 \<le> b" and "a + 1 \<noteq> 0"
proof -
  have "unat a < unat b" "unat b < 2 ^ 64" using assms unsigned_less [of b, where ?'a = nat] by (simp_all add: word_less_nat_alt)
  then show u: "unat (a + 1) = Suc (unat a)" by (simp add: unat_word_ariths)
  then show "a + 1 \<le> b" using \<open>unat a < unat b\<close> by (simp add: word_le_nat_alt)
  show "a + 1 \<noteq> 0" using u by (metis nat.distinct(1) unat_0)
qed

lemma dec_positive:
  assumes "0 < unat (a :: u64)"
  shows "unat (a - 1) = unat a - 1" and "a - 1 \<le> a" and "a \<noteq> 0"
proof -
  have "1 \<le> a" using assms by (simp add: word_le_nat_alt)
  then show u: "unat (a - 1) = unat a - 1" by (simp add: unat_sub)
  then show "a - 1 \<le> a" by (simp add: word_le_nat_alt)
  show "a \<noteq> 0" using assms by auto
qed

lemma clone_sender_ok:
  assumes ok: "chan_ok ch" and r: "clone_sender i ch = Some ch'"
  shows "chan_ok ch'"
proof (cases "snd_alive (ch_senders ch ! i)")
  case False
  with ok r parking_append [of "ch_parked_queue ch" "ch_senders ch" "new_sender\<lparr>snd_alive := False\<rparr>"] show ?thesis
    by (auto simp: clone_sender_def chan_defs new_sender_def)
next
  case True
  with r have ch': "ch' = ch\<lparr>ch_num_senders := ch_num_senders ch + 1, ch_senders := ch_senders ch @ [new_sender]\<rparr>"
    and ne: "ch_num_senders ch \<noteq> max_senders ch" by (auto simp: clone_sender_def split: if_splits)
  have le: "ch_num_senders ch < max_senders ch" using ok ne by (simp add: chan_ok_def senders_ok_def order.strict_iff_order)
  note u = inc_less [OF le]
  have "parking_ok (ch_parked_queue ch) (ch_senders ch @ [new_sender])"
    using ok by (intro parking_append) (simp_all add: chan_ok_def new_sender_def)
  then show ?thesis
    using ok u by (simp add: ch' chan_defs) (simp add: new_sender_def)
qed

lemma disconnect_ok:
  assumes ok: "chan_ok ch" and i: "i < length (ch_senders ch)"
  shows "chan_ok (disconnect i ch)"
proof (cases "snd_alive (ch_senders ch ! i)")
  case False
  with ok show ?thesis by (simp add: disconnect_def)
next
  case True
  define c where "c = (if ch_num_senders ch = 1 then close_channel i ch else ch)"
  let ?y = "(ch_senders ch ! i)\<lparr>snd_alive := False\<rparr>"
  have ok1: "chan_ok c" using ok close_channel_ok by (auto simp: c_def)
  have e: "ch_senders c = ch_senders ch" "ch_num_senders c = ch_num_senders ch"
    by (auto simp: c_def close_channel_def set_closed_def)
  have d: "disconnect i ch = c\<lparr>ch_num_senders := ch_num_senders ch - 1, ch_senders := (ch_senders ch)[i := ?y]\<rparr>"
    using True by (auto simp: c_def disconnect_def Let_def close_channel_def set_closed_def)
  have n: "unat (ch_num_senders ch) = length (filter snd_alive (ch_senders ch))" using ok by (simp add: chan_ok_def senders_ok_def)
  have "length (filter snd_alive ((ch_senders ch)[i := ?y])) + 1 = length (filter snd_alive (ch_senders ch))"
    using filter_update_length [OF i, of snd_alive ?y] True by simp
  with n have "unat (ch_num_senders ch) = Suc (length (filter snd_alive ((ch_senders ch)[i := ?y])))" by linarith
  then have n': "unat (ch_num_senders ch - 1) = length (filter snd_alive ((ch_senders ch)[i := ?y]))"
    and le: "ch_num_senders ch - 1 \<le> ch_num_senders ch"
    using dec_positive [of "ch_num_senders ch"] by simp_all
  have "\<not> opened (close_channel i ch)"
    using True ok set_closed_not_opened [of ch] by (simp add: close_channel_def chan_ok_def opened_def)
  then have "opened c \<Longrightarrow> ch_num_senders ch \<noteq> 1" by (auto simp: c_def)
  then have "ch_num_senders ch - 1 = 0 \<longrightarrow> \<not> opened c" by auto
  moreover have "ch_num_senders ch - 1 \<le> max_senders c"
    using ok1 e le by (auto simp: chan_ok_def senders_ok_def)
  moreover have "parking_ok (ch_parked_queue c) ((ch_senders ch)[i := ?y])"
    using ok1 e i by (intro parking_keep) (auto simp: chan_ok_def parking_ok_def)
  ultimately show ?thesis
    using ok1 n' unfolding d by (simp add: chan_defs e)
qed

text \<open>Taking a handle from the parked queue.\<close>

lemma notify_simps [simp]:
  "ch_buffer (notify i ch) = ch_buffer ch" "ch_state (notify i ch) = ch_state ch"
  "ch_message_queue (notify i ch) = ch_message_queue ch" "ch_quick_message_queue (notify i ch) = ch_quick_message_queue ch"
  "ch_parked_queue (notify i ch) = ch_parked_queue ch" "ch_num_senders (notify i ch) = ch_num_senders ch"
  "length (ch_senders (notify i ch)) = length (ch_senders ch)" "ch_receiver (notify i ch) = ch_receiver ch"
  "length (filter snd_alive (ch_senders (notify i ch))) = length (filter snd_alive (ch_senders ch))"
  by (simp_all add: notify_def Let_def filter_update_same)

lemma notify_parking:
  "parking_ok (i # q) (ch_senders ch) \<Longrightarrow> parking_ok q (ch_senders (notify i ch))"
  by (simp add: notify_def Let_def parking_pop)

lemma notify_all_props:
  "parking_ok is (ch_senders ch) \<Longrightarrow> parking_ok [] (ch_senders (notify_all is ch)) \<and> ch_parked_queue (notify_all is ch) = [] \<and>
    ch_buffer (notify_all is ch) = ch_buffer ch \<and> ch_state (notify_all is ch) = ch_state ch \<and>
    ch_message_queue (notify_all is ch) = ch_message_queue ch \<and>
    ch_quick_message_queue (notify_all is ch) = ch_quick_message_queue ch \<and>
    ch_num_senders (notify_all is ch) = ch_num_senders ch \<and> ch_receiver (notify_all is ch) = ch_receiver ch \<and>
    length (ch_senders (notify_all is ch)) = length (ch_senders ch) \<and>
    length (filter snd_alive (ch_senders (notify_all is ch))) = length (filter snd_alive (ch_senders ch))"
proof (induction "is" arbitrary: ch)
  case (Cons i "is")
  from Cons.IH [of "notify i ch"] notify_parking [OF Cons.prems] show ?case by simp
qed simp

lemma recv_close_ok:
  assumes "chan_ok ch"
  shows "chan_ok (recv_close ch)"
proof -
  have ok: "chan_ok (set_closed ch)" "\<not> opened (set_closed ch)"
    using assms set_closed_ok set_closed_not_opened by (auto simp: chan_ok_def)
  then have "parking_ok (ch_parked_queue (set_closed ch)) (ch_senders (set_closed ch))" by (simp add: chan_ok_def)
  note n = notify_all_props [OF this]
  have "chan_ok (notify_all (ch_parked_queue (set_closed ch)) (set_closed ch))"
    using ok n by (simp add: chan_defs)
  then show ?thesis using assms by (simp add: recv_close_def Let_def)
qed

text \<open>A message is received: one message less, and one parked sender less.\<close>

lemma unpark_one_simps [simp]:
  "ch_buffer (unpark_one ch) = ch_buffer ch" "ch_state (unpark_one ch) = ch_state ch"
  "ch_message_queue (unpark_one ch) = ch_message_queue ch" "ch_quick_message_queue (unpark_one ch) = ch_quick_message_queue ch"
  "ch_num_senders (unpark_one ch) = ch_num_senders ch" "ch_parked_queue (unpark_one ch) = drop 1 (ch_parked_queue ch)"
  "length (ch_senders (unpark_one ch)) = length (ch_senders ch)" "ch_receiver (unpark_one ch) = ch_receiver ch"
  "length (filter snd_alive (ch_senders (unpark_one ch))) = length (filter snd_alive (ch_senders ch))"
  by (auto simp: unpark_one_def split: list.splits)

lemma unpark_one_parking:
  assumes "parking_ok (ch_parked_queue ch) (ch_senders ch)"
  shows "parking_ok (drop 1 (ch_parked_queue ch)) (ch_senders (unpark_one ch))"
proof (cases "ch_parked_queue ch")
  case (Cons i q)
  then show ?thesis using assms notify_parking [of i q "ch\<lparr>ch_parked_queue := q\<rparr>"] by (simp add: unpark_one_def)
qed (use assms in \<open>simp add: unpark_one_def\<close>)

lemma receive_ok:
  assumes ok: "chan_ok ch" and q: "Suc (queued ch') = queued ch"
    and ch': "ch_buffer ch' = ch_buffer ch" "ch_state ch' = ch_state ch" "ch_parked_queue ch' = ch_parked_queue ch"
      "ch_num_senders ch' = ch_num_senders ch" "ch_senders ch' = ch_senders ch"
  shows "chan_ok (dec_num_messages (unpark_one ch'))"
proof -
  let ?d = "dec_num_messages (unpark_one ch')"
  have "pack_state (opened ch) (queued ch) - 1 = pack_state (opened ch) (queued ch')"
    using ok by (subst pack_pred) (auto simp: chan_ok_def state_ok_def q [symmetric])
  then have st: "ch_state ?d = pack_state (opened ch) (queued ch')" using ok ch'(2) by (simp add: dec_num_messages_def chan_ok_def state_ok_def)
  have qd: "queued ?d = queued ch'" "queued ch' < 2 ^ 63" using ok q by (auto simp: dec_num_messages_def queued_def chan_ok_def state_ok_def)
  have op: "opened ?d = opened ch" unfolding opened_def st using qd(2) by simp
  have park: "parking_ok (ch_parked_queue ?d) (ch_senders ?d)"
    using unpark_one_parking [of ch'] ok ch' by (simp add: dec_num_messages_def chan_ok_def)
  have f: "ch_buffer ?d = ch_buffer ch" "ch_num_senders ?d = ch_num_senders ch" "length (ch_senders ?d) = length (ch_senders ch)"
    "length (filter snd_alive (ch_senders ?d)) = length (filter snd_alive (ch_senders ch))"
    "length (ch_parked_queue ?d) = length (ch_parked_queue ch) - 1"
    using ch' by (simp_all add: dec_num_messages_def)
  have "parking_ok (ch_parked_queue ?d) (ch_senders ?d) \<and> state_ok ?d" using park st qd op by (simp add: state_ok_def)
  moreover have "capacity_ok ?d" using ok q qd op f by (auto simp: chan_ok_def capacity_ok_def)
  moreover have "senders_ok ?d" using ok op f by (simp add: chan_ok_def senders_ok_def max_senders_def)
  ultimately show ?thesis by (simp add: chan_ok_def)
qed

lemma next_message_ok:
  assumes "chan_ok ch" and "next_message ch = Some (r, ch')"
  shows "chan_ok ch'"
proof -
  have rx: "chan_ok (ch\<lparr>ch_receiver := b\<rparr>)" for b using assms(1) by (simp add: chan_defs)
  from assms rx show ?thesis
    by (auto simp: next_message_def queued_def split: if_splits list.splits intro!: receive_ok [OF assms(1)])
qed

lemma recv_poll_next_ok:
  assumes "chan_ok ch" and "recv_poll_next ch = Some (r, ch')"
  shows "chan_ok ch'"
proof -
  have rx: "chan_ok x \<Longrightarrow> chan_ok (x\<lparr>ch_receiver := b\<rparr>)" for x :: "'a channel" and b by (simp add: chan_defs)
  show ?thesis
    using assms
    by (auto simp: recv_poll_next_def recv_task_ok split: option.splits prod.splits poll.splits if_splits
        intro!: rx dest: next_message_ok) (metis next_message_ok recv_task_ok)
qed

section \<open>Runs\<close>

text \<open>The operations of senders and receiver in any order. A step says which message was accepted and which was
  received; operations on a sender that does not exist and polls after the end do nothing.\<close>

datatype 'a chan_op =
  OpTrySend nat 'a priority
  | OpPollReady nat
  | OpClone nat
  | OpDisconnect nat
  | OpCloseChannel nat
  | OpClose
  | OpNext

fun chan_step ::
  "'a chan_op \<Rightarrow> 'a channel \<Rightarrow> ((priority \<times> 'a) list \<times> (priority \<times> 'a) list \<times> 'a channel) option" where
  "chan_step (OpTrySend i m p) ch =
     (if i < length (ch_senders ch) then
        map_option (\<lambda>(r, ch'). (if r = SendOk then [(p, m)] else [], [], ch')) (try_send i m p ch)
      else Some ([], [], ch))"
| "chan_step (OpPollReady i) ch =
     Some ([], [], if i < length (ch_senders ch) then snd (chan_poll_ready i ch) else ch)"
| "chan_step (OpClone i) ch =
     (if i < length (ch_senders ch) then map_option (\<lambda>ch'. ([], [], ch')) (clone_sender i ch) else Some ([], [], ch))"
| "chan_step (OpDisconnect i) ch = Some ([], [], if i < length (ch_senders ch) then disconnect i ch else ch)"
| "chan_step (OpCloseChannel i) ch = Some ([], [], if i < length (ch_senders ch) then close_channel i ch else ch)"
| "chan_step OpClose ch = Some ([], [], recv_close ch)"
| "chan_step OpNext ch =
     (if ch_receiver ch then
        map_option (\<lambda>(r, ch'). ([], case r of Ready (Some x) \<Rightarrow> [x] | _ \<Rightarrow> [], ch')) (recv_poll_next ch)
      else Some ([], [], ch))"

fun chan_run ::
  "'a chan_op list \<Rightarrow> 'a channel \<Rightarrow> ((priority \<times> 'a) list \<times> (priority \<times> 'a) list \<times> 'a channel) option" where
  "chan_run [] ch = Some ([], [], ch)"
| "chan_run (x # xs) ch =
     (case chan_step x ch of
        None \<Rightarrow> None
      | Some (s, g, ch) \<Rightarrow>
          (case chan_run xs ch of None \<Rightarrow> None | Some (s', g', ch) \<Rightarrow> Some (s @ s', g @ g', ch)))"

text \<open>What the channel is to its users: two queues.\<close>

fun chan_queue :: "priority \<Rightarrow> 'a channel \<Rightarrow> 'a list" where
  "chan_queue High ch = ch_quick_message_queue ch"
| "chan_queue Normal ch = ch_message_queue ch"

definition of_priority :: "priority \<Rightarrow> (priority \<times> 'a) list \<Rightarrow> 'a list" where
  "of_priority p xs = map snd (filter (\<lambda>x. fst x = p) xs)"

lemma of_priority_simps [simp]:
  "of_priority p [] = []" "of_priority p (x # xs) = (if fst x = p then [snd x] else []) @ of_priority p xs"
  "of_priority p (xs @ ys) = of_priority p xs @ of_priority p ys"
  by (simp_all add: of_priority_def)

lemma chan_step_ok: "chan_ok ch \<Longrightarrow> chan_step x ch = Some (s, g, ch') \<Longrightarrow> chan_ok ch'"
  by (cases x) (auto split: if_splits prod.splits intro: try_send_ok clone_sender_ok disconnect_ok close_channel_ok
      recv_close_ok recv_poll_next_ok chan_poll_ready_ok surjective_pairing)

lemma poll_unparked_queue: "poll_unparked i cx ch = (r, ch') \<Longrightarrow> chan_queue p ch' = chan_queue p ch"
  by (cases p) (auto simp: poll_unparked_def Let_def split: if_splits)

lemma try_send_queue:
  assumes "try_send i m p ch = Some (r, ch')"
  shows "chan_queue q ch' = chan_queue q ch @ (if r = SendOk \<and> q = p then [m] else [])"
proof -
  obtain x ch1 where u: "poll_unparked i False ch = (x, ch1)" by force
  have "chan_queue q (park i c) = chan_queue q c" for c :: "'a channel" by (cases q) (simp_all add: park_def Let_def)
  moreover have "chan_queue q (queue_push_and_signal m p c) = chan_queue q c @ (if q = p then [m] else [])" for c
    by (cases p; cases q) (simp_all add: queue_push_and_signal_def)
  moreover have "inc_num_messages ch1 = Some (y, ch2) \<Longrightarrow> chan_queue q ch2 = chan_queue q ch1" for y ch2
    by (cases q) (auto simp: inc_num_messages_def Let_def split: if_splits)
  ultimately show ?thesis
    using assms poll_unparked_queue [OF u, of q]
    by (auto simp: try_send_def u do_send_b_def Let_def split: if_splits poll.splits option.splits prod.splits)
qed

lemma close_queue:
  "chan_queue p (set_closed ch) = chan_queue p ch" "chan_queue p (close_channel i ch) = chan_queue p ch"
  "chan_queue p (disconnect i ch) = chan_queue p ch" "chan_queue p (notify i ch) = chan_queue p ch"
  "chan_queue p (notify_all is ch) = chan_queue p ch" "chan_queue p (recv_close ch) = chan_queue p ch"
proof -
  show 1: "chan_queue p (set_closed ch) = chan_queue p ch" for ch :: "'a channel" by (cases p) (simp_all add: set_closed_def)
  show 2: "chan_queue p (close_channel i ch) = chan_queue p ch" for ch :: "'a channel"
    using 1 [of ch] by (cases p) (simp_all add: close_channel_def)
  show "chan_queue p (disconnect i ch) = chan_queue p ch"
    using 2 [of "ch\<lparr>ch_num_senders := 0\<rparr>"] by (cases p) (auto simp: disconnect_def Let_def close_channel_def set_closed_def)
  show 3: "chan_queue p (notify i ch) = chan_queue p ch" for i and ch :: "'a channel" by (cases p) simp_all
  show 4: "chan_queue p (notify_all is ch) = chan_queue p ch" for "is" and ch :: "'a channel"
  proof (induction "is" arbitrary: ch)
    case Nil
    then show ?case by (cases p) simp_all
  qed (simp add: 3)
  show "chan_queue p (recv_close ch) = chan_queue p ch" using 1 4 by (simp add: recv_close_def Let_def)
qed

text \<open>Messages leave from the front of the high queue, and of the other one only when there is no high message.\<close>

definition chan_abs :: "'a channel \<Rightarrow> (priority \<times> 'a) list" where
  "chan_abs ch = map (Pair High) (ch_quick_message_queue ch) @ map (Pair Normal) (ch_message_queue ch)"

lemma chan_abs_queue: "of_priority p (chan_abs ch) = chan_queue p ch"
proof -
  have "filter (\<lambda>x. fst x = p) (map (Pair q) xs) = (if p = q then map (Pair q) xs else [])" for q and xs :: "'a list"
    by (induction xs) auto
  then show ?thesis by (cases p) (simp_all add: chan_abs_def of_priority_def comp_def)
qed

lemma next_message_abs:
  assumes "next_message ch = Some (r, ch')"
  shows "case r of Ready (Some x) \<Rightarrow> chan_abs ch = x # chan_abs ch' | Ready None \<Rightarrow> chan_abs ch = [] \<and> chan_abs ch' = []
    | Pending \<Rightarrow> chan_abs ch = [] \<and> ch' = ch"
  using assms by (auto simp: next_message_def chan_abs_def dec_num_messages_def split: if_splits list.splits)

lemma recv_poll_next_abs:
  assumes "recv_poll_next ch = Some (r, ch')"
  shows "case r of Ready (Some x) \<Rightarrow> chan_abs ch = x # chan_abs ch' | Ready None \<Rightarrow> chan_abs ch = [] \<and> chan_abs ch' = []
    | Pending \<Rightarrow> chan_abs ch = [] \<and> chan_abs ch' = []"
proof -
  have r: "chan_abs (c\<lparr>ch_receiver := b\<rparr>) = chan_abs c" "chan_abs (c\<lparr>ch_recv_task := b\<rparr>) = chan_abs c" for c :: "'a channel" and b
    by (simp_all add: chan_abs_def)
  from assms obtain r1 ch1 where 1: "next_message ch = Some (r1, ch1)"
    "r1 \<noteq> Pending \<Longrightarrow> r = r1 \<and> chan_abs ch' = chan_abs ch1" "r1 = Pending \<Longrightarrow> next_message (ch1\<lparr>ch_recv_task := True\<rparr>) = Some (r, ch')"
    by (auto simp: recv_poll_next_def r split: option.splits prod.splits poll.splits if_splits)
  show ?thesis
    using next_message_abs [OF 1(1)] 1(2) next_message_abs [OF 1(3)] r
    by (cases "r1 = Pending") (auto split: poll.splits option.splits)
qed

lemma recv_poll_next_queue:
  assumes "recv_poll_next ch = Some (r, ch')"
  shows "chan_queue p ch = of_priority p (case r of Ready (Some x) \<Rightarrow> [x] | _ \<Rightarrow> []) @ chan_queue p ch'"
  unfolding chan_abs_queue [symmetric] using recv_poll_next_abs [OF assms]
  by (auto split: poll.splits option.splits)

lemma chan_step_queue:
  assumes "chan_step x ch = Some (s, g, ch')"
  shows "chan_queue p ch @ of_priority p s = of_priority p g @ chan_queue p ch'"
proof (cases x)
  case (OpTrySend i m q)
  with assms show ?thesis by (auto simp: try_send_queue split: if_splits)
next
  case (OpPollReady i)
  obtain y ch1 where u: "poll_unparked i True ch = (y, ch1)" by force
  from OpPollReady assms poll_unparked_queue [OF u, of p] show ?thesis
    by (auto simp: chan_poll_ready_def u split: if_splits poll.splits)
next
  case (OpClone i)
  with assms show ?thesis by (cases p) (auto simp: clone_sender_def split: if_splits)
next
  case OpNext
  with assms show ?thesis by (auto dest: recv_poll_next_queue [where p = p] split: if_splits)
qed (use assms in \<open>auto simp: close_queue split: if_splits\<close>)

lemma chan_run_ok: "chan_run xs ch = Some (s, g, ch') \<Longrightarrow> chan_ok ch \<Longrightarrow> chan_ok ch'"
  by (induction xs arbitrary: ch s g) (auto split: option.splits prod.splits dest: chan_step_ok)

lemma chan_run_queue:
  "chan_run xs ch = Some (s, g, ch') \<Longrightarrow> chan_queue p ch @ of_priority p s = of_priority p g @ chan_queue p ch'"
proof (induction xs arbitrary: ch s g)
  case (Cons x xs)
  from Cons.prems obtain s1 g1 ch1 s2 g2 where 1: "chan_step x ch = Some (s1, g1, ch1)"
    "chan_run xs ch1 = Some (s2, g2, ch')" "s = s1 @ s2" "g = g1 @ g2"
    by (auto split: option.splits)
  show ?case
    using chan_step_queue [OF 1(1), of p] Cons.IH [OF 1(2)] by (simp add: 1(3,4)) (metis append.assoc)
qed simp

lemma chan_abs_length: "length (chan_abs ch) = queued ch"
  by (simp add: chan_abs_def queued_def)

section \<open>Draining the channel\<close>

text \<open>One message is taken, and the sender that has waited longest goes on.\<close>

lemma next_message_takes:
  assumes "ch_receiver ch" and "chan_abs ch = x # ms"
  obtains ch' where "next_message ch = Some (Ready (Some x), ch')" and "chan_abs ch' = ms" and "ch_receiver ch'"
    and "ch_parked_queue ch' = drop 1 (ch_parked_queue ch)"
    and "ch_senders ch' = ch_senders (unpark_one ch)" and "ch_woken ch' = ch_woken (unpark_one ch)" and "ch_state ch' = ch_state ch - 1"
proof (cases "ch_quick_message_queue ch")
  case Nil
  then obtain m q where q: "ch_message_queue ch = m # q" "x = (Normal, m)" "ms = map (Pair Normal) q"
    using assms(2) by (auto simp: chan_abs_def)
  show thesis
    by (rule that [of "dec_num_messages (unpark_one (ch\<lparr>ch_message_queue := q\<rparr>))"])
      (use assms(1) Nil q in \<open>auto simp: next_message_def dec_num_messages_def chan_abs_def unpark_one_def
        notify_def Let_def split: list.splits\<close>)
next
  case (Cons m q)
  then have q: "x = (High, m)" "ms = map (Pair High) q @ map (Pair Normal) (ch_message_queue ch)"
    using assms(2) by (auto simp: chan_abs_def)
  show thesis
    by (rule that [of "dec_num_messages (unpark_one (ch\<lparr>ch_quick_message_queue := q\<rparr>))"])
      (use assms(1) Cons q in \<open>auto simp: next_message_def dec_num_messages_def chan_abs_def unpark_one_def
        notify_def Let_def split: list.splits\<close>)
qed

lemma unpark_one_others:
  assumes "distinct (ch_parked_queue ch)" and "i \<in> set (drop 1 (ch_parked_queue ch))"
  shows "ch_senders (unpark_one ch) ! i = ch_senders ch ! i"
  using assms by (cases "ch_parked_queue ch") (auto simp: unpark_one_def notify_def Let_def intro!: nth_list_update_neq)

lemma unpark_one_woken:
  assumes "ch_parked_queue ch = i # q" and "snd_task (ch_senders ch ! i)"
  shows "i \<in> set (ch_woken (unpark_one ch))"
  using assms by (simp add: unpark_one_def notify_def Let_def)

lemma woken_grows: "set (ch_woken ch) \<subseteq> set (ch_woken (unpark_one ch))"
  by (auto simp: unpark_one_def notify_def Let_def split: list.splits)

lemma still_opened:
  assumes "state_ok ch" and "0 < queued ch" and "ch_state ch' = ch_state ch - 1"
  shows "opened ch' = opened ch"
proof -
  have "ch_state ch' = pack_state (opened ch) (queued ch - 1)" "queued ch < 2 ^ 63"
    using assms pack_pred [of "queued ch" "opened ch"] by (simp_all add: state_ok_def)
  then show ?thesis unfolding opened_def [of ch'] by simp
qed

lemma chan_run_drains:
  assumes "chan_ok ch" and "ch_receiver ch" and "chan_abs ch = ms"
  shows "\<exists>ch'. chan_run (replicate (length ms) OpNext) ch = Some ([], ms, ch') \<and> chan_abs ch' = [] \<and>
    ch_parked_queue ch' = [] \<and> opened ch' = opened ch \<and> ch_receiver ch' \<and>
    map snd_alive (ch_senders ch') = map snd_alive (ch_senders ch) \<and> set (ch_woken ch) \<subseteq> set (ch_woken ch') \<and>
    (\<forall>i \<in> set (ch_parked_queue ch). snd_task (ch_senders ch ! i) \<longrightarrow> i \<in> set (ch_woken ch'))"
  using assms
proof (induction ms arbitrary: ch)
  case Nil
  then have "queued ch = 0" using chan_abs_length [of ch] by simp
  with Nil show ?case by (simp add: chan_ok_def capacity_ok_def)
next
  case (Cons x ms)
  from next_message_takes [OF Cons.prems(2,3)] obtain ch1 where 0: "next_message ch = Some (Ready (Some x), ch1)" and 1:
    "chan_abs ch1 = ms" "ch_receiver ch1" "ch_parked_queue ch1 = drop 1 (ch_parked_queue ch)"
    "ch_senders ch1 = ch_senders (unpark_one ch)" "ch_woken ch1 = ch_woken (unpark_one ch)" "ch_state ch1 = ch_state ch - 1" by blast
  from 0 have r: "recv_poll_next ch = Some (Ready (Some x), ch1)" by (simp add: recv_poll_next_def)
  have "0 < queued ch" using chan_abs_length [of ch] Cons.prems(3) by simp
  then have op: "opened ch1 = opened ch" using still_opened [OF _ _ 1(6)] Cons.prems(1) by (simp add: chan_ok_def)
  from Cons.IH [OF recv_poll_next_ok [OF Cons.prems(1) r] 1(2,1)] obtain ch' where
    2: "chan_run (replicate (length ms) OpNext) ch1 = Some ([], ms, ch')" "chan_abs ch' = []" "ch_parked_queue ch' = []"
      "set (ch_woken ch1) \<subseteq> set (ch_woken ch')"
      "\<And>i. i \<in> set (ch_parked_queue ch1) \<Longrightarrow> snd_task (ch_senders ch1 ! i) \<Longrightarrow> i \<in> set (ch_woken ch')"
      "opened ch' = opened ch1" "ch_receiver ch'" "map snd_alive (ch_senders ch') = map snd_alive (ch_senders ch1)" by blast
  have alive: "map snd_alive (ch_senders (unpark_one ch)) = map snd_alive (ch_senders ch)"
    by (auto simp: unpark_one_def notify_def Let_def map_update split: list.splits) (metis list_update_id map_update)
  have d: "distinct (ch_parked_queue ch)" using Cons.prems(1) by (simp add: chan_ok_def parking_ok_def)
  have "i \<in> set (ch_woken ch')" if i: "i \<in> set (ch_parked_queue ch)" "snd_task (ch_senders ch ! i)" for i
  proof (cases "i \<in> set (drop 1 (ch_parked_queue ch))")
    case True
    then show ?thesis using 2(5) unpark_one_others [OF d] i by (simp add: 1(3,4))
  next
    case False
    then obtain q where "ch_parked_queue ch = i # q" using i(1) by (cases "ch_parked_queue ch") auto
    from unpark_one_woken [OF this i(2)] show ?thesis using 2(4) by (auto simp: 1(5))
  qed
  moreover have "chan_run (replicate (length (x # ms)) OpNext) ch = Some ([], x # ms, ch')"
    using r 2(1) Cons.prems(2) by simp
  moreover have "set (ch_woken ch) \<subseteq> set (ch_woken ch')" using 2(4) woken_grows [of ch] by (auto simp: 1(5))
  ultimately show ?case using 2(2,3,6,7,8) op alive 1(4) by (intro exI [of _ ch']) simp
qed

lemma drain_loop_ends:
  assumes "chan_ok ch" and "ch_receiver ch" and "\<not> opened ch" and "chan_abs ch = ms"
  shows "\<exists>ch'. drain_loop (length ms + 1) ch = Some ch' \<and> chan_abs ch' = [] \<and> \<not> opened ch' \<and> ch_parked_queue ch' = []"
  using assms
proof (induction ms arbitrary: ch)
  case Nil
  then have q: "queued ch = 0" using chan_abs_length [of ch] by simp
  then have "is_closed (decode_state (ch_state ch))" using Nil state_decoded [of ch] by (simp add: chan_ok_def is_closed_def)
  moreover have "ch_parked_queue ch = []" using Nil(1) q by (simp add: chan_ok_def capacity_ok_def)
  ultimately show ?case using Nil(2,3) q by (auto simp: next_message_def queued_def chan_abs_def opened_def)
next
  case (Cons x ms)
  from next_message_takes [OF Cons.prems(2,4)] obtain ch1 where 1: "next_message ch = Some (Ready (Some x), ch1)"
    "chan_abs ch1 = ms" "ch_receiver ch1" "ch_state ch1 = ch_state ch - 1" by blast
  have "0 < queued ch" using chan_abs_length [of ch] Cons.prems(4) by simp
  then have "\<not> opened ch1" using still_opened [OF _ _ 1(4)] Cons.prems(1,3) by (simp add: chan_ok_def)
  from Cons.IH [OF next_message_ok [OF Cons.prems(1) 1(1)] 1(3) this 1(2)] show ?case using 1(1) by simp
qed

lemma no_longer_parked:
  assumes "chan_ok ch" and "ch_parked_queue ch = []" and "i < length (ch_senders ch)"
  shows "\<not> snd_is_parked (ch_senders ch ! i)"
  using assms by (auto simp: chan_ok_def parking_ok_def)

text \<open>A sender that is not parked is never refused while the channel is open.\<close>

lemma unparked_sends:
  assumes ok: "chan_ok ch" and i: "i < length (ch_senders ch)" "snd_alive (ch_senders ch ! i)" "\<not> snd_is_parked (ch_senders ch ! i)"
    and "opened ch" and q: "queued ch + 1 < 2 ^ 63"
  shows "\<exists>ch'. try_send i m p ch = Some (SendOk, ch')"
proof -
  obtain ch1 where u: "poll_unparked i False ch = (Ready (), ch1)" "ch_state ch1 = ch_state ch"
    using i(3) by (cases "snd_maybe_parked (ch_senders ch ! i)") (auto simp: poll_unparked_def Let_def)
  have "unat (of_nat (queued ch) :: u64) = queued ch" "unat MAX_CAPACITY = 2 ^ 63 - 1"
    using q small_number(3) [of "queued ch"] by (simp_all add: MAX_CAPACITY_mask mask_eq_exp_minus_1)
  then have "(of_nat (queued ch) :: u64) < MAX_CAPACITY" unfolding word_less_nat_alt using q by simp
  moreover have "decode_state (ch_state ch1) = \<lparr>is_open = True, num_messages = of_nat (queued ch)\<rparr>"
    using state_decoded [of ch] ok \<open>opened ch\<close> u(2) by (simp add: chan_ok_def)
  ultimately show ?thesis
    using i(2) u(1) by (simp add: try_send_def do_send_b_def inc_num_messages_def Let_def)
qed

lemma parked_or_closed:
  assumes "chan_ok ch" and "i < length (ch_senders ch)"
    and "\<not> snd_alive (ch_senders ch ! i) \<or> \<not> opened ch \<or> snd_is_parked (ch_senders ch ! i)"
  shows "\<exists>r ch'. try_send i m p ch = Some (r, ch') \<and> r \<noteq> SendOk"
proof -
  have p: "snd_is_parked (ch_senders ch ! i) \<Longrightarrow> snd_maybe_parked (ch_senders ch ! i)"
    using assms(1,2) by (auto simp: chan_ok_def parking_ok_def)
  obtain x ch1 where u: "poll_unparked i False ch = (x, ch1)" by force
  then have "ch_state ch1 = ch_state ch" by (auto simp: poll_unparked_def Let_def split: if_splits)
  then have "\<not> opened ch \<Longrightarrow> \<not> is_open (decode_state (ch_state ch1))" by (simp add: opened_def)
  moreover have "snd_is_parked (ch_senders ch ! i) \<Longrightarrow> x = Pending" using u p by (auto simp: poll_unparked_def Let_def)
  ultimately show ?thesis
    using assms(3) by (cases x) (auto simp: try_send_def u do_send_b_def inc_num_messages_def)
qed

section \<open>No assertion fails\<close>

lemma same_size_simps [simp]:
  "ch_buffer (set_closed ch) = ch_buffer ch" "ch_senders (set_closed ch) = ch_senders ch"
  "ch_buffer (close_channel i ch) = ch_buffer ch" "ch_senders (close_channel i ch) = ch_senders ch"
  "ch_buffer (disconnect i ch) = ch_buffer ch" "length (ch_senders (disconnect i ch)) = length (ch_senders ch)"
  "ch_buffer (snd (poll_unparked i cx ch)) = ch_buffer ch" "length (ch_senders (snd (poll_unparked i cx ch))) = length (ch_senders ch)"
  "ch_buffer (snd (chan_poll_ready i ch)) = ch_buffer ch" "length (ch_senders (snd (chan_poll_ready i ch))) = length (ch_senders ch)"
  by (auto simp: set_closed_def close_channel_def disconnect_def poll_unparked_def chan_poll_ready_def Let_def split: poll.splits prod.splits)

lemma notify_all_sizes [simp]:
  "ch_buffer (notify_all is ch) = ch_buffer ch" "length (ch_senders (notify_all is ch)) = length (ch_senders ch)"
  by (induction "is" arbitrary: ch) simp_all

lemma try_send_sizes:
  assumes "try_send i m p ch = Some (r, ch')"
  shows "ch_buffer ch' = ch_buffer ch \<and> length (ch_senders ch') = length (ch_senders ch)"
proof -
  obtain x ch1 where u: "poll_unparked i False ch = (x, ch1)" by force
  show ?thesis
    using assms same_size_simps(7,8) [of i False ch] 
    by (auto simp: try_send_def do_send_b_def u push_and_signal park_def inc_num_messages_def Let_def
        split: if_splits poll.splits option.splits)
qed

lemma recv_poll_next_sizes:
  "recv_poll_next ch = Some (r, ch') \<Longrightarrow> ch_buffer ch' = ch_buffer ch \<and> length (ch_senders ch') = length (ch_senders ch)"
  by (auto simp: recv_poll_next_def next_message_def dec_num_messages_def split: if_splits list.splits poll.splits)

lemma chan_step_sizes:
  assumes "chan_step x ch = Some (s, g, ch')"
  shows "ch_buffer ch' = ch_buffer ch \<and> length (ch_senders ch') \<le> Suc (length (ch_senders ch))"
  using assms
  by (cases x) (auto simp: recv_close_def Let_def clone_sender_def split: if_splits dest: try_send_sizes recv_poll_next_sizes)

lemma recv_poll_next_some: "ch_receiver ch \<Longrightarrow> \<exists>r ch'. recv_poll_next ch = Some (r, ch')"
  by (auto simp: recv_poll_next_def next_message_def split: list.splits)

lemma room_for_senders:
  assumes "chan_ok ch" and "length (ch_senders ch) < 2 ^ 62"
  shows "ch_num_senders ch \<noteq> max_senders ch" and "queued ch + 1 < 2 ^ 63"
proof -
  have "unat (ch_num_senders ch) \<le> length (ch_senders ch)"
    using assms(1) by (simp add: chan_ok_def senders_ok_def)
  moreover have b: "ch_buffer ch < MAX_BUFFER" using assms(1) by (simp add: chan_ok_def senders_ok_def)
  moreover have "unat MAX_BUFFER = 2 ^ 62 - 1" "unat MAX_CAPACITY = 2 ^ 63 - 1"
    by (simp_all add: MAX_BUFFER_def MAX_CAPACITY_mask mask_eq_exp_minus_1)
  ultimately have u: "unat (max_senders ch) > 2 ^ 62 - 1" "unat (ch_buffer ch) < 2 ^ 62 - 1" "unat (ch_num_senders ch) < 2 ^ 62"
    using assms(2) by (simp_all add: max_senders_def word_less_nat_alt unat_sub word_le_nat_alt)
  show "ch_num_senders ch \<noteq> max_senders ch" using u by auto
  show "queued ch + 1 < 2 ^ 63" using assms u(2) by (auto simp: chan_ok_def capacity_ok_def)
qed

lemma chan_step_some:
  assumes "chan_ok ch" and "length (ch_senders ch) < 2 ^ 62"
  shows "\<exists>s g ch'. chan_step x ch = Some (s, g, ch')"
proof (cases x)
  case (OpTrySend i m p)
  show ?thesis
  proof (cases "i < length (ch_senders ch) \<and> snd_alive (ch_senders ch ! i) \<and> opened ch \<and> \<not> snd_is_parked (ch_senders ch ! i)")
    case True
    then show ?thesis using unparked_sends [OF assms(1), of i m p] room_for_senders [OF assms] OpTrySend by auto
  next
    case False
    then show ?thesis using OpTrySend parked_or_closed [OF assms(1), of i m p] by auto
  qed
next
  case (OpClone i)
  then show ?thesis using room_for_senders [OF assms] by (simp add: clone_sender_def)
qed (use recv_poll_next_some [of ch] in auto)

lemma chan_run_some:
  assumes "chan_ok ch" and "length (ch_senders ch) + length xs \<le> 2 ^ 62"
  shows "\<exists>s g ch'. chan_run xs ch = Some (s, g, ch') \<and> ch_buffer ch' = ch_buffer ch"
  using assms
proof (induction xs arbitrary: ch)
  case (Cons x xs)
  then have "length (ch_senders ch) < 2 ^ 62" by simp
  from chan_step_some [OF Cons.prems(1) this] obtain s g ch1 where 1: "chan_step x ch = Some (s, g, ch1)" by blast
  have "length (ch_senders ch1) + length xs \<le> 2 ^ 62" using chan_step_sizes [OF 1] Cons.prems(2) by simp
  from Cons.IH [OF chan_step_ok [OF Cons.prems(1) 1] this] show ?case using 1 chan_step_sizes [OF 1] by auto
qed simp

section \<open>Properties\<close>



text \<open>C15. Whatever the senders and the receiver of a new channel do, in any order, the messages of each priority that were
  accepted are exactly those that were received followed by those still queued, in the order in which they were sent:
  none is lost, repeated or overtaken within its priority. The channel's state word counts the queued messages.\<close>

theorem channel_is_fifo:
  assumes "channel_new buffer = Some ch" and "chan_run xs ch = Some (accepted, received, ch')"
  shows "of_priority p accepted = of_priority p received @ chan_queue p ch' \<and>
    num_messages (decode_state (ch_state ch')) = of_nat (length (chan_abs ch'))"
proof -
  have "chan_ok ch'" using channel_new_ok [OF assms(1)] chan_run_ok [OF assms(2)] by blast
  then have "num_messages (decode_state (ch_state ch')) = of_nat (length (chan_abs ch'))"
    using state_decoded [of ch'] by (simp add: chan_ok_def chan_abs_length)
  moreover have "chan_queue p ch = []" using assms(1) by (cases p) (auto simp: channel_new_def split: if_splits)
  ultimately show ?thesis using chan_run_queue [OF assms(2), of p] by simp
qed

definition sample_ops :: "nat chan_op list" where
  "sample_ops = [OpTrySend 0 1 Normal, OpTrySend 0 2 High, OpTrySend 0 3 Normal, OpClone 0, OpTrySend 1 4 Normal, OpNext,
     OpPollReady 0, OpTrySend 0 5 High, OpNext]"

definition sample_channel :: "nat channel option" where
  "sample_channel = channel_new 1"

lemma sample_run:
  "map_option (\<lambda>(s, g, ch). (s, g, chan_abs ch, ch_parked_queue ch)) (Option.bind sample_channel (chan_run sample_ops)) =
    Some ([(Normal, 1), (High, 2), (Normal, 4), (High, 5)], [(High, 2), (High, 5)], [(Normal, 1), (Normal, 4)], [0])"
  by code_simp

theorem channel_is_fifo_witness:
  "\<exists>ch accepted received ch'. channel_new 1 = Some (ch :: nat channel) \<and> chan_run sample_ops ch = Some (accepted, received, ch') \<and>
    of_priority Normal accepted = [1, 4] \<and> of_priority Normal accepted = of_priority Normal received @ chan_queue Normal ch'"
proof -
  from sample_run obtain ch s g ch' where 1: "channel_new 1 = Some (ch :: nat channel)" "chan_run sample_ops ch = Some (s, g, ch')"
    "s = [(Normal, 1), (High, 2), (Normal, 4), (High, 5)]"
    by (auto simp: sample_channel_def bind_eq_Some_conv)
  with channel_is_fifo [OF 1(1,2), of Normal] show ?thesis by auto
qed

text \<open>For fewer than \<open>2 ^ 62\<close> operations on a new channel no assertion of the implementation fails, and the messages
  held never exceed the buffer by more than one for each sender ever made; while the channel is open they exceed it by at
  most one for each sender that is parked, and a parked sender is told that the channel is full.\<close>

theorem channel_bounded:
  assumes "channel_new buffer = Some ch" and "length xs < 2 ^ 62"
  shows "\<exists>accepted received ch'. chan_run xs ch = Some (accepted, received, ch') \<and>
    length (chan_abs ch') \<le> unat buffer + length (ch_senders ch') \<and>
    (opened ch' \<longrightarrow> length (chan_abs ch') \<le> unat buffer + length (ch_parked_queue ch')) \<and>
    (\<forall>i \<in> set (ch_parked_queue ch'). \<exists>r ch''. try_send i m p ch' = Some (r, ch'') \<and> r \<noteq> SendOk \<and> chan_abs ch'' = chan_abs ch')"
proof -
  have new: "ch_buffer ch = buffer" "length (ch_senders ch) = 1" using assms(1) by (auto simp: channel_new_def split: if_splits)
  have ok: "chan_ok ch" by (rule channel_new_ok [OF assms(1)])
  have "length (ch_senders ch) + length xs \<le> 2 ^ 62" using assms(2) new(2) by simp
  from chan_run_some [OF ok this] obtain s g ch' where r: "chan_run xs ch = Some (s, g, ch')" "ch_buffer ch' = buffer"
    using new(1) by auto
  have ok': "chan_ok ch'" by (rule chan_run_ok [OF r(1) ok])
  have "\<exists>r ch''. try_send i m p ch' = Some (r, ch'') \<and> r \<noteq> SendOk \<and> chan_abs ch'' = chan_abs ch'" if "i \<in> set (ch_parked_queue ch')" for i
  proof -
    from that ok' have i: "i < length (ch_senders ch')" "snd_is_parked (ch_senders ch' ! i)" by (auto simp: chan_ok_def parking_ok_def)
    from parked_or_closed [OF ok' i(1)] i(2) obtain r ch'' where "try_send i m p ch' = Some (r, ch'')" "r \<noteq> SendOk" by blast
    then show ?thesis using try_send_queue [of i m p ch' r ch'' High] try_send_queue [of i m p ch' r ch'' Normal]
      by (auto simp: chan_abs_def)
  qed
  then show ?thesis using r ok' by (auto simp: chan_ok_def capacity_ok_def chan_abs_length)
qed

theorem channel_bounded_witness:
  "\<exists>ch accepted received ch'. channel_new 1 = Some (ch :: nat channel) \<and> chan_run sample_ops ch = Some (accepted, received, ch') \<and>
    length (chan_abs ch') = 2 \<and> length (chan_abs ch') \<le> 1 + length (ch_senders ch')"
proof -
  from sample_run obtain ch s g ch' where 1: "channel_new 1 = Some (ch :: nat channel)" "chan_run sample_ops ch = Some (s, g, ch')"
    "chan_abs ch' = [(Normal, 1), (Normal, 4)]"
    by (auto simp: sample_channel_def bind_eq_Some_conv)
  with channel_bounded [OF 1(1), of sample_ops 0 High] show ?thesis by (auto simp: sample_ops_def)
qed

text \<open>C16. The receiver of any channel that is not ended gets all queued messages by polling once for each of them, the high
  ones first and each priority in order; by then every parked sender that had registered its task has been woken, none is
  parked any more, and if the channel is open each live sender can send.\<close>

theorem channel_wakes_senders:
  assumes "channel_new buffer = Some ch" and "chan_run xs ch = Some (accepted, received, ch1)" and "ch_receiver ch1"
  shows "\<exists>ch2. chan_run (replicate (length (chan_abs ch1)) OpNext) ch1 = Some ([], chan_abs ch1, ch2) \<and> chan_abs ch2 = [] \<and>
    (\<forall>i \<in> set (ch_parked_queue ch1). snd_task (ch_senders ch1 ! i) \<longrightarrow> i \<in> set (ch_woken ch2)) \<and>
    (opened ch1 \<longrightarrow> (\<forall>i < length (ch_senders ch2). snd_alive (ch_senders ch2 ! i) \<longrightarrow> (\<exists>ch3. try_send i m p ch2 = Some (SendOk, ch3))))"
proof -
  have ok: "chan_ok ch1" by (rule chan_run_ok [OF assms(2) channel_new_ok [OF assms(1)]])
  from chan_run_drains [OF ok assms(3) refl] obtain ch2 where
    2: "chan_run (replicate (length (chan_abs ch1)) OpNext) ch1 = Some ([], chan_abs ch1, ch2)" "chan_abs ch2 = []"
      "ch_parked_queue ch2 = []" "opened ch2 = opened ch1"
      "\<forall>i \<in> set (ch_parked_queue ch1). snd_task (ch_senders ch1 ! i) \<longrightarrow> i \<in> set (ch_woken ch2)" by blast
  have ok2: "chan_ok ch2" by (rule chan_run_ok [OF 2(1) ok])
  have "\<exists>ch3. try_send i m p ch2 = Some (SendOk, ch3)"
    if "opened ch1" "i < length (ch_senders ch2)" "snd_alive (ch_senders ch2 ! i)" for i
    by (rule unparked_sends [OF ok2 that(2,3)]) (use no_longer_parked [OF ok2 2(3) that(2)] 2 that chan_abs_length [of ch2] in auto)
  with 2 show ?thesis by blast
qed

lemma sample_run_receiver:
  "map_option (\<lambda>(s, g, ch). (ch_receiver ch, opened ch)) (Option.bind sample_channel (chan_run sample_ops)) = Some (True, True)"
  by code_simp

theorem channel_wakes_senders_witness:
  "\<exists>ch accepted received ch1 ch2. channel_new 1 = Some (ch :: nat channel) \<and> chan_run sample_ops ch = Some (accepted, received, ch1) \<and>
    chan_run [OpNext, OpNext] ch1 = Some ([], [(Normal, 1), (Normal, 4)], ch2) \<and> chan_abs ch2 = []"
proof -
  from sample_run sample_run_receiver obtain ch s g ch1 where 1: "channel_new 1 = Some (ch :: nat channel)"
    "chan_run sample_ops ch = Some (s, g, ch1)" "ch_receiver ch1" and a: "chan_abs ch1 = [(Normal, 1), (Normal, 4)]"
    by (auto simp: sample_channel_def bind_eq_Some_conv)
  have "replicate (length (chan_abs ch1)) OpNext = [OpNext, OpNext :: nat chan_op]" by (simp add: a)
  with channel_wakes_senders [OF 1, of 0 High] a obtain ch2 where
    "chan_run [OpNext, OpNext] ch1 = Some ([], [(Normal, 1), (Normal, 4)], ch2)" "chan_abs ch2 = []" by metis
  with 1(1,2) show ?thesis by blast
qed

text \<open>Dropping the receiver ends: it closes the channel and takes every message left, so nothing stays queued and no
  sender stays parked.\<close>

theorem dropped_receiver_drains:
  assumes "channel_new buffer = Some ch" and "chan_run xs ch = Some (accepted, received, ch1)" and "ch_receiver ch1"
  shows "\<exists>ch2. recv_drop ch1 = Some ch2 \<and> chan_abs ch2 = [] \<and> \<not> opened ch2 \<and> ch_parked_queue ch2 = []"
proof -
  have ok: "chan_ok ch1" by (rule chan_run_ok [OF assms(2) channel_new_ok [OF assms(1)]])
  let ?c = "recv_close ch1"
  have p: "parking_ok (ch_parked_queue (set_closed ch1)) (ch_senders (set_closed ch1))"
    using set_closed_ok [OF ok] by (simp add: chan_ok_def)
  have "\<not> opened (set_closed ch1)" using ok set_closed_not_opened by (auto simp: chan_ok_def)
  then have "\<not> opened ?c" "ch_receiver ?c"
    using assms(3) notify_all_props [OF p] by (simp_all add: recv_close_def opened_def Let_def) (simp add: set_closed_def)
  from drain_loop_ends [OF recv_close_ok [OF ok] this(2,1) refl] show ?thesis
    using \<open>ch_receiver ?c\<close> chan_abs_length [of ?c] by (simp add: recv_drop_def queued_def Let_def)
qed

theorem dropped_receiver_drains_witness:
  "\<exists>ch accepted received ch1 ch2. channel_new 1 = Some (ch :: nat channel) \<and> chan_run sample_ops ch = Some (accepted, received, ch1) \<and>
    chan_abs ch1 \<noteq> [] \<and> recv_drop ch1 = Some ch2 \<and> chan_abs ch2 = []"
proof -
  from sample_run sample_run_receiver obtain ch s g ch1 where 1: "channel_new 1 = Some (ch :: nat channel)"
    "chan_run sample_ops ch = Some (s, g, ch1)" "ch_receiver ch1" and a: "chan_abs ch1 \<noteq> []"
    by (auto simp: sample_channel_def bind_eq_Some_conv)
  with dropped_receiver_drains [OF 1] show ?thesis by blast
qed

section \<open>Short-lived senders\<close>

definition visitor :: "'a \<Rightarrow> nat \<Rightarrow> 'a chan_op list" where
  "visitor m k = [OpClone 0, OpTrySend (Suc k) m Normal, OpDisconnect (Suc k)]"

definition visited :: "nat \<Rightarrow> 'a channel \<Rightarrow> bool" where
  "visited n ch \<longleftrightarrow> chan_ok ch \<and> opened ch \<and> length (ch_senders ch) = Suc n \<and> snd_alive (ch_senders ch ! 0) \<and>
     ch_num_senders ch = 1 \<and> queued ch = n"

lemma try_send_keeps:
  assumes "chan_ok ch" and "i < length (ch_senders ch)" and "try_send i m p ch = Some (SendOk, ch')"
  shows "ch_num_senders ch' = ch_num_senders ch \<and> opened ch' \<and> queued ch' = Suc (queued ch) \<and>
    map snd_alive (ch_senders ch') = map snd_alive (ch_senders ch)"
proof -
  obtain x ch1 where u: "poll_unparked i False ch = (x, ch1)" by force
  have ok: "chan_ok ch1" using poll_unparked_ok [OF assms(1,2) u] by simp
  have k: "map snd_alive (ch_senders ch1) = map snd_alive (ch_senders ch)" "ch_num_senders ch1 = ch_num_senders ch" "queued ch1 = queued ch"
    using u by (auto simp: poll_unparked_def Let_def map_update queued_def split: if_splits)
      (metis list_update_id map_update nth_map)+
  from assms(3) obtain o1 ch2 where inc: "inc_num_messages ch1 = Some (Some o1, ch2)"
    and ch': "ch' = queue_push_and_signal m p (if o1 > ch_buffer ch2 then park i ch2 else ch2)"
    by (auto simp: try_send_def u do_send_b_def Let_def split: if_splits poll.splits option.splits prod.splits)
  have st: "state_ok ch1" using ok by (simp add: chan_ok_def)
  from st inc show ?thesis
  proof (cases rule: inc_num_messages_cases)
    case 2
    have e: "queued ch2 = queued ch1" "opened ch2" using 2 by (simp_all add: queued_def opened_def)
    have "map snd_alive ((ch_senders ch1)[i := (ch_senders ch1 ! i)\<lparr>snd_task := a, snd_is_parked := b, snd_maybe_parked := c\<rparr>]) =
        map snd_alive (ch_senders ch1)" for a b c
      by (simp add: map_update) (metis list_update_id map_update)
    then have "ch_num_senders ch' = ch_num_senders ch \<and> opened ch' \<and> map snd_alive (ch_senders ch') = map snd_alive (ch_senders ch)"
      unfolding ch' using 2 e k by (auto simp: push_and_signal park_def Let_def opened_def)
    moreover have "queued ch' = Suc (queued ch)"
      using try_send_queue [OF assms(3), of High] try_send_queue [OF assms(3), of Normal] by (cases p) (auto simp: queued_def)
    ultimately show ?thesis by blast
  qed auto
qed

lemma visitor_step:
  assumes v: "visited n ch" and n: "Suc n < 2 ^ 62"
  shows "\<exists>ch'. chan_run (visitor m n) ch = Some ([(Normal, m)], [], ch') \<and> visited (Suc n) ch'"
proof -
  have ok: "chan_ok ch" "length (ch_senders ch) = Suc n" "ch_num_senders ch = 1" "snd_alive (ch_senders ch ! 0)" "opened ch"
    using v by (simp_all add: visited_def)
  have "length (ch_senders ch) < 2 ^ 62" using ok(2) n by simp
  note room = room_for_senders [OF ok(1) this]
  let ?c = "ch\<lparr>ch_num_senders := 1 + 1, ch_senders := ch_senders ch @ [new_sender]\<rparr>"
  have c: "clone_sender 0 ch = Some ?c" using room(1) ok(3,4) by (simp add: clone_sender_def)
  have okc: "chan_ok ?c" by (rule clone_sender_ok [OF ok(1) c])
  have s: "snd_alive (ch_senders ?c ! Suc n)" "\<not> snd_is_parked (ch_senders ?c ! Suc n)" "opened ?c" "queued ?c = queued ch"
    using ok(2,5) by (simp_all add: nth_append new_sender_def opened_def queued_def)
  have "\<exists>ch'. try_send (Suc n) m Normal ?c = Some (SendOk, ch')"
    by (rule unparked_sends [OF okc _ s(1,2,3)]) (use room(2) s(4) ok(2) in auto)
  then obtain d where d: "try_send (Suc n) m Normal ?c = Some (SendOk, d)" by blast
  have i: "Suc n < length (ch_senders ?c)" using ok(2) by simp
  note keep = try_send_keeps [OF okc i d]
  have okd: "chan_ok d" by (rule try_send_ok [OF okc i d])
  have l: "length (ch_senders d) = Suc (Suc n)" using try_send_sizes [OF d] ok(2) by simp
  have al: "snd_alive (ch_senders d ! Suc n)" "snd_alive (ch_senders d ! 0)"
    using arg_cong [where f = "\<lambda>xs. xs ! Suc n", OF conjunct2 [OF conjunct2 [OF conjunct2 [OF keep]]]]
      arg_cong [where f = "\<lambda>xs. xs ! 0", OF conjunct2 [OF conjunct2 [OF conjunct2 [OF keep]]]] s(1) ok(2,4) l
    by (simp_all add: nth_append)
  have nd: "ch_num_senders d = 2" using keep by simp
  let ?e = "disconnect (Suc n) d"
  have e: "?e = d\<lparr>ch_num_senders := 1, ch_senders := (ch_senders d)[Suc n := (ch_senders d ! Suc n)\<lparr>snd_alive := False\<rparr>]\<rparr>"
    using al(1) nd by (simp add: disconnect_def)
  have "visited (Suc n) ?e"
    using disconnect_ok [OF okd, of "Suc n"] l keep al v s(4) unfolding visited_def e by (simp add: opened_def queued_def)
  moreover have "chan_run (visitor m n) ch = Some ([(Normal, m)], [], ?e)"
    using c d i l ok(2) by (simp add: visitor_def)
  ultimately show ?thesis by blast
qed

lemma visitors_run:
  assumes "visited k ch" and "k + n < 2 ^ 62"
  shows "\<exists>ch'. chan_run (concat (map (visitor m) [k..<k + n])) ch = Some (replicate n (Normal, m), [], ch') \<and> visited (k + n) ch'"
  using assms
proof (induction n arbitrary: k ch)
  case (Suc n)
  have app: "chan_run (xs @ ys) ch = (case chan_run xs ch of None \<Rightarrow> None | Some (s, g, ch) \<Rightarrow>
      map_option (\<lambda>(s', g', ch). (s @ s', g @ g', ch)) (chan_run ys ch))" for xs ys and ch :: "'a channel"
    by (induction xs arbitrary: ch) (auto simp: option.map_comp comp_def option.map_id split: option.splits)
  have "Suc k < 2 ^ 62" using Suc.prems(2) by simp
  from visitor_step [OF Suc.prems(1) this, of m] obtain ch1 where
    1: "chan_run (visitor m k) ch = Some ([(Normal, m)], [], ch1)" "visited (Suc k) ch1" by blast
  from Suc.IH [OF 1(2)] Suc.prems(2) obtain ch' where
    2: "chan_run (concat (map (visitor m) [Suc k..<Suc k + n])) ch1 = Some (replicate n (Normal, m), [], ch')" "visited (Suc k + n) ch'"
    by auto
  have "[k..<k + Suc n] = k # [Suc k..<Suc k + n]" by (simp add: upt_conv_Cons)
  then show ?case using 1(1) 2 by (simp add: app)
qed simp

text \<open>The documented capacity, the buffer plus the number of senders, is not a bound: one sender that is cloned for
  each message, the clone being dropped after its message, fills a channel without a buffer and with a single live sender
  with any number of messages.\<close>

theorem capacity_is_not_bounded_by_senders:
  assumes "n < 2 ^ 62" and "channel_new 0 = Some ch"
  shows "\<exists>ch'. chan_run (concat (map (visitor m) [0..<n])) ch = Some (replicate n (Normal, m), [], ch') \<and>
    ch_num_senders ch' = 1 \<and> length (chan_abs ch') = n"
proof -
  have "visited 0 ch" using assms(2) channel_new_ok [OF assms(2)]
    by (auto simp: visited_def channel_new_def new_sender_def queued_def opened_def INIT_STATE_pack split: if_splits)
  from visitors_run [OF this, of n m] assms(1) show ?thesis by (auto simp: visited_def chan_abs_length)
qed

theorem capacity_is_not_bounded_by_senders_witness:
  "\<exists>ch ch'. channel_new 0 = Some (ch :: nat channel) \<and> chan_run (concat (map (visitor 7) [0..<3])) ch =
    Some ([(Normal, 7), (Normal, 7), (Normal, 7)], [], ch') \<and> ch_num_senders ch' = 1 \<and> length (chan_abs ch') = 3"
proof -
  have "(0 :: u64) < MAX_BUFFER" by (simp add: MAX_BUFFER_def MAX_CAPACITY_mask mask_eq_exp_minus_1)
  then obtain ch :: "nat channel" where c: "channel_new 0 = Some ch" by (simp add: channel_new_def)
  have "replicate 3 (Normal, 7 :: nat) = [(Normal, 7), (Normal, 7), (Normal, 7)]" by (simp add: numeral_3_eq_3)
  with capacity_is_not_bounded_by_senders [OF _ c, of 3 7] c show ?thesis by auto
qed

end
