(* ===== verification/Buffers.thy ===== *)
theory Buffers
  imports Channel
begin

text \<open>
  The buffers in front of a channel (\<^verbatim>\<open>tentacle/src/buffer.rs\<close>): a message that the channel does not take now waits here
  for the next poll. \<^verbatim>\<open>Buffer\<close> stands before a channel of the \<^verbatim>\<open>futures\<close> crate, given by the script of its answers;
  \<^verbatim>\<open>PriorityBuffer\<close> stands before a sender of the bounded priority channel. \<open>None\<close> is a panic of that channel. The
  capacity of the buffers is not modelled.
\<close>

section \<open>A sender of the futures crate\<close>

text \<open>What the next calls return, and what was taken; \<open>Inl ()\<close> is the channel without a receiver. A message is taken
  unless the script says otherwise.\<close>

record 'a mpsc_sender =
  ms_ready :: "(unit + unit) poll list"
  ms_try :: "try_send_result list"
  ms_sent :: "'a list"

definition mpsc_poll_ready :: "'a mpsc_sender \<Rightarrow> (unit + unit) poll \<times> 'a mpsc_sender" where
  "mpsc_poll_ready s = (case ms_ready s of [] \<Rightarrow> (Pending, s) | a # r \<Rightarrow> (a, s\<lparr>ms_ready := r\<rparr>))"

definition mpsc_try_send :: "'a \<Rightarrow> 'a mpsc_sender \<Rightarrow> (try_send_result \<times> 'a mpsc_sender) option" where
  "mpsc_try_send x s =
     Some (let r = (case ms_try s of [] \<Rightarrow> SendOk | a # _ \<Rightarrow> a); s = s\<lparr>ms_try := drop 1 (ms_try s)\<rparr> in
       (r, if r = SendOk then s\<lparr>ms_sent := ms_sent s @ [x]\<rparr> else s))"

section \<open>Buffers\<close>

datatype send_result = BufOk | BufPending | BufDisconnect

text \<open>One \<^verbatim>\<open>while let\<close> loop of \<^verbatim>\<open>try_send\<close>; on a disconnected channel the buffer is cleared.\<close>

fun send_loop ::
  "('s \<Rightarrow> (unit + unit) poll \<times> 's) \<Rightarrow> ('a \<Rightarrow> 's \<Rightarrow> (try_send_result \<times> 's) option) \<Rightarrow> 'a list \<Rightarrow> 's \<Rightarrow>
   (send_result \<times> 'a list \<times> 's) option" where
  "send_loop ready send [] s = Some (BufOk, [], s)"
| "send_loop ready send (x # xs) s =
     (case ready s of
        (Ready (Inr _), s) \<Rightarrow>
          (case send x s of
             None \<Rightarrow> None
           | Some (SendOk, s) \<Rightarrow> send_loop ready send xs s
           | Some (SendFull, s) \<Rightarrow> Some (BufPending, x # xs, s)
           | Some (SendDisconnected, s) \<Rightarrow> Some (BufDisconnect, [], s))
      | (Pending, s) \<Rightarrow> Some (BufPending, x # xs, s)
      | (Ready (Inl _), s) \<Rightarrow> Some (BufDisconnect, [], s))"

text \<open>The \<open>None\<close> branch is never taken: this sender does not panic.\<close>

record 'a buffer =
  bf_sender :: "'a mpsc_sender"
  bf_buffer :: "'a list"

definition buffer_new :: "'a mpsc_sender \<Rightarrow> 'a buffer" where
  "buffer_new sender = \<lparr>bf_sender = sender, bf_buffer = []\<rparr>"

definition buffer_push :: "'a \<Rightarrow> 'a buffer \<Rightarrow> 'a buffer" where
  "buffer_push item b = b\<lparr>bf_buffer := bf_buffer b @ [item]\<rparr>"

definition buffer_try_send :: "'a buffer \<Rightarrow> send_result \<times> 'a buffer" where
  "buffer_try_send b =
     (case send_loop mpsc_poll_ready mpsc_try_send (bf_buffer b) (bf_sender b) of
        Some (r, xs, s) \<Rightarrow> (r, \<lparr>bf_sender = s, bf_buffer = xs\<rparr>)
      | None \<Rightarrow> (BufDisconnect, b))"

definition buffer_take :: "'a buffer \<Rightarrow> 'a list \<times> 'a buffer" where
  "buffer_take b = (bf_buffer b, b\<lparr>bf_buffer := []\<rparr>)"

definition buffer_clear :: "'a buffer \<Rightarrow> 'a buffer" where
  "buffer_clear b = b\<lparr>bf_buffer := []\<rparr>"

text \<open>\<open>pb_sender\<close> is the number of the sender in its channel.\<close>

record 'a priority_buffer =
  pb_sender :: nat
  pb_high :: "'a list"
  pb_normal :: "'a list"

definition priority_buffer_new :: "nat \<Rightarrow> 'a priority_buffer" where
  "priority_buffer_new sender = \<lparr>pb_sender = sender, pb_high = [], pb_normal = []\<rparr>"

definition push_high :: "'a \<Rightarrow> 'a priority_buffer \<Rightarrow> 'a priority_buffer" where
  "push_high item b = b\<lparr>pb_high := pb_high b @ [item]\<rparr>"

definition push_normal :: "'a \<Rightarrow> 'a priority_buffer \<Rightarrow> 'a priority_buffer" where
  "push_normal item b = b\<lparr>pb_normal := pb_normal b @ [item]\<rparr>"

definition pb_len :: "'a priority_buffer \<Rightarrow> nat" where
  "pb_len b = length (pb_high b) + length (pb_normal b)"

definition pb_clear :: "'a priority_buffer \<Rightarrow> 'a priority_buffer" where
  "pb_clear b = b\<lparr>pb_high := [], pb_normal := []\<rparr>"

definition priority_try_send ::
  "'a priority_buffer \<Rightarrow> 'a channel \<Rightarrow> (send_result \<times> 'a priority_buffer \<times> 'a channel) option" where
  "priority_try_send b ch =
     (case send_loop (chan_poll_ready (pb_sender b)) (\<lambda>x. try_send (pb_sender b) x High) (pb_high b) ch of
        None \<Rightarrow> None
      | Some (BufDisconnect, _, ch) \<Rightarrow> Some (BufDisconnect, pb_clear b, ch)
      | Some (BufPending, xs, ch) \<Rightarrow> Some (BufPending, b\<lparr>pb_high := xs\<rparr>, ch)
      | Some (BufOk, xs, ch) \<Rightarrow>
          (let b = b\<lparr>pb_high := xs\<rparr> in
           case send_loop (chan_poll_ready (pb_sender b)) (\<lambda>x. try_send (pb_sender b) x Normal) (pb_normal b) ch of
             None \<Rightarrow> None
           | Some (BufDisconnect, _, ch) \<Rightarrow> Some (BufDisconnect, pb_clear b, ch)
           | Some (BufPending, xs, ch) \<Rightarrow> Some (BufPending, b\<lparr>pb_normal := xs\<rparr>, ch)
           | Some (BufOk, xs, ch) \<Rightarrow> Some (BufOk, b\<lparr>pb_normal := xs\<rparr>, ch)))"

section \<open>What a sender promises\<close>

text \<open>A sender that takes a message appends what the message is to its observer, and does nothing otherwise.\<close>

locale message_sink =
  fixes ready :: "'s \<Rightarrow> (unit + unit) poll \<times> 's"
    and send :: "'a \<Rightarrow> 's \<Rightarrow> (try_send_result \<times> 's) option"
    and sent :: "'s \<Rightarrow> 'b list"
    and view :: "'a \<Rightarrow> 'b list"
  assumes ready_sent: "ready s = (a, s') \<Longrightarrow> sent s' = sent s"
    and send_sent: "send x s = Some (r, s') \<Longrightarrow> sent s' = sent s @ (if r = SendOk then view x else [])"
begin

text \<open>The loop hands over a prefix; the rest is kept, or dropped with the channel.\<close>

lemma loop_splits:
  "send_loop ready send xs s = Some (r, ys, s') \<Longrightarrow>
    \<exists>done. sent s' = sent s @ concat (map view done) \<and> (r = BufOk \<longrightarrow> ys = []) \<and>
      (if r = BufDisconnect then ys = [] \<and> (\<exists>lost. xs = done @ lost) else xs = done @ ys)"
proof (induction xs arbitrary: s)
  case (Cons x xs)
  obtain a s1 where a: "ready s = (a, s1)" by force
  note s1 = ready_sent [OF a]
  show ?case
  proof (cases "\<exists>s2. a = Ready (Inr ()) \<and> send x s1 = Some (SendOk, s2)")
    case True
    then obtain s2 where 2: "a = Ready (Inr ())" "send x s1 = Some (SendOk, s2)" by blast
    with Cons.prems a have "send_loop ready send xs s2 = Some (r, ys, s')" by simp
    from Cons.IH [OF this] obtain d where d: "sent s' = sent s2 @ concat (map view d)" "r = BufOk \<longrightarrow> ys = []"
      "if r = BufDisconnect then ys = [] \<and> (\<exists>lost. xs = d @ lost) else xs = d @ ys" by blast
    show ?thesis
      by (rule exI [of _ "x # d"]) (use d send_sent [OF 2(2)] s1 in \<open>simp split: if_splits\<close>)
  next
    case False
    with Cons.prems a have "sent s' = sent s \<and> r \<noteq> BufOk \<and> (if r = BufDisconnect then ys = [] else ys = x # xs)"
      by (auto simp: s1 split: poll.splits sum.splits option.splits try_send_result.splits dest!: send_sent ready_sent)
    then show ?thesis by (intro exI [of _ "[]"]) (auto split: if_splits)
  qed
qed simp

end

interpretation mpsc_sink: message_sink mpsc_poll_ready mpsc_try_send ms_sent "\<lambda>x. [x]"
  by unfold_locales (auto simp: mpsc_poll_ready_def mpsc_try_send_def Let_def split: list.splits if_splits)

lemma chan_poll_ready_queue: "chan_poll_ready i ch = (a, ch') \<Longrightarrow> chan_queue q ch' = chan_queue q ch"
  using poll_unparked_queue [of i True ch] by (auto simp: chan_poll_ready_def split: if_splits prod.splits poll.splits)

interpretation chan_sink: message_sink "chan_poll_ready i" "\<lambda>x. try_send i x p" "chan_queue q" "\<lambda>x. if q = p then [x] else []" for i p q
  by unfold_locales (auto simp: chan_poll_ready_queue dest: try_send_queue [where q = q])

lemma mpsc_loop_some: "\<exists>r ys s'. send_loop mpsc_poll_ready mpsc_try_send xs s = Some (r, ys, s')"
  by (induction xs arbitrary: s)
    (auto simp: mpsc_try_send_def Let_def split: prod.splits poll.splits sum.splits option.splits try_send_result.splits)

text \<open>\<open>buffer_contents\<close> is what was handed over followed by what waits.\<close>

definition buffer_contents :: "'a buffer \<Rightarrow> 'a list" where
  "buffer_contents b = ms_sent (bf_sender b) @ bf_buffer b"

lemma buffer_try_send_contents:
  assumes "buffer_try_send b = (r, b')"
  shows "r \<noteq> BufDisconnect \<Longrightarrow> buffer_contents b' = buffer_contents b" and "r = BufOk \<Longrightarrow> bf_buffer b' = []"
    and "r = BufDisconnect \<Longrightarrow> bf_buffer b' = []"
    and "\<exists>lost. buffer_contents b = buffer_contents b' @ lost"
proof -
  from mpsc_loop_some [of "bf_buffer b" "bf_sender b"] assms have
    "send_loop mpsc_poll_ready mpsc_try_send (bf_buffer b) (bf_sender b) = Some (r, bf_buffer b', bf_sender b')"
    by (auto simp: buffer_try_send_def)
  from mpsc_sink.loop_splits [OF this] obtain d where "ms_sent (bf_sender b') = ms_sent (bf_sender b) @ d"
    "r = BufOk \<longrightarrow> bf_buffer b' = []"
    "if r = BufDisconnect then bf_buffer b' = [] \<and> (\<exists>lost. bf_buffer b = d @ lost) else bf_buffer b = d @ bf_buffer b'" by auto
  then show "r \<noteq> BufDisconnect \<Longrightarrow> buffer_contents b' = buffer_contents b" "r = BufOk \<Longrightarrow> bf_buffer b' = []"
    "r = BufDisconnect \<Longrightarrow> bf_buffer b' = []" "\<exists>lost. buffer_contents b = buffer_contents b' @ lost"
    by (auto simp: buffer_contents_def split: if_splits)
qed

section \<open>The priority buffer and its channel\<close>

definition pb_part :: "priority \<Rightarrow> 'a priority_buffer \<Rightarrow> 'a list" where
  "pb_part p b = (case p of High \<Rightarrow> pb_high b | Normal \<Rightarrow> pb_normal b)"

lemma concat_view: "concat (map (\<lambda>x. if b then [x] else []) xs) = (if b then xs else [])"
  by (induction xs) auto

lemma priority_try_send_conserves:
  assumes "priority_try_send b ch = Some (r, b', ch')" and "r \<noteq> BufDisconnect"
  shows "chan_queue p ch' @ pb_part p b' = chan_queue p ch @ pb_part p b"
    and "chan_queue Normal ch' \<noteq> chan_queue Normal ch \<Longrightarrow> pb_high b' = []"
    and "r = BufOk \<Longrightarrow> pb_high b' = [] \<and> pb_normal b' = []"
proof -
  let ?i = "pb_sender b"
  from assms obtain r1 ys1 ch1 where 1: "send_loop (chan_poll_ready ?i) (\<lambda>x. try_send ?i x High) (pb_high b) ch = Some (r1, ys1, ch1)"
    and r1: "r1 \<noteq> BufDisconnect"
    by (auto simp: priority_try_send_def split: option.splits send_result.splits)
  obtain d1 where d1: "chan_queue High ch1 = chan_queue High ch @ d1" "pb_high b = d1 @ ys1" "r1 = BufOk \<longrightarrow> ys1 = []"
    using chan_sink.loop_splits [OF 1, of High] r1 by (auto simp: concat_view)
  have n1: "chan_queue Normal ch1 = chan_queue Normal ch"
    using chan_sink.loop_splits [OF 1, of Normal] by (auto simp: concat_view)
  show "chan_queue p ch' @ pb_part p b' = chan_queue p ch @ pb_part p b"
    and "chan_queue Normal ch' \<noteq> chan_queue Normal ch \<Longrightarrow> pb_high b' = []"
    and "r = BufOk \<Longrightarrow> pb_high b' = [] \<and> pb_normal b' = []"
  proof (atomize (full), cases "r1 = BufOk")
    case False
    with assms 1 r1 have "r = BufPending" "b' = b\<lparr>pb_high := ys1\<rparr>" "ch' = ch1"
      by (auto simp: priority_try_send_def split: send_result.splits)
    then show "chan_queue p ch' @ pb_part p b' = chan_queue p ch @ pb_part p b \<and>
        (chan_queue Normal ch' \<noteq> chan_queue Normal ch \<longrightarrow> pb_high b' = []) \<and> (r = BufOk \<longrightarrow> pb_high b' = [] \<and> pb_normal b' = [])"
      using d1 n1 by (cases p) (simp_all add: pb_part_def)
  next
    case True
    with d1 have y1: "ys1 = []" by simp
    from True assms 1 obtain ys2 where
      2: "send_loop (chan_poll_ready ?i) (\<lambda>x. try_send ?i x Normal) (pb_normal b) ch1 = Some (r, ys2, ch')"
      and b': "b' = b\<lparr>pb_high := [], pb_normal := ys2\<rparr>"
      by (auto simp: priority_try_send_def y1 Let_def split: option.splits send_result.splits)
    obtain d2 where d2: "chan_queue Normal ch' = chan_queue Normal ch1 @ d2" "pb_normal b = d2 @ ys2" "r = BufOk \<longrightarrow> ys2 = []"
      using chan_sink.loop_splits [OF 2, of Normal] assms(2) by (auto simp: concat_view)
    have "chan_queue High ch' = chan_queue High ch1"
      using chan_sink.loop_splits [OF 2, of High] by (auto simp: concat_view)
    then show "chan_queue p ch' @ pb_part p b' = chan_queue p ch @ pb_part p b \<and>
        (chan_queue Normal ch' \<noteq> chan_queue Normal ch \<longrightarrow> pb_high b' = []) \<and> (r = BufOk \<longrightarrow> pb_high b' = [] \<and> pb_normal b' = [])"
      using d1 d2 n1 y1 b' by (cases p) (simp_all add: pb_part_def)
  qed
qed

text \<open>A live sender of an open channel: the loop stops only when the sender is parked and its task is registered.\<close>

definition live_sender :: "nat \<Rightarrow> 'a channel \<Rightarrow> bool" where
  "live_sender i ch \<longleftrightarrow> chan_ok ch \<and> i < length (ch_senders ch) \<and> snd_alive (ch_senders ch ! i) \<and> opened ch"

lemma poll_ready_live:
  assumes "live_sender i ch"
  obtains ch' where "chan_poll_ready i ch = (if snd_is_parked (ch_senders ch ! i) then Pending else Ready (Inr ()), ch')"
    and "live_sender i ch'" and "queued ch' = queued ch" and "ch_receiver ch' = ch_receiver ch"
    and "snd_is_parked (ch_senders ch' ! i) = snd_is_parked (ch_senders ch ! i)"
    and "snd_is_parked (ch_senders ch ! i) \<Longrightarrow> snd_task (ch_senders ch' ! i)"
proof -
  have l: "chan_ok ch" "i < length (ch_senders ch)" "snd_alive (ch_senders ch ! i)" "opened ch"
    using assms by (simp_all add: live_sender_def)
  have m: "snd_is_parked (ch_senders ch ! i) \<Longrightarrow> snd_maybe_parked (ch_senders ch ! i)"
    using l(1,2) by (auto simp: chan_ok_def parking_ok_def)
  obtain a ch' where u: "poll_unparked i True ch = (a, ch')" by force
  then have a: "a = (if snd_is_parked (ch_senders ch ! i) then Pending else Ready ())"
    using m by (auto simp: poll_unparked_def Let_def split: if_splits)
  have "queued ch' = queued ch \<and> ch_receiver ch' = ch_receiver ch \<and> opened ch' = opened ch \<and>
      snd_is_parked (ch_senders ch' ! i) = snd_is_parked (ch_senders ch ! i) \<and>
      (snd_is_parked (ch_senders ch ! i) \<longrightarrow> snd_task (ch_senders ch' ! i))"
    using u m l(2) by (auto simp: poll_unparked_def Let_def queued_def opened_def split: if_splits)
  moreover have "chan_poll_ready i ch = (if snd_is_parked (ch_senders ch ! i) then Pending else Ready (Inr ()), ch')"
    using l(3,4) u a by (simp add: chan_poll_ready_def opened_def [symmetric])
  ultimately show thesis using that [of ch'] poll_unparked_ok [OF l(1,2) u] l by (simp add: live_sender_def)
qed

lemma try_send_live:
  assumes l: "live_sender i ch" and "\<not> snd_is_parked (ch_senders ch ! i)" and "queued ch + 1 < 2 ^ 63"
  obtains ch' where "try_send i x p ch = Some (SendOk, ch')" and "live_sender i ch'" and "queued ch' = Suc (queued ch)"
    and "ch_receiver ch' = ch_receiver ch"
proof -
  have l: "chan_ok ch" "i < length (ch_senders ch)" "snd_alive (ch_senders ch ! i)" "opened ch"
    using assms(1) by (simp_all add: live_sender_def)
  from unparked_sends [OF l(1-3) assms(2) l(4) assms(3), of x p] obtain ch' where s: "try_send i x p ch = Some (SendOk, ch')" ..
  note k = try_send_keeps [OF l(1,2) s]
  have "snd_alive (ch_senders ch' ! i)"
    using arg_cong [where f = "\<lambda>xs. xs ! i", OF conjunct2 [OF conjunct2 [OF conjunct2 [OF k]]]] l(2,3) try_send_sizes [OF s] by simp
  moreover have "ch_receiver ch' = ch_receiver ch"
    using s by (cases p) (auto simp: try_send_def do_send_b_def poll_unparked_def inc_num_messages_def park_def queue_push_and_signal_def Let_def
        split: if_splits poll.splits option.splits prod.splits)
  ultimately show thesis
    using that [OF s] k try_send_ok [OF l(1,2) s] try_send_sizes [OF s] l(2) by (simp add: live_sender_def)
qed

lemma chan_loop_live:
  assumes "live_sender i ch" and "queued ch + length xs < 2 ^ 63"
  shows "\<exists>r ys ch'. send_loop (chan_poll_ready i) (\<lambda>x. try_send i x p) xs ch = Some (r, ys, ch') \<and> live_sender i ch' \<and>
    ch_receiver ch' = ch_receiver ch \<and> queued ch' + length ys = queued ch + length xs \<and> r = (if ys = [] then BufOk else BufPending) \<and>
    (r = BufPending \<longrightarrow> snd_is_parked (ch_senders ch' ! i) \<and> snd_task (ch_senders ch' ! i)) \<and>
    (xs \<noteq> [] \<longrightarrow> \<not> snd_is_parked (ch_senders ch ! i) \<longrightarrow> length ys < length xs)"
  using assms
proof (induction xs arbitrary: ch)
  case (Cons x xs)
  from poll_ready_live [OF Cons.prems(1)] obtain ch1 where
    1: "chan_poll_ready i ch = (if snd_is_parked (ch_senders ch ! i) then Pending else Ready (Inr ()), ch1)"
      "live_sender i ch1" "queued ch1 = queued ch" "ch_receiver ch1 = ch_receiver ch"
      "snd_is_parked (ch_senders ch1 ! i) = snd_is_parked (ch_senders ch ! i)"
      "snd_is_parked (ch_senders ch ! i) \<Longrightarrow> snd_task (ch_senders ch1 ! i)" by blast
  show ?case
  proof (cases "snd_is_parked (ch_senders ch ! i)")
    case True
    then show ?thesis using 1 by simp
  next
    case False
    with 1(3,5) Cons.prems(2) have "\<not> snd_is_parked (ch_senders ch1 ! i)" "queued ch1 + 1 < 2 ^ 63" by simp_all
    from try_send_live [OF 1(2) this] obtain ch2 where
      2: "try_send i x p ch1 = Some (SendOk, ch2)" "live_sender i ch2" "queued ch2 = Suc (queued ch1)" "ch_receiver ch2 = ch_receiver ch1" by blast
    from Cons.IH [OF 2(2)] 1(3) 2(3) Cons.prems(2) obtain r ys ch' where
      3: "send_loop (chan_poll_ready i) (\<lambda>x. try_send i x p) xs ch2 = Some (r, ys, ch')" "live_sender i ch'"
        "ch_receiver ch' = ch_receiver ch2" "queued ch' + length ys = queued ch2 + length xs" "r = (if ys = [] then BufOk else BufPending)"
        "r = BufPending \<longrightarrow> snd_is_parked (ch_senders ch' ! i) \<and> snd_task (ch_senders ch' ! i)" by auto
    have "length ys \<le> length xs" using chan_sink.loop_splits [OF 3(1), of High] 3(5) by (auto split: if_splits)
    with 1 2 3 False show ?thesis by (intro exI [of _ r] exI [of _ ys] exI [of _ ch']) auto
  qed
qed simp

lemma priority_try_send_live:
  assumes l: "live_sender (pb_sender b) ch" and q: "queued ch + pb_len b < 2 ^ 63"
  shows "\<exists>r b' ch'. priority_try_send b ch = Some (r, b', ch') \<and> live_sender (pb_sender b) ch' \<and> pb_sender b' = pb_sender b \<and>
    ch_receiver ch' = ch_receiver ch \<and> queued ch' + pb_len b' = queued ch + pb_len b \<and> pb_len b' \<le> pb_len b \<and> r = (if pb_len b' = 0 then BufOk else BufPending) \<and>
    (r = BufPending \<longrightarrow> snd_is_parked (ch_senders ch' ! pb_sender b) \<and> snd_task (ch_senders ch' ! pb_sender b)) \<and>
    (pb_len b \<noteq> 0 \<longrightarrow> \<not> snd_is_parked (ch_senders ch ! pb_sender b) \<longrightarrow> pb_len b' < pb_len b)"
proof -
  let ?i = "pb_sender b"
  have "queued ch + length (pb_high b) < 2 ^ 63" using q by (simp add: pb_len_def)
  from chan_loop_live [OF l this, of High] obtain r1 ys1 ch1 where
    1: "send_loop (chan_poll_ready ?i) (\<lambda>x. try_send ?i x High) (pb_high b) ch = Some (r1, ys1, ch1)" "live_sender ?i ch1"
      "ch_receiver ch1 = ch_receiver ch" "queued ch1 + length ys1 = queued ch + length (pb_high b)" "r1 = (if ys1 = [] then BufOk else BufPending)"
      "r1 = BufPending \<longrightarrow> snd_is_parked (ch_senders ch1 ! ?i) \<and> snd_task (ch_senders ch1 ! ?i)"
      "pb_high b \<noteq> [] \<longrightarrow> \<not> snd_is_parked (ch_senders ch ! ?i) \<longrightarrow> length ys1 < length (pb_high b)" by blast
  show ?thesis
  proof (cases "ys1 = []")
    case False
    have "length ys1 \<le> length (pb_high b)" using chan_sink.loop_splits [OF 1(1), of High] 1(5) by (auto split: if_splits)
    then show ?thesis
      by (intro exI [of _ BufPending] exI [of _ "b\<lparr>pb_high := ys1\<rparr>"] exI [of _ ch1])
        (use 1 False in \<open>auto simp: priority_try_send_def pb_len_def\<close>)
  next
    case True
    have "queued ch1 + length (pb_normal b) < 2 ^ 63" using q 1(4) True by (simp add: pb_len_def)
    from chan_loop_live [OF 1(2) this, of Normal] obtain r2 ys2 ch2 where
      2: "send_loop (chan_poll_ready ?i) (\<lambda>x. try_send ?i x Normal) (pb_normal b) ch1 = Some (r2, ys2, ch2)" "live_sender ?i ch2"
        "ch_receiver ch2 = ch_receiver ch1" "queued ch2 + length ys2 = queued ch1 + length (pb_normal b)"
        "r2 = (if ys2 = [] then BufOk else BufPending)"
        "r2 = BufPending \<longrightarrow> snd_is_parked (ch_senders ch2 ! ?i) \<and> snd_task (ch_senders ch2 ! ?i)"
        "pb_normal b \<noteq> [] \<longrightarrow> \<not> snd_is_parked (ch_senders ch1 ! ?i) \<longrightarrow> length ys2 < length (pb_normal b)" by blast
    have le: "length ys2 \<le> length (pb_normal b)" using chan_sink.loop_splits [OF 2(1), of High] 2(5) by (auto split: if_splits)
    have "pb_high b = [] \<Longrightarrow> ch1 = ch" using 1(1) by simp
    then have "length (pb_high b) + length (pb_normal b) \<noteq> 0 \<Longrightarrow> \<not> snd_is_parked (ch_senders ch ! ?i) \<Longrightarrow>
        length ys2 < length (pb_high b) + length (pb_normal b)"
      using 1(7) 2(7) le True by (cases "pb_high b") auto
    with 1 2 le True show ?thesis
      by (intro exI [of _ r2] exI [of _ "b\<lparr>pb_high := [], pb_normal := ys2\<rparr>"] exI [of _ ch2])
        (auto simp: priority_try_send_def pb_len_def Let_def)
  qed
qed

section \<open>Delivery\<close>

text \<open>Rounds of sending what the channel takes and receiving all of it.\<close>

fun pump :: "nat \<Rightarrow> 'a priority_buffer \<Rightarrow> 'a channel \<Rightarrow> ((priority \<times> 'a) list \<times> 'a priority_buffer \<times> 'a channel) option" where
  "pump 0 b ch = Some ([], b, ch)"
| "pump (Suc n) b ch =
     (case priority_try_send b ch of
        None \<Rightarrow> None
      | Some (_, b, ch) \<Rightarrow>
          (case chan_run (replicate (length (chan_abs ch)) OpNext) ch of
             None \<Rightarrow> None
           | Some (_, g, ch) \<Rightarrow> map_option (\<lambda>(g', b, ch). (g @ g', b, ch)) (pump n b ch)))"

lemma chan_run_receives:
  assumes "live_sender i ch" and "ch_receiver ch"
  obtains ch' where "chan_run (replicate (length (chan_abs ch)) OpNext) ch = Some ([], chan_abs ch, ch')"
    and "live_sender i ch'" and "ch_receiver ch'" and "chan_abs ch' = []" and "\<not> snd_is_parked (ch_senders ch' ! i)"
proof -
  have l: "chan_ok ch" "i < length (ch_senders ch)" "snd_alive (ch_senders ch ! i)" "opened ch"
    using assms(1) by (simp_all add: live_sender_def)
  from chan_run_drains [OF l(1) assms(2) refl] obtain ch' where
    1: "chan_run (replicate (length (chan_abs ch)) OpNext) ch = Some ([], chan_abs ch, ch')" "chan_abs ch' = []" "ch_parked_queue ch' = []"
      "opened ch' = opened ch" "ch_receiver ch'" and a: "map snd_alive (ch_senders ch') = map snd_alive (ch_senders ch)" by blast
  have n: "length (ch_senders ch') = length (ch_senders ch)" using arg_cong [where f = length, OF a] by simp
  have "snd_alive (ch_senders ch' ! i)" using arg_cong [where f = "\<lambda>xs. xs ! i", OF a] l(2,3) n by simp
  moreover have ok: "chan_ok ch'" by (rule chan_run_ok [OF 1(1) l(1)])
  moreover have "\<not> snd_is_parked (ch_senders ch' ! i)" using no_longer_parked [OF ok 1(3)] l(2) n by simp
  ultimately show thesis using that [OF 1(1)] 1 l n by (simp add: live_sender_def)
qed

lemma pump_unparked:
  assumes "live_sender (pb_sender b) ch" and "ch_receiver ch" and "queued ch + pb_len b < 2 ^ 63"
    and "\<not> snd_is_parked (ch_senders ch ! pb_sender b)" and "pb_len b \<le> n"
  shows "\<exists>g b' ch'. pump n b ch = Some (g, b', ch') \<and> pb_len b' = 0 \<and> (chan_abs ch = [] \<longrightarrow> chan_abs ch' = []) \<and>
    (\<forall>p. of_priority p g @ chan_queue p ch' = chan_queue p ch @ pb_part p b)"
  using assms
proof (induction n arbitrary: b ch)
  case 0
  then show ?case by (auto simp: pb_len_def pb_part_def split: priority.splits)
next
  case (Suc n)
  from priority_try_send_live [OF Suc.prems(1,3)] obtain r b1 ch1 where
    1: "priority_try_send b ch = Some (r, b1, ch1)" "live_sender (pb_sender b1) ch1" "pb_sender b1 = pb_sender b" "ch_receiver ch1"
      "queued ch1 + pb_len b1 = queued ch + pb_len b" "r \<noteq> BufDisconnect" "pb_len b \<noteq> 0 \<longrightarrow> pb_len b1 < pb_len b" "pb_len b1 \<le> pb_len b"
    using Suc.prems(2,4) by auto
  note c = priority_try_send_conserves(1) [OF 1(1,6)]
  from chan_run_receives [OF 1(2,4)] obtain ch2 where
    2: "chan_run (replicate (length (chan_abs ch1)) OpNext) ch1 = Some ([], chan_abs ch1, ch2)" "live_sender (pb_sender b1) ch2"
      "ch_receiver ch2" "chan_abs ch2 = []" "\<not> snd_is_parked (ch_senders ch2 ! pb_sender b1)" by blast
  have e: "chan_queue p ch2 = []" "queued ch2 = 0" for p
    using 2(4) chan_abs_queue [of p ch2] chan_abs_length [of ch2] by simp_all
  have "queued ch2 + pb_len b1 < 2 ^ 63" "pb_len b1 \<le> n" using e(2) 1(5,7,8) Suc.prems(3,5) by auto
  from Suc.IH [OF 2(2,3) this(1) 2(5) this(2)] obtain g b' ch' where
    3: "pump n b1 ch2 = Some (g, b', ch')" "pb_len b' = 0" "chan_abs ch' = []"
      "\<And>p. of_priority p g @ chan_queue p ch' = chan_queue p ch2 @ pb_part p b1"
    using 2(4) by blast
  have "of_priority p (chan_abs ch1 @ g) @ chan_queue p ch' = chan_queue p ch @ pb_part p b" for p
    using c [of p] 3(4) [of p] e(1) [of p] by (simp add: chan_abs_queue)
  with 1 2 3 show ?case by (intro exI [of _ "chan_abs ch1 @ g"] exI [of _ b'] exI [of _ ch']) simp
qed

text \<open>C17. A live sender whose messages wait in a priority buffer delivers all of them: in as many rounds as there are
  messages, and one more, the receiver gets everything queued or buffered, once and in order within each priority, and
  neither the buffer nor the channel holds anything more.\<close>

theorem priority_buffer_delivers:
  assumes "live_sender (pb_sender b) ch" and "ch_receiver ch" and "queued ch + pb_len b < 2 ^ 63"
  shows "\<exists>g b' ch'. pump (Suc (pb_len b)) b ch = Some (g, b', ch') \<and> pb_len b' = 0 \<and> chan_abs ch' = [] \<and>
    (\<forall>p. of_priority p g = chan_queue p ch @ pb_part p b)"
proof -
  from priority_try_send_live [OF assms(1,3)] obtain r b1 ch1 where
    1: "priority_try_send b ch = Some (r, b1, ch1)" "live_sender (pb_sender b1) ch1" "ch_receiver ch1"
      "queued ch1 + pb_len b1 = queued ch + pb_len b" "r \<noteq> BufDisconnect" and len: "pb_len b1 \<le> pb_len b"
    using assms(2) by (auto split: if_splits)
  from chan_run_receives [OF 1(2,3)] obtain ch2 where
    2: "chan_run (replicate (length (chan_abs ch1)) OpNext) ch1 = Some ([], chan_abs ch1, ch2)" "live_sender (pb_sender b1) ch2"
      "ch_receiver ch2" "chan_abs ch2 = []" "\<not> snd_is_parked (ch_senders ch2 ! pb_sender b1)" by blast
  have e: "chan_queue p ch2 = []" "queued ch2 = 0" for p
    using 2(4) chan_abs_queue [of p ch2] chan_abs_length [of ch2] by simp_all
  have "queued ch2 + pb_len b1 < 2 ^ 63" using e(2) 1(4) assms(3) by simp
  from pump_unparked [OF 2(2,3) this 2(5) len] 2(4) obtain g b' ch' where
    3: "pump (pb_len b) b1 ch2 = Some (g, b', ch')" "pb_len b' = 0" "chan_abs ch' = []"
      "\<And>p. of_priority p g @ chan_queue p ch' = chan_queue p ch2 @ pb_part p b1" by blast
  have "of_priority p (chan_abs ch1 @ g) = chan_queue p ch @ pb_part p b" for p
    using priority_try_send_conserves(1) [OF 1(1,5), of p] 3(4) [of p] e(1) [of p] 3(3) chan_abs_queue [of p ch'] by (simp add: chan_abs_queue)
  with 1 2 3 show ?thesis by (intro exI [of _ "chan_abs ch1 @ g"] exI [of _ b'] exI [of _ ch']) simp
qed

definition sample_buffer :: "nat priority_buffer" where
  "sample_buffer = push_normal 5 (push_high 4 (push_high 3 (push_normal 2 (push_high 1 (priority_buffer_new 0)))))"

theorem priority_buffer_delivers_witness:
  "\<exists>ch g b' ch'. channel_new 1 = Some (ch :: nat channel) \<and> pump 6 sample_buffer ch = Some (g, b', ch') \<and>
    pb_len b' = 0 \<and> of_priority High g = [1, 3, 4] \<and> of_priority Normal g = [2, 5]"
proof -
  have "(1 :: u64) < MAX_BUFFER" by (simp add: MAX_BUFFER_def MAX_CAPACITY_mask mask_eq_exp_minus_1)
  then obtain ch :: "nat channel" where c: "channel_new 1 = Some ch" by (simp add: channel_new_def)
  have b: "pb_sender sample_buffer = 0" "pb_len sample_buffer = 5" "pb_part High sample_buffer = [1, 3, 4]" "pb_part Normal sample_buffer = [2, 5]"
    by (simp_all add: sample_buffer_def push_normal_def push_high_def priority_buffer_new_def pb_len_def pb_part_def)
  have "live_sender (pb_sender sample_buffer) ch \<and> ch_receiver ch \<and> queued ch = 0 \<and> ch_quick_message_queue ch = [] \<and> ch_message_queue ch = []"
    using c channel_new_ok [OF c]
    by (auto simp: live_sender_def b channel_new_def new_sender_def queued_def opened_def INIT_STATE_pack split: if_splits)
  with priority_buffer_delivers [of sample_buffer ch] obtain g b' ch' where
    1: "pump (Suc 5) sample_buffer ch = Some (g, b', ch')" "pb_len b' = 0"
      "\<And>p. of_priority p g = chan_queue p ch @ pb_part p sample_buffer" "chan_queue High ch = []" "chan_queue Normal ch = []"
    by (auto simp: b simp del: pump.simps)
  have "pump 6 sample_buffer ch = Some (g, b', ch')" using 1(1) by (simp del: pump.simps)
  then show ?thesis
    by (intro exI [of _ ch] exI [of _ g] exI [of _ b'] exI [of _ ch'])
      (use c 1(2) 1(3) [of High] 1(3) [of Normal] 1(4,5) b in simp)
qed

end
