(* ===== verification/Substream.thy ===== *)
theory Substream
  imports Buffers Framed_Socket
begin

text \<open>
  The stream of one protocol in a session (\<^verbatim>\<open>tentacle/src/substream.rs\<close>): it moves the messages of the session to the
  underlying framed socket, and the frames of the socket to the protocol handles, and reports its end to both.

  The socket is the script of its answers; a raw shutdown and the closing of a sink take the same answers. The session's
  end of \<^verbatim>\<open>event_receiver\<close> is the bounded priority channel of \<open>Channel\<close>. A spawned task that sends its events in order
  over a cloned sender is recorded in a list of spawned tasks. \<open>None\<close> is a panic.

  \<open>write_part\<close> is \<^verbatim>\<open>SubstreamWritePart\<close>; \<open>substream\<close> extends it with the handles, as the two structs of the source have
  these operations in common.
\<close>

section \<open>Data\<close>

type_synonym stream_id = u64
type_synonym protocol_id = u64
type_synonym session_id = u64

record session_context =
  cx_id :: session_id
  cx_closed :: bool
  cx_pending_data_size :: u64

definition incr_pending_data_size :: "nat \<Rightarrow> session_context \<Rightarrow> session_context" where
  "incr_pending_data_size n c = c\<lparr>cx_pending_data_size := cx_pending_data_size c + of_nat n\<rparr>"

definition decr_pending_data_size :: "nat \<Rightarrow> session_context \<Rightarrow> session_context" where
  "decr_pending_data_size n c = c\<lparr>cx_pending_data_size := cx_pending_data_size c - of_nat n\<rparr>"

record session_config =
  sc_max_stream_window_size :: u32
  sc_send_buffer_size :: u64
  sc_recv_buffer_size :: u64
  sc_channel_size :: u64

text \<open>A window of size 0 divides by zero.\<close>

definition recv_event_size :: "session_config \<Rightarrow> u64 option" where
  "recv_event_size c =
     (if sc_max_stream_window_size c = 0 then None
      else Some (sc_recv_buffer_size c div ucast (sc_max_stream_window_size c) + 1))"

definition send_event_size :: "session_config \<Rightarrow> u64 option" where
  "send_event_size c =
     (if sc_max_stream_window_size c = 0 then None
      else Some (sc_send_buffer_size c div ucast (sc_max_stream_window_size c) + 1))"

datatype protocol_event =
  PeOpen bytes framed_socket bytes
  | PeClose stream_id protocol_id
  | PeMessage bytes
  | PeSelectError "bytes option"
  | PeError protocol_id io_kind
  | PeTimeoutCheck

datatype service_proto_event =
  SvcInit
  | SvcConnected session_id bytes
  | SvcDisconnected session_id
  | SvcReceived session_id bytes
  | SvcSetNotify nat u64
  | SvcRemoveNotify u64
  | SvcNotify u64
  | SvcUpdate "bytes list"

datatype session_proto_event =
  SesOpened bytes
  | SesClosed
  | SesDisconnected
  | SesReceived bytes
  | SesNotify u64
  | SesSetNotify nat u64
  | SesRemoveNotify u64
  | SesUpdate "bytes list"

text \<open>The budget of the thread: a task that has used it up gives way.\<close>

definition poll_proceed :: "u8 \<Rightarrow> unit poll \<times> u8" where
  "poll_proceed budget = (let b = budget - 1 in if b \<noteq> 0 then (Ready (), b) else (Pending, 128))"

record write_part =
  wp_substream :: framed_socket
  wp_id :: stream_id
  wp_proto_id :: protocol_id
  wp_dead :: bool
  wp_config :: session_config
  wp_high_write_buf :: "bytes list"
  wp_write_buf :: "bytes list"
  wp_event_sender :: "protocol_event buffer"
  wp_event_receiver :: "protocol_event channel"
  wp_context :: session_context
  wp_spawned :: "protocol_event list list"

record substream = write_part +
  ss_keep_buffer :: bool
  ss_service_proto_sender :: "service_proto_event buffer option"
  ss_session_proto_sender :: "session_proto_event buffer option"
  ss_before_receive :: "(bytes \<Rightarrow> io_kind + bytes) option"
  ss_spawned_service :: "service_proto_event list list"
  ss_spawned_session :: "session_proto_event list list"

section \<open>Writing\<close>

definition push_front :: "priority \<Rightarrow> bytes \<Rightarrow> 'z write_part_scheme \<Rightarrow> 'z write_part_scheme" where
  "push_front p frame w =
     (if is_high p then w\<lparr>wp_high_write_buf := frame # wp_high_write_buf w\<rparr>
      else w\<lparr>wp_write_buf := frame # wp_write_buf w\<rparr>)"

definition push_back :: "priority \<Rightarrow> bytes \<Rightarrow> 'z write_part_scheme \<Rightarrow> 'z write_part_scheme" where
  "push_back p frame w =
     (if is_high p then w\<lparr>wp_high_write_buf := wp_high_write_buf w @ [frame]\<rparr>
      else w\<lparr>wp_write_buf := wp_write_buf w @ [frame]\<rparr>)"

definition ss_poll_complete :: "'z write_part_scheme \<Rightarrow> (io_kind + bool) \<times> 'z write_part_scheme" where
  "ss_poll_complete w =
     (case poll_flush_unpin (wp_substream w) of
        (Pending, so) \<Rightarrow> (Inr True, w\<lparr>wp_substream := so\<rparr>)
      | (Ready (Inl e), so) \<Rightarrow> (Inl e, w\<lparr>wp_substream := so\<rparr>)
      | (Ready (Inr _), so) \<Rightarrow> (Inr False, w\<lparr>wp_substream := so\<rparr>))"

definition send_inner :: "bytes \<Rightarrow> priority \<Rightarrow> 'z write_part_scheme \<Rightarrow> (io_kind + bool) \<times> 'z write_part_scheme" where
  "send_inner frame p w =
     (case poll_ready_unpin (wp_substream w) of
        (Ready (Inl e), so) \<Rightarrow> (Inl e, w\<lparr>wp_substream := so\<rparr>)
      | (Ready (Inr _), so) \<Rightarrow>
          (case start_send_unpin frame so of
             (Inl e, so) \<Rightarrow> (Inl e, w\<lparr>wp_substream := so\<rparr>)
           | (Inr _, so) \<Rightarrow>
               (Inr False, w\<lparr>wp_substream := so, wp_context := decr_pending_data_size (length frame) (wp_context w)\<rparr>))
      | (Pending, so) \<Rightarrow>
          (case ss_poll_complete (push_front p frame (w\<lparr>wp_substream := so\<rparr>)) of
             (Inl e, w) \<Rightarrow> (Inl e, w)
           | (Inr _, w) \<Rightarrow> (Inr True, w)))"

text \<open>One \<^verbatim>\<open>while let\<close> loop of \<^verbatim>\<open>send_data\<close>; the argument is the buffer that is popped.\<close>

fun send_frames :: "priority \<Rightarrow> bytes list \<Rightarrow> 'z write_part_scheme \<Rightarrow> (io_kind + bool) \<times> 'z write_part_scheme" where
  "send_frames p [] w = (Inr False, w)"
| "send_frames p (frame # rest) w =
     (case send_inner frame p
         (if is_high p then w\<lparr>wp_high_write_buf := rest\<rparr> else w\<lparr>wp_write_buf := rest\<rparr>) of
        (Inl e, w) \<Rightarrow> (Inl e, w)
      | (Inr True, w) \<Rightarrow> (Inr True, w)
      | (Inr False, w) \<Rightarrow> send_frames p rest w)"

definition ss_send_data :: "'z write_part_scheme \<Rightarrow> (io_kind + unit) \<times> 'z write_part_scheme" where
  "ss_send_data w =
     (case send_frames High (wp_high_write_buf w) w of
        (Inl e, w) \<Rightarrow> (Inl e, w)
      | (Inr True, w) \<Rightarrow> (Inr (), w)
      | (Inr False, w) \<Rightarrow>
          (case send_frames Normal (wp_write_buf w) w of
             (Inl e, w) \<Rightarrow> (Inl e, w)
           | (Inr True, w) \<Rightarrow> (Inr (), w)
           | (Inr False, w) \<Rightarrow>
               (case ss_poll_complete w of (Inl e, w) \<Rightarrow> (Inl e, w) | (Inr _, w) \<Rightarrow> (Inr (), w))))"

section \<open>Events of the session\<close>

definition wp_output :: "'z write_part_scheme \<Rightarrow> 'z write_part_scheme" where
  "wp_output w =
     (case buffer_try_send (wp_event_sender w) of
        (BufDisconnect, b) \<Rightarrow> w\<lparr>wp_event_sender := b, wp_dead := True\<rparr>
      | (_, b) \<Rightarrow> w\<lparr>wp_event_sender := b\<rparr>)"

definition wp_output_event :: "protocol_event \<Rightarrow> 'z write_part_scheme \<Rightarrow> 'z write_part_scheme" where
  "wp_output_event event w = wp_output (w\<lparr>wp_event_sender := buffer_push event (wp_event_sender w)\<rparr>)"

definition handle_proto_event :: "protocol_event \<Rightarrow> priority \<Rightarrow> 'z write_part_scheme \<Rightarrow> 'z write_part_scheme" where
  "handle_proto_event event p w =
     (case event of
        PeMessage data \<Rightarrow>
          (case ss_send_data (push_back p data w) of
             (Inl err, w) \<Rightarrow> (wp_output_event (PeError (wp_proto_id w) err) w)\<lparr>wp_dead := True\<rparr>
           | (Inr _, w) \<Rightarrow> w)
      | PeClose _ _ \<Rightarrow> w\<lparr>wp_write_buf := [], wp_dead := True\<rparr>
      | _ \<Rightarrow> w)"

definition wp_shutdown :: "'z write_part_scheme \<Rightarrow> 'z write_part_scheme" where
  "wp_shutdown w = w\<lparr>wp_substream := snd (poll_close_unpin (wp_substream w))\<rparr>"

definition recv_event :: "'z write_part_scheme \<Rightarrow> (unit option poll \<times> 'z write_part_scheme) option" where
  "recv_event w =
     (if wp_dead w then Some (Ready None, w)
      else (case send_event_size (wp_config w) of
        None \<Rightarrow> None
      | Some n \<Rightarrow>
          if length (wp_write_buf w) > unat n then Some (Pending, w)
          else (case recv_poll_next (wp_event_receiver w) of
            None \<Rightarrow> None
          | Some (Ready (Some (p, event)), ch) \<Rightarrow>
              Some (Ready (Some ()), handle_proto_event event p (w\<lparr>wp_event_receiver := ch\<rparr>))
          | Some (Ready None, ch) \<Rightarrow> Some (Ready None, wp_shutdown (w\<lparr>wp_event_receiver := ch, wp_dead := True\<rparr>))
          | Some (Pending, ch) \<Rightarrow> Some (Pending, w\<lparr>wp_event_receiver := ch\<rparr>))))"

text \<open>Errors of a connection that is gone are not reported.\<close>

fun error_is_quiet :: "io_kind \<Rightarrow> bool" where
  "error_is_quiet IoBrokenPipe = True"
| "error_is_quiet IoConnectionAborted = True"
| "error_is_quiet IoConnectionReset = True"
| "error_is_quiet IoNotConnected = True"
| "error_is_quiet IoUnexpectedEof = True"
| "error_is_quiet _ = False"

text \<open>The last part of \<^verbatim>\<open>close_proto_stream\<close>, the same in both structs: the session is told, unless it is closed itself.\<close>

definition notify_session :: "'z write_part_scheme \<Rightarrow> 'z write_part_scheme" where
  "notify_session w =
     (if \<not> cx_closed (wp_context w) then
        (let (events, b) = buffer_take (wp_event_sender w) in
         w\<lparr>wp_event_sender := b, wp_spawned := wp_spawned w @ [events @ [PeClose (wp_id w) (wp_proto_id w)]]\<rparr>)
      else wp_output w)"

section \<open>The write part\<close>

definition wp_close_proto_stream :: "'z write_part_scheme \<Rightarrow> 'z write_part_scheme" where
  "wp_close_proto_stream w =
     notify_session (wp_shutdown (w\<lparr>wp_event_receiver := recv_close (wp_event_receiver w)\<rparr>))"

definition wp_error_close :: "io_kind \<Rightarrow> 'z write_part_scheme \<Rightarrow> 'z write_part_scheme" where
  "wp_error_close error w =
     (let w = w\<lparr>wp_dead := True\<rparr> in
      if error_is_quiet error then w
      else wp_close_proto_stream (w\<lparr>wp_event_sender := buffer_push (PeError (wp_proto_id w) error) (wp_event_sender w)\<rparr>))"

definition flush_rest :: "'z write_part_scheme \<Rightarrow> (io_kind + unit) \<times> 'z write_part_scheme" where
  "flush_rest w =
     (if bf_buffer (wp_event_sender w) \<noteq> [] \<or> wp_write_buf w \<noteq> [] \<or> wp_high_write_buf w \<noteq> [] then ss_send_data (wp_output w)
      else (Inr (), w))"

definition wp_flush :: "'z write_part_scheme \<Rightarrow> (io_kind + unit) \<times> 'z write_part_scheme" where
  "wp_flush w =
     (case ss_poll_complete w of
        (Inl e, w) \<Rightarrow> (Inl e, w)
      | (Inr _, w) \<Rightarrow> flush_rest w)"

definition wp_poll_next :: "u8 \<Rightarrow> 'z write_part_scheme \<Rightarrow> (unit option poll \<times> 'z write_part_scheme) option" where
  "wp_poll_next budget w =
     (if wp_dead w \<or> cx_closed (wp_context w) then Some (Ready None, wp_close_proto_stream w)
      else (case wp_flush w of
        (Inl err, w) \<Rightarrow> Some (Ready None, wp_error_close err w)
      | (Inr _, w) \<Rightarrow>
          if fst (poll_proceed budget) = Pending then Some (Pending, w)
          else (case recv_event w of
            None \<Rightarrow> None
          | Some (r, w) \<Rightarrow> Some (if r = Pending then Pending else Ready (Some ()), w))))"

section \<open>The substream with its handles\<close>

definition proto_open :: "bytes \<Rightarrow> substream \<Rightarrow> substream" where
  "proto_open version s =
     s\<lparr>ss_service_proto_sender := map_option (buffer_push (SvcConnected (cx_id (wp_context s)) version)) (ss_service_proto_sender s),
       ss_session_proto_sender := map_option (buffer_push (SesOpened version)) (ss_session_proto_sender s)\<rparr>"

text \<open>The handles get what waits for them and the end, by tasks of their own.\<close>

definition close_service_handle :: "substream \<Rightarrow> substream" where
  "close_service_handle s =
     (case ss_service_proto_sender s of
        None \<Rightarrow> s
      | Some b \<Rightarrow>
          let (events, b) = buffer_take b in
          s\<lparr>ss_service_proto_sender := Some b,
            ss_spawned_service := ss_spawned_service s @ [events @ [SvcDisconnected (cx_id (wp_context s))]]\<rparr>)"

definition close_session_handle :: "substream \<Rightarrow> substream" where
  "close_session_handle s =
     (case ss_session_proto_sender s of
        None \<Rightarrow> s
      | Some b \<Rightarrow>
          let (events, b) = buffer_take b in
          s\<lparr>ss_session_proto_sender := Some b,
            ss_spawned_session := ss_spawned_session s @
              [events @ [SesClosed] @ (if cx_closed (wp_context s) then [SesDisconnected] else [])]\<rparr>)"

definition close_proto_stream :: "substream \<Rightarrow> substream" where
  "close_proto_stream s =
     (let s = wp_shutdown (s\<lparr>wp_event_receiver := recv_close (wp_event_receiver s)\<rparr>);
          s = (if \<not> ss_keep_buffer s then s\<lparr>wp_event_sender := buffer_clear (wp_event_sender s)\<rparr> else s) in
      notify_session (close_session_handle (close_service_handle s)))"

definition error_close :: "io_kind \<Rightarrow> substream \<Rightarrow> substream" where
  "error_close error s =
     (let s = s\<lparr>wp_dead := True\<rparr> in
      if error_is_quiet error then s
      else close_proto_stream (s\<lparr>wp_event_sender := buffer_push (PeError (wp_proto_id s) error) (wp_event_sender s)\<rparr>))"

definition distribute_service :: "substream \<Rightarrow> substream" where
  "distribute_service s =
     (case ss_service_proto_sender s of
        None \<Rightarrow> s
      | Some b \<Rightarrow>
          let (r, b) = buffer_try_send b in
          s\<lparr>ss_service_proto_sender := Some b, wp_dead := (wp_dead s \<or> r = BufDisconnect)\<rparr>)"

definition distribute_session :: "substream \<Rightarrow> substream" where
  "distribute_session s =
     (case ss_session_proto_sender s of
        None \<Rightarrow> s
      | Some b \<Rightarrow>
          let (r, b) = buffer_try_send b in
          s\<lparr>ss_session_proto_sender := Some b, wp_dead := (wp_dead s \<or> r = BufDisconnect)\<rparr>)"

definition distribute_to_user_level :: "substream \<Rightarrow> substream" where
  "distribute_to_user_level s =
     (let s = distribute_session (distribute_service s) in if wp_dead s then wp_output s else s)"

text \<open>The number of events that wait for a handle; none without one.\<close>

definition ss_waiting :: "'a buffer option \<Rightarrow> nat" where
  "ss_waiting b = (case b of None \<Rightarrow> 0 | Some b \<Rightarrow> length (bf_buffer b))"

definition deliver :: "bytes \<Rightarrow> substream \<Rightarrow> substream" where
  "deliver data s =
     distribute_to_user_level
       (s\<lparr>ss_session_proto_sender := map_option (buffer_push (SesReceived data)) (ss_session_proto_sender s),
          ss_service_proto_sender := map_option (buffer_push (SvcReceived (cx_id (wp_context s)) data)) (ss_service_proto_sender s)\<rparr>)"

definition recv_frame :: "substream \<Rightarrow> (unit option poll \<times> substream) option" where
  "recv_frame s =
     (if wp_dead s then Some (Ready None, s)
      else (case recv_event_size (wp_config s) of
        None \<Rightarrow> None
      | Some n \<Rightarrow>
          if ss_waiting (ss_service_proto_sender s) > unat n \<or> ss_waiting (ss_session_proto_sender s) > unat n then Some (Pending, s)
          else (case poll_next_unpin (wp_substream s) of
            (Ready (Some (Inr data)), so) \<Rightarrow>
              (let s = s\<lparr>wp_substream := so\<rparr> in
               case ss_before_receive s of
                 None \<Rightarrow> Some (Ready (Some ()), deliver data s)
               | Some f \<Rightarrow>
                   (case f data of
                      Inl err \<Rightarrow> Some (Ready None, error_close err s)
                    | Inr data \<Rightarrow> Some (Ready (Some ()), deliver data s)))
          | (Ready None, so) \<Rightarrow> Some (Ready None, s\<lparr>wp_substream := so, wp_dead := True\<rparr>)
          | (Pending, so) \<Rightarrow> Some (Pending, s\<lparr>wp_substream := so\<rparr>)
          | (Ready (Some (Inl err)), so) \<Rightarrow> Some (Ready None, error_close err (s\<lparr>wp_substream := so\<rparr>)))))"

definition ss_flush :: "substream \<Rightarrow> (io_kind + unit) \<times> substream" where
  "ss_flush s =
     (case ss_poll_complete s of
        (Inl e, s) \<Rightarrow> (Inl e, s)
      | (Inr _, s) \<Rightarrow>
          flush_rest
            (if ss_waiting (ss_service_proto_sender s) \<noteq> 0 \<or> ss_waiting (ss_session_proto_sender s) \<noteq> 0
             then distribute_to_user_level s else s))"

definition ss_poll_next :: "u8 \<Rightarrow> substream \<Rightarrow> (unit option poll \<times> substream) option" where
  "ss_poll_next budget s =
     (if wp_dead s \<or> cx_closed (wp_context s) then Some (Ready None, close_proto_stream s)
      else (case ss_flush s of
        (Inl err, s) \<Rightarrow> Some (Ready None, error_close err s)
      | (Inr _, s) \<Rightarrow>
          if fst (poll_proceed budget) = Pending then Some (Pending, s)
          else (case recv_frame s of
            None \<Rightarrow> None
          | Some (r1, s) \<Rightarrow>
              (case recv_event s of
                 None \<Rightarrow> None
               | Some (r2, s) \<Rightarrow> Some (if r1 = Pending \<and> r2 = Pending then Pending else Ready (Some ()), s)))))"

section \<open>The read part\<close>

record read_part =
  rp_substream :: framed_socket
  rp_before_receive :: "(bytes \<Rightarrow> io_kind + bytes) option"

definition rp_poll_next :: "u8 \<Rightarrow> read_part \<Rightarrow> (io_kind + bytes) option poll \<times> read_part" where
  "rp_poll_next budget r =
     (if fst (poll_proceed budget) = Pending then (Pending, r)
      else (case poll_next_unpin (rp_substream r) of
        (Ready (Some (Inr data)), so) \<Rightarrow>
          (Ready (Some (case rp_before_receive r of None \<Rightarrow> Inr data | Some f \<Rightarrow> f data)), r\<lparr>rp_substream := so\<rparr>)
      | (a, so) \<Rightarrow> (a, r\<lparr>rp_substream := so\<rparr>)))"

section \<open>Builders\<close>

definition write_part_build ::
  "framed_socket \<Rightarrow> stream_id \<Rightarrow> protocol_id \<Rightarrow> session_config \<Rightarrow> protocol_event mpsc_sender \<Rightarrow> protocol_event channel \<Rightarrow>
   session_context \<Rightarrow> write_part" where
  "write_part_build so i p cfg sender receiver context =
     \<lparr>wp_substream = so, wp_id = i, wp_proto_id = p, wp_dead = False, wp_config = cfg, wp_high_write_buf = [],
      wp_write_buf = [], wp_event_sender = buffer_new sender, wp_event_receiver = receiver, wp_context = context,
      wp_spawned = []\<rparr>"

definition substream_build ::
  "framed_socket \<Rightarrow> stream_id \<Rightarrow> protocol_id \<Rightarrow> session_config \<Rightarrow> protocol_event mpsc_sender \<Rightarrow> protocol_event channel \<Rightarrow>
   session_context \<Rightarrow> bool \<Rightarrow> service_proto_event buffer option \<Rightarrow> session_proto_event buffer option \<Rightarrow>
   (bytes \<Rightarrow> io_kind + bytes) option \<Rightarrow> substream" where
  "substream_build so i p cfg sender receiver context keep service session before =
     \<lparr>wp_substream = so, wp_id = i, wp_proto_id = p, wp_dead = False, wp_config = cfg, wp_high_write_buf = [],
      wp_write_buf = [], wp_event_sender = buffer_new sender, wp_event_receiver = receiver, wp_context = context,
      wp_spawned = [], ss_keep_buffer = keep, ss_service_proto_sender = service, ss_session_proto_sender = session,
      ss_before_receive = before, ss_spawned_service = [], ss_spawned_session = []\<rparr>"

end
