(* ===== verification/Substream_Writing.thy ===== *)
theory Substream_Writing
  imports Substream "HOL-Library.Sublist"
begin

text \<open>
  What a poll of a substream makes of the messages of its session: the socket gets them in order within each priority, none
  twice, and the pending data shrink by what the socket got.
\<close>

section \<open>Writing\<close>

definition wbuf :: "priority \<Rightarrow> 'z write_part_scheme \<Rightarrow> bytes list" where
  "wbuf p w = (case p of High \<Rightarrow> wp_high_write_buf w | Normal \<Rightarrow> wp_write_buf w)"

definition wp_out :: "'z write_part_scheme \<Rightarrow> bytes list" where
  "wp_out w = so_out (wp_substream w)"

definition bytes_total :: "bytes list \<Rightarrow> u64" where
  "bytes_total fs = of_nat (sum_list (map length fs))"

lemma bytes_total_simps [simp]: "bytes_total [] = 0" "bytes_total (f # fs) = of_nat (length f) + bytes_total fs" "bytes_total (fs @ gs) = bytes_total fs + bytes_total gs"
  by (simp_all add: bytes_total_def)

text \<open>What writing leaves alone, and what it takes from the pending data.\<close>

definition ss_writes :: "bytes list \<Rightarrow> 'z write_part_scheme \<Rightarrow> 'z write_part_scheme \<Rightarrow> bool" where
  "ss_writes fs w w' \<longleftrightarrow> wp_out w' = wp_out w @ fs \<and> so_in (wp_substream w') = so_in (wp_substream w) \<and>
     wp_context w' = (wp_context w)\<lparr>cx_pending_data_size := cx_pending_data_size (wp_context w) - bytes_total fs\<rparr> \<and>
     wp_id w' = wp_id w \<and> wp_proto_id w' = wp_proto_id w \<and> wp_dead w' = wp_dead w \<and> wp_config w' = wp_config w \<and>
     wp_event_sender w' = wp_event_sender w \<and> wp_event_receiver w' = wp_event_receiver w \<and> wp_spawned w' = wp_spawned w \<and>
     write_part.more w' = write_part.more w"

lemma writes_refl [simp]: "ss_writes [] w w"
  by (simp add: ss_writes_def)

lemma writes_trans: "ss_writes fs w w1 \<Longrightarrow> ss_writes gs w1 w2 \<Longrightarrow> ss_writes (fs @ gs) w w2"
  by (simp add: ss_writes_def diff_diff_eq)

lemma writes_buf [simp]:
  "ss_writes fs (w\<lparr>wp_high_write_buf := a\<rparr>) w' = ss_writes fs w w'" "ss_writes fs (w\<lparr>wp_write_buf := a\<rparr>) w' = ss_writes fs w w'"
  by (simp_all add: ss_writes_def wp_out_def)

lemma poll_complete_writes:
  assumes "ss_poll_complete w = (r, w')"
  shows "ss_writes [] w w' \<and> wbuf p w' = wbuf p w"
  using assms
  by (auto simp: ss_poll_complete_def poll_flush_unpin_def ss_writes_def wp_out_def wbuf_def split: list.splits poll.splits sum.splits priority.splits)

lemma send_inner_cases:
  assumes "send_inner f p w = (r, w')"
  shows "case r of
      Inr False \<Rightarrow> ss_writes [f] w w' \<and> (\<forall>q. wbuf q w' = wbuf q w)
    | Inr True \<Rightarrow> ss_writes [] w w' \<and> (\<forall>q. wbuf q w' = (if q = p then [f] else []) @ wbuf q w)
    | Inl _ \<Rightarrow> ss_writes [] w w'"
proof (cases "poll_ready_unpin (wp_substream w)")
  case (Pair a so)
  then have so: "so_out so = so_out (wp_substream w)" "so_in so = so_in (wp_substream w)"
    by (auto simp: poll_ready_unpin_def split: list.splits)
  show ?thesis
  proof (cases a)
    case Pending
    obtain r1 w1 where c: "ss_poll_complete (push_front p f (w\<lparr>wp_substream := so\<rparr>)) = (r1, w1)" by force
    have b: "ss_writes [] w (push_front p f (w\<lparr>wp_substream := so\<rparr>))"
      using so by (simp add: push_front_def ss_writes_def wp_out_def)
    have "wbuf q (push_front p f (w\<lparr>wp_substream := so\<rparr>)) = (if q = p then [f] else []) @ wbuf q w" for q
      by (cases p; cases q) (simp_all add: push_front_def wbuf_def)
    with poll_complete_writes [OF c] writes_trans [OF b] assms Pair Pending c show ?thesis
      by (auto simp: send_inner_def split: sum.splits)
  next
    case (Ready x)
    show ?thesis
    proof (cases x)
      case (Inl e)
      with assms Pair Ready so show ?thesis by (auto simp: send_inner_def ss_writes_def wp_out_def)
    next
      case (Inr u)
      obtain r1 so1 where s: "start_send_unpin f so = (r1, so1)" by force
      then have "so_in so1 = so_in so" "so_out so1 = so_out so @ (if r1 = Inr () then [f] else [])"
        by (auto simp: start_send_unpin_def split: list.splits sum.splits)
      with assms Pair Ready Inr s so show ?thesis
        by (auto simp: send_inner_def ss_writes_def wp_out_def wbuf_def decr_pending_data_size_def split: sum.splits priority.splits)
    qed
  qed
qed

lemma send_frames_writes:
  assumes "send_frames p fs w = (r, w')" and "wbuf p w = fs"
  shows "\<exists>sent rest. fs = sent @ rest \<and> ss_writes sent w w' \<and> (\<not> isl r \<longrightarrow> wbuf p w' = rest \<and> (\<forall>q. q \<noteq> p \<longrightarrow> wbuf q w' = wbuf q w)) \<and>
    (r = Inr False \<longrightarrow> rest = [])"
  using assms
proof (induction fs arbitrary: w)
  case Nil
  then show ?case by (intro exI [of _ "[]"]) auto
next
  case (Cons f fs)
  define v where "v = (if is_high p then w\<lparr>wp_high_write_buf := fs\<rparr> else w\<lparr>wp_write_buf := fs\<rparr>)"
  have v: "wbuf p v = fs" "q \<noteq> p \<Longrightarrow> wbuf q v = wbuf q w" "ss_writes gs v x = ss_writes gs w x" for q gs x
    by (cases p; cases q; simp add: v_def wbuf_def)+
  obtain r1 w1 where s: "send_inner f p v = (r1, w1)" by force
  note c = send_inner_cases [OF s]
  show ?case
  proof (cases "r1 = Inr False")
    case True
    with c v have 1: "ss_writes [f] w w1" "wbuf p w1 = fs" "\<And>q. q \<noteq> p \<Longrightarrow> wbuf q w1 = wbuf q w" by auto
    from True s Cons.prems(1) have "send_frames p fs w1 = (r, w')" by (simp add: v_def)
    from Cons.IH [OF this 1(2)] obtain sent rest where 2: "fs = sent @ rest" "ss_writes sent w1 w'"
      "\<not> isl r \<longrightarrow> wbuf p w' = rest \<and> (\<forall>q. q \<noteq> p \<longrightarrow> wbuf q w' = wbuf q w1)" "r = Inr False \<longrightarrow> rest = []" by blast
    with 1 writes_trans [OF 1(1) 2(2)] show ?thesis by (intro exI [of _ "f # sent"] exI [of _ rest]) auto
  next
    case False
    with s Cons.prems(1) have "w' = w1" "r = r1" by (auto simp: v_def split: sum.splits bool.splits)
    with c v False show ?thesis
      by (intro exI [of _ "[]"] exI [of _ "f # fs"]) (auto split: sum.splits bool.splits)
  qed
qed

text \<open>\<^verbatim>\<open>send_data\<close> writes a prefix of the high buffer, and of the other one when the high buffer is written.\<close>

lemma send_data_writes:
  assumes "ss_send_data w = (r, w')"
  shows "\<exists>H N Hr Nr. wbuf High w = H @ Hr \<and> wbuf Normal w = N @ Nr \<and> ss_writes (H @ N) w w' \<and> (N \<noteq> [] \<longrightarrow> Hr = []) \<and>
    (r = Inr () \<longrightarrow> wbuf High w' = Hr \<and> wbuf Normal w' = Nr)"
proof -
  obtain r1 w1 where s1: "send_frames High (wbuf High w) w = (r1, w1)" by force
  from send_frames_writes [OF s1 refl] obtain H Hr where
    1: "wbuf High w = H @ Hr" "ss_writes H w w1" "\<not> isl r1 \<longrightarrow> wbuf High w1 = Hr \<and> (\<forall>q. q \<noteq> High \<longrightarrow> wbuf q w1 = wbuf q w)"
      "r1 = Inr False \<longrightarrow> Hr = []" by blast
  show ?thesis
  proof (cases "r1 = Inr False")
    case False
    with assms s1 have "w' = w1" "r = Inr () \<longrightarrow> \<not> isl r1" by (auto simp: ss_send_data_def wbuf_def split: sum.splits bool.splits)
    with 1 show ?thesis by (intro exI [of _ H] exI [of _ "[]"] exI [of _ Hr] exI [of _ "wbuf Normal w"]) auto
  next
    case True
    with 1 have 1: "wbuf High w = H" "ss_writes H w w1" "wbuf High w1 = []" "wbuf Normal w1 = wbuf Normal w" by auto
    obtain r2 w2 where s2: "send_frames Normal (wbuf Normal w1) w1 = (r2, w2)" by force
    from send_frames_writes [OF s2 refl] obtain N Nr where
      2: "wbuf Normal w1 = N @ Nr" "ss_writes N w1 w2" "\<not> isl r2 \<longrightarrow> wbuf Normal w2 = Nr \<and> (\<forall>q. q \<noteq> Normal \<longrightarrow> wbuf q w2 = wbuf q w1)"
        "r2 = Inr False \<longrightarrow> Nr = []" by blast
    obtain r3 w3 where s3: "ss_poll_complete w2 = (r3, w3)" by force
    have "(w' = w2 \<or> w' = w3) \<and> (r = Inr () \<longrightarrow> \<not> isl r2)"
      using assms s1 s2 s3 True by (auto simp: ss_send_data_def wbuf_def split: sum.splits bool.splits)
    moreover have "ss_writes [] w2 w3" "\<And>p. wbuf p w3 = wbuf p w2" using poll_complete_writes [OF s3] by auto
    ultimately have 3: "ss_writes [] w2 w'" "\<And>p. wbuf p w' = wbuf p w2" "r = Inr () \<longrightarrow> \<not> isl r2" by auto
    have "ss_writes (H @ N) w w'" using writes_trans [OF writes_trans [OF 1(2) 2(2)] 3(1)] by simp
    moreover have "r = Inr () \<longrightarrow> wbuf High w' = [] \<and> wbuf Normal w' = Nr" using 1(3) 2(3) 3(2,3) by simp
    ultimately show ?thesis
      by (intro exI [of _ H] exI [of _ N] exI [of _ "[]"] exI [of _ Nr]) (use 1(1,4) 2(1) in simp)
  qed
qed

section \<open>Messages in order\<close>

fun msgs :: "protocol_event list \<Rightarrow> bytes list" where
  "msgs [] = []"
| "msgs (e # es) = (case e of PeMessage data \<Rightarrow> data # msgs es | _ \<Rightarrow> msgs es)"

lemma msgs_append [simp]: "msgs (xs @ ys) = msgs xs @ msgs ys"
  by (induction xs) (auto split: protocol_event.splits)

lemma shuffles_snoc_left: "zs \<in> shuffles xs ys \<Longrightarrow> zs @ [a] \<in> shuffles (xs @ [a]) ys"
proof (induction xs ys arbitrary: zs rule: shuffles.induct)
  case (1 ys)
  have "ys @ [a] \<in> shuffles [a] ys" by (induction ys) (auto intro: Cons_in_shuffles_rightI)
  with 1 show ?case by simp
next
  case (2 xs)
  then show ?case by simp
next
  case (3 x xs y ys)
  then show ?case by auto
qed

lemma shuffles_append_left: "zs \<in> shuffles xs ys \<Longrightarrow> zs @ as \<in> shuffles (xs @ as) ys"
proof (induction as arbitrary: zs xs)
  case (Cons a as)
  from Cons.IH [OF shuffles_snoc_left [OF Cons.prems, of a]] show ?case by simp
qed simp

lemma shuffles_append: "zs \<in> shuffles xs ys \<Longrightarrow> zs @ as @ bs \<in> shuffles (xs @ as) (ys @ bs)"
  using shuffles_append_left [of "zs @ as" ys "xs @ as" bs] shuffles_append_left [of zs xs ys as] by (simp add: shuffles_commutes)

text \<open>\<open>A p\<close> are the messages of priority \<open>p\<close> that the session sent. What the socket was given is a merge of beginnings of
  the two, and while the substream lives, the rest is in its buffers and in the channel.\<close>

definition queue_msgs :: "priority \<Rightarrow> 'z write_part_scheme \<Rightarrow> bytes list" where
  "queue_msgs p w = msgs (chan_queue p (wp_event_receiver w))"

definition in_order :: "(priority \<Rightarrow> bytes list) \<Rightarrow> 'z write_part_scheme \<Rightarrow> bool" where
  "in_order A w \<longleftrightarrow> (\<exists>H N. wp_out w \<in> shuffles H N \<and> prefix H (A High) \<and> prefix N (A Normal))"

definition ss_in_step :: "(priority \<Rightarrow> bytes list) \<Rightarrow> 'z write_part_scheme \<Rightarrow> bool" where
  "ss_in_step A w \<longleftrightarrow> (\<exists>H N. wp_out w \<in> shuffles H N \<and> A High = H @ wbuf High w @ queue_msgs High w \<and>
     A Normal = N @ wbuf Normal w @ queue_msgs Normal w)"

text \<open>What is pending and what was written add up.\<close>

definition balance :: "'z write_part_scheme \<Rightarrow> u64" where
  "balance w = cx_pending_data_size (wp_context w) + bytes_total (wp_out w)"

lemma in_step_in_order: "ss_in_step A w \<Longrightarrow> in_order A w"
  unfolding ss_in_step_def in_order_def by (metis prefixI)

lemma writes_balance: "ss_writes fs w w' \<Longrightarrow> balance w' = balance w"
  by (simp add: ss_writes_def balance_def)

lemma send_data_in_step:
  assumes "ss_send_data w = (r, w')" and "ss_in_step A w"
  shows "in_order A w'" and "r = Inr () \<Longrightarrow> ss_in_step A w'"
proof -
  from send_data_writes [OF assms(1)] obtain H N Hr Nr where
    1: "wbuf High w = H @ Hr" "wbuf Normal w = N @ Nr" "ss_writes (H @ N) w w'" "r = Inr () \<longrightarrow> wbuf High w' = Hr \<and> wbuf Normal w' = Nr" by blast
  from assms(2) obtain H0 N0 where 2: "wp_out w \<in> shuffles H0 N0" "A High = H0 @ wbuf High w @ queue_msgs High w"
    "A Normal = N0 @ wbuf Normal w @ queue_msgs Normal w" by (auto simp: ss_in_step_def)
  have o: "wp_out w' \<in> shuffles (H0 @ H) (N0 @ N)" using 1(3) shuffles_append [OF 2(1), of H N] by (simp add: ss_writes_def)
  have q: "queue_msgs p w' = queue_msgs p w" for p using 1(3) by (simp add: ss_writes_def queue_msgs_def)
  show "in_order A w'"
    unfolding in_order_def by (rule exI [of _ "H0 @ H"], rule exI [of _ "N0 @ N"]) (use o 1 2 in \<open>auto simp: prefix_def\<close>)
  show "ss_in_step A w'" if "r = Inr ()"
    unfolding ss_in_step_def by (rule exI [of _ "H0 @ H"], rule exI [of _ "N0 @ N"]) (use o q 1 2 that in auto)
qed

text \<open>Everything else leaves the messages alone; the channel may be closed.\<close>

definition still :: "'z write_part_scheme \<Rightarrow> 'z write_part_scheme \<Rightarrow> bool" where
  "still w w' \<longleftrightarrow> wp_out w' = wp_out w \<and> (\<forall>p. wbuf p w' = wbuf p w) \<and> wp_context w' = wp_context w \<and> wp_config w' = wp_config w \<and>
     (\<exists>n. wp_event_receiver w' = (recv_close ^^ n) (wp_event_receiver w))"

lemma still_refl [simp]: "still w w"
  by (auto simp: still_def intro: exI [of _ 0])

lemma still_trans [trans]: "still w w1 \<Longrightarrow> still w1 w2 \<Longrightarrow> still w w2"
  unfolding still_def by (metis (no_types, lifting) funpow_add comp_apply)

lemma recv_close_funpow_queue: "chan_queue p ((recv_close ^^ n) ch) = chan_queue p ch"
  by (induction n) (simp_all add: close_queue)

lemma still_queue: "still w w' \<Longrightarrow> queue_msgs p w' = queue_msgs p w"
  unfolding still_def queue_msgs_def using recv_close_funpow_queue by metis

lemma still_in_step: "still w w' \<Longrightarrow> ss_in_step A w' = ss_in_step A w"
  by (simp add: ss_in_step_def still_queue) (simp add: still_def)

lemma still_in_order: "still w w' \<Longrightarrow> in_order A w' = in_order A w"
  by (auto simp: still_def in_order_def)

lemma still_balance: "still w w' \<Longrightarrow> balance w' = balance w"
  by (simp add: still_def balance_def)

lemma still_updates:
  "still w (w\<lparr>wp_dead := d\<rparr>)" "still w (w\<lparr>wp_event_sender := b\<rparr>)" "still w (w\<lparr>wp_event_sender := b, wp_dead := d\<rparr>)"
  "still w (w\<lparr>wp_event_sender := b, wp_spawned := sp\<rparr>)"
  "still w (w\<lparr>wp_event_receiver := recv_close (wp_event_receiver w)\<rparr>)"
  by (auto simp: still_def wp_out_def wbuf_def split: priority.splits intro: exI [of _ 0] exI [of _ 1])

lemma wp_output_still: "still w (wp_output w)"
  by (auto simp: wp_output_def still_updates split: prod.splits send_result.splits)

lemma wp_output_event_still: "still w (wp_output_event e w)"
  unfolding wp_output_event_def by (rule still_trans [OF still_updates(2) wp_output_still])

lemma wp_shutdown_still: "still w (wp_shutdown w)"
  by (auto simp: wp_shutdown_def still_def poll_close_unpin_def wp_out_def wbuf_def split: list.splits priority.splits intro: exI [of _ 0])

lemma notify_session_still: "still w (notify_session w)"
  by (auto simp: notify_session_def wp_output_still still_updates split: prod.splits)

lemma wp_close_proto_stream_still: "still w (wp_close_proto_stream w)"
  unfolding wp_close_proto_stream_def
  by (rule still_trans [OF still_updates(5) still_trans [OF wp_shutdown_still notify_session_still]])

lemma wp_error_close_still: "still w (wp_error_close e w)"
proof -
  have "still w (w\<lparr>wp_dead := True\<rparr>)" by (rule still_updates)
  also have "still \<dots> (w\<lparr>wp_dead := True, wp_event_sender := b\<rparr>)" for b by (rule still_updates)
  finally show ?thesis
    using still_trans [OF _ wp_close_proto_stream_still] by (auto simp: wp_error_close_def Let_def still_updates)
qed

text \<open>The substream with its handles.\<close>

lemma handle_updates_still:
  "still s (close_service_handle s)" "still s (close_session_handle s)" "still s (distribute_service s)" "still s (distribute_session s)"
  "still s (s\<lparr>ss_session_proto_sender := a, ss_service_proto_sender := b\<rparr>)"
  by (auto simp: close_service_handle_def close_session_handle_def distribute_service_def distribute_session_def still_def wp_out_def
      wbuf_def split: option.splits prod.splits priority.splits intro: exI [of _ 0])

lemma close_proto_stream_still: "still s (close_proto_stream s)"
proof -
  let ?s = "wp_shutdown (s\<lparr>wp_event_receiver := recv_close (wp_event_receiver s)\<rparr>)"
  have "still s ?s" by (rule still_trans [OF still_updates(5) wp_shutdown_still])
  also have "still ?s (if b then ?s\<lparr>wp_event_sender := e\<rparr> else ?s)" for b e by (simp add: still_updates)
  also have "still x (notify_session (close_session_handle (close_service_handle x)))" for x
    by (rule still_trans [OF still_trans [OF handle_updates_still(1,2)] notify_session_still])
  finally show ?thesis unfolding close_proto_stream_def Let_def .
qed

lemma error_close_still: "still s (error_close e s)"
proof -
  have "still s (s\<lparr>wp_dead := True\<rparr>)" by (rule still_updates)
  also have "still \<dots> (s\<lparr>wp_dead := True, wp_event_sender := b\<rparr>)" for b by (rule still_updates)
  finally show ?thesis
    using still_trans [OF _ close_proto_stream_still] by (auto simp: error_close_def Let_def still_updates)
qed

lemma distribute_still: "still s (distribute_to_user_level s)"
  using still_trans [OF still_trans [OF handle_updates_still(3,4)] wp_output_still] still_trans [OF handle_updates_still(3,4)]
  by (simp add: distribute_to_user_level_def Let_def)

lemma deliver_still: "still s (deliver d s)"
  unfolding deliver_def by (rule still_trans [OF handle_updates_still(5) distribute_still])

lemma socket_still: "so_out so = so_out (wp_substream w) \<Longrightarrow> still w (w\<lparr>wp_substream := so\<rparr>)"
  by (auto simp: still_def wp_out_def wbuf_def split: priority.splits intro: exI [of _ 0])

lemma poll_next_unpin_out: "poll_next_unpin so = (a, so') \<Longrightarrow> so_out so' = so_out so"
  by (auto simp: poll_next_unpin_def split: list.splits)

lemma recv_frame_still:
  assumes "recv_frame s = Some (r, s')"
  shows "still s s'"
proof (cases "wp_dead s \<or> s' = s")
  case True
  with assms show ?thesis by (auto simp: recv_frame_def)
next
  case False
  obtain a so where p: "poll_next_unpin (wp_substream s) = (a, so)" by force
  let ?s = "s\<lparr>wp_substream := so\<rparr>"
  have 1: "still s ?s" by (rule socket_still) (rule poll_next_unpin_out [OF p])
  have "still ?s s'"
    using assms False p
    by (auto simp: recv_frame_def Let_def error_close_still deliver_still still_updates split: option.splits if_splits poll.splits sum.splits)
  with 1 show ?thesis by (rule still_trans)
qed

section \<open>Polling\<close>

text \<open>What a step makes of the messages: they stay in order, and in step unless the substream dies.\<close>

definition keeps_order :: "'z write_part_scheme \<Rightarrow> 'z write_part_scheme \<Rightarrow> bool" where
  "keeps_order w w' \<longleftrightarrow> balance w' = balance w \<and> (\<forall>A. in_order A w \<longrightarrow> (wp_dead w \<or> ss_in_step A w) \<longrightarrow> in_order A w' \<and> (wp_dead w' \<or> ss_in_step A w'))"

lemma still_keeps: "still w w' \<Longrightarrow> (wp_dead w \<Longrightarrow> wp_dead w') \<Longrightarrow> keeps_order w w'"
  by (auto simp: keeps_order_def still_balance still_in_order still_in_step)

lemma push_back_in_step:
  assumes "ss_in_step A w" and "\<And>q. chan_queue q (wp_event_receiver w) = (if q = p then [PeMessage data] else []) @ chan_queue q ch"
  shows "ss_in_step A (push_back p data (w\<lparr>wp_event_receiver := ch\<rparr>))"
proof -
  let ?v = "push_back p data (w\<lparr>wp_event_receiver := ch\<rparr>)"
  have "wbuf q ?v @ queue_msgs q ?v = wbuf q w @ queue_msgs q w" for q
    unfolding queue_msgs_def assms(2) by (cases p; cases q) (simp_all add: push_back_def wbuf_def)
  moreover have "wp_out ?v = wp_out w" by (simp add: push_back_def wp_out_def)
  ultimately show ?thesis using assms(1) by (simp add: ss_in_step_def)
qed

lemma other_event_in_step:
  assumes "ss_in_step A w" and "\<And>q. chan_queue q (wp_event_receiver w) = (if q = p then [e] else []) @ chan_queue q ch" and "msgs [e] = []"
  shows "ss_in_step A (w\<lparr>wp_event_receiver := ch\<rparr>)"
proof -
  let ?v = "w\<lparr>wp_event_receiver := ch\<rparr>"
  have "queue_msgs q ?v = queue_msgs q w" for q
    unfolding queue_msgs_def assms(2) using assms(3) by (simp del: msgs.simps(2))
  then show ?thesis using assms(1) by (simp add: ss_in_step_def wp_out_def wbuf_def)
qed

lemma push_back_balance: "balance (push_back p data (w\<lparr>wp_event_receiver := ch\<rparr>)) = balance w"
  by (simp add: push_back_def balance_def wp_out_def)

lemma failed_write_still: "still w ((wp_output_event e w)\<lparr>wp_dead := True\<rparr>)"
  by (rule still_trans [OF wp_output_event_still still_updates(1)])

lemma handle_proto_event_balance: "balance (handle_proto_event e p (w\<lparr>wp_event_receiver := ch\<rparr>)) = balance w"
proof (cases e)
  case (PeMessage data)
  obtain r w1 where s: "ss_send_data (push_back p data (w\<lparr>wp_event_receiver := ch\<rparr>)) = (r, w1)" by force
  from send_data_writes [OF s] have "balance w1 = balance w" using writes_balance push_back_balance by metis
  with s PeMessage show ?thesis by (auto simp: handle_proto_event_def still_balance [OF failed_write_still] split: sum.splits)
qed (simp_all add: handle_proto_event_def balance_def wp_out_def)

lemma handle_proto_event_keeps:
  assumes q: "\<And>q. chan_queue q (wp_event_receiver w) = (if q = p then [e] else []) @ chan_queue q ch" and "ss_in_step A w"
  shows "in_order A (handle_proto_event e p (w\<lparr>wp_event_receiver := ch\<rparr>)) \<and>
    (wp_dead (handle_proto_event e p (w\<lparr>wp_event_receiver := ch\<rparr>)) \<or> ss_in_step A (handle_proto_event e p (w\<lparr>wp_event_receiver := ch\<rparr>)))"
proof (cases "\<exists>data. e = PeMessage data")
  case True
  then obtain data where e: "e = PeMessage data" by blast
  let ?v = "push_back p data (w\<lparr>wp_event_receiver := ch\<rparr>)"
  have v: "ss_in_step A ?v" using assms push_back_in_step e by blast
  obtain r w1 where s: "ss_send_data ?v = (r, w1)" by force
  show ?thesis
    using s e send_data_in_step [OF s v]
    by (auto simp: handle_proto_event_def still_in_order [OF failed_write_still] split: sum.splits)
next
  case False
  then have m: "msgs [e] = []" by (cases e) auto
  note i = other_event_in_step [OF assms(2) q m]
  have c: "in_order A (w\<lparr>wp_event_receiver := ch, wp_write_buf := [], wp_dead := True\<rparr>)"
    using in_step_in_order [OF i] by (simp add: in_order_def wp_out_def)
  with False in_step_in_order [OF i] i show ?thesis by (cases e) (auto simp: handle_proto_event_def in_order_def wp_out_def)
qed

lemma recv_event_keeps:
  assumes "recv_event w = Some (r, w')"
  shows "keeps_order w w'"
proof (cases "wp_dead w \<or> w' = w")
  case True
  with assms show ?thesis by (auto simp: recv_event_def intro: still_keeps)
next
  case False
  then obtain a ch where p: "recv_poll_next (wp_event_receiver w) = Some (a, ch)"
    using assms by (auto simp: recv_event_def split: option.splits if_splits)
  note q = recv_poll_next_queue [OF p]
  show ?thesis
  proof (cases "\<exists>x. a = Ready (Some x)")
    case True
    then obtain pr e where a: "a = Ready (Some (pr, e))" by auto
    have w': "w' = handle_proto_event e pr (w\<lparr>wp_event_receiver := ch\<rparr>)"
      using assms False p a by (auto simp: recv_event_def split: option.splits if_splits)
    have "chan_queue x (wp_event_receiver w) = (if x = pr then [e] else []) @ chan_queue x ch" for x
      using q [of x] a by auto
    from handle_proto_event_keeps [OF this] show ?thesis
      unfolding w' keeps_order_def using False handle_proto_event_balance by blast
  next
    case none: False
    let ?v = "w\<lparr>wp_event_receiver := ch\<rparr>"
    have "chan_queue x ch = chan_queue x (wp_event_receiver w)" for x using q [of x] none by (auto split: poll.splits option.splits)
    then have v: "ss_in_step A ?v = ss_in_step A w" "in_order A ?v = in_order A w" "balance ?v = balance w" for A
      by (simp_all add: ss_in_step_def in_order_def queue_msgs_def balance_def wp_out_def wbuf_def)
    have "w' = ?v \<or> w' = wp_shutdown (?v\<lparr>wp_dead := True\<rparr>)"
      using assms False p none by (auto simp: recv_event_def split: option.splits if_splits poll.splits)
    moreover have st: "still ?v (wp_shutdown (?v\<lparr>wp_dead := True\<rparr>))" by (rule still_trans [OF still_updates(1) wp_shutdown_still])
    have "wp_dead (wp_shutdown (?v\<lparr>wp_dead := True\<rparr>))" by (simp add: wp_shutdown_def)
    ultimately show ?thesis
      using v False still_in_step [OF st] still_in_order [OF st] still_balance [OF st] unfolding keeps_order_def by auto
  qed
qed

text \<open>A dead substream stays dead.\<close>

lemma wp_output_dead: "wp_dead w \<Longrightarrow> wp_dead (wp_output w)"
  by (auto simp: wp_output_def split: prod.splits send_result.splits)

lemma close_dead:
  "wp_dead w \<Longrightarrow> wp_dead (wp_close_proto_stream w)" "wp_dead s \<Longrightarrow> wp_dead (close_proto_stream s)"
  by (auto simp: wp_close_proto_stream_def close_proto_stream_def notify_session_def close_service_handle_def close_session_handle_def
      wp_shutdown_def Let_def buffer_take_def intro!: wp_output_dead split: option.splits)

lemma error_close_dead: "wp_dead (wp_error_close e w)" "wp_dead (error_close e s)"
  by (simp_all add: wp_error_close_def error_close_def Let_def close_dead)

lemma distribute_dead: "wp_dead s \<Longrightarrow> wp_dead (distribute_to_user_level s)"
  by (auto simp: distribute_to_user_level_def distribute_service_def distribute_session_def Let_def intro!: wp_output_dead
      split: option.splits prod.splits)

lemma recv_frame_dead: "recv_frame s = Some (r, s') \<Longrightarrow> wp_dead s \<Longrightarrow> wp_dead s'"
  by (auto simp: recv_frame_def)

lemma flush_rest_keeps:
  assumes "flush_rest w = (r, w')"
  shows "balance w' = balance w" and "ss_in_step A w \<Longrightarrow> in_order A w'" and "ss_in_step A w \<Longrightarrow> r = Inr () \<Longrightarrow> ss_in_step A w'"
proof -
  note o = still_in_step [OF wp_output_still] still_balance [OF wp_output_still]
  have s: "w' = w \<and> r = Inr () \<or> ss_send_data (wp_output w) = (r, w')" using assms by (auto simp: flush_rest_def split: if_splits)
  then show "balance w' = balance w" using send_data_writes [of "wp_output w" r w'] writes_balance o(2) by metis
  show "in_order A w'" "r = Inr () \<Longrightarrow> ss_in_step A w'" if "ss_in_step A w"
    using s send_data_in_step [of "wp_output w" r w'] that o(1) in_step_in_order by blast+
qed

lemma poll_complete_still: "ss_poll_complete w = (r, w') \<Longrightarrow> still w w'"
  using poll_complete_writes [of w r w'] by (auto simp: still_def ss_writes_def intro: exI [of _ 0])

lemma flush_keeps:
  assumes "w' = w1 \<and> isl r \<or> flush_rest w2 = (r, w')" and 1: "still w w1" and 2: "still w w2"
  shows "balance w' = balance w" and "ss_in_step A w \<Longrightarrow> in_order A w'" and "ss_in_step A w \<Longrightarrow> r = Inr () \<Longrightarrow> ss_in_step A w'"
proof (atomize (full), use assms(1) in \<open>elim disjE conjE\<close>)
  assume "w' = w1" and "isl r"
  then show "balance w' = balance w \<and> (ss_in_step A w \<longrightarrow> in_order A w') \<and> (ss_in_step A w \<longrightarrow> r = Inr () \<longrightarrow> ss_in_step A w')"
    using still_balance [OF 1] still_in_order [OF 1] in_step_in_order by auto
next
  assume "flush_rest w2 = (r, w')"
  from flush_rest_keeps [OF this]
  show "balance w' = balance w \<and> (ss_in_step A w \<longrightarrow> in_order A w') \<and> (ss_in_step A w \<longrightarrow> r = Inr () \<longrightarrow> ss_in_step A w')"
    using still_balance [OF 2] still_in_step [OF 2] by auto
qed

lemma wp_flush_cases:
  assumes "wp_flush w = (r, w')"
  obtains w1 w2 where "w' = w1 \<and> isl r \<or> flush_rest w2 = (r, w')" and "still w w1" and "still w w2"
proof -
  obtain r1 w1 where c: "ss_poll_complete w = (r1, w1)" by force
  have "w' = w1 \<and> isl r \<or> flush_rest w1 = (r, w')" using assms c by (auto simp: wp_flush_def split: sum.splits)
  then show thesis using that poll_complete_still [OF c] by blast
qed

lemma ss_flush_cases:
  assumes "ss_flush s = (r, s')"
  obtains s1 s2 where "s' = s1 \<and> isl r \<or> flush_rest s2 = (r, s')" and "still s s1" and "still s s2"
proof -
  obtain r1 s1 where c: "ss_poll_complete s = (r1, s1)" by force
  define s2 where "s2 = (if ss_waiting (ss_service_proto_sender s1) \<noteq> 0 \<or> ss_waiting (ss_session_proto_sender s1) \<noteq> 0 then distribute_to_user_level s1 else s1)"
  have 1: "still s s1" by (rule poll_complete_still [OF c])
  have 2: "still s s2" unfolding s2_def using still_trans [OF 1 distribute_still] 1 by simp
  have "s' = s1 \<and> isl r \<or> flush_rest s2 = (r, s')" using assms c by (auto simp: ss_flush_def s2_def split: sum.splits)
  then show thesis using that 1 2 by blast
qed

lemma keeps_trans: "keeps_order w w1 \<Longrightarrow> keeps_order w1 w2 \<Longrightarrow> keeps_order w w2"
  unfolding keeps_order_def by metis

lemma flushed_keeps:
  assumes "\<not> wp_dead w" and "balance w1 = balance w" and "\<And>A. ss_in_step A w \<Longrightarrow> ss_in_step A w1"
  shows "keeps_order w w1"
  using assms in_step_in_order by (auto simp: keeps_order_def)

lemma failed_keeps:
  assumes "\<not> wp_dead w" and "balance w1 = balance w" and "\<And>A. ss_in_step A w \<Longrightarrow> in_order A w1" and "still w1 w2" and "wp_dead w2"
  shows "keeps_order w w2"
  using assms still_in_order [OF assms(4)] still_balance [OF assms(4)] by (auto simp: keeps_order_def)

lemma wp_poll_next_keeps:
  assumes "wp_poll_next b w = Some (r, w')"
  shows "keeps_order w w'"
proof (cases "wp_dead w \<or> cx_closed (wp_context w)")
  case True
  with assms have "w' = wp_close_proto_stream w" by (simp add: wp_poll_next_def)
  then show ?thesis by (simp add: still_keeps wp_close_proto_stream_still close_dead)
next
  case False
  obtain r1 w1 where f: "wp_flush w = (r1, w1)" by force
  from wp_flush_cases [OF f] obtain v1 v2 where "w1 = v1 \<and> isl r1 \<or> flush_rest v2 = (r1, w1)" "still w v1" "still w v2" by blast
  note k = flush_keeps [OF this]
  show ?thesis
  proof (cases r1)
    case (Inl e)
    with assms False f have "w' = wp_error_close e w1" by (simp add: wp_poll_next_def)
    then show ?thesis using failed_keeps [OF _ k(1,2) wp_error_close_still] error_close_dead(1) False by auto
  next
    case (Inr u)
    then have "keeps_order w w1" using flushed_keeps [OF _ k(1)] k(3) False by auto
    moreover have "w' = w1 \<or> (\<exists>r2. recv_event w1 = Some (r2, w'))"
      using assms False f Inr by (auto simp: wp_poll_next_def split: if_splits option.splits)
    ultimately show ?thesis using keeps_trans recv_event_keeps by blast
  qed
qed

lemma ss_poll_next_keeps:
  assumes "ss_poll_next b s = Some (r, s')"
  shows "keeps_order s s'"
proof (cases "wp_dead s \<or> cx_closed (wp_context s)")
  case True
  with assms have "s' = close_proto_stream s" by (simp add: ss_poll_next_def)
  then show ?thesis by (simp add: still_keeps close_proto_stream_still close_dead)
next
  case False
  obtain r1 s1 where f: "ss_flush s = (r1, s1)" by force
  from ss_flush_cases [OF f] obtain v1 v2 where "s1 = v1 \<and> isl r1 \<or> flush_rest v2 = (r1, s1)" "still s v1" "still s v2" by blast
  note k = flush_keeps [OF this]
  show ?thesis
  proof (cases r1)
    case (Inl e)
    with assms False f have "s' = error_close e s1" by (simp add: ss_poll_next_def)
    then show ?thesis using failed_keeps [OF _ k(1,2) error_close_still] error_close_dead(2) False by auto
  next
    case (Inr u)
    then have 1: "keeps_order s s1" using flushed_keeps [OF _ k(1)] k(3) False by auto
    have "s' = s1 \<or> (\<exists>r2 s2 r3. recv_frame s1 = Some (r2, s2) \<and> recv_event s2 = Some (r3, s'))"
      using assms False f Inr by (auto simp: ss_poll_next_def split: if_splits option.splits)
    then show ?thesis
    proof (elim disjE exE conjE)
      fix r2 s2 r3
      assume 2: "recv_frame s1 = Some (r2, s2)" and 3: "recv_event s2 = Some (r3, s')"
      have "keeps_order s1 s2" by (rule still_keeps [OF recv_frame_still [OF 2] recv_frame_dead [OF 2]])
      then show ?thesis using 1 recv_event_keeps [OF 3] keeps_trans by blast
    qed (use 1 in simp)
  qed
qed

end
