(* ===== verification/Substream_Safety.thy ===== *)
theory Substream_Safety
  imports Substream_Writing
begin

text \<open>
  The substream between its session and its socket over whole runs: messages of one priority are written in the order in
  which the session sent them, polling never panics, the handles get the frames of the socket in order, and what a
  substream tells of its end.
\<close>

section \<open>Polling does not panic\<close>

definition sub_ok :: "nat \<Rightarrow> 'z write_part_scheme \<Rightarrow> bool" where
  "sub_ok k w \<longleftrightarrow> chan_ok (wp_event_receiver w) \<and> length (ch_senders (wp_event_receiver w)) = k \<and> (wp_dead w \<or> ch_receiver (wp_event_receiver w)) \<and>
     sc_max_stream_window_size (wp_config w) \<noteq> 0"

lemma recv_close_receiver: "ch_receiver (recv_close ch) = ch_receiver ch"
proof -
  have "ch_receiver (notify_all is c) = ch_receiver c" for "is" and c :: "'a channel"
    by (induction "is" arbitrary: c) simp_all
  then show ?thesis by (simp add: recv_close_def Let_def set_closed_def)
qed

lemma recv_closes:
  "chan_ok ch \<Longrightarrow> chan_ok ((recv_close ^^ n) ch)" "ch_receiver ((recv_close ^^ n) ch) = ch_receiver ch"
  "length (ch_senders ((recv_close ^^ n) ch)) = length (ch_senders ch)"
  by (induction n) (simp_all add: recv_close_ok recv_close_receiver, simp add: recv_close_def Let_def)

lemma still_ok: "still w w' \<Longrightarrow> (wp_dead w \<Longrightarrow> wp_dead w') \<Longrightarrow> sub_ok k w \<Longrightarrow> sub_ok k w'"
  by (auto simp: still_def sub_ok_def recv_closes)

lemma writes_ok: "ss_writes fs w w' \<Longrightarrow> sub_ok k w' = sub_ok k w"
  by (simp add: ss_writes_def sub_ok_def)

lemma recv_poll_next_receiver: "recv_poll_next ch = Some (r, ch') \<Longrightarrow> r \<noteq> Ready None \<Longrightarrow> ch_receiver ch'"
  by (auto simp: recv_poll_next_def next_message_def dec_num_messages_def split: if_splits list.splits poll.splits option.splits)

lemma handle_proto_event_ok: "sub_ok k w \<Longrightarrow> sub_ok k (handle_proto_event e p w)"
proof (cases e)
  case (PeMessage data)
  assume ok: "sub_ok k w"
  obtain r w1 where s: "ss_send_data (push_back p data w) = (r, w1)" by force
  have "sub_ok k (push_back p data w)" using ok by (simp add: push_back_def sub_ok_def)
  then have "sub_ok k w1" using send_data_writes [OF s] writes_ok by blast
  then show ?thesis using s PeMessage still_ok [OF failed_write_still] by (auto simp: handle_proto_event_def split: sum.splits)
qed (simp_all add: handle_proto_event_def sub_ok_def)

lemma recv_event_total:
  assumes ok: "sub_ok k w"
  shows "\<exists>r w'. recv_event w = Some (r, w') \<and> sub_ok k w'"
proof (cases "wp_dead w")
  case True
  then show ?thesis using ok by (simp add: recv_event_def)
next
  case False
  then have c: "chan_ok (wp_event_receiver w)" "ch_receiver (wp_event_receiver w)" using ok by (simp_all add: sub_ok_def)
  from recv_poll_next_some [OF c(2)] obtain a ch where p: "recv_poll_next (wp_event_receiver w) = Some (a, ch)" by blast
  note nx = recv_poll_next_ok [OF c(1) p] recv_poll_next_receiver [OF p] recv_poll_next_sizes [OF p]
  from ok obtain n where n: "send_event_size (wp_config w) = Some n" by (auto simp: sub_ok_def send_event_size_def)
  have v: "a \<noteq> Ready None \<Longrightarrow> sub_ok k (w\<lparr>wp_event_receiver := ch\<rparr>)" "sub_ok k (wp_shutdown (w\<lparr>wp_event_receiver := ch, wp_dead := True\<rparr>))"
    using ok nx by (simp_all add: sub_ok_def wp_shutdown_def)
  show ?thesis
    using False n p v ok handle_proto_event_ok by (auto simp: recv_event_def split: poll.splits option.splits)
qed

lemma recv_frame_total:
  assumes ok: "sub_ok k s"
  shows "\<exists>r s'. recv_frame s = Some (r, s') \<and> sub_ok k s'"
proof -
  from ok obtain n where "recv_event_size (wp_config s) = Some n" by (auto simp: sub_ok_def recv_event_size_def)
  then obtain r s' where r: "recv_frame s = Some (r, s')"
    by (fastforce simp: recv_frame_def Let_def split: option.splits prod.splits poll.splits sum.splits)
  with still_ok [OF recv_frame_still [OF r] recv_frame_dead [OF r] ok] show ?thesis by blast
qed

lemma flush_rest_ok:
  assumes "flush_rest w = (r, w')" and "sub_ok k w"
  shows "sub_ok k w'"
proof -
  have o: "sub_ok k (wp_output w)" by (rule still_ok [OF wp_output_still wp_output_dead assms(2)])
  have "w' = w \<or> ss_send_data (wp_output w) = (r, w')" using assms(1) by (auto simp: flush_rest_def split: if_splits)
  then show ?thesis
  proof
    assume "ss_send_data (wp_output w) = (r, w')"
    from send_data_writes [OF this] obtain fs where "ss_writes fs (wp_output w) w'" by blast
    with o show ?thesis by (simp add: writes_ok)
  qed (use assms(2) in simp)
qed

lemma poll_complete_ok: "ss_poll_complete w = (r, w') \<Longrightarrow> sub_ok k w \<Longrightarrow> sub_ok k w'"
  using poll_complete_writes [of w r w' High] writes_ok by blast

lemma wp_flush_ok: "wp_flush w = (r, w') \<Longrightarrow> sub_ok k w \<Longrightarrow> sub_ok k w'"
  by (auto simp: wp_flush_def split: prod.splits sum.splits dest: poll_complete_ok intro: flush_rest_ok)

lemma ss_flush_ok: "ss_flush s = (r, s') \<Longrightarrow> sub_ok k s \<Longrightarrow> sub_ok k s'"
  using still_ok [OF distribute_still distribute_dead]
  by (auto simp: ss_flush_def split: prod.splits sum.splits if_splits dest: poll_complete_ok flush_rest_ok)

lemma wp_poll_next_total:
  assumes ok: "sub_ok k w"
  shows "\<exists>r w'. wp_poll_next b w = Some (r, w') \<and> sub_ok k w'"
proof -
  obtain r1 w1 where f: "wp_flush w = (r1, w1)" by force
  note w1 = wp_flush_ok [OF f ok]
  have "sub_ok k (wp_close_proto_stream w)" "sub_ok k (wp_error_close e w1)" for e
    using still_ok [OF wp_close_proto_stream_still close_dead(1) ok] still_ok [OF wp_error_close_still _ w1] error_close_dead(1) by auto
  then show ?thesis using f w1 recv_event_total [OF w1] by (auto simp: wp_poll_next_def split: sum.splits)
qed

lemma ss_poll_next_total:
  assumes ok: "sub_ok k s"
  shows "\<exists>r s'. ss_poll_next b s = Some (r, s') \<and> sub_ok k s'"
proof -
  obtain r1 s1 where f: "ss_flush s = (r1, s1)" by force
  note s1 = ss_flush_ok [OF f ok]
  from recv_frame_total [OF s1] obtain r2 s2 where 2: "recv_frame s1 = Some (r2, s2)" "sub_ok k s2" by blast
  from recv_event_total [OF 2(2)] obtain r3 s3 where 3: "recv_event s2 = Some (r3, s3)" "sub_ok k s3" by blast
  have "sub_ok k (close_proto_stream s)" "sub_ok k (error_close e s1)" for e
    using still_ok [OF close_proto_stream_still close_dead(2) ok] still_ok [OF error_close_still _ s1] error_close_dead(2) by auto
  then show ?thesis using f s1 2 3 by (auto simp: ss_poll_next_def split: sum.splits)
qed

section \<open>Runs\<close>

text \<open>The task of the substream polls it until it ends; in between the session uses its end of the channel and may close.
  A run tells which messages the channel accepted, and whether the task has ended.\<close>

datatype sub_op =
  SubPoll u8
  | SubSession "protocol_event chan_op"
  | SubClosed

fun sender_op :: "'a chan_op \<Rightarrow> bool" where
  "sender_op OpNext = False"
| "sender_op OpClose = False"
| "sender_op _ = True"

fun sub_step ::
  "(u8 \<Rightarrow> 'z write_part_scheme \<Rightarrow> (unit option poll \<times> 'z write_part_scheme) option) \<Rightarrow> sub_op \<Rightarrow> bool \<times> 'z write_part_scheme \<Rightarrow>
   ((priority \<times> protocol_event) list \<times> bool \<times> 'z write_part_scheme) option" where
  "sub_step poll (SubPoll b) (ended, w) =
     (if ended then Some ([], ended, w) else map_option (\<lambda>(r, w'). ([], r = Ready None, w')) (poll b w))"
| "sub_step poll (SubSession x) (ended, w) =
     (if sender_op x then
        map_option (\<lambda>(s, _, ch). (s, ended, w\<lparr>wp_event_receiver := ch\<rparr>)) (chan_step x (wp_event_receiver w))
      else Some ([], ended, w))"
| "sub_step poll SubClosed (ended, w) = Some ([], ended, w\<lparr>wp_context := (wp_context w)\<lparr>cx_closed := True\<rparr>\<rparr>)"

fun sub_run ::
  "(u8 \<Rightarrow> 'z write_part_scheme \<Rightarrow> (unit option poll \<times> 'z write_part_scheme) option) \<Rightarrow> sub_op list \<Rightarrow> bool \<times> 'z write_part_scheme \<Rightarrow>
   ((priority \<times> protocol_event) list \<times> bool \<times> 'z write_part_scheme) option" where
  "sub_run poll [] (ended, w) = Some ([], ended, w)"
| "sub_run poll (x # xs) (ended, w) =
     (case sub_step poll x (ended, w) of
        None \<Rightarrow> None
      | Some (s, st) \<Rightarrow> (case sub_run poll xs st of None \<Rightarrow> None | Some (s', st) \<Rightarrow> Some (s @ s', st)))"

definition sent_msgs :: "(priority \<times> protocol_event) list \<Rightarrow> priority \<Rightarrow> bytes list" where
  "sent_msgs acc p = msgs (of_priority p acc)"

lemma sender_step:
  assumes "chan_step x ch = Some (s, g, ch')" and "sender_op x"
  shows "chan_queue p ch' = chan_queue p ch @ of_priority p s" and "ch_receiver ch' = ch_receiver ch"
proof -
  have "g = []" using assms by (cases x) (auto split: if_splits)
  then show "chan_queue p ch' = chan_queue p ch @ of_priority p s" using chan_step_queue [OF assms(1), of p] by simp
  show "ch_receiver ch' = ch_receiver ch"
    using assms
    by (cases x)
      (auto simp: try_send_def do_send_b_def poll_unparked_def inc_num_messages_def park_def queue_push_and_signal_def chan_poll_ready_def
        clone_sender_def disconnect_def close_channel_def set_closed_def Let_def split: if_splits poll.splits option.splits prod.splits priority.splits)
qed

lemma in_order_more: "in_order A w \<Longrightarrow> in_order (\<lambda>p. A p @ B p) w"
  unfolding in_order_def by (metis prefix_prefix)

lemma in_step_more:
  "ss_in_step A w \<Longrightarrow> (\<And>p. queue_msgs p (w\<lparr>wp_event_receiver := ch\<rparr>) = queue_msgs p w @ B p) \<Longrightarrow> ss_in_step (\<lambda>p. A p @ B p) (w\<lparr>wp_event_receiver := ch\<rparr>)"
  by (auto simp: ss_in_step_def wp_out_def wbuf_def)

text \<open>What a poll promises its runs.\<close>

locale message_writer =
  fixes poll :: "u8 \<Rightarrow> 'z write_part_scheme \<Rightarrow> (unit option poll \<times> 'z write_part_scheme) option"
  assumes poll_keeps: "poll b w = Some (r, w') \<Longrightarrow> keeps_order w w'"
    and poll_total: "sub_ok k w \<Longrightarrow> \<exists>r w'. poll b w = Some (r, w') \<and> sub_ok k w'"
begin

definition run_ok :: "(priority \<Rightarrow> bytes list) \<Rightarrow> 'z write_part_scheme \<Rightarrow> bool" where
  "run_ok A w \<longleftrightarrow> in_order A w \<and> (wp_dead w \<or> ss_in_step A w)"

lemma step_ok:
  assumes "sub_step poll x (ended, w) = Some (s, ended', w')" and "run_ok A w"
  shows "run_ok (\<lambda>p. A p @ sent_msgs s p) w'" and "balance w' = balance w"
proof (atomize (full), cases x)
  case (SubPoll b)
  with assms(1) have s: "s = []" and w: "w' = w \<or> (\<exists>r. poll b w = Some (r, w'))" by (auto split: if_splits)
  have "(\<lambda>p. A p @ sent_msgs s p) = A" by (simp add: s sent_msgs_def)
  moreover have "w' = w \<or> keeps_order w w'" using w poll_keeps by blast
  ultimately show "run_ok (\<lambda>p. A p @ sent_msgs s p) w' \<and> balance w' = balance w"
    using assms(2) unfolding run_ok_def keeps_order_def by metis
next
  case (SubSession y)
  show "run_ok (\<lambda>p. A p @ sent_msgs s p) w' \<and> balance w' = balance w"
  proof (cases "sender_op y")
    case True
    with SubSession assms(1) obtain g ch where c: "chan_step y (wp_event_receiver w) = Some (s, g, ch)" "w' = w\<lparr>wp_event_receiver := ch\<rparr>" by auto
    have "queue_msgs p w' = queue_msgs p w @ sent_msgs s p" for p
      using sender_step(1) [OF c(1) True] by (simp add: c(2) queue_msgs_def sent_msgs_def)
    then have "ss_in_step A w \<Longrightarrow> ss_in_step (\<lambda>p. A p @ sent_msgs s p) w'" unfolding c(2) using in_step_more by blast
    moreover have "in_order A w' = in_order A w" "balance w' = balance w" by (simp_all add: c(2) in_order_def balance_def wp_out_def)
    ultimately show ?thesis using assms(2) in_order_more [of A w'] c(2) by (auto simp: run_ok_def)
  next
    case False
    with SubSession assms show ?thesis by (simp add: sent_msgs_def)
  qed
next
  case SubClosed
  have "in_order A (w\<lparr>wp_context := c\<rparr>) = in_order A w" "ss_in_step A (w\<lparr>wp_context := c\<rparr>) = ss_in_step A w" for c
    by (simp_all add: in_order_def ss_in_step_def wp_out_def wbuf_def queue_msgs_def)
  with SubClosed assms show "run_ok (\<lambda>p. A p @ sent_msgs s p) w' \<and> balance w' = balance w"
    by (auto simp: run_ok_def balance_def wp_out_def sent_msgs_def)
qed

lemma run_keeps:
  "sub_run poll xs (ended, w) = Some (acc, ended', w') \<Longrightarrow> run_ok A w \<Longrightarrow>
    run_ok (\<lambda>p. A p @ sent_msgs acc p) w' \<and> balance w' = balance w"
proof (induction xs arbitrary: ended w A acc)
  case Nil
  then show ?case by (simp add: sent_msgs_def)
next
  case (Cons x xs)
  then obtain s e1 w1 s' where 1: "sub_step poll x (ended, w) = Some (s, e1, w1)" "sub_run poll xs (e1, w1) = Some (s', ended', w')" "acc = s @ s'"
    by (auto split: option.splits)
  note st = step_ok [OF 1(1) Cons.prems(2)]
  have "(\<lambda>p. (A p @ sent_msgs s p) @ sent_msgs s' p) = (\<lambda>p. A p @ sent_msgs acc p)" by (simp add: 1(3) sent_msgs_def)
  with Cons.IH [OF 1(2) st(1)] st(2) show ?case by simp
qed

lemma step_total:
  assumes "sub_ok k w" and "k < 2 ^ 62"
  shows "\<exists>s ended' w' k'. sub_step poll x (ended, w) = Some (s, ended', w') \<and> sub_ok k' w' \<and> k' \<le> Suc k"
proof (cases x)
  case (SubPoll b)
  from poll_total [OF assms(1), of b] obtain r w' where "poll b w = Some (r, w')" "sub_ok k w'" by blast
  then have "\<exists>s e w'. sub_step poll x (ended, w) = Some (s, e, w') \<and> sub_ok k w'" using SubPoll assms(1) by (cases ended) auto
  then show ?thesis by (metis le_SucI order_refl)
next
  case (SubSession y)
  have ok: "chan_ok (wp_event_receiver w)" "length (ch_senders (wp_event_receiver w)) = k" using assms(1) by (simp_all add: sub_ok_def)
  with chan_step_some [OF ok(1), of y] assms(2) obtain s g ch where c: "chan_step y (wp_event_receiver w) = Some (s, g, ch)" by auto
  have "sender_op y \<Longrightarrow> sub_ok (length (ch_senders ch)) (w\<lparr>wp_event_receiver := ch\<rparr>)"
    using assms(1) chan_step_ok [OF ok(1) c] sender_step(2) [OF c] by (simp add: sub_ok_def)
  moreover have "length (ch_senders ch) \<le> Suc k" using chan_step_sizes [OF c] ok(2) by simp
  ultimately have "\<exists>s e w' k'. sub_step poll x (ended, w) = Some (s, e, w') \<and> sub_ok k' w' \<and> (k' = k \<or> k' \<le> Suc k)"
    using SubSession c assms(1) by (cases "sender_op y") auto
  then show ?thesis by (metis le_SucI order_refl)
next
  case SubClosed
  have "sub_ok k (w\<lparr>wp_context := c\<rparr>)" for c using assms(1) by (simp add: sub_ok_def)
  then have "\<exists>s e w'. sub_step poll x (ended, w) = Some (s, e, w') \<and> sub_ok k w'" using SubClosed by auto
  then show ?thesis by (metis le_SucI order_refl)
qed

lemma run_total:
  assumes "sub_ok k w" and "k + length xs \<le> 2 ^ 62"
  shows "\<exists>acc ended' w'. sub_run poll xs (ended, w) = Some (acc, ended', w')"
  using assms
proof (induction xs arbitrary: ended w k)
  case (Cons x xs)
  then have "k < 2 ^ 62" by simp
  from step_total [OF Cons.prems(1) this, of x ended] obtain s e w1 k1 where
    1: "sub_step poll x (ended, w) = Some (s, e, w1)" "sub_ok k1 w1" "k1 \<le> Suc k" by blast
  from Cons.IH [OF 1(2), of e] 1(3) Cons.prems(2) obtain s' e' w' where "sub_run poll xs (e, w1) = Some (s', e', w')" by auto
  with 1(1) show ?case by simp
qed simp

end

interpretation ss: message_writer ss_poll_next
  by unfold_locales (rule ss_poll_next_keeps, assumption, rule ss_poll_next_total)

interpretation wp: message_writer wp_poll_next
  by unfold_locales (rule wp_poll_next_keeps, assumption, rule wp_poll_next_total)

section \<open>Writing in order\<close>

lemma new_channel: "channel_new n = Some ch \<Longrightarrow> chan_queue p ch = [] \<and> ch_receiver ch \<and> length (ch_senders ch) = 1"
  by (cases p) (auto simp: channel_new_def split: if_splits)

lemma built_ok:
  assumes "wp_out w = []" and "wp_high_write_buf w = []" and "wp_write_buf w = []" and "channel_new n = Some (wp_event_receiver w)"
  shows "ss_in_step (\<lambda>p. []) w" and "in_order (\<lambda>p. []) w" and "chan_ok (wp_event_receiver w)" and "ch_receiver (wp_event_receiver w)"
    and "length (ch_senders (wp_event_receiver w)) = 1"
proof -
  have q: "chan_queue p (wp_event_receiver w) = []" for p
    using new_channel [OF assms(4)] by blast
  show "ss_in_step (\<lambda>p. []) w" using q [of High] q [of Normal] assms(1-3) by (simp add: ss_in_step_def wbuf_def queue_msgs_def)
  then show "in_order (\<lambda>p. []) w" by (rule in_step_in_order)
  show "chan_ok (wp_event_receiver w)" by (rule channel_new_ok [OF assms(4)])
  show "ch_receiver (wp_event_receiver w)" "length (ch_senders (wp_event_receiver w)) = 1"
    using new_channel [OF assms(4)] by blast+
qed

text \<open>C7. A substream as the session builds it, on any socket that was given nothing, and any sequence of polls and of
  actions of the session on its end of the channel: no poll panics (the channel is used fewer than \<open>2 ^ 62\<close> times); the
  frames given to the socket are a merge of two lists, one a beginning of the messages sent with high priority and the
  other a beginning of the others, both in the order in which the session sent them; while the substream is not dead,
  the rest of these messages is in its buffers and its channel, in order; and the pending data of the session have
  shrunk by exactly the bytes the socket was given.\<close>

theorem substream_writes_in_order:
  assumes "channel_new n = Some ch" and "so_out so = []" and "sc_max_stream_window_size cfg \<noteq> 0" and "length ops < 2 ^ 62"
  shows "\<exists>acc ended s H N. sub_run ss_poll_next ops
      (False, substream_build so i p cfg sender ch context keep service session before) = Some (acc, ended, s) \<and>
    so_out (wp_substream s) \<in> shuffles H N \<and> prefix H (sent_msgs acc High) \<and> prefix N (sent_msgs acc Normal) \<and>
    (wp_dead s \<or>
      sent_msgs acc High = H @ wp_high_write_buf s @ msgs (chan_queue High (wp_event_receiver s)) \<and>
      sent_msgs acc Normal = N @ wp_write_buf s @ msgs (chan_queue Normal (wp_event_receiver s))) \<and>
    cx_pending_data_size (wp_context s) = cx_pending_data_size context - bytes_total (so_out (wp_substream s))"
proof -
  define s0 where "s0 = substream_build so i p cfg sender ch context keep service session before"
  have b: "wp_out s0 = []" "wp_high_write_buf s0 = []" "wp_write_buf s0 = []" "channel_new n = Some (wp_event_receiver s0)" "wp_config s0 = cfg"
    "balance s0 = cx_pending_data_size context"
    using assms(1,2) by (simp_all add: s0_def substream_build_def wp_out_def balance_def)
  note ok = built_ok [OF b(1-4)]
  have "sub_ok 1 s0" using ok assms(3) b(5) by (simp add: sub_ok_def)
  from ss.run_total [OF this, of ops False] assms(4) obtain acc ended s where
    r: "sub_run ss_poll_next ops (False, s0) = Some (acc, ended, s)" by auto
  have "ss.run_ok (\<lambda>p. []) s0" using ok(1,2) by (simp add: ss.run_ok_def)
  from ss.run_keeps [OF r this] have k: "in_order (sent_msgs acc) s" "wp_dead s \<or> ss_in_step (sent_msgs acc) s" "balance s = balance s0"
    by (simp_all add: ss.run_ok_def)
  have pend: "cx_pending_data_size (wp_context s) = cx_pending_data_size context - bytes_total (so_out (wp_substream s))"
    using k(3) b(6) by (simp add: balance_def wp_out_def algebra_simps)
  show ?thesis
  proof (cases "wp_dead s")
    case True
    with k(1) r pend show ?thesis by (auto simp: in_order_def wp_out_def s0_def)
  next
    case False
    with k(2) obtain H N where 1: "so_out (wp_substream s) \<in> shuffles H N"
      "sent_msgs acc High = H @ wp_high_write_buf s @ msgs (chan_queue High (wp_event_receiver s))"
      "sent_msgs acc Normal = N @ wp_write_buf s @ msgs (chan_queue Normal (wp_event_receiver s))"
      by (auto simp: ss_in_step_def wp_out_def wbuf_def queue_msgs_def)
    then have "prefix H (sent_msgs acc High)" "prefix N (sent_msgs acc Normal)" by simp_all
    with 1 r pend show ?thesis unfolding s0_def by blast
  qed
qed

definition sample_substream_socket :: framed_socket where
  "sample_substream_socket = \<lparr>so_in = [Pending, Ready (Some (Inr [7])), Ready (Some (Inr [8])), Ready None],
     so_ready = replicate 9 (Ready (Inr ())), so_send = [], so_flush = [], so_close = [], so_out = []\<rparr>"

definition sample_session_config :: session_config where
  "sample_session_config = \<lparr>sc_max_stream_window_size = 1, sc_send_buffer_size = 2, sc_recv_buffer_size = 2, sc_channel_size = 4\<rparr>"

definition sample_sender :: "'a mpsc_sender" where
  "sample_sender = \<lparr>ms_ready = replicate 9 (Ready (Inr ())), ms_try = [], ms_sent = []\<rparr>"

definition sample_substream :: "protocol_event channel \<Rightarrow> substream" where
  "sample_substream ch = substream_build sample_substream_socket 1 2 sample_session_config sample_sender ch
     \<lparr>cx_id = 3, cx_closed = False, cx_pending_data_size = 2\<rparr> False (Some (buffer_new sample_sender)) None None"

definition sample_sub_ops :: "sub_op list" where
  "sample_sub_ops = [SubSession (OpTrySend 0 (PeMessage [1]) Normal), SubSession (OpTrySend 0 (PeMessage [2]) High),
     SubPoll 9, SubPoll 9]"

lemma sample_sub_run:
  "map_option (\<lambda>(acc, ended, s). (so_out (wp_substream s), cx_pending_data_size (wp_context s), ended))
    (Option.bind (channel_new 4) (\<lambda>ch. sub_run ss_poll_next sample_sub_ops (False, sample_substream ch))) =
    Some ([[2], [1]], 0, False)"
  by code_simp

theorem substream_writes_in_order_witness:
  "\<exists>ch acc ended s H N. channel_new 4 = Some ch \<and> sub_run ss_poll_next sample_sub_ops (False, sample_substream ch) = Some (acc, ended, s) \<and>
    so_out (wp_substream s) = [[2], [1]] \<and> [[2], [1]] \<in> shuffles H N \<and> prefix H (sent_msgs acc High) \<and> prefix N (sent_msgs acc Normal)"
proof -
  from sample_sub_run obtain ch acc ended s where 1: "channel_new 4 = Some ch"
    "sub_run ss_poll_next sample_sub_ops (False, sample_substream ch) = Some (acc, ended, s)" "so_out (wp_substream s) = [[2], [1]]"
    by (auto simp: bind_eq_Some_conv)
  have "so_out sample_substream_socket = []" "sc_max_stream_window_size sample_session_config \<noteq> 0" "length sample_sub_ops < 2 ^ 62"
    by (simp_all add: sample_substream_socket_def sample_session_config_def sample_sub_ops_def)
  from substream_writes_in_order [OF 1(1) this, of 1 2 sample_sender "\<lparr>cx_id = 3, cx_closed = False, cx_pending_data_size = 2\<rparr>" False
      "Some (buffer_new sample_sender)" None None] 1 show ?thesis
    unfolding sample_substream_def [symmetric] by auto
qed

end
