(* ===== verification/Substream_Handles.thy ===== *)
theory Substream_Handles
  imports Substream_Safety
begin

text \<open>
  What the protocol handle of a service learns of a substream: that it is connected, the frames of the socket in order, and
  its end; and the cases where the end is told twice, or never.
\<close>

section \<open>What leaves the handles alone\<close>

definition same_handles :: "substream \<Rightarrow> substream \<Rightarrow> bool" where
  "same_handles s s' \<longleftrightarrow> write_part.more s' = write_part.more s \<and> so_in (wp_substream s') = so_in (wp_substream s) \<and>
     cx_id (wp_context s') = cx_id (wp_context s)"

lemma same_refl [simp]: "same_handles s s"
  by (simp add: same_handles_def)

lemma same_trans: "same_handles s s1 \<Longrightarrow> same_handles s1 s2 \<Longrightarrow> same_handles s s2"
  by (simp add: same_handles_def)

lemma writes_same: "ss_writes fs s s' \<Longrightarrow> same_handles s s'"
  by (simp add: ss_writes_def same_handles_def)

lemma update_same:
  "same_handles s (s\<lparr>wp_dead := d\<rparr>)" "same_handles s (s\<lparr>wp_event_sender := b\<rparr>)" "same_handles s (s\<lparr>wp_event_receiver := ch\<rparr>)"
  "same_handles s (wp_output s)" "same_handles s (wp_shutdown s)" "same_handles s (notify_session s)"
  "same_handles s (push_back p data s)" "same_handles s (wp_output_event e s)"
  "same_handles s (s\<lparr>wp_write_buf := w, wp_dead := d\<rparr>)"
  by (auto simp: same_handles_def wp_output_def wp_shutdown_def notify_session_def push_back_def wp_output_event_def poll_close_unpin_def
      split: prod.splits send_result.splits list.splits)

lemma handle_proto_event_same: "same_handles s (handle_proto_event e p s)"
proof (cases e)
  case (PeMessage data)
  obtain r s1 where d: "ss_send_data (push_back p data s) = (r, s1)" by force
  from send_data_writes [OF d] obtain fs where "ss_writes fs (push_back p data s) s1" by blast
  then have 1: "same_handles s s1" using same_trans [OF update_same(7) writes_same] by blast
  have "same_handles s1 ((wp_output_event x s1)\<lparr>wp_dead := True\<rparr>)" for x by (rule same_trans [OF update_same(8,1)])
  with 1 d PeMessage same_trans show ?thesis by (auto simp: handle_proto_event_def split: sum.splits)
qed (simp_all add: handle_proto_event_def update_same)

lemma recv_event_same:
  assumes "recv_event s = Some (r, s')"
  shows "same_handles s s'"
proof -
  have 1: "same_handles s (handle_proto_event e p (s\<lparr>wp_event_receiver := ch\<rparr>))" for e p ch
    by (rule same_trans [OF update_same(3) handle_proto_event_same])
  have 2: "same_handles s (wp_shutdown (s\<lparr>wp_event_receiver := ch, wp_dead := True\<rparr>))" for ch
    by (rule same_trans [OF same_trans [OF update_same(3,1)] update_same(5)])
  from assms 1 2 show ?thesis by (auto simp: recv_event_def update_same split: if_splits option.splits poll.splits prod.splits)
qed

lemma flush_rest_same:
  assumes "flush_rest s = (r, s')"
  shows "same_handles s s'"
proof -
  have "s' = s \<or> ss_send_data (wp_output s) = (r, s')" using assms by (auto simp: flush_rest_def split: if_splits)
  then show ?thesis
  proof
    assume "ss_send_data (wp_output s) = (r, s')"
    from send_data_writes [OF this] obtain fs where "ss_writes fs (wp_output s) s'" by blast
    then show ?thesis using same_trans [OF update_same(4) writes_same] by blast
  qed simp
qed

lemma flush_rest_dead: "flush_rest s = (r, s') \<Longrightarrow> wp_dead s \<Longrightarrow> wp_dead s'"
  using send_data_writes [of "wp_output s" r s'] wp_output_dead [of s] by (auto simp: flush_rest_def ss_writes_def split: if_splits)

section \<open>The events of the service handle\<close>

text \<open>\<open>kept R\<close>: nothing but a beginning of \<open>R\<close> was handed over or waits. \<open>live R\<close>: it is all of \<open>R\<close>. \<open>told k R\<close>: a beginning of
  \<open>R\<close>, and \<open>k\<close> times the end; the first of the tasks that were spawned for it hands over what still waited and the end, and
  every other task only the end.\<close>

definition kept :: "service_proto_event list \<Rightarrow> substream \<Rightarrow> bool" where
  "kept R s \<longleftrightarrow> ss_spawned_service s = [] \<and> (\<exists>b. ss_service_proto_sender s = Some b \<and> prefix (buffer_contents b) R)"

definition live :: "service_proto_event list \<Rightarrow> substream \<Rightarrow> bool" where
  "live R s \<longleftrightarrow> ss_spawned_service s = [] \<and> (\<exists>b. ss_service_proto_sender s = Some b \<and> buffer_contents b = R)"

definition end_tasks :: "nat \<Rightarrow> session_id \<Rightarrow> service_proto_event list \<Rightarrow> service_proto_event list list" where
  "end_tasks k i waits = (case k of 0 \<Rightarrow> [] | Suc n \<Rightarrow> (waits @ [SvcDisconnected i]) # replicate n [SvcDisconnected i])"

definition told :: "nat \<Rightarrow> service_proto_event list \<Rightarrow> substream \<Rightarrow> bool" where
  "told k R s \<longleftrightarrow> (\<exists>b waits. ss_service_proto_sender s = Some b \<and> prefix (ms_sent (bf_sender b) @ waits) R \<and>
     bf_buffer b = (if k = 0 then waits else []) \<and> ss_spawned_service s = end_tasks k (cx_id (wp_context s)) waits)"

lemma live_kept: "live R s \<Longrightarrow> kept R s"
  by (auto simp: live_def kept_def)

lemma kept_told: "kept R s \<Longrightarrow> told 0 R s"
  by (auto simp: kept_def told_def end_tasks_def buffer_contents_def)

lemma same_handles_fields:
  assumes "same_handles s s'"
  shows "ss_service_proto_sender s' = ss_service_proto_sender s" and "ss_spawned_service s' = ss_spawned_service s"
    and "ss_before_receive s' = ss_before_receive s" and "ss_session_proto_sender s' = ss_session_proto_sender s"
    and "cx_id (wp_context s') = cx_id (wp_context s)" and "so_in (wp_substream s') = so_in (wp_substream s)"
proof -
  have m: "write_part.more s' = write_part.more s" using assms by (simp add: same_handles_def)
  show "ss_service_proto_sender s' = ss_service_proto_sender s" "ss_spawned_service s' = ss_spawned_service s"
    "ss_before_receive s' = ss_before_receive s" "ss_session_proto_sender s' = ss_session_proto_sender s"
    by (cases s; cases s'; use m in simp)+
  show "cx_id (wp_context s') = cx_id (wp_context s)" "so_in (wp_substream s') = so_in (wp_substream s)"
    using assms by (simp_all add: same_handles_def)
qed

lemma same_kept: "same_handles s s' \<Longrightarrow> kept R s' = kept R s" "same_handles s s' \<Longrightarrow> live R s' = live R s"
  "same_handles s s' \<Longrightarrow> told k R s' = told k R s"
  by (simp_all add: kept_def live_def told_def same_handles_fields)

text \<open>Handing events over.\<close>

lemma distribute_service_kept:
  assumes "kept R s"
  shows "kept R (distribute_service s)" and "live R s \<Longrightarrow> \<not> wp_dead (distribute_service s) \<Longrightarrow> live R (distribute_service s)"
proof -
  from assms obtain b where b: "ss_spawned_service s = []" "ss_service_proto_sender s = Some b" "prefix (buffer_contents b) R"
    by (auto simp: kept_def)
  obtain r b' where t: "buffer_try_send b = (r, b')" by force
  note c = buffer_try_send_contents [OF t]
  show "kept R (distribute_service s)"
    using b t c(4) by (auto simp: distribute_service_def kept_def prefix_def)
  show "live R (distribute_service s)" if "live R s" "\<not> wp_dead (distribute_service s)"
    using that b t c(1) by (auto simp: distribute_service_def live_def split: if_splits)
qed

lemma distribute_session_fields:
  "ss_service_proto_sender (distribute_session s) = ss_service_proto_sender s" "ss_spawned_service (distribute_session s) = ss_spawned_service s"
  "ss_before_receive (distribute_session s) = ss_before_receive s" "wp_substream (distribute_session s) = wp_substream s"
  "wp_context (distribute_session s) = wp_context s" "wp_dead s \<Longrightarrow> wp_dead (distribute_session s)"
  "ss_before_receive (distribute_service s) = ss_before_receive s" "wp_substream (distribute_service s) = wp_substream s"
  "wp_context (distribute_service s) = wp_context s"
  by (auto simp: distribute_session_def distribute_service_def split: option.splits prod.splits)

lemma distribute_kept:
  assumes "kept R s"
  shows "kept R (distribute_to_user_level s)" and "live R s \<Longrightarrow> \<not> wp_dead (distribute_to_user_level s) \<Longrightarrow> live R (distribute_to_user_level s)"
    and "ss_before_receive (distribute_to_user_level s) = ss_before_receive s"
    and "so_in (wp_substream (distribute_to_user_level s)) = so_in (wp_substream s)"
    and "cx_id (wp_context (distribute_to_user_level s)) = cx_id (wp_context s)"
proof -
  let ?d = "distribute_session (distribute_service s)"
  have k: "kept R ?d" "live R s \<Longrightarrow> \<not> wp_dead ?d \<Longrightarrow> live R ?d"
    using distribute_service_kept [OF assms] distribute_session_fields [of "distribute_service s"] by (auto simp: kept_def live_def)
  have s: "same_handles ?d (distribute_to_user_level s)"
    by (simp add: distribute_to_user_level_def Let_def update_same)
  have d: "wp_dead ?d \<Longrightarrow> wp_dead (distribute_to_user_level s)"
    by (simp add: distribute_to_user_level_def Let_def wp_output_dead)
  show "kept R (distribute_to_user_level s)" using same_kept(1) [OF s] k(1) by simp
  show "live R (distribute_to_user_level s)" if "live R s" "\<not> wp_dead (distribute_to_user_level s)"
    using same_kept(2) [OF s] k(2) d that by blast
  show "ss_before_receive (distribute_to_user_level s) = ss_before_receive s"
    "so_in (wp_substream (distribute_to_user_level s)) = so_in (wp_substream s)"
    "cx_id (wp_context (distribute_to_user_level s)) = cx_id (wp_context s)"
    using same_handles_fields [OF s] by (simp_all add: distribute_session_fields)
qed

lemma deliver_kept:
  assumes "live R s"
  shows "kept (R @ [SvcReceived (cx_id (wp_context s)) d]) (deliver d s)"
    and "\<not> wp_dead (deliver d s) \<Longrightarrow> live (R @ [SvcReceived (cx_id (wp_context s)) d]) (deliver d s)"
    and "ss_before_receive (deliver d s) = ss_before_receive s" and "so_in (wp_substream (deliver d s)) = so_in (wp_substream s)"
    and "cx_id (wp_context (deliver d s)) = cx_id (wp_context s)"
proof -
  let ?s = "s\<lparr>ss_session_proto_sender := map_option (buffer_push (SesReceived d)) (ss_session_proto_sender s),
    ss_service_proto_sender := map_option (buffer_push (SvcReceived (cx_id (wp_context s)) d)) (ss_service_proto_sender s)\<rparr>"
  let ?R = "R @ [SvcReceived (cx_id (wp_context s)) d]"
  have l: "live ?R ?s" using assms by (auto simp: live_def buffer_push_def buffer_contents_def)
  note k = distribute_kept [OF live_kept [OF l]]
  show "kept ?R (deliver d s)" "\<not> wp_dead (deliver d s) \<Longrightarrow> live ?R (deliver d s)"
    "ss_before_receive (deliver d s) = ss_before_receive s" "so_in (wp_substream (deliver d s)) = so_in (wp_substream s)"
    "cx_id (wp_context (deliver d s)) = cx_id (wp_context s)"
    using k l by (simp_all add: deliver_def)
qed

text \<open>The end.\<close>

lemma close_proto_stream_told:
  assumes "told k R s"
  shows "told (Suc k) R (close_proto_stream s)" and "ss_before_receive (close_proto_stream s) = ss_before_receive s"
    and "so_in (wp_substream (close_proto_stream s)) = so_in (wp_substream s)"
    and "cx_id (wp_context (close_proto_stream s)) = cx_id (wp_context s)"
proof -
  define s1 where "s1 = wp_shutdown (s\<lparr>wp_event_receiver := recv_close (wp_event_receiver s)\<rparr>)"
  define s2 where "s2 = (if \<not> ss_keep_buffer s1 then s1\<lparr>wp_event_sender := buffer_clear (wp_event_sender s1)\<rparr> else s1)"
  have 1: "same_handles s s1" unfolding s1_def by (rule same_trans [OF update_same(3,5)])
  have 2: "same_handles s s2" unfolding s2_def using 1 same_trans [OF 1 update_same(2)] by simp
  define s3 where "s3 = close_session_handle (close_service_handle s2)"
  have 3: "same_handles s3 (close_proto_stream s)"
    unfolding close_proto_stream_def Let_def s1_def [symmetric] s2_def [symmetric] s3_def [symmetric] by (rule update_same(6))
  have "told k R s2" using assms same_kept(3) [OF 2] by simp
  then obtain b waits where b: "ss_service_proto_sender s2 = Some b" "prefix (ms_sent (bf_sender b) @ waits) R"
    "bf_buffer b = (if k = 0 then waits else [])" "ss_spawned_service s2 = end_tasks k (cx_id (wp_context s2)) waits"
    by (auto simp: told_def)
  have f: "ss_service_proto_sender s3 = Some (b\<lparr>bf_buffer := []\<rparr>)" "wp_context s3 = wp_context s2"
    "ss_spawned_service s3 = ss_spawned_service s2 @ [bf_buffer b @ [SvcDisconnected (cx_id (wp_context s2))]]"
    "ss_before_receive s3 = ss_before_receive s2" "wp_substream s3 = wp_substream s2"
    using b(1) by (auto simp: s3_def close_session_handle_def close_service_handle_def buffer_take_def split: option.splits)
  have "told (Suc k) R s3"
    unfolding told_def f using b(2-4) by (cases k) (auto simp: end_tasks_def replicate_append_same)
  then show "told (Suc k) R (close_proto_stream s)" using same_kept(3) [OF 3] by simp
  show "ss_before_receive (close_proto_stream s) = ss_before_receive s" "so_in (wp_substream (close_proto_stream s)) = so_in (wp_substream s)"
    "cx_id (wp_context (close_proto_stream s)) = cx_id (wp_context s)"
    using same_handles_fields [OF 3] same_handles_fields [OF 2] f by simp_all
qed

lemma error_close_told:
  assumes "told k R s"
  shows "told k R (error_close e s) \<or> told (Suc k) R (error_close e s)" and "ss_before_receive (error_close e s) = ss_before_receive s"
    and "so_in (wp_substream (error_close e s)) = so_in (wp_substream s)"
    and "cx_id (wp_context (error_close e s)) = cx_id (wp_context s)"
proof -
  let ?s = "s\<lparr>wp_dead := True\<rparr>"
  let ?e = "?s\<lparr>wp_event_sender := buffer_push (PeError (wp_proto_id s) e) (wp_event_sender s)\<rparr>"
  have 1: "same_handles s ?s" by (rule update_same)
  have 2: "same_handles s ?e" using same_trans [OF 1 update_same(2)] by simp
  have t: "told k R ?s" "told k R ?e" using assms same_kept(3) 1 2 by blast+
  note c = close_proto_stream_told [OF t(2)]
  show "told k R (error_close e s) \<or> told (Suc k) R (error_close e s)" "ss_before_receive (error_close e s) = ss_before_receive s"
    "so_in (wp_substream (error_close e s)) = so_in (wp_substream s)" "cx_id (wp_context (error_close e s)) = cx_id (wp_context s)"
    using t c by (simp_all add: error_close_def Let_def)
qed

section \<open>Polls and runs\<close>

definition accept_frame :: "(bytes \<Rightarrow> io_kind + bytes) option \<Rightarrow> bytes \<Rightarrow> bytes option" where
  "accept_frame before d = (case before of None \<Rightarrow> Some d | Some f \<Rightarrow> (case f d of Inl _ \<Rightarrow> None | Inr d \<Rightarrow> Some d))"

definition received :: "session_id \<Rightarrow> (bytes \<Rightarrow> io_kind + bytes) option \<Rightarrow> (io_kind + bytes) option poll list \<Rightarrow> service_proto_event list" where
  "received i before answers = map (SvcReceived i) (List.map_filter (accept_frame before) (frames_of answers))"

lemma frames_of_append [simp]: "frames_of (xs @ ys) = frames_of xs @ frames_of ys"
  by (induction xs) (auto split: poll.splits option.splits sum.splits)

lemma received_append: "received i f (xs @ ys) = received i f xs @ received i f ys"
  by (simp add: received_def List.map_filter_def)

text \<open>One frame is read; an error may close the substream.\<close>

definition handle_ok :: "service_proto_event list \<Rightarrow> substream \<Rightarrow> bool" where
  "handle_ok R s \<longleftrightarrow> (\<exists>k \<le> 1. told k R s) \<and> (\<not> wp_dead s \<longrightarrow> live R s)"

definition ss_reads :: "substream \<Rightarrow> substream \<Rightarrow> (io_kind + bytes) option poll list \<Rightarrow> bool" where
  "ss_reads s s' c \<longleftrightarrow> so_in (wp_substream s) = c @ so_in (wp_substream s') \<and> ss_before_receive s' = ss_before_receive s \<and>
     cx_id (wp_context s') = cx_id (wp_context s)"

lemma same_reads: "same_handles s s' \<Longrightarrow> ss_reads s s' []"
  by (simp add: ss_reads_def same_handles_fields)

lemma reads_trans: "ss_reads s s1 c1 \<Longrightarrow> ss_reads s1 s2 c2 \<Longrightarrow> ss_reads s s2 (c1 @ c2)"
  by (simp add: ss_reads_def)

lemma live_handle_ok: "live R s \<Longrightarrow> handle_ok R s"
  using kept_told [OF live_kept] by (auto simp: handle_ok_def)

lemma recv_frame_handle:
  assumes r: "recv_frame s = Some (r, s')" and ok: "handle_ok R s"
  shows "\<exists>c. ss_reads s s' c \<and> handle_ok (R @ received (cx_id (wp_context s)) (ss_before_receive s) c) s'"
proof (cases "wp_dead s \<or> s' = s")
  case True
  with r have "s' = s" by (auto simp: recv_frame_def)
  then show ?thesis using ok same_reads [OF same_refl, of s] by (intro exI [of _ "[]"]) (simp add: received_def List.map_filter_def)
next
  case False
  then have l: "live R s" using ok by (simp add: handle_ok_def)
  obtain a so where p: "poll_next_unpin (wp_substream s) = (a, so)" by force
  define s1 where "s1 = s\<lparr>wp_substream := so\<rparr>"
  define c where "c = (if so_in (wp_substream s) = [] then [] else [a])"
  have c: "ss_reads s s1 c" using p by (auto simp: ss_reads_def s1_def c_def poll_next_unpin_def split: list.splits)
  have l1: "live R s1" using l by (simp add: live_def s1_def)
  have t1: "told 0 R s1" by (rule kept_told [OF live_kept [OF l1]])
  have i: "cx_id (wp_context s1) = cx_id (wp_context s)" "ss_before_receive s1 = ss_before_receive s" by (simp_all add: s1_def)
  let ?R = "R @ received (cx_id (wp_context s)) (ss_before_receive s) c"
  have one: "frames_of c = (case a of Ready (Some (Inr d)) \<Rightarrow> [d] | _ \<Rightarrow> [])"
    using p by (auto simp: c_def poll_next_unpin_def split: list.splits poll.splits option.splits sum.splits)
  have closed: "ss_reads s1 (error_close e s1) [] \<and> handle_ok R (error_close e s1)" for e
    using error_close_told [OF t1, of e] error_close_dead(2) [of e s1] by (auto simp: ss_reads_def handle_ok_def)
  have "\<exists>R'. ss_reads s1 s' [] \<and> handle_ok R' s' \<and> R' = ?R"
  proof (cases "\<exists>d. a = Ready (Some (Inr d))")
    case True
    then obtain d where a: "a = Ready (Some (Inr d))" by blast
    with one have c1: "frames_of c = [d]" by simp
    show ?thesis
    proof (cases "accept_frame (ss_before_receive s) d")
      case None
      then obtain f e where "ss_before_receive s = Some f" "f d = Inl e" by (auto simp: accept_frame_def split: option.splits sum.splits)
      with r False p a have "s' = error_close e s1" by (auto simp: recv_frame_def s1_def Let_def split: option.splits if_splits)
      then show ?thesis using closed [of e] c1 None by (simp add: received_def List.map_filter_def)
    next
      case (Some x)
      with r False p a have s': "s' = deliver x s1"
        by (auto simp: recv_frame_def s1_def Let_def accept_frame_def split: option.splits if_splits sum.splits)
      note k = deliver_kept [OF l1, of x]
      have "handle_ok (R @ [SvcReceived (cx_id (wp_context s)) x]) s'"
        using k(1,2) kept_told [OF k(1)] unfolding s' handle_ok_def i by auto
      then show ?thesis using k(3-5) c1 Some by (auto simp: s' ss_reads_def received_def List.map_filter_def)
    qed
  next
    case no: False
    with one have R: "?R = R" by (auto simp: received_def List.map_filter_def split: poll.splits option.splits sum.splits)
    have "s' = s1 \<or> s' = s1\<lparr>wp_dead := True\<rparr> \<or> (\<exists>e. s' = error_close e s1)"
      using r False p no by (auto simp: recv_frame_def s1_def Let_def split: option.splits if_splits poll.splits sum.splits)
    moreover have "handle_ok R (s1\<lparr>wp_dead := True\<rparr>)" using t1 same_kept(3) [OF update_same(1)] by (auto simp: handle_ok_def)
    ultimately show ?thesis
      using closed live_handle_ok [OF l1] same_reads [OF same_refl] same_reads [OF update_same(1), of s1 True] unfolding R by blast
  qed
  then show ?thesis using reads_trans [OF c, of s' "[]"] by (intro exI [of _ c]) auto
qed

lemma flush_handle:
  assumes f: "ss_flush s = (r, s')" and l: "live R s"
  shows "ss_reads s s' []" and "kept R s'" and "\<not> wp_dead s' \<Longrightarrow> live R s'"
proof -
  obtain r1 s1 where c: "ss_poll_complete s = (r1, s1)" by force
  have 1: "same_handles s s1" using poll_complete_writes [OF c] writes_same by blast
  then have l1: "live R s1" using l same_kept(2) by blast
  define s2 where "s2 = (if ss_waiting (ss_service_proto_sender s1) \<noteq> 0 \<or> ss_waiting (ss_session_proto_sender s1) \<noteq> 0 then distribute_to_user_level s1 else s1)"
  note d = distribute_kept [OF live_kept [OF l1]]
  have 2: "ss_reads s1 s2 []" "kept R s2" "\<not> wp_dead s2 \<Longrightarrow> live R s2"
    using d l1 live_kept [OF l1] same_reads [OF same_refl] by (auto simp: s2_def ss_reads_def)
  have "s' = s1 \<or> flush_rest s2 = (r, s')" using f c by (auto simp: ss_flush_def s2_def split: sum.splits)
  then have "ss_reads s s' [] \<and> kept R s' \<and> (\<not> wp_dead s' \<longrightarrow> live R s')"
  proof
    assume fr: "flush_rest s2 = (r, s')"
    note sm = flush_rest_same [OF fr]
    show ?thesis
      using reads_trans [OF reads_trans [OF same_reads [OF 1] 2(1)] same_reads [OF sm]] 2(2,3) same_kept(1,2) [OF sm] flush_rest_dead [OF fr] by auto
  qed (use l1 live_kept [OF l1] same_reads [OF 1] in auto)
  then show "ss_reads s s' []" "kept R s'" "\<not> wp_dead s' \<Longrightarrow> live R s'" by auto
qed

lemma recv_event_dead: "recv_event w = Some (r, w') \<Longrightarrow> wp_dead w \<Longrightarrow> wp_dead w'"
  by (auto simp: recv_event_def)

lemma ss_poll_next_handle:
  assumes p: "ss_poll_next b s = Some (r, s')" and ok: "handle_ok R s"
  shows "\<exists>c. ss_reads s s' c \<and> (let R' = R @ received (cx_id (wp_context s)) (ss_before_receive s) c in
    (if r = Ready None then \<exists>k \<le> 2. told k R' s' else handle_ok R' s'))"
proof (cases "wp_dead s \<or> cx_closed (wp_context s)")
  case True
  with p have r: "s' = close_proto_stream s" "r = Ready None" by (simp_all add: ss_poll_next_def)
  from ok obtain k where k: "k \<le> 1" "told k R s" by (auto simp: handle_ok_def)
  from close_proto_stream_told [OF k(2)] k(1) r show ?thesis
    by (intro exI [of _ "[]"]) (auto simp: ss_reads_def received_def List.map_filter_def intro: exI [of _ "Suc k"])
next
  case False
  then have l: "live R s" using ok by (simp add: handle_ok_def)
  obtain r1 s1 where f: "ss_flush s = (r1, s1)" by force
  note fl = flush_handle [OF f l]
  have t: "told 0 R s1" by (rule kept_told [OF fl(2)])
  have ok1: "handle_ok R s1" using t fl(3) by (auto simp: handle_ok_def)
  show ?thesis
  proof (cases r1)
    case (Inl e)
    with p False f have r: "s' = error_close e s1" "r = Ready None" by (simp_all add: ss_poll_next_def)
    from error_close_told [OF t, of e] fl(1) r show ?thesis
      by (intro exI [of _ "[]"]) (auto simp: ss_reads_def received_def List.map_filter_def intro: exI [of _ 0] exI [of _ 1])
  next
    case (Inr u)
    show ?thesis
    proof (cases "s' = s1 \<and> r = Pending")
      case True
      then show ?thesis using ok1 fl(1) by (intro exI [of _ "[]"]) (simp add: received_def List.map_filter_def)
    next
      case go: False
      with p False f Inr obtain r2 s2 r3 where 2: "recv_frame s1 = Some (r2, s2)" and 3: "recv_event s2 = Some (r3, s')" and r: "r \<noteq> Ready None"
        by (auto simp: ss_poll_next_def split: if_splits option.splits)
      from recv_frame_handle [OF 2 ok1] obtain c where c: "ss_reads s1 s2 c"
        "handle_ok (R @ received (cx_id (wp_context s1)) (ss_before_receive s1) c) s2" by blast
      have i: "cx_id (wp_context s1) = cx_id (wp_context s)" "ss_before_receive s1 = ss_before_receive s" using fl(1) by (simp_all add: ss_reads_def)
      have sm: "same_handles s2 s'" by (rule recv_event_same [OF 3])
      have "handle_ok (R @ received (cx_id (wp_context s)) (ss_before_receive s) c) s'"
        using c(2) same_kept(2,3) [OF sm] recv_event_dead [OF 3] unfolding i handle_ok_def by auto
      moreover have "ss_reads s s' c" using reads_trans [OF reads_trans [OF fl(1) c(1)] same_reads [OF sm]] by simp
      ultimately show ?thesis using r by (intro exI [of _ c]) simp
    qed
  qed
qed

lemma run_handle:
  assumes "sub_run ss_poll_next ops (ended, s) = Some (acc, ended', s')" and "if ended then \<exists>k \<le> 2. told k R s else handle_ok R s"
  shows "\<exists>c. ss_reads s s' c \<and> (let R' = R @ received (cx_id (wp_context s)) (ss_before_receive s) c in
    (if ended' then \<exists>k \<le> 2. told k R' s' else handle_ok R' s'))"
  using assms
proof (induction ops arbitrary: ended s acc R)
  case Nil
  then show ?case by (intro exI [of _ "[]"]) (auto simp: ss_reads_def received_def List.map_filter_def)
next
  case (Cons x ops)
  from Cons.prems(1) obtain a e1 s1 a' where 1: "sub_step ss_poll_next x (ended, s) = Some (a, e1, s1)"
    "sub_run ss_poll_next ops (e1, s1) = Some (a', ended', s')" by (auto split: option.splits)
  have "\<exists>c. ss_reads s s1 c \<and> (let R' = R @ received (cx_id (wp_context s)) (ss_before_receive s) c in
    (if e1 then \<exists>k \<le> 2. told k R' s1 else handle_ok R' s1))"
  proof (cases "\<exists>b. x = SubPoll b \<and> \<not> ended")
    case True
    then obtain b r where "ss_poll_next b s = Some (r, s1)" "e1 = (r = Ready None)" using 1(1) by auto
    moreover have "handle_ok R s" using Cons.prems(2) True by simp
    ultimately show ?thesis using ss_poll_next_handle by simp
  next
    case False
    then have e: "e1 = ended" "wp_dead s1 = wp_dead s" "ss_reads s s1 []" "ss_service_proto_sender s1 = ss_service_proto_sender s"
      "ss_spawned_service s1 = ss_spawned_service s" "cx_id (wp_context s1) = cx_id (wp_context s)"
      using 1(1) by (cases x; auto simp: ss_reads_def split: if_splits)+
    then have "told k R s1 = told k R s" "live R s1 = live R s" for k by (simp_all add: told_def live_def)
    with e(1-3) show ?thesis using Cons.prems(2)
      by (intro exI [of _ "[]"]) (auto simp: received_def List.map_filter_def handle_ok_def split: if_splits)
  qed
  then obtain c where c: "ss_reads s s1 c"
    "if e1 then \<exists>k \<le> 2. told k (R @ received (cx_id (wp_context s)) (ss_before_receive s) c) s1
     else handle_ok (R @ received (cx_id (wp_context s)) (ss_before_receive s) c) s1" by (auto simp: Let_def)
  from Cons.IH [OF 1(2) c(2)] obtain d where "ss_reads s1 s' d" "let R' = (R @ received (cx_id (wp_context s)) (ss_before_receive s) c) @ received (cx_id (wp_context s1)) (ss_before_receive s1) d in
    (if ended' then \<exists>k \<le> 2. told k R' s' else handle_ok R' s')" by blast
  moreover have "cx_id (wp_context s1) = cx_id (wp_context s)" "ss_before_receive s1 = ss_before_receive s" using c(1) by (simp_all add: ss_reads_def)
  ultimately show ?case using reads_trans [OF c(1)] by (intro exI [of _ "c @ d"]) (simp add: received_append)
qed

section \<open>Properties\<close>

text \<open>The tasks run on their own, so that what the handle gets from them is any interleaving of their events.\<close>

fun merges :: "'a list list \<Rightarrow> 'a list set" where
  "merges [] = {[]}"
| "merges (xs # xss) = (\<Union>ys \<in> merges xss. shuffles xs ys)"

lemma append_shuffles: "xs @ ys \<in> shuffles xs ys"
proof (induction xs)
  case (Cons x xs)
  then show ?case by (cases ys) auto
qed simp

lemma merges_concat: "concat xss \<in> merges xss"
proof (induction xss)
  case (Cons xs xss)
  then show ?case using append_shuffles [of xs "concat xss"] by auto
qed simp

lemma merges_filter: "m \<in> merges xss \<Longrightarrow> filter P m \<in> merges (map (filter P) xss)"
proof (induction xss arbitrary: m)
  case (Cons xs xss)
  then obtain ys where "ys \<in> merges xss" "m \<in> shuffles xs ys" by auto
  then have "filter P m \<in> shuffles (filter P xs) (filter P ys)" "filter P ys \<in> merges (map (filter P) xss)"
    using Cons.IH by (auto simp flip: filter_shuffles)
  then show ?case by auto
qed simp

lemma merges_empty: "merges (replicate n []) = {[]}"
  by (induction n) auto

lemma merges_length: "m \<in> merges xss \<Longrightarrow> length m = sum_list (map length xss)"
  by (induction xss arbitrary: m) (auto dest: length_shuffles)

lemma shuffles_last: "m \<in> shuffles xs ys \<Longrightarrow> m \<noteq> [] \<Longrightarrow> (xs \<noteq> [] \<longrightarrow> last xs = d) \<Longrightarrow> (ys \<noteq> [] \<longrightarrow> last ys = d) \<Longrightarrow> last m = d"
proof (induction xs ys arbitrary: m rule: shuffles.induct)
  case (3 x xs y ys)
  then consider m' where "m = x # m'" "m' \<in> shuffles xs (y # ys)" | m' where "m = y # m'" "m' \<in> shuffles (x # xs) ys" by auto
  then show ?case
  proof cases
    case 1
    moreover have "m' \<noteq> []" using 1(2) by (auto dest: length_shuffles)
    ultimately show ?thesis using 3 by (auto split: if_splits)
  next
    case 2
    moreover have "m' \<noteq> []" using 2(2) by (auto dest: length_shuffles)
    ultimately show ?thesis using 3 by (auto split: if_splits)
  qed
qed auto

lemma merges_last: "m \<in> merges xss \<Longrightarrow> m \<noteq> [] \<Longrightarrow> \<forall>xs \<in> set xss. xs \<noteq> [] \<longrightarrow> last xs = d \<Longrightarrow> last m = d"
proof (induction xss arbitrary: m)
  case (Cons xs xss)
  then obtain ys where "ys \<in> merges xss" "m \<in> shuffles xs ys" by auto
  with Cons show ?case using shuffles_last [of m xs ys d] by auto
qed simp

lemma end_tasks_merge:
  assumes "m \<in> merges (end_tasks k i waits)" and "SvcDisconnected i \<notin> set waits"
  shows "k \<noteq> 0 \<Longrightarrow> filter (\<lambda>e. e \<noteq> SvcDisconnected i) m = waits" and "length (filter (\<lambda>e. e = SvcDisconnected i) m) = k"
    and "k \<noteq> 0 \<Longrightarrow> m \<noteq> [] \<and> last m = SvcDisconnected i"
proof -
  have w: "filter (\<lambda>e. e \<noteq> SvcDisconnected i) waits = waits" "filter (\<lambda>e. e = SvcDisconnected i) waits = []"
    using assms(2) by (auto simp: filter_empty_conv intro: filter_True)
  from merges_filter [OF assms(1), of "\<lambda>e. e \<noteq> SvcDisconnected i"] w
  show "filter (\<lambda>e. e \<noteq> SvcDisconnected i) m = waits" if "k \<noteq> 0"
    using that by (cases k) (simp_all add: end_tasks_def merges_empty)
  from merges_length [OF merges_filter [OF assms(1), of "\<lambda>e. e = SvcDisconnected i"]] w
  show n: "length (filter (\<lambda>e. e = SvcDisconnected i) m) = k"
    by (cases k) (simp_all add: end_tasks_def sum_list_replicate)
  show "m \<noteq> [] \<and> last m = SvcDisconnected i" if "k \<noteq> 0"
  proof
    show ne: "m \<noteq> []" using n that by auto
    show "last m = SvcDisconnected i"
      by (rule merges_last [OF assms(1) ne]) (auto simp: end_tasks_def split: nat.splits if_splits)
  qed
qed

text \<open>A sequence of events of a handle: \<open>pre\<close> and, anywhere in it but also at its end, \<open>k\<close> times the end.\<close>

definition sees_end :: "session_id \<Rightarrow> nat \<Rightarrow> service_proto_event list \<Rightarrow> service_proto_event list \<Rightarrow> bool" where
  "sees_end i k pre seen \<longleftrightarrow> filter (\<lambda>e. e \<noteq> SvcDisconnected i) seen = pre \<and>
     length (filter (\<lambda>e. e = SvcDisconnected i) seen) = k \<and> (k \<noteq> 0 \<longrightarrow> last seen = SvcDisconnected i)"

lemma told_merges:
  assumes tk: "told k R s" and no: "SvcDisconnected (cx_id (wp_context s)) \<notin> set R"
  shows "\<exists>b pre. ss_service_proto_sender s = Some b \<and> prefix pre R \<and>
    (\<forall>m \<in> merges (ss_spawned_service s). sees_end (cx_id (wp_context s)) k pre (ms_sent (bf_sender b) @ m @ bf_buffer b))"
proof -
  let ?i = "cx_id (wp_context s)"
  from tk obtain b waits where b: "ss_service_proto_sender s = Some b" "prefix (ms_sent (bf_sender b) @ waits) R"
    "bf_buffer b = (if k = 0 then waits else [])" "ss_spawned_service s = end_tasks k ?i waits"
    by (auto simp: told_def)
  from b(2) no have "SvcDisconnected ?i \<notin> set (ms_sent (bf_sender b) @ waits)" by (auto simp: prefix_def)
  then have d: "SvcDisconnected ?i \<notin> set (ms_sent (bf_sender b))" "SvcDisconnected ?i \<notin> set waits" by simp_all
  have f: "filter (\<lambda>e. e \<noteq> SvcDisconnected ?i) xs = xs" "filter (\<lambda>e. e = SvcDisconnected ?i) xs = []"
    if "SvcDisconnected ?i \<notin> set xs" for xs
    using that by (auto simp: filter_empty_conv intro: filter_True)
  have "sees_end ?i k (ms_sent (bf_sender b) @ waits) (ms_sent (bf_sender b) @ m @ bf_buffer b)"
    if m: "m \<in> merges (ss_spawned_service s)" for m
  proof -
    note e = end_tasks_merge [OF m [unfolded b(4)] d(2)]
    have "filter (\<lambda>e. e \<noteq> SvcDisconnected ?i) (ms_sent (bf_sender b) @ m @ bf_buffer b) = ms_sent (bf_sender b) @ waits"
      using e m b(3,4) f d by (cases k) (simp_all add: end_tasks_def)
    moreover have "length (filter (\<lambda>e. e = SvcDisconnected ?i) (ms_sent (bf_sender b) @ m @ bf_buffer b)) = k"
      using e(2) b(3) f d by (cases k) simp_all
    ultimately show ?thesis using e(3) b(3) by (simp add: sees_end_def)
  qed
  with b(1,2) show ?thesis by blast
qed

text \<open>C8. The protocol handle of a service gets of a substream, whatever the session and the socket do and in whatever
  order the spawned tasks run: that it is connected, then the frames that the socket delivered, as the protocol's filter
  left them, in order and once each, as far as they were not lost with a handle that is gone; and at most twice, the last
  event of all included, that it is disconnected. When the end is told twice the two tasks are independent, and the first
  of the two ends may come before frames that still waited: only the other events are in order among themselves. While the
  substream is not dead nothing of this is lost: what was handed over and what still waits is all of it, and the end was
  not told.\<close>

theorem handle_sees_frames_in_order:
  assumes "sub_run ss_poll_next ops (False, proto_open version
      (substream_build so i p cfg sender ch context keep (Some (buffer_new handle)) session before)) = Some (acc, ended, s)"
    and "ms_sent handle = []"
  shows "\<exists>consumed b pre k. so_in so = consumed @ so_in (wp_substream s) \<and> ss_service_proto_sender s = Some b \<and> k \<le> 2 \<and>
    prefix pre (SvcConnected (cx_id context) version # received (cx_id context) before consumed) \<and>
    (\<forall>m \<in> merges (ss_spawned_service s).
       filter (\<lambda>e. e \<noteq> SvcDisconnected (cx_id context)) (ms_sent (bf_sender b) @ m @ bf_buffer b) = pre \<and>
       length (filter (\<lambda>e. e = SvcDisconnected (cx_id context)) (ms_sent (bf_sender b) @ m @ bf_buffer b)) = k \<and>
       (k \<noteq> 0 \<longrightarrow> last (ms_sent (bf_sender b) @ m @ bf_buffer b) = SvcDisconnected (cx_id context))) \<and>
    (\<not> wp_dead s \<and> \<not> ended \<longrightarrow> k = 0 \<and> pre = SvcConnected (cx_id context) version # received (cx_id context) before consumed)"
proof -
  define s0 where "s0 = proto_open version (substream_build so i p cfg sender ch context keep (Some (buffer_new handle)) session before)"
  have b: "cx_id (wp_context s0) = cx_id context" "ss_before_receive s0 = before" "so_in (wp_substream s0) = so_in so"
    by (simp_all add: s0_def proto_open_def substream_build_def)
  have "live [SvcConnected (cx_id context) version] s0"
    using assms(2) by (simp add: s0_def proto_open_def substream_build_def live_def buffer_new_def buffer_push_def buffer_contents_def)
  then have "if False then \<exists>k \<le> 2. told k [SvcConnected (cx_id context) version] s0 else handle_ok [SvcConnected (cx_id context) version] s0"
    by (simp add: live_handle_ok)
  from run_handle [OF assms(1) [folded s0_def] this] obtain c where c: "ss_reads s0 s c"
    "let R' = SvcConnected (cx_id context) version # received (cx_id context) before c in
      (if ended then \<exists>k \<le> 2. told k R' s else handle_ok R' s)" by (auto simp: b)
  define R where "R = SvcConnected (cx_id context) version # received (cx_id context) before c"
  have i: "cx_id (wp_context s) = cx_id context" "so_in so = c @ so_in (wp_substream s)" using c(1) b by (simp_all add: ss_reads_def)
  have no: "SvcDisconnected (cx_id context) \<notin> set R" by (auto simp: R_def received_def)
  show ?thesis
  proof (cases "\<not> wp_dead s \<and> \<not> ended")
    case True
    then have "live R s" using c(2) by (simp add: handle_ok_def R_def Let_def)
    then obtain h where h: "ss_service_proto_sender s = Some h" "buffer_contents h = R" "ss_spawned_service s = []" by (auto simp: live_def)
    have "filter (\<lambda>e. e \<noteq> SvcDisconnected (cx_id context)) R = R" "filter (\<lambda>e. e = SvcDisconnected (cx_id context)) R = []"
      using no by (auto simp: filter_empty_conv intro: filter_True)
    then show ?thesis
      by (intro exI [of _ c] exI [of _ h] exI [of _ R] exI [of _ 0])
        (use h i in \<open>simp add: R_def [symmetric] buffer_contents_def flip: filter_append\<close>)
  next
    case False
    have "(\<exists>k \<le> 2. told k R s) \<or> (\<exists>k \<le> 1. told k R s)" using c(2) by (auto simp: handle_ok_def R_def Let_def split: if_splits)
    then have "\<exists>k \<le> 2. told k R s" by (meson le_trans one_le_numeral)
    then obtain k where k: "k \<le> 2" "told k R s" by blast
    from told_merges [OF k(2)] no i have "\<exists>b pre. ss_service_proto_sender s = Some b \<and> prefix pre R \<and>
        (\<forall>m \<in> merges (ss_spawned_service s). sees_end (cx_id context) k pre (ms_sent (bf_sender b) @ m @ bf_buffer b))" by simp
    with k(1) False i show ?thesis unfolding R_def sees_end_def by blast
  qed
qed

lemma sample_handle_run:
  "map_option (\<lambda>(acc, ended, s). (ended, map_option (\<lambda>b. ms_sent (bf_sender b)) (ss_service_proto_sender s), ss_spawned_service s))
    (Option.bind (channel_new 4) (\<lambda>ch. sub_run ss_poll_next (sample_sub_ops @ [SubPoll 9, SubPoll 9, SubPoll 9, SubPoll 9])
      (False, proto_open [0x31] (sample_substream ch)))) =
    Some (True, Some [SvcConnected 3 [0x31], SvcReceived 3 [7], SvcReceived 3 [8]], [[SvcDisconnected 3]])"
  by code_simp

theorem handle_sees_frames_in_order_witness:
  "\<exists>ch acc s consumed. channel_new 4 = Some ch \<and> sub_run ss_poll_next (sample_sub_ops @ [SubPoll 9, SubPoll 9, SubPoll 9, SubPoll 9])
      (False, proto_open [0x31] (sample_substream ch)) = Some (acc, True, s) \<and>
    so_in sample_substream_socket = consumed @ so_in (wp_substream s)"
proof -
  from sample_handle_run obtain ch acc s where 1: "channel_new 4 = Some ch"
    "sub_run ss_poll_next (sample_sub_ops @ [SubPoll 9, SubPoll 9, SubPoll 9, SubPoll 9]) (False, proto_open [0x31] (sample_substream ch)) =
      Some (acc, True, s)" by (auto simp: bind_eq_Some_conv)
  have "ms_sent (sample_sender :: service_proto_event mpsc_sender) = []" by (simp add: sample_sender_def)
  from handle_sees_frames_in_order [OF 1(2) [unfolded sample_substream_def] this] 1 show ?thesis by blast
qed

lemma close_proto_stream_open:
  assumes "\<not> cx_closed (wp_context s)" and "ss_service_proto_sender s = Some h"
  shows "ss_spawned_service (close_proto_stream s) = ss_spawned_service s @ [bf_buffer h @ [SvcDisconnected (cx_id (wp_context s))]]"
    and "ss_service_proto_sender (close_proto_stream s) = Some (h\<lparr>bf_buffer := []\<rparr>)" and "wp_context (close_proto_stream s) = wp_context s"
    and "wp_id (close_proto_stream s) = wp_id s" and "wp_proto_id (close_proto_stream s) = wp_proto_id s"
    and "bf_buffer (wp_event_sender (close_proto_stream s)) = []"
    and "wp_spawned (close_proto_stream s) =
      wp_spawned s @ [(if ss_keep_buffer s then bf_buffer (wp_event_sender s) else []) @ [PeClose (wp_id s) (wp_proto_id s)]]"
  using assms
  by (cases "ss_session_proto_sender s"; simp add: close_proto_stream_def Let_def wp_shutdown_def close_service_handle_def
      close_session_handle_def notify_session_def buffer_take_def buffer_clear_def)+

text \<open>An error of the frame codec that is not one of a lost connection is told twice: the poll that reads it closes the
  substream, and the next poll, finding it dead, closes it again. The handle of the service is disconnected two times, and
  the session is told two times that the stream is closed.\<close>

theorem codec_error_closes_twice:
  assumes "\<not> wp_dead s" and "\<not> cx_closed (wp_context s)" and "ss_flush s = (Inr (), s0)" and "fst (poll_proceed b) = Ready ()"
    and "\<not> wp_dead s0" and "wp_context s0 = wp_context s" and "recv_event_size (wp_config s0) = Some n"
    and "ss_waiting (ss_service_proto_sender s0) \<le> unat n" and "ss_waiting (ss_session_proto_sender s0) \<le> unat n"
    and "poll_next_unpin (wp_substream s0) = (Ready (Some (Inl e)), so)" and "\<not> error_is_quiet e"
    and "ss_service_proto_sender s0 = Some h"
  shows "\<exists>s1 s2 E. ss_poll_next b s = Some (Ready (Some ()), s1) \<and> ss_poll_next b' s1 = Some (Ready None, s2) \<and>
    ss_spawned_service s2 = ss_spawned_service s0 @ [bf_buffer h @ [SvcDisconnected (cx_id (wp_context s))], [SvcDisconnected (cx_id (wp_context s))]] \<and>
    wp_spawned s2 = wp_spawned s0 @ [E @ [PeClose (wp_id s0) (wp_proto_id s0)], [PeClose (wp_id s0) (wp_proto_id s0)]]"
proof -
  define s1 where "s1 = error_close e (s0\<lparr>wp_substream := so\<rparr>)"
  have rf: "recv_frame s0 = Some (Ready None, s1)" using assms(5,7-10) by (simp add: recv_frame_def s1_def)
  have d: "wp_dead s1" by (simp add: s1_def error_close_dead)
  then have "recv_event s1 = Some (Ready None, s1)" by (simp add: recv_event_def)
  with assms(1-4) rf have p1: "ss_poll_next b s = Some (Ready (Some ()), s1)" by (simp add: ss_poll_next_def)
  have p2: "ss_poll_next b' s1 = Some (Ready None, close_proto_stream s1)" using d by (simp add: ss_poll_next_def)
  define t where "t = s0\<lparr>wp_substream := so, wp_dead := True, wp_event_sender := buffer_push (PeError (wp_proto_id s0) e) (wp_event_sender s0)\<rparr>"
  have s1: "s1 = close_proto_stream t" using assms(11) by (simp add: s1_def t_def error_close_def Let_def)
  have t: "\<not> cx_closed (wp_context t)" "ss_service_proto_sender t = Some h" "wp_context t = wp_context s" "ss_spawned_service t = ss_spawned_service s0"
    "wp_spawned t = wp_spawned s0" "wp_id t = wp_id s0" "wp_proto_id t = wp_proto_id s0"
    using assms(2,6,12) by (simp_all add: t_def)
  note c1 = close_proto_stream_open [OF t(1,2), folded s1]
  have "\<not> cx_closed (wp_context s1)" using c1(3) t(1) by simp
  note c2 = close_proto_stream_open [OF this c1(2)]
  have "ss_spawned_service (close_proto_stream s1) =
      ss_spawned_service s0 @ [bf_buffer h @ [SvcDisconnected (cx_id (wp_context s))], [SvcDisconnected (cx_id (wp_context s))]]"
    using c1(1,3) c2(1) t(3,4) by simp
  moreover have "\<exists>E. wp_spawned (close_proto_stream s1) =
      wp_spawned s0 @ [E @ [PeClose (wp_id s0) (wp_proto_id s0)], [PeClose (wp_id s0) (wp_proto_id s0)]]"
    using c1(4-7) c2(7) t(5-7) by auto
  ultimately show ?thesis using p1 p2 by blast
qed

definition failing_substream :: "io_kind list \<Rightarrow> protocol_event channel \<Rightarrow> substream" where
  "failing_substream flush ch = substream_build
     \<lparr>so_in = [Ready (Some (Inl IoInvalidData))], so_ready = [], so_send = [], so_flush = map (\<lambda>e. Ready (Inl e)) flush, so_close = [], so_out = []\<rparr>
     1 2 sample_session_config sample_sender ch \<lparr>cx_id = 3, cx_closed = False, cx_pending_data_size = 0\<rparr> False (Some (buffer_new sample_sender)) None None"

theorem codec_error_closes_twice_witness:
  "\<exists>ch s1 s2. channel_new 4 = Some ch \<and> ss_poll_next 9 (failing_substream [] ch) = Some (Ready (Some ()), s1) \<and>
    ss_poll_next 9 s1 = Some (Ready None, s2) \<and> ss_spawned_service s2 = [[SvcDisconnected 3], [SvcDisconnected 3]]"
proof -
  have "(4 :: u64) < MAX_BUFFER" by (simp add: MAX_BUFFER_def MAX_CAPACITY_mask mask_eq_exp_minus_1)
  then obtain ch :: "protocol_event channel" where c: "channel_new 4 = Some ch" by (simp add: channel_new_def)
  let ?s = "failing_substream [] ch"
  note defs = failing_substream_def substream_build_def buffer_new_def sample_sender_def sample_session_config_def
  have f: "ss_flush ?s = (Inr (), ?s)"
    by (simp add: ss_flush_def ss_poll_complete_def poll_flush_unpin_def flush_rest_def ss_waiting_def defs)
  have 1: "\<not> wp_dead ?s" "\<not> cx_closed (wp_context ?s)" "fst (poll_proceed 9) = Ready ()"
    by (simp_all add: defs poll_proceed_def Let_def)
  have 2: "recv_event_size (wp_config ?s) = Some 3" "ss_waiting (ss_service_proto_sender ?s) \<le> unat (3 :: u64)"
    "ss_waiting (ss_session_proto_sender ?s) \<le> unat (3 :: u64)" "ss_service_proto_sender ?s = Some (buffer_new sample_sender)"
    by (simp_all add: defs recv_event_size_def ss_waiting_def)
  have 3: "poll_next_unpin (wp_substream ?s) = (Ready (Some (Inl IoInvalidData)), (wp_substream ?s)\<lparr>so_in := []\<rparr>)" "\<not> error_is_quiet IoInvalidData"
    by (simp_all add: defs poll_next_unpin_def)
  have 4: "ss_spawned_service ?s = []" "cx_id (wp_context ?s) = 3" "bf_buffer (buffer_new (sample_sender :: service_proto_event mpsc_sender)) = []"
    by (simp_all add: defs)
  from codec_error_closes_twice [OF 1(1,2) f 1(3,1) refl 2(1-3) 3 2(4), of 9] show ?thesis unfolding 4 append_Nil using c by blast
qed

text \<open>When flushing fails because the connection is lost, the poll ends the substream and nobody is told: no event is sent
  to the handles or to the session, and what still waited for the handles is dropped with the substream.\<close>

theorem lost_connection_is_not_told:
  assumes "\<not> wp_dead s" and "\<not> cx_closed (wp_context s)" and "poll_flush_unpin (wp_substream s) = (Ready (Inl e), so)" and "error_is_quiet e"
  shows "ss_poll_next b s = Some (Ready None, s\<lparr>wp_substream := so, wp_dead := True\<rparr>)"
  using assms by (simp add: ss_poll_next_def ss_flush_def ss_poll_complete_def error_close_def)

theorem lost_connection_is_not_told_witness:
  "\<exists>ch s. channel_new 4 = Some ch \<and> ss_poll_next 9 (failing_substream [IoBrokenPipe] ch) = Some (Ready None, s) \<and>
    ss_spawned_service s = [] \<and> wp_spawned s = []"
proof -
  have "(4 :: u64) < MAX_BUFFER" by (simp add: MAX_BUFFER_def MAX_CAPACITY_mask mask_eq_exp_minus_1)
  then obtain ch :: "protocol_event channel" where c: "channel_new 4 = Some ch" by (simp add: channel_new_def)
  from lost_connection_is_not_told [of "failing_substream [IoBrokenPipe] ch" IoBrokenPipe _ 9] show ?thesis
    by (intro exI [of _ ch]) (auto simp: c failing_substream_def substream_build_def poll_flush_unpin_def)
qed

end
