(* ===== verification/Wire_Codec.thy ===== *)
theory Wire_Codec
  imports Secio_Messages
begin

text \<open>
  Codecs of nested message types. \<open>codes v rd b x\<close>: the bytes \<open>b\<close> pass the verification \<open>v\<close> of their type, and reading them
  with \<open>rd\<close> gives \<open>x\<close>. \<open>sound_reader v rd\<close>: neither the verification nor the reading of what it accepts panics. One lemma of
  each sort for each kind of type; the older generator's tables and vectors come down to the newer ones.

  A reader returns \<open>None\<close> if it panics and \<open>Some None\<close> if the value is refused.
\<close>

definition codes :: "verifier \<Rightarrow> (bytes \<Rightarrow> 'a option option) \<Rightarrow> bytes \<Rightarrow> 'a \<Rightarrow> bool" where
  "codes v rd b x \<longleftrightarrow> (\<forall>c. passes v c b) \<and> rd b = Some (Some x)"

definition sound_reader :: "verifier \<Rightarrow> (bytes \<Rightarrow> 'a option option) \<Rightarrow> bool" where
  "sound_reader v rd \<longleftrightarrow> no_panic v \<and> (\<forall>c sl. passes v c sl \<longrightarrow> (\<exists>r. rd sl = Some r))"

text \<open>The operator \<^verbatim>\<open>?\<close> of an option, where evaluating the operand may panic, and a loop with it over the items of a vector.\<close>

definition try_let :: "'a option option \<Rightarrow> ('a \<Rightarrow> 'b option option) \<Rightarrow> 'b option option" where
  "try_let r k = (case r of None \<Rightarrow> None | Some None \<Rightarrow> Some None | Some (Some x) \<Rightarrow> k x)"

fun read_all :: "(bytes \<Rightarrow> 'a option option) \<Rightarrow> bytes list \<Rightarrow> 'a list option option" where
  "read_all rd [] = Some (Some [])"
| "read_all rd (b # bs) =
     try_let (rd b) (\<lambda>x. map_option (map_option ((#) x)) (read_all rd bs))"

definition read_dynvec :: "molecule \<Rightarrow> (bytes \<Rightarrow> 'a option option) \<Rightarrow> bytes \<Rightarrow> 'a list option option" where
  "read_dynvec mo rd sl = Option.bind (dynvec_iter mo sl) (read_all rd)"

definition read_field :: "molecule \<Rightarrow> nat \<Rightarrow> nat \<Rightarrow> (bytes \<Rightarrow> 'a option) \<Rightarrow> bytes \<Rightarrow> 'a option" where
  "read_field mo n i rd sl = Option.bind (table_field mo n i sl) rd"

definition read_bytes :: "bytes \<Rightarrow> bytes option option" where
  "read_bytes sl = map_option Some (fixvec_raw_data sl)"

text \<open>A match on \<^verbatim>\<open>to_enum()\<close>, and \<^verbatim>\<open>to_opt().map(..)\<close>.\<close>

definition read_union :: "molecule \<Rightarrow> nat \<Rightarrow> (nat \<Rightarrow> bytes \<Rightarrow> 'a option option) \<Rightarrow> bytes \<Rightarrow> 'a option option" where
  "read_union mo n rd sl = Option.bind (to_enum mo n sl) (\<lambda>(i, inner). rd i inner)"

definition read_opt :: "(bytes \<Rightarrow> 'a option option) \<Rightarrow> bytes \<Rightarrow> 'a option option option" where
  "read_opt rd sl = (case to_opt sl of None \<Rightarrow> Some (Some None) | Some b \<Rightarrow> map_option (map_option Some) (rd b))"

text \<open>
  Numbers are read through a pointer to the first byte of the slice, \<^verbatim>\<open>u32::from_le(unsafe { *le })\<close>, so the readers of numbers
  are given the address of their slice. The address must be a multiple of the size of the number: reading a misaligned pointer is
  undefined, and panics where the checks of debug builds are on; the model has \<open>None\<close> there. A slice that is too short would be
  read beyond its end, which is \<open>None\<close> also.
\<close>

fun read_u32 :: "nat \<Rightarrow> bytes \<Rightarrow> u32 option option" where
  "read_u32 p (a # b # c # d # _) = (if p mod 4 = 0 then Some (Some (be32 d c b a)) else None)"
| "read_u32 p _ = None"

fun read_u16 :: "nat \<Rightarrow> bytes \<Rightarrow> u16 option option" where
  "read_u16 p (a # b # _) = (if p mod 2 = 0 then Some (Some (be16 b a)) else None)"
| "read_u16 p _ = None"

text \<open>The accessors with the address of what they return: a field starts at its offset in the table, the item of a union after
  its number.\<close>

definition read_field_at :: "molecule \<Rightarrow> nat \<Rightarrow> nat \<Rightarrow> (nat \<Rightarrow> bytes \<Rightarrow> 'a option) \<Rightarrow> nat \<Rightarrow> bytes \<Rightarrow> 'a option" where
  "read_field_at mo n i rd p sl = read_field mo n i (rd (p + number_at mo sl (4 * (1 + i)))) sl"

definition read_union_at ::
  "molecule \<Rightarrow> nat \<Rightarrow> (nat \<Rightarrow> nat \<Rightarrow> bytes \<Rightarrow> 'a option option) \<Rightarrow> nat \<Rightarrow> bytes \<Rightarrow> 'a option option" where
  "read_union_at mo n rd p = read_union mo n (\<lambda>item. rd item (p + 4))"

definition u32_write :: "u32 \<Rightarrow> bytes" where
  "u32_write x = rev (put_u32 x)"

definition u16_write :: "u16 \<Rightarrow> bytes" where
  "u16_write x = rev (put_u16 x)"

section \<open>What is written is read\<close>

lemma try_let_simps [simp]: "try_let None k = None" "try_let (Some None) k = Some None" "try_let (Some (Some x)) k = k x"
  by (simp_all add: try_let_def)

lemma read_u32_write: "read_u32 p (u32_write x) = (if p mod 4 = 0 then Some (Some x) else None)"
  by (rule put_u32_cases [of x]) (simp add: u32_write_def)

lemma codes_u32: "p mod 4 = 0 \<Longrightarrow> codes (array_verify 4) (read_u32 p) (u32_write x) x"
  using read_u32_write [of p x] by (simp add: codes_def array_written u32_write_def)

lemma codes_u16: "p mod 2 = 0 \<Longrightarrow> codes (array_verify 2) (read_u16 p) (u16_write x) x"
  by (rule put_u16_cases [of x]) (simp add: codes_def array_written u16_write_def)

lemma length_number_write [simp]: "length (u32_write x) = 4" "length (u16_write y) = 2"
  by (simp_all add: u32_write_def u16_write_def)

lemma codes_return: "(\<And>c. passes v c b) \<Longrightarrow> codes v (\<lambda>_. Some (Some x)) b x"
  by (simp add: codes_def)

lemma codes_try: "codes v f b x \<Longrightarrow> codes v (g x) b y \<Longrightarrow> codes v (\<lambda>sl. try_let (f sl) (\<lambda>x. g x sl)) b y"
  by (simp add: codes_def)

lemma codes_decode: "codes v rd b x \<Longrightarrow> verified (v b True) (rd b) = Some (Some x)"
  by (simp add: codes_def verified_passes)

lemma codes_bytes: "mol_ok mo \<Longrightarrow> length b < 2 ^ 32 \<Longrightarrow> codes (fixvec_verify mo) read_bytes (fixvec_write mo b) b"
  by (simp add: codes_def read_bytes_def fixvec_written)

lemma read_all_codes: "(\<And>x. x \<in> set xs \<Longrightarrow> rd (w x) = Some (Some x)) \<Longrightarrow> read_all rd (map w xs) = Some (Some xs)"
  by (induction xs) auto

lemma codes_dynvec:
  assumes "mol_ok mo" and "length (dynvec_write mo (map w xs)) < 2 ^ 32" and "\<And>x. x \<in> set xs \<Longrightarrow> codes v rd (w x) x"
  shows "codes (dynvec_verify mo v) (read_dynvec mo rd) (dynvec_write mo (map w xs)) xs"
proof -
  have "passes v c y" if "y \<in> set (map w xs)" for c y using that assms(3) by (auto simp: codes_def)
  note d = dynvec_written [OF assms(1,2) this]
  have "read_all rd (map w xs) = Some (Some xs)" by (rule read_all_codes) (use assms(3) in \<open>simp add: codes_def\<close>)
  with d show ?thesis by (simp add: codes_def read_dynvec_def)
qed

lemma codes_dynvec_old:
  assumes "mol_ok mo" and "length (dynvec_write mo (map w xs)) < 2 ^ 32" and "\<And>x. x \<in> set xs \<Longrightarrow> codes v rd (w x) x"
  shows "codes (dynvec_verify_old mo v) (read_dynvec mo rd) (dynvec_write mo (map w xs)) xs"
  using codes_dynvec [OF assms] by (simp add: codes_def dynvec_verify_old_passes)

lemma table_reads:
  assumes "mol_ok mo" and "length bs = length fs" "fs \<noteq> []" and "length (table_write mo bs) < 2 ^ 32"
    and "\<And>i c. i < length fs \<Longrightarrow> passes (fs ! i) c (bs ! i)"
  shows "passes (table_verify mo fs) c (table_write mo bs)" and "passes (table_verify_old mo fs) c (table_write mo bs)"
    and "i < length fs \<Longrightarrow> read_field mo (length fs) i rd (table_write mo bs) = rd (bs ! i)"
  using table_written [OF assms(1-4)] assms(3,5) by (simp_all add: table_verify_old_passes read_field_def)

lemma union_reads:
  assumes "mol_ok mo" and "k < length items" "k < 2 ^ 32" and "\<And>c. passes (items ! k) c b"
  shows "passes (union_verify mo items) c (union_write mo k b)" and "to_enum mo (length items) (union_write mo k b) = Some (k, b)"
  using union_written [OF assms(1-3)] assms(4) by blast+

lemma codes_field:
  assumes "mol_ok mo" and "length bs = length fs" "n = length fs" and "length (table_write mo bs) < 2 ^ 32"
    and "\<And>i c. i < length fs \<Longrightarrow> passes (fs ! i) c (bs ! i)" and "i < n" and "rd (bs ! i) = Some (Some x)"
  shows "codes (table_verify mo fs) (read_field mo n i rd) (table_write mo bs) x"
    and "codes (table_verify_old mo fs) (read_field mo n i rd) (table_write mo bs) x"
proof -
  have "fs \<noteq> []" using assms(3,6) by auto
  note r = table_reads [OF assms(1,2) this assms(4,5)]
  from r(3) [of i rd] assms(3,6,7) r(1,2)
  show "codes (table_verify mo fs) (read_field mo n i rd) (table_write mo bs) x"
    and "codes (table_verify_old mo fs) (read_field mo n i rd) (table_write mo bs) x"
    by (simp_all add: codes_def)
qed

lemma table_reads_at:
  assumes "mol_ok mo" and "length bs = length fs" "fs \<noteq> []" and "length (table_write mo bs) < 2 ^ 32"
    and "\<And>i c. i < length fs \<Longrightarrow> passes (fs ! i) c (bs ! i)" and "i < length fs"
  shows "read_field_at mo (length fs) i rd p (table_write mo bs) = rd (p + (4 * (length fs + 1) + length (concat (take i bs)))) (bs ! i)"
proof -
  have "number_at mo (table_write mo bs) (4 * (1 + i)) = 4 * (length fs + 1) + length (concat (take i bs))"
    using table_write_number(2) [OF assms(1,4), of i] running_nth [of i bs "4 * (length bs + 1)"] assms(2,6) by simp
  then show ?thesis unfolding read_field_at_def using table_reads(3) [OF assms] by simp
qed

lemma codes_field_at:
  assumes "mol_ok mo" and "length bs = length fs" "n = length fs" and "length (table_write mo bs) < 2 ^ 32"
    and "\<And>i c. i < length fs \<Longrightarrow> passes (fs ! i) c (bs ! i)" and "i < n"
    and "rd (p + (4 * (length fs + 1) + length (concat (take i bs)))) (bs ! i) = Some (Some x)"
  shows "codes (table_verify_old mo fs) (read_field_at mo n i rd p) (table_write mo bs) x"
proof -
  have ne: "fs \<noteq> []" using assms(3,6) by auto
  from table_reads_at [OF assms(1,2) ne assms(4,5), of i rd p] table_reads(2) [OF assms(1,2) ne assms(4,5)] assms(3,6,7)
  show ?thesis by (simp add: codes_def)
qed

lemma codes_union:
  assumes "mol_ok mo" and "k < length items" "k < 2 ^ 32" and "n = length items" and "codes (items ! k) (rd k) b x"
  shows "codes (union_verify mo items) (read_union mo n rd) (union_write mo k b) x"
  using union_reads [OF assms(1-3)] assms(4,5) by (simp add: codes_def read_union_def)

lemma codes_opt:
  assumes "\<And>y. x = Some y \<Longrightarrow> codes v rd (w y) y \<and> w y \<noteq> []"
  shows "codes (option_verify v) (read_opt rd) (option_write (map_option w x)) x"
  using assms by (cases x) (auto simp: codes_def read_opt_def option_write_def to_opt_def option_verify_def passes_def)

section \<open>What passes is read\<close>

lemma sound_u32: "p mod 4 = 0 \<Longrightarrow> sound_reader (array_verify 4) (read_u32 p)"
  unfolding sound_reader_def
proof (intro conjI allI impI)
  fix c sl assume "p mod 4 = 0" "passes (array_verify 4) c sl"
  then show "\<exists>r. read_u32 p sl = Some r" by (cases "(p, sl)" rule: read_u32.cases) (simp_all add: array_written)
qed (rule array_no_panic)

lemma sound_u16: "p mod 2 = 0 \<Longrightarrow> sound_reader (array_verify 2) (read_u16 p)"
  unfolding sound_reader_def
proof (intro conjI allI impI)
  fix c sl assume "p mod 2 = 0" "passes (array_verify 2) c sl"
  then show "\<exists>r. read_u16 p sl = Some r" by (cases "(p, sl)" rule: read_u16.cases) (simp_all add: array_written)
qed (rule array_no_panic)

lemma sound_return: "no_panic v \<Longrightarrow> sound_reader v (\<lambda>_. Some r)"
  by (simp add: sound_reader_def)

lemma sound_try: "sound_reader v f \<Longrightarrow> (\<And>x. sound_reader v (g x)) \<Longrightarrow> sound_reader v (\<lambda>sl. try_let (f sl) (\<lambda>x. g x sl))"
  by (fastforce simp: sound_reader_def try_let_def split: option.splits)

lemma sound_map: "sound_reader v rd \<Longrightarrow> sound_reader v (\<lambda>sl. map_option f (rd sl))"
  by (fastforce simp: sound_reader_def)

lemma sound_decode: "sound_reader v rd \<Longrightarrow> \<exists>r. verified (v b True) (rd b) = Some r"
  by (rule verified_total) (auto simp: sound_reader_def)

lemma sound_union:
  assumes "n = length items" and "\<And>i. i < n \<Longrightarrow> sound_reader (items ! i) (rd i)"
  shows "sound_reader (union_verify mo items) (read_union mo n rd)"
  unfolding sound_reader_def
proof (intro conjI allI impI)
  show "no_panic (union_verify mo items)"
    by (rule union_no_panic) (use assms in \<open>auto simp: sound_reader_def in_set_conv_nth\<close>)
next
  fix c sl assume "passes (union_verify mo items) c sl"
  from union_passes [OF this] assms show "\<exists>r. read_union mo n rd sl = Some r"
    by (fastforce simp: sound_reader_def read_union_def)
qed

lemma sound_opt:
  assumes "sound_reader v rd"
  shows "sound_reader (option_verify v) (read_opt rd)"
  unfolding sound_reader_def
proof (intro conjI allI impI)
  show "no_panic (option_verify v)" using assms by (auto simp: sound_reader_def intro: option_no_panic)
next
  fix c sl assume "passes (option_verify v) c sl"
  with assms option_passes show "\<exists>r. read_opt rd sl = Some r"
    by (fastforce simp: sound_reader_def read_opt_def split: option.splits)
qed

lemma sound_bytes: "sound_reader (fixvec_verify mo) read_bytes"
  using fixvec_passes by (fastforce simp: sound_reader_def fixvec_no_panic read_bytes_def)

lemma read_all_total: "(\<And>b. b \<in> set bs \<Longrightarrow> \<exists>r. rd b = Some r) \<Longrightarrow> \<exists>r. read_all rd bs = Some r"
proof (induction bs)
  case (Cons b bs)
  then obtain r s where "rd b = Some r" "read_all rd bs = Some s" by fastforce
  then show ?case by (cases r) simp_all
qed simp

lemma sound_dynvec:
  assumes "mol_ok mo" and "sound_reader v rd"
  shows "sound_reader (dynvec_verify mo v) (read_dynvec mo rd)"
proof -
  have "\<exists>r. read_dynvec mo rd sl = Some r" if "passes (dynvec_verify mo v) c sl" for c sl
  proof -
    from dynvec_verify_passes [OF assms(1) that] obtain ps where "dynvec_iter mo sl = Some ps" "\<forall>x \<in> set ps. passes v c x" by blast
    then show ?thesis using read_all_total [of ps rd] assms(2) unfolding sound_reader_def read_dynvec_def by fastforce
  qed
  then show ?thesis using assms dynvec_no_panic by (auto simp: sound_reader_def)
qed

lemma sound_dynvec_old:
  assumes "mol_ok mo" and "sound_reader v rd"
  shows "sound_reader (dynvec_verify_old mo v) (read_dynvec mo rd)"
  using sound_dynvec [OF assms] assms dynvec_old_no_panic by (auto simp: sound_reader_def dynvec_verify_old_passes)

lemma sound_field:
  assumes "mol_ok mo" and "passes (table_verify mo fs) c sl" and "i < length fs" and "sound_reader (fs ! i) rd"
  shows "\<exists>r. read_field mo (length fs) i rd sl = Some r"
proof -
  from table_verify_passes [OF assms(1-3)] obtain x where "table_field mo (length fs) i sl = Some x" "passes (fs ! i) c x" by blast
  with assms(4) show ?thesis by (auto simp: sound_reader_def read_field_def)
qed

lemma sound_field_old:
  assumes "mol_ok mo" and "passes (table_verify_old mo fs) c sl" and "i < length fs" and "sound_reader (fs ! i) rd"
  shows "\<exists>r. read_field mo (length fs) i rd sl = Some r"
proof -
  have "fs \<noteq> []" using assms(3) by auto
  then show ?thesis using sound_field [OF assms(1) _ assms(3,4)] assms(2) by (simp add: table_verify_old_passes)
qed

lemma sound_table:
  assumes "mol_ok mo" and "\<And>v. v \<in> set fs \<Longrightarrow> no_panic v" and "n = length fs" "i < n" and "sound_reader (fs ! i) rd"
  shows "sound_reader (table_verify mo fs) (read_field mo n i rd)"
    and "sound_reader (table_verify_old mo fs) (read_field mo n i rd)"
proof -
  have ne: "fs \<noteq> []" and i: "i < length fs" using assms(3,4) by auto
  have np: "no_panic (table_verify mo fs)" "no_panic (table_verify_old mo fs)"
    by (rule table_no_panic [OF assms(1)], erule assms(2)) (rule table_old_no_panic [OF assms(1) ne], erule assms(2))
  with sound_field [OF assms(1) _ i assms(5)] sound_field_old [OF assms(1) _ i assms(5)]
  show "sound_reader (table_verify mo fs) (read_field mo n i rd)"
    and "sound_reader (table_verify_old mo fs) (read_field mo n i rd)"
    unfolding sound_reader_def assms(3) by blast+
qed

text \<open>A field of a verified table starts at a multiple of 4 if the lengths of the fields before it are multiples of 4.\<close>

lemma field_aligned:
  assumes mo: "mol_ok mo" and p: "passes (table_verify mo fs) c sl" and i: "i < length fs"
    and before: "\<And>j x. j < i \<Longrightarrow> passes (fs ! j) c x \<Longrightarrow> length x mod 4 = 0"
  shows "number_at mo sl (4 * (1 + i)) mod 4 = 0"
proof -
  from p obtain os where os: "table_offsets mo (length fs) sl c = Inr os"
    and parts: "verify_parts sl c fs (drop 0 os) = Some (Inr ())"
    by (auto simp: passes_def table_verify_def split: sum.splits)
  from table_offsets_layout [OF mo os] have l: "layout mo sl os" "length fs < length os" by auto
  have ps: "passes (fs ! j) c (part sl os j)" if "j < length fs" for j
    using verify_parts_passes [OF l(1), of 0 fs c] l(2) parts that by simp
  have "os ! j mod 4 = 0" if "j \<le> i" for j
    using that
  proof (induction j)
    case 0
    then show ?case using l(1) by (simp add: layout_def)
  next
    case (Suc j)
    have s: "sorted os" and last: "os ! (length os - 1) = length sl" using l(1) by (simp_all add: layout_def)
    have "os ! j \<le> os ! Suc j" "os ! Suc j \<le> length sl"
      using sorted_nth_mono [OF s, of j "Suc j"] sorted_nth_mono [OF s, of "Suc j" "length os - 1"] Suc.prems i l(2) last by simp_all
    then have "os ! Suc j = os ! j + length (part sl os j)" by (simp add: part_def)
    moreover have "length (part sl os j) mod 4 = 0" using before [of j] ps [of j] Suc.prems i by simp
    ultimately show ?case using Suc by presburger
  qed
  moreover have "number_at mo sl (4 * (1 + i)) = os ! i" using l i by (simp add: layout_def)
  ultimately show ?thesis by simp
qed

lemma sound_table_at:
  assumes "mol_ok mo" and "\<And>v. v \<in> set fs \<Longrightarrow> no_panic v" and "n = length fs" "i < n" and "p mod 4 = 0"
    and "\<And>q. q mod 4 = 0 \<Longrightarrow> sound_reader (fs ! i) (rd q)"
    and "\<And>j c x. j < i \<Longrightarrow> passes (fs ! j) c x \<Longrightarrow> length x mod 4 = 0"
  shows "sound_reader (table_verify_old mo fs) (read_field_at mo n i rd p)"
proof -
  have ne: "fs \<noteq> []" and i: "i < length fs" using assms(3,4) by auto
  have "\<exists>r. read_field_at mo n i rd p sl = Some r" if pa: "passes (table_verify_old mo fs) c sl" for c sl
  proof -
    have "passes (table_verify mo fs) c sl" using pa ne by (simp add: table_verify_old_passes)
    then have "number_at mo sl (4 * (1 + i)) mod 4 = 0" by (rule field_aligned [OF assms(1) _ i]) (erule assms(7))
    then have "(p + number_at mo sl (4 * (1 + i))) mod 4 = 0" using assms(5) by presburger
    from sound_field_old [OF assms(1) pa i assms(6) [OF this]] show ?thesis by (simp add: read_field_at_def assms(3))
  qed
  then show ?thesis using table_old_no_panic [OF assms(1) ne assms(2)] by (simp add: sound_reader_def)
qed

section \<open>Sizes\<close>

lemma table_part_size: "mol_ok mo \<Longrightarrow> x \<in> set bs \<Longrightarrow> length x \<le> length (table_write mo bs)"
proof -
  assume mo: "mol_ok mo" and x: "x \<in> set bs"
  have "length x \<le> length (concat bs)" using x by (auto simp: length_concat intro!: member_le_sum_list)
  then show ?thesis by (simp add: table_write_length [OF mo])
qed

lemma dynvec_part_size: "mol_ok mo \<Longrightarrow> x \<in> set bs \<Longrightarrow> length x \<le> length (dynvec_write mo bs)"
  using table_part_size by (auto simp: dynvec_write_def)

lemma union_part_size: "length b \<le> length (union_write mo k b)"
  by (simp add: union_write_def)

lemma bytes_part_size: "length b \<le> length (fixvec_write mo b)"
  by (simp add: fixvec_write_def)

end
