(* ===== verification/Multiaddr.thy ===== *)
theory Multiaddr
  imports Prelude
begin

text \<open>
  Multiaddresses in their binary form (\<^verbatim>\<open>multiaddr/src/protocol.rs\<close>, \<^verbatim>\<open>lib.rs\<close>, \<^verbatim>\<open>onion_addr.rs\<close>): the
  protocol components, their byte representation, and the operations on a whole address. Strings are their
  UTF-8 bytes.

  The variable-length integers of the crate \<^verbatim>\<open>unsigned_varint\<close> are a parameter, the record \<open>varint\<close>;
  \<open>varint_ok\<close> states what the crate documents: reading back what was written, that reading uses up at
  least one byte, and that it does not look beyond the bytes it uses. A failing \<^verbatim>\<open>expect\<close> is the error of the read it unwraps. The loops over the components
  are partial functions in the option monad, where \<open>None\<close> is a loop that does not end.
\<close>

section \<open>Integers of variable length\<close>

record varint =
  dec_u32 :: "bytes \<Rightarrow> (u32 \<times> bytes) option"
  dec_u64 :: "bytes \<Rightarrow> (u64 \<times> bytes) option"
  enc_u32 :: "u32 \<Rightarrow> bytes"
  enc_u64 :: "u64 \<Rightarrow> bytes"

definition varint_ok :: "varint \<Rightarrow> bool" where
  "varint_ok vi \<longleftrightarrow>
     (\<forall>x rest. dec_u32 vi (enc_u32 vi x @ rest) = Some (x, rest)) \<and>
     (\<forall>x rest. dec_u64 vi (enc_u64 vi x @ rest) = Some (x, rest)) \<and>
     (\<forall>b x rest. dec_u32 vi b = Some (x, rest) \<longrightarrow> (\<exists>used. used \<noteq> [] \<and> b = used @ rest)) \<and>
     (\<forall>b x rest. dec_u64 vi b = Some (x, rest) \<longrightarrow> (\<exists>used. used \<noteq> [] \<and> b = used @ rest)) \<and>
     (\<forall>b x rest c. dec_u32 vi b = Some (x, rest) \<longrightarrow> dec_u32 vi (b @ c) = Some (x, rest @ c)) \<and>
     (\<forall>b x rest c. dec_u64 vi b = Some (x, rest) \<longrightarrow> dec_u64 vi (b @ c) = Some (x, rest @ c))"

section \<open>Components\<close>

datatype addr_error =
  DataLessThanLen | InvalidMultiaddr | InvalidOnion3Addr | InvalidProtocolString | InvalidUvar
  | ParsingError | UnknownHash | UnknownProtocolId u32 | UnknownProtocolString

type_synonym ip4 = "u8 \<times> u8 \<times> u8 \<times> u8"
type_synonym ip6 = "u16 \<times> u16 \<times> u16 \<times> u16 \<times> u16 \<times> u16 \<times> u16 \<times> u16"

datatype ip_addr = V4 ip4 | V6 ip6

datatype protocol =
  Dns4 bytes | Dns6 bytes | Ip4 ip4 | Ip6 ip6 | P2P bytes | Tcp u16 | Tls bytes | Ws | Wss
  | Memory u64 | Onion3 bytes u16 | Udp u16 | QuicV1

definition DNS4 :: u32 where "DNS4 = 0x36"
definition DNS6 :: u32 where "DNS6 = 0x37"
definition IP4 :: u32 where "IP4 = 0x04"
definition IP6 :: u32 where "IP6 = 0x29"
definition P2P_ID :: u32 where "P2P_ID = 0x01a5"
definition TCP :: u32 where "TCP = 0x06"
definition TLS :: u32 where "TLS = 0x01c0"
definition WS :: u32 where "WS = 0x01dd"
definition WSS :: u32 where "WSS = 0x01de"
definition MEMORY :: u32 where "MEMORY = 0x0309"
definition ONION3 :: u32 where "ONION3 = 0x01bd"
definition QUICV1 :: u32 where "QUICV1 = 0x01cd"
definition UDP :: u32 where "UDP = 0x0111"
definition SHA256_CODE :: u64 where "SHA256_CODE = 0x12"
definition SHA256_SIZE :: u8 where "SHA256_SIZE = 32"

lemmas protocol_ids = DNS4_def DNS6_def IP4_def IP6_def P2P_ID_def TCP_def TLS_def WS_def WSS_def
  MEMORY_def ONION3_def QUICV1_def UDP_def

definition check_p2p :: "varint \<Rightarrow> bytes \<Rightarrow> addr_error + unit" where
  "check_p2p vi data =
     (case dec_u64 vi data of
        None \<Rightarrow> Inl InvalidUvar
      | Some (code, bytes) \<Rightarrow>
          if code \<noteq> SHA256_CODE then Inl UnknownHash
          else if length bytes \<noteq> unat SHA256_SIZE + 1 then Inl UnknownHash
          else if hd bytes \<noteq> SHA256_SIZE then Inl UnknownHash
          else Inr ())"

definition split_header :: "nat \<Rightarrow> bytes \<Rightarrow> addr_error + bytes \<times> bytes" where
  "split_header n input = (if length input < n then Inl DataLessThanLen else Inr (take n input, drop n input))"

text \<open>A length-prefixed field.\<close>

definition read_sized :: "varint \<Rightarrow> bytes \<Rightarrow> addr_error + bytes \<times> bytes" where
  "read_sized vi input =
     (case dec_u64 vi input of
        None \<Rightarrow> Inl InvalidUvar
      | Some (n, input) \<Rightarrow> split_header (unat n) input)"

definition read_str :: "varint \<Rightarrow> bytes \<Rightarrow> addr_error + bytes \<times> bytes" where
  "read_str vi input =
     (case read_sized vi input of
        Inl e \<Rightarrow> Inl e
      | Inr (data, rest) \<Rightarrow> if utf8_valid data then Inr (data, rest) else Inl ParsingError)"

definition with_field :: "(addr_error + bytes \<times> bytes) \<Rightarrow> (bytes \<Rightarrow> protocol) \<Rightarrow> addr_error + protocol \<times> bytes" where
  "with_field r k = (case r of Inl e \<Rightarrow> Inl e | Inr (data, rest) \<Rightarrow> Inr (k data, rest))"

text \<open>The fixed-size fields, read from a buffer of the right length.\<close>

definition get_u16 :: "bytes \<Rightarrow> u16" where
  "get_u16 d = be16 (d ! 0) (d ! 1)"

definition get_u64 :: "bytes \<Rightarrow> u64" where
  "get_u64 d = be64 (d ! 0) (d ! 1) (d ! 2) (d ! 3) (d ! 4) (d ! 5) (d ! 6) (d ! 7)"

definition get_ip6 :: "bytes \<Rightarrow> ip6" where
  "get_ip6 d =
     (get_u16 d, get_u16 (drop 2 d), get_u16 (drop 4 d), get_u16 (drop 6 d),
      get_u16 (drop 8 d), get_u16 (drop 10 d), get_u16 (drop 12 d), get_u16 (drop 14 d))"

definition from_bytes :: "varint \<Rightarrow> bytes \<Rightarrow> addr_error + protocol \<times> bytes" where
  "from_bytes vi input =
     (case dec_u32 vi input of
        None \<Rightarrow> Inl InvalidUvar
      | Some (i, input) \<Rightarrow>
          if i = DNS4 then with_field (read_str vi input) Dns4
          else if i = DNS6 then with_field (read_str vi input) Dns6
          else if i = IP4 then with_field (split_header 4 input) (\<lambda>d. Ip4 (d ! 0, d ! 1, d ! 2, d ! 3))
          else if i = IP6 then with_field (split_header 16 input) (\<lambda>d. Ip6 (get_ip6 d))
          else if i = TLS then with_field (read_str vi input) Tls
          else if i = P2P_ID then
            (case read_sized vi input of
               Inl e \<Rightarrow> Inl e
             | Inr (data, rest) \<Rightarrow>
                 (case check_p2p vi data of Inl e \<Rightarrow> Inl e | Inr _ \<Rightarrow> Inr (P2P data, rest)))
          else if i = TCP then with_field (split_header 2 input) (\<lambda>d. Tcp (get_u16 d))
          else if i = WS then Inr (Ws, input)
          else if i = WSS then Inr (Wss, input)
          else if i = MEMORY then with_field (split_header 8 input) (\<lambda>d. Memory (get_u64 d))
          else if i = ONION3 then with_field (split_header 37 input) (\<lambda>d. Onion3 (take 35 d) (get_u16 (drop 35 d)))
          else if i = UDP then with_field (split_header 2 input) (\<lambda>d. Udp (get_u16 d))
          else if i = QUICV1 then Inr (QuicV1, input)
          else Inl (UnknownProtocolId i))"

definition put_sized :: "varint \<Rightarrow> bytes \<Rightarrow> bytes" where
  "put_sized vi b = enc_u64 vi (of_nat (length b)) @ b"

fun put_ip6 :: "ip6 \<Rightarrow> bytes" where
  "put_ip6 (a, b, c, d, e, f, g, h) =
     put_u16 a @ put_u16 b @ put_u16 c @ put_u16 d @ put_u16 e @ put_u16 f @ put_u16 g @ put_u16 h"

fun octets :: "ip4 \<Rightarrow> bytes" where
  "octets (a, b, c, d) = [a, b, c, d]"

text \<open>What \<^verbatim>\<open>write_to_bytes\<close> appends to the buffer.\<close>

fun write_to_bytes :: "varint \<Rightarrow> protocol \<Rightarrow> bytes" where
  "write_to_bytes vi (Dns4 s) = enc_u32 vi DNS4 @ put_sized vi s"
| "write_to_bytes vi (Dns6 s) = enc_u32 vi DNS6 @ put_sized vi s"
| "write_to_bytes vi (Ip4 a) = enc_u32 vi IP4 @ octets a"
| "write_to_bytes vi (Ip6 a) = enc_u32 vi IP6 @ put_ip6 a"
| "write_to_bytes vi (Tcp port) = enc_u32 vi TCP @ put_u16 port"
| "write_to_bytes vi (Tls s) = enc_u32 vi TLS @ put_sized vi s"
| "write_to_bytes vi (P2P b) = enc_u32 vi P2P_ID @ put_sized vi b"
| "write_to_bytes vi Ws = enc_u32 vi WS"
| "write_to_bytes vi Wss = enc_u32 vi WSS"
| "write_to_bytes vi (Memory port) = enc_u32 vi MEMORY @ put_u64 port"
| "write_to_bytes vi (Onion3 hash port) = enc_u32 vi ONION3 @ hash @ put_u16 port"
| "write_to_bytes vi (Udp port) = enc_u32 vi UDP @ put_u16 port"
| "write_to_bytes vi QuicV1 = enc_u32 vi QUICV1"

section \<open>Addresses\<close>

record multiaddr =
  ma_bytes :: bytes

definition ma_is_empty :: "multiaddr \<Rightarrow> bool" where "ma_is_empty a \<longleftrightarrow> ma_bytes a = []"
definition ma_len :: "multiaddr \<Rightarrow> nat" where "ma_len a = length (ma_bytes a)"
definition to_vec :: "multiaddr \<Rightarrow> bytes" where "to_vec a = ma_bytes a"

definition push :: "varint \<Rightarrow> protocol \<Rightarrow> multiaddr \<Rightarrow> multiaddr" where
  "push vi p a = \<lparr>ma_bytes = ma_bytes a @ write_to_bytes vi p\<rparr>"

text \<open>The loop of \<^verbatim>\<open>pop\<close>: the last component and the slice it starts at.\<close>

partial_function (option) pop_loop :: "varint \<Rightarrow> bytes \<Rightarrow> (addr_error + protocol \<times> bytes) option" where
  "pop_loop vi sl =
     (case from_bytes vi sl of
        Inl e \<Rightarrow> Some (Inl e)
      | Inr ps \<Rightarrow> if snd ps = [] then Some (Inr (fst ps, sl)) else pop_loop vi (snd ps))"

definition pop :: "varint \<Rightarrow> multiaddr \<Rightarrow> (addr_error + protocol option \<times> multiaddr) option" where
  "pop vi a =
     (if ma_bytes a = [] then Some (Inr (None, a))
      else map_option (\<lambda>r. case r of
          Inl e \<Rightarrow> Inl e
        | Inr (p, sl) \<Rightarrow> Inr (Some p, \<lparr>ma_bytes = take (length (ma_bytes a) - length sl) (ma_bytes a)\<rparr>))
        (pop_loop vi (ma_bytes a)))"

text \<open>All items of the iterator, and one step of it.\<close>

definition iter_next :: "varint \<Rightarrow> bytes \<Rightarrow> (addr_error + protocol \<times> bytes) option" where
  "iter_next vi b = (if b = [] then None else Some (from_bytes vi b))"

partial_function (option) iter_all :: "varint \<Rightarrow> bytes \<Rightarrow> (addr_error + protocol list) option" where
  "iter_all vi b =
     (case iter_next vi b of
        None \<Rightarrow> Some (Inr [])
      | Some (Inl e) \<Rightarrow> Some (Inl e)
      | Some (Inr ps) \<Rightarrow>
          Option.bind (iter_all vi (snd ps)) (\<lambda>r. Some (map_sum id ((#) (fst ps)) r)))"

definition from_iter :: "varint \<Rightarrow> protocol list \<Rightarrow> multiaddr" where
  "from_iter vi ps = \<lparr>ma_bytes = concat (map (write_to_bytes vi) ps)\<rparr>"

partial_function (option) try_from_loop :: "varint \<Rightarrow> bytes \<Rightarrow> (addr_error + unit) option" where
  "try_from_loop vi sl =
     (if sl = [] then Some (Inr ())
      else (case from_bytes vi sl of
              Inl e \<Rightarrow> Some (Inl e)
            | Inr ps \<Rightarrow> try_from_loop vi (snd ps)))"

definition try_from :: "varint \<Rightarrow> bytes \<Rightarrow> (addr_error + multiaddr) option" where
  "try_from vi v = map_option (map_sum id (\<lambda>_. \<lparr>ma_bytes = v\<rparr>)) (try_from_loop vi v)"

text \<open>The loop of \<^verbatim>\<open>replace\<close>: the new bytes and whether the position was met, or \<open>None\<close> for its early return.\<close>

partial_function (option) replace_loop :: "varint \<Rightarrow> (protocol \<Rightarrow> protocol option) \<Rightarrow> nat \<Rightarrow> nat \<Rightarrow> bytes \<Rightarrow>
    (addr_error + (bytes \<times> bool) option) option" where
  "replace_loop vi by_fun at i b =
     (case iter_next vi b of
        None \<Rightarrow> Some (Inr (Some ([], False)))
      | Some (Inl e) \<Rightarrow> Some (Inl e)
      | Some (Inr ps) \<Rightarrow>
          if i = at then
            (case by_fun (fst ps) of
               None \<Rightarrow> Some (Inr None)
             | Some q \<Rightarrow> Option.bind (replace_loop vi by_fun at (Suc i) (snd ps))
                 (\<lambda>r. Some (map_sum id (map_option (\<lambda>(b, _). (write_to_bytes vi q @ b, True))) r)))
          else Option.bind (replace_loop vi by_fun at (Suc i) (snd ps))
                 (\<lambda>r. Some (map_sum id (map_option (\<lambda>(b, m). (write_to_bytes vi (fst ps) @ b, m))) r)))"

definition replace :: "varint \<Rightarrow> nat \<Rightarrow> (protocol \<Rightarrow> protocol option) \<Rightarrow> multiaddr \<Rightarrow>
    (addr_error + multiaddr option) option" where
  "replace vi at by_fun a =
     map_option (map_sum id (\<lambda>r.
        case r of
          None \<Rightarrow> None
        | Some (b, replaced) \<Rightarrow> if replaced then Some \<lparr>ma_bytes = b\<rparr> else None))
       (replace_loop vi by_fun at 0 (ma_bytes a))"

definition ma_from_protocol :: "varint \<Rightarrow> protocol \<Rightarrow> multiaddr" where
  "ma_from_protocol vi p = \<lparr>ma_bytes = write_to_bytes vi p\<rparr>"

definition protocol_from_ip :: "ip_addr \<Rightarrow> protocol" where
  "protocol_from_ip a = (case a of V4 a \<Rightarrow> Ip4 a | V6 a \<Rightarrow> Ip6 a)"

definition ma_from_ip :: "varint \<Rightarrow> ip_addr \<Rightarrow> multiaddr" where
  "ma_from_ip vi a = (case a of V4 a \<Rightarrow> ma_from_protocol vi (Ip4 a) | V6 a \<Rightarrow> ma_from_protocol vi (Ip6 a))"

section \<open>Reading back one component\<close>

definition wf_protocol :: "varint \<Rightarrow> protocol \<Rightarrow> bool" where
  "wf_protocol vi p =
     (case p of
        Dns4 s \<Rightarrow> utf8_valid s \<and> length s < 2 ^ 64
      | Dns6 s \<Rightarrow> utf8_valid s \<and> length s < 2 ^ 64
      | Tls s \<Rightarrow> utf8_valid s \<and> length s < 2 ^ 64
      | P2P b \<Rightarrow> check_p2p vi b = Inr () \<and> length b < 2 ^ 64
      | Onion3 h _ \<Rightarrow> length h = 35
      | _ \<Rightarrow> True)"

lemma split_header_append [simp]: "length d = n \<Longrightarrow> split_header n (d @ rest) = Inr (d, rest)"
  by (simp add: split_header_def)

lemma get_u16_put [simp]: "get_u16 (put_u16 x @ r) = x" "get_u16 (put_u16 x) = x"
  by (rule put_u16_cases [of x], simp add: get_u16_def)+

lemma get_u64_put [simp]: "get_u64 (put_u64 x) = x"
  by (rule put_u64_cases [of x]) (simp add: get_u64_def)

lemma length_put_ip6: "length (put_ip6 a) = 16"
  by (cases a rule: put_ip6.cases) simp

lemma get_ip6_put: "get_ip6 (put_ip6 a) = a"
proof (cases a rule: put_ip6.cases)
  case (1 a b c d e f g h)
  have d: "drop 2 (put_u16 x @ r) = r" "drop 4 (put_u16 x @ r) = drop 2 r" "drop 6 (put_u16 x @ r) = drop 4 r"
    "drop 8 (put_u16 x @ r) = drop 6 r" "drop 10 (put_u16 x @ r) = drop 8 r" "drop 12 (put_u16 x @ r) = drop 10 r"
    "drop 14 (put_u16 x @ r) = drop 12 r" for x r
    by simp_all
  show ?thesis unfolding 1 get_ip6_def put_ip6.simps d get_u16_put ..
qed

lemma octets_nth: "(octets a ! 0, octets a ! 1, octets a ! 2, octets a ! 3) = a" "length (octets a) = 4"
  by (cases a; simp)+

lemma read_sized_put:
  assumes "varint_ok vi" and "length b < 2 ^ 64"
  shows "read_sized vi (put_sized vi b @ rest) = Inr (b, rest)"
proof -
  have "unat (of_nat (length b) :: u64) = length b" using assms(2) by (simp add: unat_of_nat)
  with assms(1) show ?thesis by (simp add: read_sized_def put_sized_def varint_ok_def)
qed

lemma read_str_put:
  "varint_ok vi \<Longrightarrow> length b < 2 ^ 64 \<Longrightarrow> utf8_valid b \<Longrightarrow> read_str vi (put_sized vi b @ rest) = Inr (b, rest)"
  by (simp add: read_str_def read_sized_put)

lemma from_bytes_id:
  "varint_ok vi \<Longrightarrow> dec_u32 vi (enc_u32 vi i @ rest) = Some (i, rest)"
  by (simp add: varint_ok_def)

lemma protocol_read_back:
  assumes vi: "varint_ok vi" and wf: "wf_protocol vi p"
  shows "from_bytes vi (write_to_bytes vi p @ rest) = Inr (p, rest)"
proof (cases p)
  case (Ip4 a)
  with octets_nth [of a] show ?thesis
    by (simp add: from_bytes_def from_bytes_id [OF vi] with_field_def protocol_ids)
next
  case (Ip6 a)
  with get_ip6_put [of a] length_put_ip6 [of a] show ?thesis
    by (simp add: from_bytes_def from_bytes_id [OF vi] with_field_def protocol_ids)
next
  case (Onion3 h port)
  have "split_header 37 (h @ put_u16 port @ rest) = Inr (h @ put_u16 port, rest)"
    using split_header_append [of "h @ put_u16 port" 37 rest] wf Onion3 by (simp add: wf_protocol_def)
  with wf Onion3 show ?thesis
    by (simp add: from_bytes_def from_bytes_id [OF vi] with_field_def protocol_ids wf_protocol_def)
qed (use wf in \<open>simp_all add: from_bytes_def from_bytes_id [OF vi] with_field_def protocol_ids wf_protocol_def
    read_str_put [OF vi] read_sized_put [OF vi] from_bytes_id [OF vi, where rest = "[]", simplified]\<close>)

text \<open>Whatever is read is well-formed, and reading uses up some bytes.\<close>

lemma read_sized_split:
  assumes "varint_ok vi" and "read_sized vi b = Inr (d, rest)"
  shows "length d < 2 ^ 64 \<and> (\<exists>used. b = used @ rest)"
proof -
  from assms(2) obtain n r where n: "dec_u64 vi b = Some (n, r)" and d: "d = take (unat n) r" "rest = drop (unat n) r"
    "unat n \<le> length r"
    by (auto simp: read_sized_def split_header_def split: option.splits if_splits)
  from assms(1) n obtain u where "b = u @ r" unfolding varint_ok_def by meson
  then have "b = (u @ d) @ rest" using d by simp
  moreover have "unat n < 2 ^ LENGTH(64)" by (rule unsigned_less)
  then have "length d < 2 ^ 64" using d by simp
  ultimately show ?thesis by blast
qed

lemma read_str_split:
  "varint_ok vi \<Longrightarrow> read_str vi b = Inr (d, rest) \<Longrightarrow> utf8_valid d \<and> length d < 2 ^ 64 \<and> (\<exists>used. b = used @ rest)"
  by (auto simp: read_str_def dest: read_sized_split split: sum.splits if_splits)

lemma split_header_split: "split_header n b = Inr (d, rest) \<Longrightarrow> length d = n \<and> b = d @ rest"
  by (auto simp: split_header_def split: if_splits)

lemma with_field_Inr: "with_field r k = Inr (p, rest) \<longleftrightarrow> (\<exists>d. r = Inr (d, rest) \<and> p = k d)"
  by (auto simp: with_field_def split: sum.splits)

lemma from_bytes_sound:
  assumes vi: "varint_ok vi" and r: "from_bytes vi b = Inr (p, rest)"
  shows "wf_protocol vi p \<and> (\<exists>used. used \<noteq> [] \<and> b = used @ rest)"
proof -
  from r obtain i b1 where i: "dec_u32 vi b = Some (i, b1)"
    by (auto simp: from_bytes_def split: option.splits)
  from vi i obtain u where u: "u \<noteq> []" "b = u @ b1" unfolding varint_ok_def by meson
  have "wf_protocol vi p \<and> (\<exists>used. b1 = used @ rest)"
    using r i
    by (auto simp: from_bytes_def with_field_Inr wf_protocol_def split: if_splits sum.splits
        dest!: read_str_split [OF vi] read_sized_split [OF vi] split_header_split)
  then obtain v where wf: "wf_protocol vi p" and v: "b1 = v @ rest" by blast
  have "u @ v \<noteq> []" "b = (u @ v) @ rest" using u v by simp_all
  with wf show ?thesis by blast
qed

section \<open>Whole addresses\<close>

lemma enc_u32_nonempty:
  assumes "varint_ok vi"
  shows "enc_u32 vi i \<noteq> []"
proof -
  have "dec_u32 vi (enc_u32 vi i) = Some (i, [])" using from_bytes_id [OF assms, of i "[]"] by simp
  with assms obtain u where "u \<noteq> []" "enc_u32 vi i = u @ []" unfolding varint_ok_def by meson
  then show ?thesis by simp
qed

lemma write_nonempty: "varint_ok vi \<Longrightarrow> write_to_bytes vi p \<noteq> []"
  by (cases p) (simp_all add: enc_u32_nonempty)

text \<open>Reading does not look beyond the component.\<close>

lemma split_header_more: "split_header n b = Inr (d, rest) \<Longrightarrow> split_header n (b @ c) = Inr (d, rest @ c)"
  by (auto simp: split_header_def split: if_splits)

lemma read_sized_more:
  assumes "varint_ok vi" and "read_sized vi b = Inr (d, rest)"
  shows "read_sized vi (b @ c) = Inr (d, rest @ c)"
proof -
  from assms(2) obtain n r where n: "dec_u64 vi b = Some (n, r)" and d: "split_header (unat n) r = Inr (d, rest)"
    by (auto simp: read_sized_def split: option.splits)
  from assms(1) n have "dec_u64 vi (b @ c) = Some (n, r @ c)" unfolding varint_ok_def by blast
  with split_header_more [OF d] show ?thesis by (simp add: read_sized_def)
qed

lemma read_str_more: "varint_ok vi \<Longrightarrow> read_str vi b = Inr (d, rest) \<Longrightarrow> read_str vi (b @ c) = Inr (d, rest @ c)"
  using read_sized_more [of vi b d rest c] by (auto simp: read_str_def split: sum.splits if_splits)

lemma with_field_more:
  "with_field x k = Inr (p, rest) \<Longrightarrow> (\<And>d. x = Inr (d, rest) \<Longrightarrow> y = Inr (d, rest')) \<Longrightarrow> with_field y k = Inr (p, rest')"
  by (auto simp: with_field_Inr)

lemma if_Inr_more:
  "(if c then x else y) = Inr r \<Longrightarrow> (c \<Longrightarrow> x = Inr r \<Longrightarrow> x' = Inr r') \<Longrightarrow> (\<not> c \<Longrightarrow> y = Inr r \<Longrightarrow> y' = Inr r') \<Longrightarrow>
   (if c then x' else y') = Inr r'"
  by (cases c) simp_all

lemma from_bytes_more:
  assumes vi: "varint_ok vi" and r: "from_bytes vi b = Inr (p, rest)"
  shows "from_bytes vi (b @ c) = Inr (p, rest @ c)"
proof -
  from r obtain i b1 where i: "dec_u32 vi b = Some (i, b1)"
    by (auto simp: from_bytes_def split: option.splits)
  with vi have i2: "dec_u32 vi (b @ c) = Some (i, b1 @ c)" unfolding varint_ok_def by blast
  show ?thesis
    using r unfolding from_bytes_def i i2 option.case prod.case
    by (elim if_Inr_more with_field_more)
      (auto dest: read_sized_more [OF vi, of b1 _ _ c] intro: read_str_more [OF vi] split_header_more split: sum.splits)
qed

lemma iter_all_Nil [simp]: "iter_all vi [] = Some (Inr [])"
  by (simp add: iter_all.simps iter_next_def)

lemma iter_all_step:
  "b \<noteq> [] \<Longrightarrow> iter_all vi b =
     (case from_bytes vi b of
        Inl e \<Rightarrow> Some (Inl e)
      | Inr (p, rest) \<Rightarrow> map_option (map_sum id ((#) p)) (iter_all vi rest))"
  by (subst iter_all.simps) (auto simp: iter_next_def map_conv_bind_option comp_def split: sum.splits)

text \<open>The iterator comes to an end, and yields well-formed components.\<close>

lemma iter_all_total:
  assumes "varint_ok vi"
  shows "\<exists>r. iter_all vi b = Some r \<and> (\<forall>ps. r = Inr ps \<longrightarrow> (\<forall>p \<in> set ps. wf_protocol vi p))"
proof (induction "length b" arbitrary: b rule: less_induct)
  case less
  show ?case
  proof (cases "b = []")
    case False
    show ?thesis
    proof (cases "from_bytes vi b")
      case (Inl e)
      with False show ?thesis by (simp add: iter_all_step)
    next
      case (Inr pr)
      then obtain p rest where pr: "from_bytes vi b = Inr (p, rest)" by (cases pr) auto
      from from_bytes_sound [OF assms pr] obtain u where u: "u \<noteq> []" "b = u @ rest" and wf: "wf_protocol vi p" by blast
      then have "length rest < length b" by (cases u) simp_all
      from less [OF this] obtain r where "iter_all vi rest = Some r"
        "\<forall>ps. r = Inr ps \<longrightarrow> (\<forall>p \<in> set ps. wf_protocol vi p)" by blast
      with False pr wf show ?thesis by (cases r) (auto simp: iter_all_step)
    qed
  qed simp
qed

lemma iter_all_wf: "varint_ok vi \<Longrightarrow> iter_all vi b = Some (Inr ps) \<Longrightarrow> p \<in> set ps \<Longrightarrow> wf_protocol vi p"
  using iter_all_total [of vi b] by auto

lemma iter_all_concat:
  assumes "varint_ok vi" and "\<And>p. p \<in> set ps \<Longrightarrow> wf_protocol vi p"
  shows "iter_all vi (concat (map (write_to_bytes vi) ps)) = Some (Inr ps)"
  using assms(2)
proof (induction ps)
  case (Cons p ps)
  then have "from_bytes vi (write_to_bytes vi p @ concat (map (write_to_bytes vi) ps)) =
      Inr (p, concat (map (write_to_bytes vi) ps))"
    by (intro protocol_read_back assms(1)) simp
  with Cons write_nonempty [OF assms(1), of p] show ?case by (simp add: iter_all_step)
qed simp

lemma iter_all_append:
  assumes vi: "varint_ok vi" and "iter_all vi b = Some (Inr ps)" and "iter_all vi c = Some (Inr qs)"
  shows "iter_all vi (b @ c) = Some (Inr (ps @ qs))"
  using assms(2)
proof (induction "length b" arbitrary: b ps rule: less_induct)
  case less
  show ?case
  proof (cases "b = []")
    case False
    with less.prems obtain p rest ps' where pr: "from_bytes vi b = Inr (p, rest)"
      and ps': "iter_all vi rest = Some (Inr ps')" "ps = p # ps'"
      by (auto simp: iter_all_step map_sum_def split: sum.splits)
    from from_bytes_sound [OF vi pr] obtain u where u: "u \<noteq> []" "b = u @ rest" by blast
    then have "length rest < length b" by (cases u) simp_all
    from less.hyps [OF this ps'(1)] from_bytes_more [OF vi pr, of c] False ps'(2) show ?thesis
      by (simp add: iter_all_step)
  qed (use less.prems assms(3) in simp)
qed

lemma try_from_loop_eq: "varint_ok vi \<Longrightarrow> try_from_loop vi b = map_option (map_sum id (\<lambda>_. ())) (iter_all vi b)"
proof (induction "length b" arbitrary: b rule: less_induct)
  case less
  show ?case
  proof (cases "b = []")
    case True
    then show ?thesis by (simp add: try_from_loop.simps)
  next
    case False
    show ?thesis
    proof (cases "from_bytes vi b")
      case (Inl e)
      with False show ?thesis by (simp add: try_from_loop.simps [of vi b] iter_all_step)
    next
      case (Inr pr)
      then obtain p rest where pr: "from_bytes vi b = Inr (p, rest)" by (cases pr) auto
      from from_bytes_sound [OF less.prems pr] obtain u where u: "u \<noteq> []" "b = u @ rest" by blast
      then have "length rest < length b" by (cases u) simp_all
      from less.hyps [OF this less.prems] False pr show ?thesis
        by (simp add: try_from_loop.simps [of vi b] iter_all_step option.map_comp comp_def sum.map_comp id_def)
    qed
  qed
qed

lemma try_from_ok:
  assumes "varint_ok vi"
  shows "try_from vi v = Some (Inr a) \<longleftrightarrow> a = \<lparr>ma_bytes = v\<rparr> \<and> (\<exists>ps. iter_all vi v = Some (Inr ps))"
proof (cases "iter_all vi v")
  case (Some r)
  then show ?thesis by (cases r) (auto simp: try_from_def try_from_loop_eq [OF assms])
qed (simp add: try_from_def try_from_loop_eq [OF assms])

text \<open>Popping finds the component that was pushed last.\<close>

lemma pop_loop_last:
  assumes vi: "varint_ok vi" and wf: "wf_protocol vi p"
  shows "iter_all vi b = Some (Inr ps) \<Longrightarrow>
    pop_loop vi (b @ write_to_bytes vi p) = Some (Inr (p, write_to_bytes vi p))"
proof (induction "length b" arbitrary: b ps rule: less_induct)
  case less
  show ?case
  proof (cases "b = []")
    case True
    have "from_bytes vi (write_to_bytes vi p) = Inr (p, [])" using protocol_read_back [OF vi wf, of "[]"] by simp
    with True show ?thesis by (simp add: pop_loop.simps)
  next
    case False
    with less.prems obtain q rest ps' where pr: "from_bytes vi b = Inr (q, rest)"
      and ps': "iter_all vi rest = Some (Inr ps')"
      by (auto simp: iter_all_step map_sum_def split: sum.splits)
    from from_bytes_sound [OF vi pr] obtain u where u: "u \<noteq> []" "b = u @ rest" by blast
    then have "length rest < length b" by (cases u) simp_all
    from less.hyps [OF this ps'] from_bytes_more [OF vi pr, of "write_to_bytes vi p"] write_nonempty [OF vi, of p]
    show ?thesis by (simp add: pop_loop.simps [of vi "b @ write_to_bytes vi p"])
  qed
qed

text \<open>The loop of \<^verbatim>\<open>replace\<close> writes the components with one of them exchanged.\<close>

lemma replace_loop_past:
  assumes vi: "varint_ok vi"
  shows "iter_all vi b = Some (Inr ps) \<Longrightarrow> at < i \<Longrightarrow>
    replace_loop vi f at i b = Some (Inr (Some (concat (map (write_to_bytes vi) ps), False)))"
proof (induction "length b" arbitrary: b ps i rule: less_induct)
  case less
  show ?case
  proof (cases "b = []")
    case True
    with less.prems show ?thesis by (simp add: replace_loop.simps iter_next_def)
  next
    case False
    with less.prems obtain q rest ps' where pr: "from_bytes vi b = Inr (q, rest)"
      and ps': "iter_all vi rest = Some (Inr ps')" "ps = q # ps'"
      by (auto simp: iter_all_step map_sum_def split: sum.splits)
    from from_bytes_sound [OF vi pr] obtain u where u: "u \<noteq> []" "b = u @ rest" by blast
    then have "length rest < length b" by (cases u) simp_all
    from less.hyps [OF this ps'(1), of "Suc i"] less.prems(2) pr False ps'(2) show ?thesis
      by (simp add: replace_loop.simps [of vi f at i b] iter_next_def)
  qed
qed

lemma replace_loop_spec:
  assumes vi: "varint_ok vi"
  shows "iter_all vi b = Some (Inr ps) \<Longrightarrow> i \<le> at \<Longrightarrow>
    replace_loop vi f at i b =
      Some (Inr (if at - i < length ps
        then map_option (\<lambda>q. (concat (map (write_to_bytes vi) (ps[at - i := q])), True)) (f (ps ! (at - i)))
        else Some (concat (map (write_to_bytes vi) ps), False)))"
proof (induction "length b" arbitrary: b ps i rule: less_induct)
  case less
  show ?case
  proof (cases "b = []")
    case True
    with less.prems show ?thesis by (simp add: replace_loop.simps iter_next_def)
  next
    case False
    with less.prems obtain q rest ps' where pr: "from_bytes vi b = Inr (q, rest)"
      and ps': "iter_all vi rest = Some (Inr ps')" "ps = q # ps'"
      by (auto simp: iter_all_step map_sum_def split: sum.splits)
    from from_bytes_sound [OF vi pr] obtain u where u: "u \<noteq> []" "b = u @ rest" by blast
    then have shorter: "length rest < length b" by (cases u) simp_all
    show ?thesis
    proof (cases "i = at")
      case True
      with replace_loop_past [OF vi ps'(1), of at "Suc i" f] pr False ps'(2) show ?thesis
        by (simp add: replace_loop.simps [of vi f at at b] iter_next_def split: option.split)
    next
      case i: False
      with less.prems(2) have "at - i = Suc (at - Suc i)" by simp
      with less.hyps [OF shorter ps'(1), of "Suc i"] less.prems(2) i pr False ps'(2) show ?thesis
        by (auto simp: replace_loop.simps [of vi f at i b] iter_next_def option.map_comp comp_def
            intro: option.map_cong)
    qed
  qed
qed

section \<open>A varint codec\<close>

text \<open>Little-endian base 128, as an instance of the parameter.\<close>

fun leb_enc :: "nat \<Rightarrow> bytes" where
  "leb_enc n = (if n < 128 then [of_nat n] else of_nat (n mod 128 + 128) # leb_enc (n div 128))"

declare leb_enc.simps [simp del]

fun leb_dec :: "bytes \<Rightarrow> (nat \<times> bytes) option" where
  "leb_dec [] = None"
| "leb_dec (b # r) =
     (if b < 128 then Some (unat b, r)
      else (case leb_dec r of None \<Rightarrow> None | Some (n, s) \<Rightarrow> Some (unat b - 128 + 128 * n, s)))"

definition leb128 :: varint where
  "leb128 =
     \<lparr>dec_u32 = (\<lambda>b. case leb_dec b of None \<Rightarrow> None | Some (n, r) \<Rightarrow> if n < 2 ^ 32 then Some (of_nat n, r) else None),
      dec_u64 = (\<lambda>b. case leb_dec b of None \<Rightarrow> None | Some (n, r) \<Rightarrow> if n < 2 ^ 64 then Some (of_nat n, r) else None),
      enc_u32 = (\<lambda>x. leb_enc (unat x)), enc_u64 = (\<lambda>x. leb_enc (unat x))\<rparr>"

lemma leb_dec_enc: "leb_dec (leb_enc n @ r) = Some (n, r)"
proof (induction n rule: leb_enc.induct)
  case (1 n)
  show ?case
  proof (cases "n < 128")
    case True
    then have "unat (of_nat n :: u8) = n" by (simp add: unat_of_nat)
    with True show ?thesis by (simp add: leb_enc.simps [of n] word_less_nat_alt)
  next
    case False
    have "n mod 128 + 128 < 256" using mod_less_divisor [of 128 n] by simp
    then have "unat (of_nat (n mod 128 + 128) :: u8) = n mod 128 + 128"
      by (simp add: unat_of_nat del: of_nat_add)
    with False 1 [OF False] show ?thesis by (simp add: leb_enc.simps [of n] word_less_nat_alt del: of_nat_add)
  qed
qed

lemma leb_dec_used: "leb_dec b = Some (n, r) \<Longrightarrow> \<exists>used. used \<noteq> [] \<and> b = used @ r"
proof (induction b arbitrary: n)
  case (Cons x b)
  show ?case
  proof (cases "x < 128")
    case True
    with Cons.prems have "x # b = [x] @ r" by simp
    then show ?thesis by blast
  next
    case False
    with Cons.prems obtain k where "leb_dec b = Some (k, r)" by (auto split: option.splits)
    from Cons.IH [OF this] obtain u where "b = u @ r" by blast
    then have "x # b = (x # u) @ r" by simp
    then show ?thesis by blast
  qed
qed simp

lemma leb_dec_more: "leb_dec b = Some (n, r) \<Longrightarrow> leb_dec (b @ c) = Some (n, r @ c)"
  by (induction b arbitrary: n) (auto split: option.splits if_splits)

lemma leb128_ok: "varint_ok leb128"
proof -
  have "unat x < 4294967296" for x :: u32 using unsigned_less [of x, where ?'a = nat] by simp
  moreover have "unat x < 18446744073709551616" for x :: u64 using unsigned_less [of x, where ?'a = nat] by simp
  ultimately show ?thesis
    unfolding varint_ok_def leb128_def varint.select_convs
    by (auto simp: leb_dec_enc leb_dec_more split: option.splits if_splits dest: leb_dec_used)
qed

section \<open>Properties\<close>

text \<open>Collecting components into an address and reading it back: for well-formed components the address
  built by \<^verbatim>\<open>from_iter\<close> passes the validation of \<^verbatim>\<open>try_from\<close>, and iterating over it yields exactly these
  components, in order.\<close>

theorem address_roundtrip:
  assumes "varint_ok vi" and "\<And>p. p \<in> set ps \<Longrightarrow> wf_protocol vi p"
  shows "try_from vi (to_vec (from_iter vi ps)) = Some (Inr (from_iter vi ps)) \<and>
    iter_all vi (ma_bytes (from_iter vi ps)) = Some (Inr ps)"
  using iter_all_concat [OF assms] by (simp add: from_iter_def to_vec_def try_from_def try_from_loop_eq [OF assms(1)])

theorem address_roundtrip_witness:
  "iter_all leb128 (ma_bytes (from_iter leb128 [Ip4 (127, 0, 0, 1), Tcp 8115, Ws])) =
     Some (Inr [Ip4 (127, 0, 0, 1), Tcp 8115, Ws])"
proof -
  have "wf_protocol leb128 p" if "p \<in> set [Ip4 (127, 0, 0, 1), Tcp 8115, Ws]" for p
    using that by (auto simp: wf_protocol_def)
  from address_roundtrip [OF leb128_ok this] show ?thesis by blast
qed

text \<open>Validation ends on every input, and it accepts exactly what can be iterated over: \<^verbatim>\<open>try_from\<close> always
  returns, it returns the address unchanged if it accepts, and then the iterator, whose items are unwrapped, meets no
  error and yields well-formed components only.\<close>

theorem validation_decides:
  assumes "varint_ok vi"
  shows "\<exists>r. try_from vi v = Some r \<and>
    (case r of
       Inr a \<Rightarrow> ma_bytes a = v \<and> (\<exists>ps. iter_all vi v = Some (Inr ps) \<and> list_all (wf_protocol vi) ps)
     | Inl e \<Rightarrow> iter_all vi v = Some (Inl e))"
proof -
  from iter_all_total [OF assms, of v] obtain r where r: "iter_all vi v = Some r" by blast
  show ?thesis
  proof (cases r)
    case (Inl e)
    with r show ?thesis by (simp add: try_from_def try_from_loop_eq [OF assms])
  next
    case (Inr ps)
    with r iter_all_wf [OF assms, of v ps] show ?thesis
      by (simp add: try_from_def try_from_loop_eq [OF assms] list_all_iff)
  qed
qed

theorem validation_decides_witness:
  "try_from leb128 [6, 0] = Some (Inl DataLessThanLen) \<and> iter_all leb128 [6, 0] = Some (Inl DataLessThanLen)"
proof -
  have "from_bytes leb128 [6, 0] = Inl DataLessThanLen"
    by (simp add: from_bytes_def leb128_def protocol_ids with_field_def split_header_def)
  then have "iter_all leb128 [6, 0] = Some (Inl DataLessThanLen)" by (simp add: iter_all_step)
  moreover from validation_decides [OF leb128_ok, of "[6, 0]"] obtain r where "try_from leb128 [6, 0] = Some r"
    and "case r of Inr a \<Rightarrow> ma_bytes a = [6, 0] \<and> (\<exists>ps. iter_all leb128 [6, 0] = Some (Inr ps) \<and> list_all (wf_protocol leb128) ps)
      | Inl e \<Rightarrow> iter_all leb128 [6, 0] = Some (Inl e)" by blast
  ultimately show ?thesis by (cases r) simp_all
qed

text \<open>\<^verbatim>\<open>pop\<close> undoes \<^verbatim>\<open>push\<close>: on a valid address it returns the component pushed last and leaves the bytes
  the address had before.\<close>

theorem pop_push:
  assumes "varint_ok vi" and "try_from vi (ma_bytes a) = Some (Inr a)" and "wf_protocol vi p"
  shows "pop vi (push vi p a) = Some (Inr (Some p, a))"
proof -
  from assms(2) obtain ps where "iter_all vi (ma_bytes a) = Some (Inr ps)"
    by (auto simp: try_from_ok [OF assms(1)])
  from pop_loop_last [OF assms(1,3) this] write_nonempty [OF assms(1), of p] show ?thesis
    by (simp add: pop_def push_def)
qed

theorem pop_push_witness:
  "pop leb128 (push leb128 (Tcp 8115) (push leb128 Ws \<lparr>ma_bytes = []\<rparr>)) =
     Some (Inr (Some (Tcp 8115), push leb128 Ws \<lparr>ma_bytes = []\<rparr>))"
proof (rule pop_push [OF leb128_ok])
  have "iter_all leb128 (ma_bytes (push leb128 Ws \<lparr>ma_bytes = []\<rparr>)) = Some (Inr [Ws])"
    using iter_all_concat [OF leb128_ok, of "[Ws]"] by (simp add: push_def wf_protocol_def)
  then show "try_from leb128 (ma_bytes (push leb128 Ws \<lparr>ma_bytes = []\<rparr>)) = Some (Inr (push leb128 Ws \<lparr>ma_bytes = []\<rparr>))"
    by (simp add: try_from_ok [OF leb128_ok])
  show "wf_protocol leb128 (Tcp 8115)" by (simp add: wf_protocol_def)
qed

text \<open>\<^verbatim>\<open>replace\<close> exchanges one component: on a valid address it is a list update at the given position
  when the position exists and the function agrees, and \<^verbatim>\<open>None\<close> otherwise.\<close>

theorem replace_updates:
  assumes "varint_ok vi" and "iter_all vi (ma_bytes a) = Some (Inr ps)"
  shows "replace vi at f a =
    Some (Inr (if at < length ps then map_option (\<lambda>q. from_iter vi (ps[at := q])) (f (ps ! at)) else None))"
  using replace_loop_spec [OF assms, of 0 at f]
  by (cases "f (ps ! at)") (auto simp: replace_def from_iter_def)

theorem replace_updates_witness:
  "replace leb128 1 (\<lambda>_. Some Wss) (from_iter leb128 [Tcp 80, Ws]) = Some (Inr (Some (from_iter leb128 [Tcp 80, Wss])))"
proof -
  have "wf_protocol leb128 p" if "p \<in> set [Tcp 80, Ws]" for p
    using that by (auto simp: wf_protocol_def)
  then have "iter_all leb128 (concat (map (write_to_bytes leb128) [Tcp 80, Ws])) = Some (Inr [Tcp 80, Ws])"
    by (rule iter_all_concat [OF leb128_ok])
  then have "iter_all leb128 (ma_bytes (from_iter leb128 [Tcp 80, Ws])) = Some (Inr [Tcp 80, Ws])"
    by (simp add: from_iter_def)
  from replace_updates [OF leb128_ok this, of 1 "\<lambda>_. Some Wss"] show ?thesis by simp
qed

end
