(* ===== verification/Multiaddr_Text.thy ===== *)
theory Multiaddr_Text
  imports Multiaddr
begin

text \<open>
  Multiaddresses in their textual form (\<^verbatim>\<open>multiaddr/src/protocol.rs\<close>, \<^verbatim>\<open>lib.rs\<close>, \<^verbatim>\<open>onion_addr.rs\<close>): parsing
  a component from the parts of a path, printing it, whole addresses, and what \<^verbatim>\<open>serde\<close> reads and writes. A string
  is the list of its UTF-8 bytes; splitting at an ASCII character is the same on bytes and on characters.

  Decimal numbers and IPv4 addresses are written out as the standard library reads and prints them. The record
  \<open>text_env\<close> holds what is a parameter: the crates \<^verbatim>\<open>bs58\<close> and \<^verbatim>\<open>data_encoding\<close> (\<^verbatim>\<open>BASE32\<close>), the text form of IPv6
  addresses, and the Unicode table behind \<^verbatim>\<open>to_uppercase\<close>; \<open>text_ok\<close> states what they document.
\<close>

section \<open>Strings of the standard library\<close>

definition is_digit :: "u8 \<Rightarrow> bool" where
  "is_digit b \<longleftrightarrow> 0x30 \<le> b \<and> b \<le> 0x39"

text \<open>\<^verbatim>\<open>str::parse\<close> to an unsigned integer of at most \<open>m\<close>: the overflow check after every digit.\<close>

fun parse_digits :: "nat \<Rightarrow> nat \<Rightarrow> bytes \<Rightarrow> nat option" where
  "parse_digits m acc [] = Some acc"
| "parse_digits m acc (b # bs) =
     (if is_digit b then
        (let n = 10 * acc + unat (b - 0x30) in if m < n then None else parse_digits m n bs)
      else None)"

definition parse_uint :: "nat \<Rightarrow> bytes \<Rightarrow> nat option" where
  "parse_uint m s =
     (case s of
        [] \<Rightarrow> None
      | b # r \<Rightarrow> if b = 0x2B \<and> r \<noteq> [] then parse_digits m 0 r else parse_digits m 0 s)"

definition parse_u16 :: "bytes \<Rightarrow> u16 option" where
  "parse_u16 s = map_option of_nat (parse_uint (2 ^ 16 - 1) s)"

definition parse_u64 :: "bytes \<Rightarrow> u64 option" where
  "parse_u64 s = map_option of_nat (parse_uint (2 ^ 64 - 1) s)"

fun print_nat :: "nat \<Rightarrow> bytes" where
  "print_nat n = (if n < 10 then [0x30 + of_nat n] else print_nat (n div 10) @ [0x30 + of_nat (n mod 10)])"

declare print_nat.simps [simp del]

text \<open>\<^verbatim>\<open>Ipv4Addr\<close>: four decimal groups of at most three digits, without leading zeros.\<close>

definition parse_octet :: "bytes \<Rightarrow> u8 option" where
  "parse_octet s =
     (if s = [] \<or> 3 < length s \<or> (hd s = 0x30 \<and> length s \<noteq> 1) then None
      else map_option of_nat (parse_digits 255 0 s))"

definition parse_ip4 :: "bytes \<Rightarrow> ip4 option" where
  "parse_ip4 s =
     (case map parse_octet (split_on 0x2E s) of
        [Some a, Some b, Some c, Some d] \<Rightarrow> Some (a, b, c, d)
      | _ \<Rightarrow> None)"

fun print_ip4 :: "ip4 \<Rightarrow> bytes" where
  "print_ip4 (a, b, c, d) =
     print_nat (unat a) @ [0x2E] @ print_nat (unat b) @ [0x2E] @ print_nat (unat c) @ [0x2E] @ print_nat (unat d)"

definition ascii_upper :: "u8 \<Rightarrow> u8" where
  "ascii_upper b = (if 0x61 \<le> b \<and> b \<le> 0x7A then b - 0x20 else b)"

definition ascii_lower :: "u8 \<Rightarrow> u8" where
  "ascii_lower b = (if 0x41 \<le> b \<and> b \<le> 0x5A then b + 0x20 else b)"

text \<open>The alphabet of base 32: the capital letters and the digits from 2 to 7.\<close>

definition base32_char :: "u8 \<Rightarrow> bool" where
  "base32_char b \<longleftrightarrow> (0x41 \<le> b \<and> b \<le> 0x5A) \<or> (0x32 \<le> b \<and> b \<le> 0x37)"

record text_env =
  bs58_encode :: "bytes \<Rightarrow> bytes"
  bs58_decode :: "bytes \<Rightarrow> bytes option"
  base32_encode :: "bytes \<Rightarrow> bytes"
  base32_decode_len :: "nat \<Rightarrow> nat option"
  base32_decode_mut :: "bytes \<Rightarrow> bytes \<Rightarrow> bytes option"
  parse_ip6 :: "bytes \<Rightarrow> ip6 option"
  print_ip6 :: "ip6 \<Rightarrow> bytes"
  to_uppercase :: "bytes \<Rightarrow> bytes"

definition text_ok :: "text_env \<Rightarrow> bool" where
  "text_ok tx \<longleftrightarrow>
     (\<forall>b. bs58_decode tx (bs58_encode tx b) = Some b \<and> 0x2F \<notin> set (bs58_encode tx b)) \<and>
     (\<forall>s b. bs58_decode tx s = Some b \<longrightarrow> length b \<le> length s) \<and>
     base32_decode_len tx 56 = Some 35 \<and>
     (\<forall>b. length b = 35 \<longrightarrow> length (base32_encode tx b) = 56 \<and> list_all base32_char (base32_encode tx b)) \<and>
     (\<forall>b buf. length b = 35 \<longrightarrow> length buf = 35 \<longrightarrow> base32_decode_mut tx (base32_encode tx b) buf = Some b) \<and>
     (\<forall>s buf out. base32_decode_mut tx s buf = Some out \<longrightarrow> length out = length buf) \<and>
     (\<forall>a. parse_ip6 tx (print_ip6 tx a) = Some a \<and> 0x2F \<notin> set (print_ip6 tx a)) \<and>
     (\<forall>s. list_all (\<lambda>b. b < 0x80) s \<longrightarrow> to_uppercase tx s = map ascii_upper s)"

section \<open>Components\<close>

definition parsed :: "'a option \<Rightarrow> addr_error + 'a" where
  "parsed r = (case r of None \<Rightarrow> Inl ParsingError | Some x \<Rightarrow> Inr x)"

text \<open>The parts of a string split at \<^verbatim>\<open>:\<close>, taken one by one.\<close>

definition read_onion3 :: "text_env \<Rightarrow> bytes \<Rightarrow> addr_error + bytes \<times> u16" where
  "read_onion3 tx s =
     (case split_on 0x3A s of
        [] \<Rightarrow> Inl InvalidMultiaddr
      | b32 # parts \<Rightarrow>
          if length b32 \<noteq> 56 then Inl InvalidMultiaddr
          else (case parts of
            [] \<Rightarrow> Inl InvalidMultiaddr
          | p # parts \<Rightarrow>
              (case parsed (parse_u16 p) of
                 Inl e \<Rightarrow> Inl e
               | Inr port \<Rightarrow>
                   if port = 0 then Inl InvalidMultiaddr
                   else if parts \<noteq> [] then Inl InvalidMultiaddr
                   else (case base32_decode_len tx (length b32) of
                     None \<Rightarrow> Inl InvalidMultiaddr
                   | Some n \<Rightarrow>
                       if 35 \<noteq> n then Inl InvalidMultiaddr
                       else (case base32_decode_mut tx b32 (replicate 35 0) of
                         None \<Rightarrow> Inl InvalidMultiaddr
                       | Some buf \<Rightarrow> Inr (buf, port))))))"

text \<open>One argument of a component, and the parts left.\<close>

definition with_part :: "bytes list \<Rightarrow> (bytes \<Rightarrow> addr_error + protocol) \<Rightarrow> addr_error + protocol \<times> bytes list" where
  "with_part parts k =
     (case parts of
        [] \<Rightarrow> Inl InvalidProtocolString
      | s # rest \<Rightarrow> (case k s of Inl e \<Rightarrow> Inl e | Inr p \<Rightarrow> Inr (p, rest)))"

definition from_str_peek :: "varint \<Rightarrow> text_env \<Rightarrow> bytes list \<Rightarrow> addr_error + protocol \<times> bytes list" where
  "from_str_peek vi tx iter =
     (case iter of
        [] \<Rightarrow> Inl InvalidProtocolString
      | tag # iter \<Rightarrow>
          if tag = ascii ''dns4'' then with_part iter (\<lambda>s. Inr (Dns4 s))
          else if tag = ascii ''dns6'' then with_part iter (\<lambda>s. Inr (Dns6 s))
          else if tag = ascii ''ip4'' then with_part iter (\<lambda>s. map_sum id Ip4 (parsed (parse_ip4 s)))
          else if tag = ascii ''ip6'' then with_part iter (\<lambda>s. map_sum id Ip6 (parsed (parse_ip6 tx s)))
          else if tag = ascii ''tls'' then with_part iter (\<lambda>s. Inr (Tls s))
          else if tag = ascii ''p2p'' then
            with_part iter (\<lambda>s.
              case parsed (bs58_decode tx s) of
                Inl e \<Rightarrow> Inl e
              | Inr decoded \<Rightarrow> (case check_p2p vi decoded of Inl e \<Rightarrow> Inl e | Inr _ \<Rightarrow> Inr (P2P decoded)))
          else if tag = ascii ''tcp'' then with_part iter (\<lambda>s. map_sum id Tcp (parsed (parse_u16 s)))
          else if tag = ascii ''ws'' then Inr (Ws, iter)
          else if tag = ascii ''wss'' then Inr (Wss, iter)
          else if tag = ascii ''memory'' then with_part iter (\<lambda>s. map_sum id Memory (parsed (parse_u64 s)))
          else if tag = ascii ''onion3'' then
            with_part iter (\<lambda>s. map_sum id (\<lambda>(a, p). Onion3 a p) (read_onion3 tx (to_uppercase tx s)))
          else if tag = ascii ''udp'' then with_part iter (\<lambda>s. map_sum id Udp (parsed (parse_u16 s)))
          else if tag = ascii ''quic-v1'' then Inr (QuicV1, iter)
          else Inl UnknownProtocolString)"

definition hash_string :: "text_env \<Rightarrow> bytes \<Rightarrow> bytes" where
  "hash_string tx hash = map ascii_lower (base32_encode tx hash)"

fun protocol_fmt :: "text_env \<Rightarrow> protocol \<Rightarrow> bytes" where
  "protocol_fmt tx (Dns4 s) = ascii ''/dns4/'' @ s"
| "protocol_fmt tx (Dns6 s) = ascii ''/dns6/'' @ s"
| "protocol_fmt tx (Ip4 addr) = ascii ''/ip4/'' @ print_ip4 addr"
| "protocol_fmt tx (Ip6 addr) = ascii ''/ip6/'' @ print_ip6 tx addr"
| "protocol_fmt tx (P2P c) = ascii ''/p2p/'' @ bs58_encode tx c"
| "protocol_fmt tx (Tcp port) = ascii ''/tcp/'' @ print_nat (unat port)"
| "protocol_fmt tx (Tls s) = ascii ''/tls/'' @ s"
| "protocol_fmt tx Ws = ascii ''/ws''"
| "protocol_fmt tx Wss = ascii ''/wss''"
| "protocol_fmt tx (Memory port) = ascii ''/memory/'' @ print_nat (unat port)"
| "protocol_fmt tx (Onion3 hash port) = ascii ''/onion3/'' @ hash_string tx hash @ ascii '':'' @ print_nat (unat port)"
| "protocol_fmt tx (Udp port) = ascii ''/udp/'' @ print_nat (unat port)"
| "protocol_fmt tx QuicV1 = ascii ''/quic-v1''"

section \<open>Addresses\<close>

definition address_fmt :: "varint \<Rightarrow> text_env \<Rightarrow> multiaddr \<Rightarrow> (addr_error + bytes) option" where
  "address_fmt vi tx a = map_option (map_sum id (\<lambda>ps. concat (map (protocol_fmt tx) ps))) (iter_all vi (ma_bytes a))"

lemma from_str_peek_shorter:
  assumes "from_str_peek vi tx iter = Inr (p, rest)"
  shows "length rest < length iter"
proof (cases iter)
  case (Cons tag r)
  have "length rest \<le> length r" if "with_part r k = Inr (p, rest)" for k
    using that by (auto simp: with_part_def split: list.splits sum.splits)
  with assms Cons show ?thesis by (auto simp: from_str_peek_def less_Suc_eq_le split: if_splits)
qed (use assms in \<open>simp add: from_str_peek_def\<close>)

text \<open>The loop of \<^verbatim>\<open>from_str\<close> with its writer; it takes at least one part each time.\<close>

function from_str_loop :: "varint \<Rightarrow> text_env \<Rightarrow> bytes list \<Rightarrow> bytes \<Rightarrow> addr_error + bytes" where
  "from_str_loop vi tx parts writer =
     (if parts = [] then Inr writer
      else (case from_str_peek vi tx parts of
              Inl e \<Rightarrow> Inl e
            | Inr (p, rest) \<Rightarrow> from_str_loop vi tx rest (writer @ write_to_bytes vi p)))"
  by pat_completeness auto

termination
  by (relation "measure (\<lambda>(vi, tx, parts, w). length parts)") (auto dest: from_str_peek_shorter)

declare from_str_loop.simps [simp del]

definition from_str :: "varint \<Rightarrow> text_env \<Rightarrow> bytes \<Rightarrow> addr_error + multiaddr" where
  "from_str vi tx input =
     (case split_on 0x2F input of
        [] \<Rightarrow> Inl InvalidMultiaddr
      | first # parts \<Rightarrow>
          if first \<noteq> [] then Inl InvalidMultiaddr
          else (case from_str_loop vi tx parts [] of
            Inl e \<Rightarrow> Inl e
          | Inr writer \<Rightarrow> if writer = [] then Inl InvalidMultiaddr else Inr \<lparr>ma_bytes = writer\<rparr>))"

text \<open>What \<^verbatim>\<open>serde\<close> passes between a format and the implementations: a string, bytes, or a sequence of bytes.\<close>

datatype serde_value = SStr bytes | SBytes bytes | SSeq bytes

definition serialize :: "varint \<Rightarrow> text_env \<Rightarrow> bool \<Rightarrow> multiaddr \<Rightarrow> (addr_error + serde_value) option" where
  "serialize vi tx is_human_readable a =
     (if is_human_readable then map_option (map_sum id SStr) (address_fmt vi tx a)
      else Some (Inr (SBytes (ma_bytes a))))"

definition visit :: "varint \<Rightarrow> text_env \<Rightarrow> bool \<Rightarrow> serde_value \<Rightarrow> (addr_error + multiaddr) option" where
  "visit vi tx is_human_readable v =
     (case v of
        SSeq buf \<Rightarrow>
          if is_human_readable then
            (if utf8_valid buf then Some (from_str vi tx buf) else Some (Inl ParsingError))
          else try_from vi buf
      | SStr s \<Rightarrow> Some (from_str vi tx s)
      | SBytes b \<Rightarrow> try_from vi b)"

section \<open>Numbers and strings read back\<close>

lemma parse_digits_append:
  "parse_digits m acc (xs @ ys) = Option.bind (parse_digits m acc xs) (\<lambda>n. parse_digits m n ys)"
  by (induction xs arbitrary: acc) (auto simp: Let_def)

lemma digit_of_nat: "n < 10 \<Longrightarrow> is_digit (0x30 + of_nat n) \<and> unat ((0x30 + of_nat n :: u8) - 0x30) = n"
  by (auto simp: is_digit_def word_le_nat_alt unat_of_nat unat_word_ariths)

lemma print_nat_digits: "\<forall>b \<in> set (print_nat n). is_digit b"
  by (induction n rule: print_nat.induct) (subst print_nat.simps, simp add: digit_of_nat)

lemma print_nat_nonempty [simp]: "print_nat n \<noteq> []"
  by (subst print_nat.simps) simp

lemma parse_print_digits: "n \<le> m \<Longrightarrow> parse_digits m 0 (print_nat n) = Some n"
proof (induction n rule: print_nat.induct)
  case (1 n)
  show ?case
  proof (cases "n < 10")
    case True
    with digit_of_nat [OF True] 1(2) show ?thesis by (simp add: print_nat.simps [of n])
  next
    case False
    have "n mod 10 < 10" by simp
    with 1 False digit_of_nat [of "n mod 10"] show ?thesis
      by (simp add: print_nat.simps [of n] parse_digits_append Let_def)
  qed
qed

lemma parse_print_uint: "n \<le> m \<Longrightarrow> parse_uint m (print_nat n) = Some n"
proof -
  assume le: "n \<le> m"
  obtain b r where br: "print_nat n = b # r" by (cases "print_nat n") simp_all
  then have "is_digit b" using print_nat_digits [of n] by simp
  then have "b \<noteq> 0x2B" by (auto simp: is_digit_def)
  with br parse_print_digits [OF le] show ?thesis by (simp add: parse_uint_def)
qed

lemma parse_print_u16 [simp]: "parse_u16 (print_nat (unat port)) = Some port"
proof -
  have "unat port \<le> 2 ^ 16 - 1" using unsigned_less [of port, where ?'a = nat] by simp
  from parse_print_uint [OF this] show ?thesis by (simp add: parse_u16_def)
qed

lemma parse_print_u64 [simp]: "parse_u64 (print_nat (unat port)) = Some port"
proof -
  have "unat port \<le> 2 ^ 64 - 1" using unsigned_less [of port, where ?'a = nat] by simp
  from parse_print_uint [OF this] show ?thesis by (simp add: parse_u64_def)
qed

lemma digit_not: "is_digit b \<Longrightarrow> b \<noteq> 0x2F \<and> b \<noteq> 0x2E \<and> b \<noteq> 0x3A \<and> b < 0x80 \<and> ascii_upper b = b"
  by (auto simp: is_digit_def ascii_upper_def word_le_nat_alt word_less_nat_alt)

lemma print_nat_not: "0x2F \<notin> set (print_nat n) \<and> 0x2E \<notin> set (print_nat n) \<and> 0x3A \<notin> set (print_nat n)"
  using print_nat_digits [of n] digit_not by blast

lemma length_print_nat: "n < 10 ^ k \<Longrightarrow> 0 < k \<Longrightarrow> length (print_nat n) \<le> k"
proof (induction n arbitrary: k rule: print_nat.induct)
  case (1 n)
  show ?case
  proof (cases "n < 10")
    case False
    with 1(2) obtain j where k: "k = Suc j" "0 < j" by (cases k; cases "k - 1") auto
    with 1(2) have "n div 10 < 10 ^ j" by auto
    with 1(1) [OF False this] k False show ?thesis by (simp add: print_nat.simps [of n])
  qed (use 1 in \<open>simp add: print_nat.simps [of n]\<close>)
qed

lemma hd_print_nat: "0 < n \<Longrightarrow> hd (print_nat n) \<noteq> 0x30"
proof (induction n rule: print_nat.induct)
  case (1 n)
  show ?case
  proof (cases "n < 10")
    case True
    with 1(2) digit_of_nat [OF True] show ?thesis by (auto simp: print_nat.simps [of n])
  qed (use 1 in \<open>simp add: print_nat.simps [of n]\<close>)
qed

lemma parse_print_octet: "parse_octet (print_nat (unat x)) = Some x"
proof -
  have x: "unat x < 256" using unsigned_less [of x, where ?'a = nat] by simp
  then have "length (print_nat (unat x)) \<le> 3" by (intro length_print_nat) simp_all
  moreover have "length (print_nat (unat x)) = 1" if "hd (print_nat (unat x)) = 0x30"
    using that hd_print_nat [of "unat x"] by (cases "unat x = 0") (auto simp: print_nat.simps [of 0])
  moreover have "parse_digits 255 0 (print_nat (unat x)) = Some (unat x)"
    using x by (intro parse_print_digits) simp
  ultimately show ?thesis by (auto simp: parse_octet_def)
qed

lemma parse_print_ip4 [simp]: "parse_ip4 (print_ip4 a) = Some a"
proof (cases a rule: print_ip4.cases)
  case (1 a b c d)
  have "split_on 0x2E (print_ip4 (a, b, c, d)) =
      [print_nat (unat a), print_nat (unat b), print_nat (unat c), print_nat (unat d)]"
    using print_nat_not by (simp add: split_on_append split_on_plain)
  with 1 show ?thesis by (simp only: parse_ip4_def list.map parse_print_octet list.case option.case)
qed

lemma print_ip4_not: "0x2F \<notin> set (print_ip4 a)"
  using print_nat_not by (cases a rule: print_ip4.cases) simp

section \<open>Components read back\<close>

text \<open>What the textual form can express: a name has no slash, and the port of an onion address is not zero.\<close>

definition printable :: "varint \<Rightarrow> protocol \<Rightarrow> bool" where
  "printable vi p \<longleftrightarrow> wf_protocol vi p \<and>
     (case p of
        Dns4 s \<Rightarrow> 0x2F \<notin> set s
      | Dns6 s \<Rightarrow> 0x2F \<notin> set s
      | Tls s \<Rightarrow> 0x2F \<notin> set s
      | Onion3 _ port \<Rightarrow> port \<noteq> 0
      | _ \<Rightarrow> True)"

fun parts_of :: "text_env \<Rightarrow> protocol \<Rightarrow> bytes list" where
  "parts_of tx (Dns4 s) = [ascii ''dns4'', s]"
| "parts_of tx (Dns6 s) = [ascii ''dns6'', s]"
| "parts_of tx (Ip4 addr) = [ascii ''ip4'', print_ip4 addr]"
| "parts_of tx (Ip6 addr) = [ascii ''ip6'', print_ip6 tx addr]"
| "parts_of tx (P2P c) = [ascii ''p2p'', bs58_encode tx c]"
| "parts_of tx (Tcp port) = [ascii ''tcp'', print_nat (unat port)]"
| "parts_of tx (Tls s) = [ascii ''tls'', s]"
| "parts_of tx Ws = [ascii ''ws'']"
| "parts_of tx Wss = [ascii ''wss'']"
| "parts_of tx (Memory port) = [ascii ''memory'', print_nat (unat port)]"
| "parts_of tx (Onion3 hash port) = [ascii ''onion3'', hash_string tx hash @ ascii '':'' @ print_nat (unat port)]"
| "parts_of tx (Udp port) = [ascii ''udp'', print_nat (unat port)]"
| "parts_of tx QuicV1 = [ascii ''quic-v1'']"

lemma protocol_fmt_parts: "protocol_fmt tx p = concat (map ((#) 0x2F) (parts_of tx p))"
  by (cases p) (simp_all add: ascii_def)

lemma text_onion3:
  assumes "text_ok tx" and "length hash = 35"
  shows "list_all base32_char (base32_encode tx hash) \<and> length (base32_encode tx hash) = 56 \<and>
    base32_decode_len tx 56 = Some 35 \<and>
    base32_decode_mut tx (base32_encode tx hash) (replicate 35 0) = Some hash"
  using assms unfolding text_ok_def by simp

lemma base32_lower:
  "base32_char b \<Longrightarrow> ascii_upper (ascii_lower b) = b \<and> ascii_lower b < 0x80 \<and> ascii_lower b \<noteq> 0x2F \<and> b \<noteq> 0x3A"
  by (auto simp: base32_char_def ascii_upper_def ascii_lower_def word_le_nat_alt word_less_nat_alt unat_word_ariths)

lemma upper_hash_string:
  assumes tx: "text_ok tx" and len: "length hash = 35"
  shows "to_uppercase tx (hash_string tx hash @ ascii '':'' @ print_nat n) = base32_encode tx hash @ 0x3A # print_nat n"
proof -
  note h = text_onion3 [OF tx len]
  have "list_all (\<lambda>b. b < 0x80) (hash_string tx hash @ ascii '':'' @ print_nat n)"
    using h base32_lower print_nat_digits [of n] digit_not
    by (auto simp: list_all_iff hash_string_def ascii_def)
  with tx have "to_uppercase tx (hash_string tx hash @ ascii '':'' @ print_nat n) =
      map ascii_upper (hash_string tx hash @ ascii '':'' @ print_nat n)"
    unfolding text_ok_def by blast
  moreover have "map ascii_upper (hash_string tx hash) = base32_encode tx hash"
    using h base32_lower by (auto simp: hash_string_def list_all_iff intro!: map_idI)
  moreover have "map ascii_upper (print_nat n) = print_nat n"
    using print_nat_digits [of n] digit_not by (auto intro: map_idI)
  ultimately show ?thesis by (simp add: ascii_def ascii_upper_def)
qed

lemma read_onion3_back:
  assumes tx: "text_ok tx" and len: "length hash = 35" and port: "port \<noteq> 0"
  shows "read_onion3 tx (base32_encode tx hash @ 0x3A # print_nat (unat port)) = Inr (hash, port)"
proof -
  note h = text_onion3 [OF tx len]
  have "0x3A \<notin> set (base32_encode tx hash)" using h base32_lower by (auto simp: list_all_iff)
  with print_nat_not [of "unat port"]
  have "split_on 0x3A (base32_encode tx hash @ 0x3A # print_nat (unat port)) =
      [base32_encode tx hash, print_nat (unat port)]"
    by (simp add: split_on_append split_on_plain)
  with h port show ?thesis by (simp add: read_onion3_def parsed_def)
qed

lemma from_str_peek_back:
  assumes tx: "text_ok tx" and p: "printable vi p"
  shows "from_str_peek vi tx (parts_of tx p @ rest) = Inr (p, rest)"
proof (cases p)
  case (Onion3 hash port)
  with p have "length hash = 35" "port \<noteq> 0" by (simp_all add: printable_def wf_protocol_def)
  with upper_hash_string [OF tx] read_onion3_back [OF tx] Onion3 show ?thesis
    by (simp add: from_str_peek_def with_part_def ascii_def)
qed (use p tx in \<open>auto simp: from_str_peek_def with_part_def ascii_def parsed_def printable_def wf_protocol_def text_ok_def\<close>)

lemma parts_of_not:
  assumes tx: "text_ok tx" and p: "printable vi p" and x: "x \<in> set (parts_of tx p)"
  shows "0x2F \<notin> set x"
proof (cases p)
  case (Onion3 hash port)
  with p have "length hash = 35" by (simp add: printable_def wf_protocol_def)
  from text_onion3 [OF tx this] base32_lower have "0x2F \<notin> set (hash_string tx hash)"
    by (auto simp: hash_string_def list_all_iff)
  with x Onion3 print_nat_not show ?thesis by (auto simp: ascii_def)
qed (use p tx x print_nat_not print_ip4_not in \<open>auto simp: ascii_def printable_def text_ok_def\<close>)

text \<open>The loop of \<^verbatim>\<open>from_str\<close> writes the components one after the other.\<close>

lemma from_str_loop_back:
  assumes tx: "text_ok tx"
  shows "(\<And>p. p \<in> set ps \<Longrightarrow> printable vi p) \<Longrightarrow>
    from_str_loop vi tx (concat (map (parts_of tx) ps)) w = Inr (w @ concat (map (write_to_bytes vi) ps))"
proof (induction ps arbitrary: w)
  case (Cons p ps)
  have "parts_of tx p \<noteq> []" by (cases p) simp_all
  with Cons from_str_peek_back [OF tx, of vi p "concat (map (parts_of tx) ps)"] show ?case
    by (simp add: from_str_loop.simps [of vi tx "parts_of tx p @ _"])
qed (simp add: from_str_loop.simps)

lemma from_str_back:
  assumes vi: "varint_ok vi" and tx: "text_ok tx" and ps: "\<And>p. p \<in> set ps \<Longrightarrow> printable vi p" and ne: "ps \<noteq> []"
  shows "from_str vi tx (concat (map (protocol_fmt tx) ps)) = Inr (from_iter vi ps)"
proof -
  have "concat (map (protocol_fmt tx) ps) = [] @ concat (map ((#) 0x2F) (concat (map (parts_of tx) ps)))"
    by (induction ps) (simp_all add: protocol_fmt_parts)
  moreover have "0x2F \<notin> set x" if "x \<in> set (concat (map (parts_of tx) ps))" for x
    using that ps parts_of_not [OF tx] by auto
  ultimately have "split_on 0x2F (concat (map (protocol_fmt tx) ps)) = [] # concat (map (parts_of tx) ps)"
    by (metis split_on_parts [of "0x2F" "[]"] empty_iff list.set(1))
  moreover have "concat (map (write_to_bytes vi) ps) \<noteq> []"
    using ne write_nonempty [OF vi] by (cases ps) simp_all
  ultimately show ?thesis
    using from_str_loop_back [OF tx ps, of ps "[]"] by (simp add: from_str_def from_iter_def)
qed

section \<open>What parsing yields\<close>

definition part_ok :: "bytes \<Rightarrow> bool" where
  "part_ok x \<longleftrightarrow> utf8_valid x \<and> length x < 2 ^ 64 \<and> 0x2F \<notin> set x"

lemma split_on_part_ok:
  assumes "utf8_valid s" and "length s < 2 ^ 64" and "x \<in> set (split_on 0x2F s)"
  shows "part_ok x"
proof -
  obtain y ys where y: "split_on 0x2F s = y # ys" by (cases "split_on 0x2F s") auto
  from utf8_split [of "0x2F" None s y ys] assms(1) y have "utf8_valid y" "list_all utf8_valid ys"
    by (auto simp: utf8_valid_def)
  with y assms(3) have "utf8_valid x" by (auto simp: list_all_iff)
  with split_on_elems [OF assms(3)] assms(2) show ?thesis by (simp add: part_ok_def)
qed

lemma parsed_Inr [simp]: "parsed r = Inr x \<longleftrightarrow> r = Some x"
  by (auto simp: parsed_def split: option.splits)

lemma map_sum_Inr [simp]: "map_sum id f r = Inr y \<longleftrightarrow> (\<exists>x. r = Inr x \<and> y = f x)"
  by (cases r) auto

lemma read_onion3_sound:
  assumes "text_ok tx" and "read_onion3 tx s = Inr (hash, port)"
  shows "length hash = 35 \<and> port \<noteq> 0"
proof -
  from assms(2) have "port \<noteq> 0" "\<exists>b. base32_decode_mut tx b (replicate 35 0) = Some hash"
    by (auto simp: read_onion3_def split: list.splits if_splits sum.splits option.splits)
  with assms(1) show ?thesis unfolding text_ok_def by fastforce
qed

lemma with_part_Inr:
  "with_part parts k = Inr (p, rest) \<longleftrightarrow> (\<exists>s. parts = s # rest \<and> k s = Inr p)"
  by (auto simp: with_part_def split: list.splits sum.splits)

lemma from_str_peek_sound:
  assumes tx: "text_ok tx" and ok: "list_all part_ok iter" and r: "from_str_peek vi tx iter = Inr (p, rest)"
  shows "printable vi p \<and> list_all part_ok rest"
proof -
  have len: "length b < 2 ^ 64" if "bs58_decode tx s = Some b" "part_ok s" for s b
  proof -
    have "length b \<le> length s" using tx that(1) unfolding text_ok_def by blast
    with that(2) show ?thesis by (simp add: part_ok_def)
  qed
  have p2p: "(case parsed (bs58_decode tx s) of Inl e \<Rightarrow> Inl e
      | Inr b \<Rightarrow> (case check_p2p vi b of Inl e \<Rightarrow> Inl e | Inr _ \<Rightarrow> Inr (P2P b))) = Inr p \<longleftrightarrow>
      (\<exists>b. bs58_decode tx s = Some b \<and> check_p2p vi b = Inr () \<and> p = P2P b)" for s
    by (auto simp: parsed_def split: option.splits sum.splits)
  from r obtain tag ps where iter: "iter = tag # ps" by (cases iter) (auto simp: from_str_peek_def)
  show ?thesis
    using r ok unfolding iter from_str_peek_def list.case
    by (auto simp: with_part_Inr p2p printable_def wf_protocol_def split: if_splits
        dest: read_onion3_sound [OF tx] len simp: part_ok_def)
qed

lemma from_str_loop_sound:
  assumes tx: "text_ok tx"
  shows "list_all part_ok parts \<Longrightarrow> from_str_loop vi tx parts w = Inr out \<Longrightarrow>
    \<exists>ps. (\<forall>p \<in> set ps. printable vi p) \<and> out = w @ concat (map (write_to_bytes vi) ps)"
proof (induction "length parts" arbitrary: parts w rule: less_induct)
  case less
  show ?case
  proof (cases "parts = []")
    case True
    with less.prems(2) have "out = w @ concat (map (write_to_bytes vi) [])" by (simp add: from_str_loop.simps)
    then show ?thesis by (intro exI [of _ "[]"]) simp
  next
    case False
    with less.prems(2) obtain p rest where p: "from_str_peek vi tx parts = Inr (p, rest)"
      and rest: "from_str_loop vi tx rest (w @ write_to_bytes vi p) = Inr out"
      by (auto simp: from_str_loop.simps [of vi tx parts] split: sum.splits)
    from from_str_peek_sound [OF tx less.prems(1) p] have ok: "printable vi p" "list_all part_ok rest" by auto
    from less.hyps [OF from_str_peek_shorter [OF p] ok(2) rest] obtain ps
      where "\<forall>p \<in> set ps. printable vi p" "out = (w @ write_to_bytes vi p) @ concat (map (write_to_bytes vi) ps)" by blast
    with ok(1) show ?thesis by (intro exI [of _ "p # ps"]) simp
  qed
qed

lemma from_str_sound:
  assumes tx: "text_ok tx" and s: "utf8_valid s" "length s < 2 ^ 64" and r: "from_str vi tx s = Inr a"
  shows "\<exists>ps. ps \<noteq> [] \<and> (\<forall>p \<in> set ps. printable vi p) \<and> a = from_iter vi ps"
proof -
  from r obtain parts w where parts: "split_on 0x2F s = [] # parts" and w: "from_str_loop vi tx parts [] = Inr w"
    and a: "w \<noteq> []" "a = \<lparr>ma_bytes = w\<rparr>"
    by (auto simp: from_str_def split: list.splits if_splits sum.splits)
  have "list_all part_ok parts" using split_on_part_ok [OF s] parts by (simp add: list_all_iff)
  from from_str_loop_sound [OF tx this w] obtain ps
    where "\<forall>p \<in> set ps. printable vi p" "w = concat (map (write_to_bytes vi) ps)" by auto
  with a show ?thesis by (intro exI [of _ ps]) (auto simp: from_iter_def)
qed

section \<open>An instance of the parameters\<close>

text \<open>Bytes as pairs of letters, and 35 bytes as 56 digits of base 32.\<close>

fun hex_enc :: "bytes \<Rightarrow> bytes" where
  "hex_enc [] = []"
| "hex_enc (b # bs) = (0x41 + b div 16) # (0x41 + b mod 16) # hex_enc bs"

fun hex_dec :: "bytes \<Rightarrow> bytes option" where
  "hex_dec [] = Some []"
| "hex_dec [_] = None"
| "hex_dec (h # l # bs) = map_option ((#) (16 * (h - 0x41) + (l - 0x41))) (hex_dec bs)"

fun digits_of :: "nat \<Rightarrow> nat \<Rightarrow> nat \<Rightarrow> nat list" where
  "digits_of b 0 n = []"
| "digits_of b (Suc k) n = n mod b # digits_of b k (n div b)"

fun value_of :: "nat \<Rightarrow> nat list \<Rightarrow> nat" where
  "value_of b [] = 0"
| "value_of b (d # ds) = d + b * value_of b ds"

definition char32 :: "nat \<Rightarrow> u8" where
  "char32 d = (if d < 26 then 0x41 + of_nat d else 0x32 + of_nat (d - 26))"

definition digit32 :: "u8 \<Rightarrow> nat" where
  "digit32 c = (if 0x41 \<le> c then unat (c - 0x41) else unat (c - 0x32) + 26)"

definition plain_text :: text_env where
  "plain_text =
     \<lparr>bs58_encode = hex_enc, bs58_decode = hex_dec,
      base32_encode = (\<lambda>b. map char32 (digits_of 32 56 (value_of 256 (map unat b)))),
      base32_decode_len = (\<lambda>n. Some (n * 5 div 8)),
      base32_decode_mut = (\<lambda>s buf. Some (map of_nat (digits_of 256 (length buf) (value_of 32 (map digit32 s))))),
      parse_ip6 = (\<lambda>s. map_option get_ip6 (hex_dec s)), print_ip6 = (\<lambda>a. hex_enc (put_ip6 a)),
      to_uppercase = map ascii_upper\<rparr>"

lemma hex_digit: "x < 16 \<Longrightarrow> (0x41 + x :: u8) \<noteq> 0x2F"
proof
  assume "x < 16"
  then have "unat (0x41 + x :: u8) = 65 + unat x" by (simp add: word_less_nat_alt unat_word_ariths)
  moreover assume "0x41 + x = 0x2F"
  ultimately show False by simp
qed

lemma hex_enc_not: "0x2F \<notin> set (hex_enc bs)"
proof (induction bs)
  case (Cons b bs)
  have "unat b < 256" using unsigned_less [of b, where ?'a = nat] by simp
  then have "b div 16 < 16" by (auto simp: word_less_nat_alt unat_div)
  moreover have "b mod 16 < 16" by (simp add: word_less_nat_alt unat_mod)
  ultimately show ?case using Cons hex_digit by auto
qed simp

lemma hex_dec_enc: "hex_dec (hex_enc bs) = Some bs"
  by (induction bs) (simp_all add: mult_div_mod_eq)

lemma hex_dec_length: "hex_dec s = Some b \<Longrightarrow> length b \<le> length s"
  by (induction s arbitrary: b rule: hex_dec.induct) fastforce+

lemma length_digits_of [simp]: "length (digits_of b k n) = k"
  by (induction k arbitrary: n) simp_all

lemma value_digits: "n < b ^ k \<Longrightarrow> value_of b (digits_of b k n) = n"
  by (induction k arbitrary: n) (simp_all add: less_mult_imp_div_less mult.commute)

lemma digits_value: "list_all (\<lambda>d. d < b) ds \<Longrightarrow> digits_of b (length ds) (value_of b ds) = ds"
  by (induction ds) auto

lemma digits_less: "0 < b \<Longrightarrow> list_all (\<lambda>d. d < b) (digits_of b k n)"
  by (induction k arbitrary: n) simp_all

lemma value_less: "list_all (\<lambda>d. d < b) ds \<Longrightarrow> value_of b ds < b ^ length ds"
proof (induction ds)
  case (Cons d ds)
  then have "d < b" "Suc (value_of b ds) \<le> b ^ length ds" by simp_all
  then have "b * Suc (value_of b ds) \<le> b * b ^ length ds" by (intro mult_le_mono2)
  with \<open>d < b\<close> show ?case by simp
qed simp

lemma digit_char32: "d < 32 \<Longrightarrow> digit32 (char32 d) = d \<and> base32_char (char32 d)"
proof -
  assume "d < 32"
  then consider "d < 26" | e where "d = 26 + e" "e < 6"
    using le_Suc_ex [of 26 d] by (cases "d < 26") auto
  then show ?thesis
    by cases (auto simp: digit32_def char32_def base32_char_def word_le_nat_alt unat_word_ariths unat_of_nat)
qed

lemma plain_base32:
  assumes "length b = 35"
  shows "digits_of 256 35 (value_of 32 (map digit32 (map char32 (digits_of 32 56 (value_of 256 (map unat (b :: bytes))))))) = map unat b"
proof -
  let ?n = "value_of 256 (map unat b)"
  have small: "list_all (\<lambda>d. d < 256) (map unat b)"
    using unsigned_less [where ?'a = nat and ?'b = 8] by (simp add: list_all_iff)
  from value_less [OF this] assms have "?n < 256 ^ 35" by simp
  then have n: "?n < 32 ^ 56" by simp
  have "map digit32 (map char32 (digits_of 32 56 ?n)) = digits_of 32 56 ?n"
    using digits_less [of 32 56 ?n] digit_char32 by (auto simp: list_all_iff intro!: map_idI)
  with value_digits [OF n] digits_value [OF small] assms show ?thesis by simp
qed

lemma plain_text_ok: "text_ok plain_text"
proof -
  have "list_all base32_char (map char32 (digits_of 32 56 n))" for n
    using digits_less [of 32 56 n] digit_char32 by (auto simp: list_all_iff)
  with plain_base32 show ?thesis
    unfolding text_ok_def plain_text_def
    by (auto simp: hex_dec_enc hex_enc_not hex_dec_length get_ip6_put intro!: map_idI)
qed

section \<open>Properties\<close>

lemma printable_wf: "printable vi p \<Longrightarrow> wf_protocol vi p"
  by (simp add: printable_def)

lemma address_fmt_from_iter:
  assumes "varint_ok vi" and "\<And>p. p \<in> set ps \<Longrightarrow> printable vi p"
  shows "iter_all vi (ma_bytes (from_iter vi ps)) = Some (Inr ps)"
    and "address_fmt vi tx (from_iter vi ps) = Some (Inr (concat (map (protocol_fmt tx) ps)))"
proof -
  show "iter_all vi (ma_bytes (from_iter vi ps)) = Some (Inr ps)"
    unfolding from_iter_def multiaddr.select_convs
    by (rule iter_all_concat [OF assms(1)]) (use assms(2) printable_wf in blast)
  then show "address_fmt vi tx (from_iter vi ps) = Some (Inr (concat (map (protocol_fmt tx) ps)))"
    by (simp add: address_fmt_def)
qed

text \<open>C20. Printing and parsing: an address of printable components is printed to a text that \<^verbatim>\<open>from_str\<close> parses
  back to the same address.\<close>

theorem text_roundtrip:
  assumes "varint_ok vi" and "text_ok tx" and "ps \<noteq> []" and "\<And>p. p \<in> set ps \<Longrightarrow> printable vi p"
  shows "\<exists>t. address_fmt vi tx (from_iter vi ps) = Some (Inr t) \<and> from_str vi tx t = Inr (from_iter vi ps)"
  using address_fmt_from_iter(2) [OF assms(1,4)] from_str_back [OF assms(1,2,4,3)] by simp

theorem text_roundtrip_witness:
  "\<exists>t. address_fmt leb128 plain_text (from_iter leb128 [Ip4 (127, 0, 0, 1), Tcp 8115]) = Some (Inr t) \<and>
     from_str leb128 plain_text t = Inr (from_iter leb128 [Ip4 (127, 0, 0, 1), Tcp 8115])"
  by (rule text_roundtrip [OF leb128_ok plain_text_ok]) (auto simp: printable_def wf_protocol_def)

text \<open>C19. Whatever \<^verbatim>\<open>from_str\<close> accepts is a valid address: its bytes pass \<^verbatim>\<open>try_from\<close>, so none of the unwrapped
  reads of \<^verbatim>\<open>pop\<close>, \<^verbatim>\<open>iter\<close> and \<^verbatim>\<open>fmt\<close> can fail on it, it is not empty, and the text printed for it is parsed to
  the same address.\<close>

theorem parsed_address_valid:
  assumes "varint_ok vi" and "text_ok tx" and "utf8_valid s" and "length s < 2 ^ 64"
    and "from_str vi tx s = Inr a"
  shows "\<not> ma_is_empty a \<and> try_from vi (ma_bytes a) = Some (Inr a) \<and>
    (\<exists>t. address_fmt vi tx a = Some (Inr t) \<and> from_str vi tx t = Inr a)"
proof -
  from from_str_sound [OF assms(2-5)] obtain ps where ps: "ps \<noteq> []" "\<And>p. p \<in> set ps \<Longrightarrow> printable vi p"
    and a: "a = from_iter vi ps" by blast
  have "concat (map (write_to_bytes vi) ps) \<noteq> []" using ps(1) write_nonempty [OF assms(1)] by (cases ps) simp_all
  then have "\<not> ma_is_empty a" by (simp add: a ma_is_empty_def from_iter_def)
  moreover have "try_from vi (ma_bytes a) = Some (Inr a)"
    using address_fmt_from_iter(1) [OF assms(1) ps(2)] by (simp add: a try_from_ok [OF assms(1)])
  moreover have "\<exists>t. address_fmt vi tx a = Some (Inr t) \<and> from_str vi tx t = Inr a"
    using address_fmt_from_iter(2) [OF assms(1) ps(2)] from_str_back [OF assms(1,2) ps(2,1)] by (simp add: a)
  ultimately show ?thesis by blast
qed

lemma sample_text: "utf8_valid (ascii ''/tcp/+80/ws'')" "length (ascii ''/tcp/+80/ws'') < 2 ^ 64"
  "from_str leb128 plain_text (ascii ''/tcp/+80/ws'') = Inr (from_iter leb128 [Tcp 80, Ws])"
proof -
  show "utf8_valid (ascii ''/tcp/+80/ws'')" by (simp add: utf8_valid_def ascii_def)
  show "length (ascii ''/tcp/+80/ws'') < 2 ^ 64" by (simp add: ascii_def)
  have "split_on 0x2F (ascii ''/tcp/+80/ws'') = [[], ascii ''tcp'', ascii ''+80'', ascii ''ws'']"
    by (simp add: ascii_def)
  moreover have "from_str_peek leb128 plain_text [ascii ''tcp'', ascii ''+80'', ascii ''ws''] = Inr (Tcp 80, [ascii ''ws''])"
    by (simp add: from_str_peek_def with_part_def ascii_def parsed_def parse_u16_def parse_uint_def is_digit_def)
  moreover have "from_str_peek leb128 plain_text [ascii ''ws''] = Inr (Ws, [])"
    by (simp add: from_str_peek_def ascii_def)
  ultimately show "from_str leb128 plain_text (ascii ''/tcp/+80/ws'') = Inr (from_iter leb128 [Tcp 80, Ws])"
    using write_nonempty [OF leb128_ok, of Ws]
    by (simp add: from_str_def from_str_loop.simps from_iter_def)
qed

theorem parsed_address_valid_witness:
  "\<exists>t. address_fmt leb128 plain_text (from_iter leb128 [Tcp 80, Ws]) = Some (Inr t) \<and>
     from_str leb128 plain_text t = Inr (from_iter leb128 [Tcp 80, Ws])"
  using parsed_address_valid [OF leb128_ok plain_text_ok sample_text] by blast

text \<open>Serialization: in a human-readable format and in a binary one alike, what \<^verbatim>\<open>serialize\<close> writes for an
  address that was parsed from text is read back by the visitor of \<^verbatim>\<open>deserialize\<close> as the same address.\<close>

theorem serde_roundtrip:
  assumes "varint_ok vi" and "text_ok tx" and "utf8_valid s" and "length s < 2 ^ 64"
    and "from_str vi tx s = Inr a"
  shows "\<exists>v. serialize vi tx human a = Some (Inr v) \<and> visit vi tx human v = Some (Inr a)"
proof -
  from from_str_sound [OF assms(2-5)] obtain ps where ps: "ps \<noteq> []" "\<And>p. p \<in> set ps \<Longrightarrow> printable vi p"
    and a: "a = from_iter vi ps" by blast
  note fmt = address_fmt_from_iter [OF assms(1) ps(2)]
  show ?thesis
  proof (cases human)
    case True
    with fmt(2) from_str_back [OF assms(1,2) ps(2,1)] show ?thesis by (simp add: a serialize_def visit_def)
  next
    case False
    with fmt(1) show ?thesis by (simp add: a serialize_def visit_def try_from_ok [OF assms(1)])
  qed
qed

theorem serde_roundtrip_witness:
  "\<exists>v. serialize leb128 plain_text True (from_iter leb128 [Tcp 80, Ws]) = Some (Inr v) \<and>
     visit leb128 plain_text True v = Some (Inr (from_iter leb128 [Tcp 80, Ws]))"
  using serde_roundtrip [OF leb128_ok plain_text_ok sample_text] by blast

text \<open>The two forms do not accept the same onion addresses: with port zero the bytes of the component pass
  \<^verbatim>\<open>try_from\<close> and are printed, but the printed text is rejected by \<^verbatim>\<open>from_str\<close>, as every text of such an address.\<close>

theorem onion_port_zero:
  assumes "varint_ok vi" and "text_ok tx" and "length hash = 35"
  shows "try_from vi (write_to_bytes vi (Onion3 hash 0)) = Some (Inr \<lparr>ma_bytes = write_to_bytes vi (Onion3 hash 0)\<rparr>) \<and>
    from_str vi tx (protocol_fmt tx (Onion3 hash 0)) = Inl InvalidMultiaddr"
proof
  have wf: "wf_protocol vi (Onion3 hash 0)" using assms(3) by (simp add: wf_protocol_def)
  have "iter_all vi (concat (map (write_to_bytes vi) [Onion3 hash 0])) = Some (Inr [Onion3 hash 0])"
    by (rule iter_all_concat [OF assms(1)]) (use wf in simp)
  then show "try_from vi (write_to_bytes vi (Onion3 hash 0)) = Some (Inr \<lparr>ma_bytes = write_to_bytes vi (Onion3 hash 0)\<rparr>)"
    by (simp add: try_from_ok [OF assms(1)])
  note h = text_onion3 [OF assms(2,3)]
  have not_sep: "0x3A \<notin> set (base32_encode tx hash)" "0x2F \<notin> set (hash_string tx hash)"
    using h base32_lower by (auto simp: list_all_iff hash_string_def)
  have zero: "print_nat (unat (0 :: u16)) = [0x30]" "parse_u16 [0x30] = Some 0"
    using parse_print_u16 [of 0] by (simp_all add: print_nat.simps [of 0])
  have "read_onion3 tx (base32_encode tx hash @ [0x3A, 0x30]) = Inl InvalidMultiaddr"
    using h split_on_append [OF not_sep(1), of "[0x30]"] zero(2) by (simp add: read_onion3_def parsed_def)
  then have "from_str_peek vi tx (parts_of tx (Onion3 hash 0)) = Inl InvalidMultiaddr"
    using upper_hash_string [OF assms(2,3), of "unat (0 :: u16)"] zero(1)
    by (simp add: from_str_peek_def with_part_def ascii_def)
  moreover have "split_on 0x2F ([] @ concat (map ((#) 0x2F) (parts_of tx (Onion3 hash 0)))) = [] # parts_of tx (Onion3 hash 0)"
    by (rule split_on_parts) (use not_sep(2) zero(1) in \<open>auto simp: ascii_def\<close>)
  ultimately show "from_str vi tx (protocol_fmt tx (Onion3 hash 0)) = Inl InvalidMultiaddr"
    by (simp add: from_str_def protocol_fmt_parts from_str_loop.simps [of vi tx "parts_of tx (Onion3 hash 0)"] del: parts_of.simps)
qed

theorem onion_port_zero_witness:
  "from_str leb128 plain_text (protocol_fmt plain_text (Onion3 (replicate 35 7) 0)) = Inl InvalidMultiaddr"
  using onion_port_zero [OF leb128_ok plain_text_ok, of "replicate 35 7"] by simp

end
