(* ===== verification/Peer_Address.thy ===== *)
theory Peer_Address
  imports Multiaddr_Text
begin

text \<open>
  Identifiers of peers (\<^verbatim>\<open>secio/src/peer_id.rs\<close>), and what the service reads from an address (\<^verbatim>\<open>tentacle/src/utils.rs\<close>,
  \<^verbatim>\<open>parse_tls_domain_name\<close> of \<^verbatim>\<open>transports/mod.rs\<close>): its peer, its transport and its socket address; and the resolution of
  addresses with a domain name (\<^verbatim>\<open>utils/dns.rs\<close>).

  The hash function is a parameter, as are reading a 16-bit varint, the lookup of a name, and the crates of \<open>text_env\<close>. A scan of the
  components of an address returns, or fails with the error of the component that the iterator unwraps; \<open>None\<close> is a scan that does not
  end.
\<close>

section \<open>Peer identifiers\<close>

datatype peer_error = PeerInvalidData | PeerWrongLength | NotSupportHashCode | PeerEmpty

record peer_id =
  pid_inner :: bytes

definition peer_from_bytes :: "varint \<Rightarrow> bytes \<Rightarrow> peer_error + peer_id" where
  "peer_from_bytes vi data =
     (if data = [] then Inl PeerEmpty
      else (case dec_u64 vi data of
              None \<Rightarrow> Inl PeerInvalidData
            | Some (code, bytes) \<Rightarrow>
                if code \<noteq> SHA256_CODE then Inl NotSupportHashCode
                else if length bytes \<noteq> unat SHA256_SIZE + 1 then Inl PeerWrongLength
                else if bytes ! 0 \<noteq> SHA256_SIZE then Inl PeerInvalidData
                else Inr \<lparr>pid_inner = data\<rparr>))"

text \<open>\<^verbatim>\<open>copy_from_slice\<close> panics if the digest has another size.\<close>

definition from_seed :: "varint \<Rightarrow> (bytes \<Rightarrow> bytes) \<Rightarrow> bytes \<Rightarrow> peer_id option" where
  "from_seed vi sha seed =
     (let code = enc_u64 vi SHA256_CODE; digest = sha seed in
      if length digest \<noteq> unat SHA256_SIZE then None
      else Some \<lparr>pid_inner = code @ SHA256_SIZE # digest\<rparr>)"

definition from_public_key :: "varint \<Rightarrow> (bytes \<Rightarrow> bytes) \<Rightarrow> bytes \<Rightarrow> peer_id option" where
  "from_public_key vi sha key = from_seed vi sha key"

definition is_public_key :: "varint \<Rightarrow> (bytes \<Rightarrow> bytes) \<Rightarrow> bytes \<Rightarrow> peer_id \<Rightarrow> bool option" where
  "is_public_key vi sha key p = map_option (\<lambda>q. q = p) (from_public_key vi sha key)"

definition into_bytes :: "peer_id \<Rightarrow> bytes" where
  "into_bytes p = pid_inner p"

definition to_base58 :: "text_env \<Rightarrow> peer_id \<Rightarrow> bytes" where
  "to_base58 tx p = bs58_encode tx (pid_inner p)"

definition peer_from_str :: "varint \<Rightarrow> text_env \<Rightarrow> bytes \<Rightarrow> peer_error + peer_id" where
  "peer_from_str vi tx s = (case bs58_decode tx s of None \<Rightarrow> Inl PeerInvalidData | Some b \<Rightarrow> peer_from_bytes vi b)"

text \<open>\<^verbatim>\<open>expect\<close> and the index panic.\<close>

definition peer_digest :: "(bytes \<Rightarrow> (u16 \<times> bytes) option) \<Rightarrow> peer_id \<Rightarrow> bytes option" where
  "peer_digest dec_u16 p =
     (case dec_u16 (pid_inner p) of
        None \<Rightarrow> None
      | Some (_, bytes) \<Rightarrow> if bytes = [] then None else Some (drop 1 bytes))"

section \<open>Scanning an address\<close>

type_synonym 'a scan = "(addr_error + 'a) option"

text \<open>\<^verbatim>\<open>iter.find_map(f)\<close>.\<close>

partial_function (option) find_map :: "varint \<Rightarrow> (protocol \<Rightarrow> 'a option) \<Rightarrow> bytes \<Rightarrow> 'a option scan" where
  "find_map vi f b =
     (case iter_next vi b of
        None \<Rightarrow> Some (Inr None)
      | Some (Inl e) \<Rightarrow> Some (Inl e)
      | Some (Inr ps) \<Rightarrow> (case f (fst ps) of Some x \<Rightarrow> Some (Inr (Some x)) | None \<Rightarrow> find_map vi f (snd ps)))"

definition extract_peer_id :: "varint \<Rightarrow> multiaddr \<Rightarrow> peer_id option scan" where
  "extract_peer_id vi addr =
     find_map vi (\<lambda>proto.
       case proto of P2P raw_bytes \<Rightarrow> (case peer_from_bytes vi raw_bytes of Inr p \<Rightarrow> Some p | Inl _ \<Rightarrow> None) | _ \<Rightarrow> None)
       (ma_bytes addr)"

datatype transport_type = TWs | TWss | TTcp | TTls | TMemory | TOnion

definition transport_of :: "protocol \<Rightarrow> transport_type option" where
  "transport_of proto =
     (case proto of
        Ws \<Rightarrow> Some TWs
      | Wss \<Rightarrow> Some TWss
      | Tls _ \<Rightarrow> Some TTls
      | Memory _ \<Rightarrow> Some TMemory
      | Onion3 _ _ \<Rightarrow> Some TOnion
      | _ \<Rightarrow> None)"

definition find_type :: "varint \<Rightarrow> multiaddr \<Rightarrow> transport_type scan" where
  "find_type vi addr =
     map_option (map_sum id (\<lambda>t. case t of None \<Rightarrow> TTcp | Some t \<Rightarrow> t)) (find_map vi transport_of (ma_bytes addr))"

definition tls_domain :: "protocol \<Rightarrow> bytes option" where
  "tls_domain proto = (case proto of Tls s \<Rightarrow> Some s | _ \<Rightarrow> None)"

definition parse_tls_domain_name :: "varint \<Rightarrow> multiaddr \<Rightarrow> bytes option scan" where
  "parse_tls_domain_name vi addr = find_map vi tls_domain (ma_bytes addr)"

text \<open>
  The loop of \<^verbatim>\<open>multiaddr_to_socketaddr\<close> and of \<^verbatim>\<open>DnsResolver::new\<close>: components are skipped until one \<open>starts\<close>, then two are
  taken; the loop ends if they are a pair. An end of the address after the first one ends it without a result.
\<close>

partial_function (option) find_pair ::
  "varint \<Rightarrow> (protocol \<Rightarrow> bool) \<Rightarrow> (protocol \<Rightarrow> protocol \<Rightarrow> 'a option) \<Rightarrow> bytes \<Rightarrow> 'a option scan" where
  "find_pair vi starts pair b =
     (case iter_next vi b of
        None \<Rightarrow> Some (Inr None)
      | Some (Inl e) \<Rightarrow> Some (Inl e)
      | Some (Inr ps) \<Rightarrow>
          if \<not> starts (fst ps) then find_pair vi starts pair (snd ps)
          else (case iter_next vi (snd ps) of
                  None \<Rightarrow> Some (Inr None)
                | Some (Inl e) \<Rightarrow> Some (Inl e)
                | Some (Inr qs) \<Rightarrow>
                    (case pair (fst ps) (fst qs) of
                       Some x \<Rightarrow> Some (Inr (Some x))
                     | None \<Rightarrow> find_pair vi starts pair (snd qs))))"

record socket_addr =
  sa_ip :: ip_addr
  sa_port :: u16

definition starts_ip :: "protocol \<Rightarrow> bool" where
  "starts_ip p = (case p of Ip4 _ \<Rightarrow> True | Ip6 _ \<Rightarrow> True | _ \<Rightarrow> False)"

definition ip_port :: "protocol \<Rightarrow> protocol \<Rightarrow> socket_addr option" where
  "ip_port p q =
     (case (p, q) of
        (Ip4 ip, Tcp port) \<Rightarrow> Some \<lparr>sa_ip = V4 ip, sa_port = port\<rparr>
      | (Ip6 ip, Tcp port) \<Rightarrow> Some \<lparr>sa_ip = V6 ip, sa_port = port\<rparr>
      | _ \<Rightarrow> None)"

definition multiaddr_to_socketaddr :: "varint \<Rightarrow> multiaddr \<Rightarrow> socket_addr option scan" where
  "multiaddr_to_socketaddr vi addr = find_pair vi starts_ip ip_port (ma_bytes addr)"

definition socketaddr_to_multiaddr :: "varint \<Rightarrow> socket_addr \<Rightarrow> multiaddr" where
  "socketaddr_to_multiaddr vi address =
     from_iter vi [case sa_ip address of V4 ip \<Rightarrow> Ip4 ip | V6 ip \<Rightarrow> Ip6 ip, Tcp (sa_port address)]"

section \<open>Reachable addresses\<close>

text \<open>The classes of the standard library.\<close>

fun ip4_is_private :: "ip4 \<Rightarrow> bool" where
  "ip4_is_private (a, b, _, _) = (a = 10 \<or> (a = 172 \<and> 16 \<le> b \<and> b \<le> 31) \<or> (a = 192 \<and> b = 168))"

fun ip4_is_documentation :: "ip4 \<Rightarrow> bool" where
  "ip4_is_documentation (a, b, c, _) =
     ((a = 192 \<and> b = 0 \<and> c = 2) \<or> (a = 198 \<and> b = 51 \<and> c = 100) \<or> (a = 203 \<and> b = 0 \<and> c = 113))"

fun ip6_reachable :: "ip6 \<Rightarrow> bool" where
  "ip6_reachable (s0, s1, s2, s3, s4, s5, s6, s7) =
     (let ip = (s0, s1, s2, s3, s4, s5, s6, s7);
          multicast = s0 AND 0xff00 = 0xff00;
          scope = (if multicast then
                     (if s0 AND 0x000f \<in> {1, 2, 3, 4, 5, 8} then Some False
                      else if s0 AND 0x000f = 14 then Some True
                      else None)
                   else None)
      in case scope of
           Some True \<Rightarrow> True
         | None \<Rightarrow>
             \<not> (multicast \<or> ip = (0, 0, 0, 0, 0, 0, 0, 1) \<or> s0 AND 0xffc0 = 0xfe80 \<or> s0 AND 0xffc0 = 0xfec0 \<or>
                s0 AND 0xfe00 = 0xfc00 \<or> ip = (0, 0, 0, 0, 0, 0, 0, 0) \<or> (s0 = 0x2001 \<and> s1 = 0xdb8))
         | _ \<Rightarrow> False)"

fun ip4_reachable :: "ip4 \<Rightarrow> bool" where
  "ip4_reachable (a, b, c, d) =
     (\<not> ip4_is_private (a, b, c, d) \<and> a \<noteq> 127 \<and> \<not> (a = 169 \<and> b = 254) \<and> (a, b, c, d) \<noteq> (255, 255, 255, 255) \<and>
      \<not> ip4_is_documentation (a, b, c, d) \<and> (a, b, c, d) \<noteq> (0, 0, 0, 0))"

definition is_reachable :: "ip_addr \<Rightarrow> bool" where
  "is_reachable ip = (case ip of V4 a \<Rightarrow> ip4_reachable a | V6 a \<Rightarrow> ip6_reachable a)"

section \<open>Resolution of names\<close>

text \<open>The task that looks a name up is the script of the answers to its polls: the task failed, the lookup failed, or the addresses.\<close>

type_synonym lookup_task = "(io_kind + io_kind + socket_addr list) poll list"

record dns_resolver =
  dr_source_address :: multiaddr
  dr_ty :: transport_type
  dr_peer_id :: "peer_id option"
  dr_port :: u16
  dr_domain :: bytes
  dr_join_handle :: "lookup_task option"

fun scan_bind :: "'a scan \<Rightarrow> ('a \<Rightarrow> 'b scan) \<Rightarrow> 'b scan" where
  "scan_bind (Some (Inr x)) k = k x"
| "scan_bind (Some (Inl e)) k = Some (Inl e)"
| "scan_bind None k = None"

definition starts_dns :: "protocol \<Rightarrow> bool" where
  "starts_dns p = (case p of Dns4 _ \<Rightarrow> True | Dns6 _ \<Rightarrow> True | _ \<Rightarrow> False)"

definition dns_port :: "protocol \<Rightarrow> protocol \<Rightarrow> (bytes \<times> u16) option" where
  "dns_port p q =
     (case (p, q) of
        (Dns4 domain, Tcp port) \<Rightarrow> Some (domain, port)
      | (Dns6 domain, Tcp port) \<Rightarrow> Some (domain, port)
      | _ \<Rightarrow> None)"

definition dns_new :: "varint \<Rightarrow> multiaddr \<Rightarrow> dns_resolver option scan" where
  "dns_new vi source_address =
     scan_bind (find_pair vi starts_dns dns_port (ma_bytes source_address)) (\<lambda>found.
       (case found of
          None \<Rightarrow> Some (Inr None)
        | Some (domain, port) \<Rightarrow>
            scan_bind (find_type vi source_address) (\<lambda>ty.
            scan_bind (extract_peer_id vi source_address) (\<lambda>peer_id.
              Some (Inr (Some \<lparr>dr_source_address = source_address, dr_ty = ty, dr_peer_id = peer_id, dr_port = port,
                dr_domain = domain, dr_join_handle = None\<rparr>))))))"

definition new_addr ::
  "varint \<Rightarrow> socket_addr list \<Rightarrow> dns_resolver \<Rightarrow> ((multiaddr \<times> io_kind + multiaddr) poll \<times> dns_resolver) scan" where
  "new_addr vi iter r =
     (case iter of
        [] \<Rightarrow> Some (Inr (Ready (Inl (dr_source_address r, IoInvalidData)), r))
      | address # _ \<Rightarrow>
          let address = socketaddr_to_multiaddr vi address in
          scan_bind
            (case dr_ty r of
               TTls \<Rightarrow> scan_bind (parse_tls_domain_name vi (dr_source_address r))
                 (\<lambda>d. Some (Inr (push vi (Tls (case d of None \<Rightarrow> [] | Some d \<Rightarrow> d)) address)))
             | TWs \<Rightarrow> Some (Inr (push vi Ws address))
             | TWss \<Rightarrow> Some (Inr (push vi Wss address))
             | _ \<Rightarrow> Some (Inr address))
            (\<lambda>address.
               Some (Inr (Ready (Inr (case dr_peer_id r of None \<Rightarrow> address | Some p \<Rightarrow> push vi (P2P (into_bytes p)) address)),
                 r\<lparr>dr_peer_id := None\<rparr>))))"

definition dns_poll ::
  "varint \<Rightarrow> (bytes \<Rightarrow> u16 \<Rightarrow> lookup_task) \<Rightarrow> dns_resolver \<Rightarrow> ((multiaddr \<times> io_kind + multiaddr) poll \<times> dns_resolver) scan" where
  "dns_poll vi spawn_blocking r =
     (let handle = (case dr_join_handle r of None \<Rightarrow> spawn_blocking (dr_domain r) (dr_port r) | Some h \<Rightarrow> h);
          r = r\<lparr>dr_join_handle := None\<rparr>
      in case handle of
           [] \<Rightarrow> Some (Inr (Pending, r\<lparr>dr_join_handle := Some []\<rparr>))
         | Pending # h \<Rightarrow> Some (Inr (Pending, r\<lparr>dr_join_handle := Some h\<rparr>))
         | Ready (Inr (Inr iter)) # h \<Rightarrow> new_addr vi iter r
         | Ready (Inl e) # h \<Rightarrow> Some (Inr (Ready (Inl (dr_source_address r, e)), r))
         | Ready (Inr (Inl e)) # h \<Rightarrow> Some (Inr (Ready (Inl (dr_source_address r, e)), r)))"

section \<open>Well-formed identifiers\<close>

text \<open>The type invariant of \<^verbatim>\<open>PeerId\<close>: the code of SHA-256, the size of the digest, and a digest of this size.\<close>

definition wf_peer_id :: "varint \<Rightarrow> peer_id \<Rightarrow> bool" where
  "wf_peer_id vi p =
     (case dec_u64 vi (pid_inner p) of
        None \<Rightarrow> False
      | Some (code, bytes) \<Rightarrow> code = SHA256_CODE \<and> length bytes = unat SHA256_SIZE + 1 \<and> hd bytes = SHA256_SIZE)"

lemma peer_size: "unat SHA256_SIZE = 32" by (simp add: SHA256_SIZE_def)

lemma dec_u64_nonempty: "varint_ok vi \<Longrightarrow> dec_u64 vi b = Some (x, r) \<Longrightarrow> b \<noteq> []"
  unfolding varint_ok_def by (metis append_is_Nil_conv)

lemma wf_from_bytes:
  assumes "varint_ok vi"
  shows "peer_from_bytes vi b = Inr p \<longleftrightarrow> p = \<lparr>pid_inner = b\<rparr> \<and> wf_peer_id vi p"
proof (cases "dec_u64 vi b")
  case None
  then show ?thesis by (auto simp: peer_from_bytes_def wf_peer_id_def)
next
  case (Some cr)
  then obtain code r where cr: "dec_u64 vi b = Some (code, r)" by (cases cr) simp
  moreover have "length r = 33 \<Longrightarrow> r ! 0 = hd r" by (cases r) simp_all
  ultimately show ?thesis
    using dec_u64_nonempty [OF assms cr] by (auto simp: peer_from_bytes_def wf_peer_id_def peer_size)
qed

lemma wf_check_p2p: "wf_peer_id vi p \<longleftrightarrow> check_p2p vi (pid_inner p) = Inr ()"
  by (auto simp: check_p2p_def wf_peer_id_def split: option.splits)

lemma wf_from_seed:
  assumes "varint_ok vi" and "length (sha seed) = 32"
  shows "\<exists>p. from_seed vi sha seed = Some p \<and> wf_peer_id vi p \<and> pid_inner p = enc_u64 vi SHA256_CODE @ SHA256_SIZE # sha seed"
  using assms by (simp add: from_seed_def wf_peer_id_def varint_ok_def peer_size)

section \<open>Scans of valid addresses\<close>

fun find_first :: "(protocol \<Rightarrow> 'a option) \<Rightarrow> protocol list \<Rightarrow> 'a option" where
  "find_first f [] = None"
| "find_first f (p # ps) = (case f p of Some x \<Rightarrow> Some x | None \<Rightarrow> find_first f ps)"

fun first_pair :: "(protocol \<Rightarrow> bool) \<Rightarrow> (protocol \<Rightarrow> protocol \<Rightarrow> 'a option) \<Rightarrow> protocol list \<Rightarrow> 'a option" where
  "first_pair starts pair (p # q # ps) =
     (if \<not> starts p then first_pair starts pair (q # ps)
      else (case pair p q of Some x \<Rightarrow> Some x | None \<Rightarrow> first_pair starts pair ps))"
| "first_pair starts pair [] = None"
| "first_pair starts pair [p] = None"

lemma iter_all_empty: "iter_all vi b = Some (Inr []) \<longleftrightarrow> b = []"
  by (cases "b = []") (auto simp: iter_all_step split: sum.splits)

lemma iter_all_Cons:
  "iter_all vi b = Some (Inr (p # ps)) \<longleftrightarrow> (\<exists>rest. iter_next vi b = Some (Inr (p, rest)) \<and> iter_all vi rest = Some (Inr ps))"
proof (cases "b = []")
  case True
  then show ?thesis by (simp add: iter_next_def)
next
  case False
  then show ?thesis
    by (cases "from_bytes vi b") (auto simp: iter_all_step iter_next_def)
qed

lemma find_map_first: "iter_all vi b = Some (Inr ps) \<Longrightarrow> find_map vi f b = Some (Inr (find_first f ps))"
proof (induction ps arbitrary: b)
  case Nil
  then show ?case by (simp add: iter_all_empty find_map.simps iter_next_def)
next
  case (Cons p ps)
  then obtain rest where "iter_next vi b = Some (Inr (p, rest))" "iter_all vi rest = Some (Inr ps)" by (auto simp: iter_all_Cons)
  with Cons.IH [of rest] show ?case by (simp add: find_map.simps [of vi f b] split: option.split)
qed

lemma find_pair_first: "iter_all vi b = Some (Inr ps) \<Longrightarrow> find_pair vi st pr b = Some (Inr (first_pair st pr ps))"
proof (induction st pr ps arbitrary: b rule: first_pair.induct)
  case (1 st pr p q ps)
  then obtain r1 r2 where "iter_next vi b = Some (Inr (p, r1))" "iter_next vi r1 = Some (Inr (q, r2))"
    "iter_all vi r1 = Some (Inr (q # ps))" "iter_all vi r2 = Some (Inr ps)" by (auto simp: iter_all_Cons)
  with "1.IH" show ?case by (auto simp: find_pair.simps [of vi st pr b] split: option.split)
next
  case (2 st pr)
  then show ?case by (simp add: iter_all_empty find_pair.simps iter_next_def)
next
  case (3 st pr p)
  then obtain rest where "iter_next vi b = Some (Inr (p, rest))" "rest = []" by (auto simp: iter_all_Cons iter_all_empty)
  then show ?case by (auto simp: find_pair.simps [of vi st pr b] find_pair.simps [of vi st pr "[]"] iter_next_def)
qed

definition peer_of :: "varint \<Rightarrow> protocol \<Rightarrow> peer_id option" where
  "peer_of vi proto = (case proto of P2P b \<Rightarrow> (case peer_from_bytes vi b of Inr p \<Rightarrow> Some p | Inl _ \<Rightarrow> None) | _ \<Rightarrow> None)"

lemma extract_first: "iter_all vi (ma_bytes a) = Some (Inr ps) \<Longrightarrow> extract_peer_id vi a = Some (Inr (find_first (peer_of vi) ps))"
  unfolding extract_peer_id_def by (subst find_map_first) (simp_all add: peer_of_def [abs_def])

lemma find_type_first:
  "iter_all vi (ma_bytes a) = Some (Inr ps) \<Longrightarrow>
     find_type vi a = Some (Inr (case find_first transport_of ps of None \<Rightarrow> TTcp | Some t \<Rightarrow> t))"
  by (simp add: find_type_def find_map_first)

lemma find_first_Some: "find_first f ps = Some x \<Longrightarrow> \<exists>p \<in> set ps. f p = Some x"
  by (induction ps) (auto split: option.splits)

lemma extract_wf:
  assumes "varint_ok vi" and "iter_all vi (ma_bytes a) = Some (Inr ps)" and "extract_peer_id vi a = Some (Inr (Some p))"
  shows "wf_peer_id vi p \<and> P2P (pid_inner p) \<in> set ps"
proof -
  from assms(2,3) have "find_first (peer_of vi) ps = Some p" by (simp add: extract_first)
  then obtain q where q: "q \<in> set ps" "peer_of vi q = Some p" using find_first_Some by meson
  then obtain b where "q = P2P b" "peer_from_bytes vi b = Inr p"
    by (auto simp: peer_of_def split: protocol.splits sum.splits)
  with q(1) show ?thesis by (auto simp: wf_from_bytes [OF assms(1)])
qed

section \<open>Resolved addresses\<close>

lemma push_valid:
  assumes "varint_ok vi" and "iter_all vi (ma_bytes a) = Some (Inr ps)" and "wf_protocol vi p"
  shows "iter_all vi (ma_bytes (push vi p a)) = Some (Inr (ps @ [p]))"
  using iter_all_append [OF assms(1,2), of "write_to_bytes vi p" "[p]"] iter_all_concat [OF assms(1), of "[p]"] assms(3)
  by (simp add: push_def)

lemma socketaddr_valid:
  "varint_ok vi \<Longrightarrow> iter_all vi (ma_bytes (socketaddr_to_multiaddr vi s)) =
     Some (Inr [case sa_ip s of V4 ip \<Rightarrow> Ip4 ip | V6 ip \<Rightarrow> Ip6 ip, Tcp (sa_port s)])"
  unfolding socketaddr_to_multiaddr_def from_iter_def multiaddr.select_convs
  by (rule iter_all_concat) (auto simp: wf_protocol_def split: ip_addr.split)

definition transport_component :: "transport_type \<Rightarrow> bytes option \<Rightarrow> protocol list" where
  "transport_component t d = (case t of TTls \<Rightarrow> [Tls (case d of None \<Rightarrow> [] | Some d \<Rightarrow> d)] | TWs \<Rightarrow> [Ws] | TWss \<Rightarrow> [Wss] | _ \<Rightarrow> [])"

lemma new_addr_components:
  assumes vi: "varint_ok vi" and src: "iter_all vi (ma_bytes (dr_source_address r)) = Some (Inr ps)"
    and peer: "\<And>p. dr_peer_id r = Some p \<Longrightarrow> wf_protocol vi (P2P (into_bytes p))"
  shows "\<exists>a. new_addr vi (s # ss) r = Some (Inr (Ready (Inr a), r\<lparr>dr_peer_id := None\<rparr>)) \<and>
    iter_all vi (ma_bytes a) = Some (Inr
      ([case sa_ip s of V4 ip \<Rightarrow> Ip4 ip | V6 ip \<Rightarrow> Ip6 ip, Tcp (sa_port s)] @
       transport_component (dr_ty r) (find_first tls_domain ps) @
       (case dr_peer_id r of None \<Rightarrow> [] | Some p \<Rightarrow> [P2P (into_bytes p)])))"
proof -
  let ?a = "socketaddr_to_multiaddr vi s" and ?d = "find_first tls_domain ps"
  let ?ip = "case sa_ip s of V4 ip \<Rightarrow> Ip4 ip | V6 ip \<Rightarrow> Ip6 ip"
  note a = socketaddr_valid [OF vi, of s]
  have d: "parse_tls_domain_name vi (dr_source_address r) = Some (Inr ?d)"
    unfolding parse_tls_domain_name_def by (rule find_map_first [OF src])
  have "wf_protocol vi (Tls (case ?d of None \<Rightarrow> [] | Some d \<Rightarrow> d))"
  proof (cases ?d)
    case None
    then show ?thesis by (simp add: wf_protocol_def utf8_valid_def)
  next
    case (Some d)
    from find_first_Some [OF this] obtain q where "q \<in> set ps" "tls_domain q = Some d" by blast
    then have "Tls d \<in> set ps" by (auto simp: tls_domain_def split: protocol.splits)
    with iter_all_wf [OF vi src this] Some show ?thesis by simp
  qed
  note tls = push_valid [OF vi a this]
  have ws: "wf_protocol vi Ws" "wf_protocol vi Wss" by (simp_all add: wf_protocol_def)
  obtain b where b: "new_addr vi (s # ss) r = Some (Inr (Ready (Inr
        (case dr_peer_id r of None \<Rightarrow> b | Some p \<Rightarrow> push vi (P2P (into_bytes p)) b)), r\<lparr>dr_peer_id := None\<rparr>))"
    "iter_all vi (ma_bytes b) = Some (Inr ([?ip, Tcp (sa_port s)] @ transport_component (dr_ty r) ?d))"
    using a tls push_valid [OF vi a ws(1)] push_valid [OF vi a ws(2)] d
    by (cases "dr_ty r") (simp_all add: new_addr_def transport_component_def Let_def)
  show ?thesis
  proof (cases "dr_peer_id r")
    case None
    with b show ?thesis by simp
  next
    case (Some p)
    with b push_valid [OF vi b(2) peer [OF Some]] show ?thesis by simp
  qed
qed

section \<open>Properties\<close>

text \<open>C27. Every value of type \<^verbatim>\<open>PeerId\<close> is well-formed, however it was made: hashing a key succeeds and gives one; reading
  bytes or a string gives one, and accepts every one; what is found in an address is one. A well-formed identifier survives
  being printed and parsed, its digest is read without a panic and has 32 bytes, and it makes a valid component of an address.\<close>

theorem peer_ids_well_formed:
  assumes "varint_ok vi" and "text_ok tx" and "\<And>b. length (sha b) = 32"
    and "\<And>b x r. dec_u64 vi b = Some (x, r) \<Longrightarrow> x < 2 ^ 16 \<Longrightarrow> dec_u16 b = Some (ucast x, r)"
  shows "(\<exists>p. from_public_key vi sha key = Some p \<and> wf_peer_id vi p \<and> is_public_key vi sha key p = Some True) \<and>
    (\<forall>b p. peer_from_bytes vi b = Inr p \<longleftrightarrow> wf_peer_id vi p \<and> into_bytes p = b) \<and>
    (\<forall>s p. peer_from_str vi tx s = Inr p \<longrightarrow> wf_peer_id vi p) \<and>
    (\<forall>a ps p. iter_all vi (ma_bytes a) = Some (Inr ps) \<and> extract_peer_id vi a = Some (Inr (Some p)) \<longrightarrow> wf_peer_id vi p) \<and>
    (\<forall>p. wf_peer_id vi p \<longrightarrow> peer_from_str vi tx (to_base58 tx p) = Inr p \<and>
      (\<exists>d. peer_digest dec_u16 p = Some d \<and> length d = 32) \<and> check_p2p vi (into_bytes p) = Inr ())"
proof (intro conjI allI impI)
  show "\<exists>p. from_public_key vi sha key = Some p \<and> wf_peer_id vi p \<and> is_public_key vi sha key p = Some True"
    using wf_from_seed [of vi sha key] assms(1,3) by (auto simp: from_public_key_def is_public_key_def)
  show bytes: "peer_from_bytes vi b = Inr p \<longleftrightarrow> wf_peer_id vi p \<and> into_bytes p = b" for b p
    by (auto simp: wf_from_bytes [OF assms(1)] into_bytes_def)
  show "wf_peer_id vi p" if "peer_from_str vi tx s = Inr p" for s p
    using that bytes by (auto simp: peer_from_str_def split: option.splits)
  show "wf_peer_id vi p" if "iter_all vi (ma_bytes a) = Some (Inr ps) \<and> extract_peer_id vi a = Some (Inr (Some p))" for a ps p
    using that extract_wf [OF assms(1)] by blast
  fix p assume p: "wf_peer_id vi p"
  show "peer_from_str vi tx (to_base58 tx p) = Inr p"
    using assms(2) p by (simp add: peer_from_str_def to_base58_def text_ok_def wf_from_bytes [OF assms(1)])
  from p obtain r where "dec_u64 vi (pid_inner p) = Some (SHA256_CODE, r)" "length r = 33"
    by (auto simp: wf_peer_id_def peer_size split: option.splits)
  with assms(4) [of "pid_inner p" SHA256_CODE r] show "\<exists>d. peer_digest dec_u16 p = Some d \<and> length d = 32"
    by (auto simp: peer_digest_def SHA256_CODE_def)
  show "check_p2p vi (into_bytes p) = Inr ()" using p by (simp add: wf_check_p2p into_bytes_def)
qed

definition leb_u16 :: "bytes \<Rightarrow> (u16 \<times> bytes) option" where
  "leb_u16 b = map_option (\<lambda>(x, r). (ucast x, r)) (dec_u64 leb128 b)"

theorem peer_ids_well_formed_witness:
  "\<exists>p. from_public_key leb128 (\<lambda>_. replicate 32 7) [1, 2] = Some p \<and> wf_peer_id leb128 p \<and>
     peer_from_str leb128 plain_text (to_base58 plain_text p) = Inr p"
proof -
  note w = peer_ids_well_formed [OF leb128_ok plain_text_ok, of "\<lambda>_. replicate 32 7" leb_u16 "[1, 2]"]
  show ?thesis using w by (auto simp: leb_u16_def)
qed

text \<open>A name is resolved to the address it stands for. When the lookup of a resolver for a valid address returns some socket
  address, the resolver returns an address of this socket address; it names the same peer as the source, and the same transport,
  except that a memory or onion address with a domain name becomes a TCP address.\<close>

theorem resolved_address_matches_source:
  assumes "varint_ok vi" and "iter_all vi (ma_bytes a) = Some (Inr ps)"
    and "dns_new vi a = Some (Inr (Some r))"
    and "dns_poll vi (\<lambda>_ _. Ready (Inr (Inr (s # ss))) # h) r = Some (Inr (res, r'))"
  shows "\<exists>b t. res = Ready (Inr b) \<and> ma_bytes (dr_source_address r') = ma_bytes a \<and>
    multiaddr_to_socketaddr vi b = Some (Inr (Some s)) \<and>
    extract_peer_id vi b = extract_peer_id vi a \<and>
    find_type vi a = Some (Inr t) \<and> find_type vi b = Some (Inr (if t \<in> {TMemory, TOnion} then TTcp else t))"
proof -
  let ?t = "case find_first transport_of ps of None \<Rightarrow> TTcp | Some t \<Rightarrow> t" and ?p = "find_first (peer_of vi) ps"
  have t: "find_type vi a = Some (Inr ?t)" by (rule find_type_first [OF assms(2)])
  have x: "extract_peer_id vi a = Some (Inr ?p)" by (rule extract_first [OF assms(2)])
  have r: "dr_source_address r = a" "dr_ty r = ?t" "dr_peer_id r = ?p" "dr_join_handle r = None"
    using assms(3) unfolding dns_new_def find_pair_first [OF assms(2)] t x by (auto split: option.splits)
  define r1 where "r1 = r\<lparr>dr_join_handle := None\<rparr>"
  have src: "iter_all vi (ma_bytes (dr_source_address r1)) = Some (Inr ps)" using assms(2) r by (simp add: r1_def)
  have "wf_protocol vi (P2P (into_bytes p))" if "dr_peer_id r1 = Some p" for p
    using extract_wf [OF assms(1,2)] that r x iter_all_wf [OF assms(1,2)] by (simp add: r1_def into_bytes_def)
  from new_addr_components [OF assms(1) src this, of s ss] obtain b where
    b: "new_addr vi (s # ss) r1 = Some (Inr (Ready (Inr b), r1\<lparr>dr_peer_id := None\<rparr>))"
      "iter_all vi (ma_bytes b) = Some (Inr ([case sa_ip s of V4 ip \<Rightarrow> Ip4 ip | V6 ip \<Rightarrow> Ip6 ip, Tcp (sa_port s)] @
        transport_component ?t (find_first tls_domain ps) @ (case ?p of None \<Rightarrow> [] | Some p \<Rightarrow> [P2P (into_bytes p)])))"
    using r by (auto simp: r1_def)
  have res: "res = Ready (Inr b)" "r' = r1\<lparr>dr_peer_id := None\<rparr>"
    using assms(4) b(1) r(4) by (simp_all add: dns_poll_def Let_def r1_def)
  have "peer_of vi (P2P (into_bytes p)) = Some p" if "?p = Some p" for p
  proof -
    have "peer_from_bytes vi (pid_inner p) = Inr p"
      using extract_wf [OF assms(1,2)] that x by (simp add: wf_from_bytes [OF assms(1)])
    then show ?thesis by (simp add: peer_of_def into_bytes_def)
  qed
  then have "find_first (peer_of vi) ([case sa_ip s of V4 ip \<Rightarrow> Ip4 ip | V6 ip \<Rightarrow> Ip6 ip, Tcp (sa_port s)] @
        transport_component ?t (find_first tls_domain ps) @ (case ?p of None \<Rightarrow> [] | Some p \<Rightarrow> [P2P (into_bytes p)])) = ?p"
    by (cases "sa_ip s"; cases ?t; cases ?p) (simp_all add: transport_component_def peer_of_def)
  then have "extract_peer_id vi b = extract_peer_id vi a" by (simp add: extract_first [OF b(2)] x)
  moreover have "multiaddr_to_socketaddr vi b = Some (Inr (Some s))"
    unfolding multiaddr_to_socketaddr_def find_pair_first [OF b(2)]
    by (cases s; cases "sa_ip s") (simp_all add: starts_ip_def ip_port_def)
  moreover have "find_type vi b = Some (Inr (if ?t \<in> {TMemory, TOnion} then TTcp else ?t))"
    unfolding find_type_first [OF b(2)]
    by (cases "sa_ip s"; cases ?t; cases ?p) (simp_all add: transport_component_def transport_of_def)
  moreover have "ma_bytes (dr_source_address r') = ma_bytes a" using res(2) r(1) by (simp add: r1_def)
  ultimately show ?thesis using t res(1) by blast
qed

definition sample_domain :: "protocol list" where
  "sample_domain = [Dns4 [97, 98], Tcp 443, Wss]"

theorem resolved_address_matches_source_witness:
  "\<exists>r b r'. dns_new leb128 (from_iter leb128 sample_domain) = Some (Inr (Some r)) \<and>
     dns_poll leb128 (\<lambda>_ _. [Ready (Inr (Inr [\<lparr>sa_ip = V4 (10, 0, 0, 1), sa_port = 443\<rparr>]))]) r = Some (Inr (Ready (Inr b), r')) \<and>
     multiaddr_to_socketaddr leb128 b = Some (Inr (Some \<lparr>sa_ip = V4 (10, 0, 0, 1), sa_port = 443\<rparr>)) \<and>
     find_type leb128 b = Some (Inr TWss)"
proof -
  let ?a = "from_iter leb128 sample_domain" and ?s = "\<lparr>sa_ip = V4 (10, 0, 0, 1), sa_port = 443\<rparr>"
  have "utf8_valid [97, 98]" by code_simp
  then have v: "iter_all leb128 (ma_bytes ?a) = Some (Inr sample_domain)"
    unfolding from_iter_def multiaddr.select_convs
    by (intro iter_all_concat [OF leb128_ok]) (auto simp: sample_domain_def wf_protocol_def)
  have t: "find_type leb128 ?a = Some (Inr TWss)"
    by (simp add: find_type_first [OF v]) (simp add: sample_domain_def transport_of_def)
  have x: "extract_peer_id leb128 ?a = Some (Inr None)"
    by (simp add: extract_first [OF v]) (simp add: sample_domain_def peer_of_def)
  have f: "find_pair leb128 starts_dns dns_port (ma_bytes ?a) = Some (Inr (Some ([97, 98], 443)))"
    by (simp add: find_pair_first [OF v]) (simp add: sample_domain_def starts_dns_def dns_port_def)
  obtain r where r: "dns_new leb128 ?a = Some (Inr (Some r))" "dr_source_address r = ?a" "dr_ty r = TWss" "dr_peer_id r = None"
      "dr_join_handle r = None"
    by (simp add: dns_new_def t x f)
  obtain res r' where p: "dns_poll leb128 (\<lambda>_ _. [Ready (Inr (Inr [?s]))]) r = Some (Inr (res, r'))"
    using r by (simp add: dns_poll_def new_addr_def Let_def)
  from resolved_address_matches_source [OF leb128_ok v r(1) p] obtain b t where "res = Ready (Inr b)"
    "multiaddr_to_socketaddr leb128 b = Some (Inr (Some ?s))" "find_type leb128 ?a = Some (Inr t)"
    "find_type leb128 b = Some (Inr (if t \<in> {TMemory, TOnion} then TTcp else t))" by blast
  with t r(1) p show ?thesis by auto
qed

end
