(* ===== verification/Quic_Identity.thy ===== *)
theory Quic_Identity
  imports Wire_Codec Peer_Address Secio_Keys
begin

text \<open>
  The identity of a peer in a QUIC connection (\<^verbatim>\<open>tentacle/src/quic/identity.rs\<close> and \<^verbatim>\<open>verifier.rs\<close>, with the generated
  \<^verbatim>\<open>identity_mol.rs\<close>): a self-signed certificate whose extension binds the TLS key to the secio key, and the check of the
  certificate of a peer.

  Parameters are what the crates for certificates and hashes do, the record \<open>quic_env\<close>; the generated TLS key is an argument. Errors
  are kept without their message, and \<open>None\<close> is a panic.
\<close>

section \<open>Parameters\<close>

record cert_params =
  cp_names :: "bytes list"
  cp_common_name :: bytes
  cp_custom_extensions :: "(u64 list \<times> bytes) list"

text \<open>The identifier of an extension cannot always be read as a sequence of numbers.\<close>

record x509 =
  x5_not_before :: int
  x5_not_after :: int
  x5_extensions :: "(u64 list option \<times> bytes) list"
  x5_public_key :: bytes

record quic_env =
  q_mol :: molecule
  q_varint :: varint
  q_sha256 :: "bytes \<Rightarrow> bytes"
  q_public_key_der :: "bytes \<Rightarrow> bytes"
  q_serialize_der :: "bytes \<Rightarrow> bytes"
  q_params_new :: "bytes list \<Rightarrow> unit + cert_params"
  q_self_signed :: "bytes \<Rightarrow> cert_params \<Rightarrow> unit + bytes"
  q_parse :: "bytes \<Rightarrow> x509 option"

definition TENTACLE_QUIC_IDENT_OID :: "u64 list" where
  "TENTACLE_QUIC_IDENT_OID = [1, 3, 6, 1, 4, 1, 99999, 1, 1]"

definition BINDING_DOMAIN :: bytes where
  "BINDING_DOMAIN = ascii ''tentacle-quic-binding/v1''"

definition IDENTITY_VERSION :: u8 where "IDENTITY_VERSION = 1"

definition cert_name :: bytes where "cert_name = ascii ''tentacle.invalid''"

text \<open>
  What the crates document: the name is accepted; a certificate that was made is parsed, and has the extensions asked for, the key,
  and the default validity from 1975 to 4096.
\<close>

definition quic_ok :: "quic_env \<Rightarrow> bool" where
  "quic_ok q \<longleftrightarrow> mol_ok (q_mol q) \<and> varint_ok (q_varint q) \<and> (\<forall>b. length (q_sha256 q b) = 32) \<and>
     (\<exists>p. q_params_new q [cert_name] = Inr p \<and> cp_custom_extensions p = []) \<and>
     (\<forall>k p. \<exists>der c. q_self_signed q k p = Inr der \<and> q_parse q der = Some c \<and>
        filter (\<lambda>e. fst e = Some TENTACLE_QUIC_IDENT_OID) (x5_extensions c) =
          map (\<lambda>(oid, v). (Some oid, v)) (filter (\<lambda>e. fst e = TENTACLE_QUIC_IDENT_OID) (cp_custom_extensions p)) \<and>
        x5_public_key c = q_public_key_der q k \<and> x5_not_before c = 157766400 \<and> x5_not_after c = 67090118400)"

section \<open>The extension\<close>

definition identity_verify :: "molecule \<Rightarrow> verifier" where
  "identity_verify mo = table_verify mo [array_verify 1, fixvec_verify mo, fixvec_verify mo]"

definition identity_write :: "molecule \<Rightarrow> bytes \<Rightarrow> bytes \<Rightarrow> bytes \<Rightarrow> bytes" where
  "identity_write mo version secio_pubkey binding_sig = table_write mo [version, secio_pubkey, binding_sig]"

fun nth0 :: "bytes \<Rightarrow> u8 option" where
  "nth0 [] = None"
| "nth0 (b # _) = Some b"

definition identity_version :: "molecule \<Rightarrow> bytes \<Rightarrow> u8 option" where
  "identity_version mo = read_field mo 3 0 nth0"

definition identity_secio_pubkey :: "molecule \<Rightarrow> bytes \<Rightarrow> bytes option" where
  "identity_secio_pubkey mo = read_field mo 3 1 fixvec_raw_data"

definition identity_binding_sig :: "molecule \<Rightarrow> bytes \<Rightarrow> bytes option" where
  "identity_binding_sig mo = read_field mo 3 2 fixvec_raw_data"

definition encode_identity_payload :: "molecule \<Rightarrow> bytes \<Rightarrow> bytes \<Rightarrow> bytes" where
  "encode_identity_payload mo secio_pubkey binding_sig =
     identity_write mo [IDENTITY_VERSION] (fixvec_write mo secio_pubkey) (fixvec_write mo binding_sig)"

section \<open>Building and reading a certificate\<close>

datatype quic_error =
  CertificateError
  | SigningError
  | ExtensionNotFound
  | IdentityVersionUnsupported u8
  | MultipleIdentityFound

record quic_cert =
  qc_cert_der :: bytes
  qc_key_der :: bytes

definition binding_digest :: "quic_env \<Rightarrow> bytes \<Rightarrow> bytes" where
  "binding_digest q spki_der = q_sha256 q (BINDING_DOMAIN @ spki_der)"

definition build_self_signed :: "quic_env \<Rightarrow> key_provider \<Rightarrow> unit + bytes \<Rightarrow> quic_error + quic_cert" where
  "build_self_signed q key generated =
     (case generated of
        Inl _ \<Rightarrow> Inl CertificateError
      | Inr tls_keypair \<Rightarrow>
          (case kp_sign_ecdsa key (binding_digest q (q_public_key_der q tls_keypair)) of
             Inl _ \<Rightarrow> Inl SigningError
           | Inr binding_sig \<Rightarrow>
               let ext = (TENTACLE_QUIC_IDENT_OID, encode_identity_payload (q_mol q) (kp_pubkey key) binding_sig) in
               (case q_params_new q [cert_name] of
                  Inl _ \<Rightarrow> Inl CertificateError
                | Inr params \<Rightarrow>
                    let params = params\<lparr>cp_common_name := cert_name,
                      cp_custom_extensions := cp_custom_extensions params @ [ext]\<rparr> in
                    (case q_self_signed q tls_keypair params of
                       Inl _ \<Rightarrow> Inl CertificateError
                     | Inr cert \<Rightarrow> Inr \<lparr>qc_cert_der = cert, qc_key_der = q_serialize_der q tls_keypair\<rparr>))))"

text \<open>The loop over the extensions.\<close>

fun find_identity :: "molecule \<Rightarrow> (u64 list option \<times> bytes) list \<Rightarrow> bytes option \<Rightarrow> (quic_error + bytes option) option" where
  "find_identity mo [] identity = Some (Inr identity)"
| "find_identity mo ((oid, v) # exts) identity =
     (if oid = Some TENTACLE_QUIC_IDENT_OID then
        if identity \<noteq> None then Some (Inl MultipleIdentityFound)
        else (case identity_verify mo v True of
                None \<Rightarrow> None
              | Some (Inl _) \<Rightarrow> Some (Inl CertificateError)
              | Some (Inr _) \<Rightarrow> find_identity mo exts (Some v))
      else find_identity mo exts identity)"

definition extract_identity :: "quic_env \<Rightarrow> bytes \<Rightarrow> (quic_error + bytes) option" where
  "extract_identity q leaf_der =
     (case q_parse q leaf_der of
        None \<Rightarrow> Some (Inl CertificateError)
      | Some parsed_cert \<Rightarrow>
          (case find_identity (q_mol q) (x5_extensions parsed_cert) None of
             None \<Rightarrow> None
           | Some (Inl e) \<Rightarrow> Some (Inl e)
           | Some (Inr None) \<Rightarrow> Some (Inl ExtensionNotFound)
           | Some (Inr (Some identity)) \<Rightarrow>
               map_option
                 (\<lambda>version. if version \<noteq> IDENTITY_VERSION then Inl (IdentityVersionUnsupported version) else Inr identity)
                 (identity_version (q_mol q) identity)))"

definition verify_binding :: "quic_env \<Rightarrow> key_provider \<Rightarrow> bytes \<Rightarrow> bytes \<Rightarrow> bytes \<Rightarrow> quic_error + unit" where
  "verify_binding q local_key secio_pubkey leaf_spki_der sig =
     (if kp_verify_ecdsa local_key secio_pubkey (binding_digest q leaf_spki_der) sig then Inr () else Inl SigningError)"

section \<open>The check of a certificate\<close>

datatype cert_error =
  NotExactlyOneLeaf
  | UnparsedLeaf
  | OutsideValidity
  | IdentityExtension quic_error
  | BindingInvalid quic_error
  | UnexpectedPeerId

definition verify_tentacle_cert ::
  "quic_env \<Rightarrow> key_provider \<Rightarrow> bytes \<Rightarrow> bytes list \<Rightarrow> u64 \<Rightarrow> peer_id option \<Rightarrow> (cert_error + unit) option" where
  "verify_tentacle_cert q local_key leaf_der intermediates now expected_peer_id =
     (if intermediates \<noteq> [] then Some (Inl NotExactlyOneLeaf)
      else (case q_parse q leaf_der of
        None \<Rightarrow> Some (Inl UnparsedLeaf)
      | Some leaf \<Rightarrow>
          let now_secs = sint now in
          if now_secs < x5_not_before leaf \<or> now_secs > x5_not_after leaf then Some (Inl OutsideValidity)
          else (case extract_identity q leaf_der of
            None \<Rightarrow> None
          | Some (Inl e) \<Rightarrow> Some (Inl (IdentityExtension e))
          | Some (Inr identity) \<Rightarrow>
              Option.bind (identity_secio_pubkey (q_mol q) identity) (\<lambda>secio_pubkey.
              Option.bind (from_public_key (q_varint q) (q_sha256 q) secio_pubkey) (\<lambda>derived_peer_id.
              Option.bind (identity_binding_sig (q_mol q) identity) (\<lambda>binding_sig.
                (case verify_binding q local_key secio_pubkey (x5_public_key leaf) binding_sig of
                   Inl e \<Rightarrow> Some (Inl (BindingInvalid e))
                 | Inr _ \<Rightarrow>
                     (case expected_peer_id of
                        Some expected \<Rightarrow> Some (if expected \<noteq> derived_peer_id then Inl UnexpectedPeerId else Inr ())
                      | None \<Rightarrow> Some (Inr ())))))))))"

record quic_verifier =
  qv_expected_peer_id :: "peer_id option"
  qv_local_key :: key_provider

definition verify_server_cert :: "quic_env \<Rightarrow> quic_verifier \<Rightarrow> bytes \<Rightarrow> bytes list \<Rightarrow> u64 \<Rightarrow> (cert_error + unit) option" where
  "verify_server_cert q v end_entity intermediates now =
     verify_tentacle_cert q (qv_local_key v) end_entity intermediates now (qv_expected_peer_id v)"

definition verify_client_cert :: "quic_env \<Rightarrow> key_provider \<Rightarrow> bytes \<Rightarrow> bytes list \<Rightarrow> u64 \<Rightarrow> (cert_error + unit) option" where
  "verify_client_cert q local_key end_entity intermediates now =
     verify_tentacle_cert q local_key end_entity intermediates now None"

section \<open>The extension is read\<close>

lemma identity_reads:
  assumes mo: "mol_ok mo" and "passes (identity_verify mo) c v"
  shows "\<exists>ver pk sig. identity_version mo v = Some ver \<and> identity_secio_pubkey mo v = Some pk \<and> identity_binding_sig mo v = Some sig"
proof -
  let ?fs = "[array_verify 1, fixvec_verify mo, fixvec_verify mo]"
  from assms(2) have p: "passes (table_verify mo ?fs) c v" by (simp add: identity_verify_def)
  have t: "\<exists>x. table_field mo 3 i v = Some x \<and> passes (?fs ! i) c x" if "i < 3" for i
    using table_verify_passes [OF mo p, of i] that by (simp add: numeral_3_eq_3)
  from t [of 0] obtain x where x: "table_field mo 3 0 v = Some x" "length x = 1" by (auto simp: array_written)
  from t [of 1] t [of 2] fixvec_passes obtain y z a b where
    "table_field mo 3 1 v = Some y" "fixvec_raw_data y = Some a" "table_field mo 3 2 v = Some z" "fixvec_raw_data z = Some b"
    by (fastforce simp: numeral_2_eq_2)
  moreover from x(2) obtain w where "nth0 x = Some w" by (cases x) auto
  ultimately show ?thesis
    using x(1) by (simp add: identity_version_def identity_secio_pubkey_def identity_binding_sig_def read_field_def)
qed

lemma identity_no_panic: "mol_ok mo \<Longrightarrow> no_panic (identity_verify mo)"
  unfolding identity_verify_def by (rule table_no_panic) (auto intro: array_no_panic fixvec_no_panic)

lemma identity_written:
  assumes mo: "mol_ok mo" and small: "length (encode_identity_payload mo pk sig) < 2 ^ 32"
  shows "passes (identity_verify mo) c (encode_identity_payload mo pk sig)"
    and "identity_version mo (encode_identity_payload mo pk sig) = Some IDENTITY_VERSION"
    and "identity_secio_pubkey mo (encode_identity_payload mo pk sig) = Some pk"
    and "identity_binding_sig mo (encode_identity_payload mo pk sig) = Some sig"
proof -
  let ?fs = "[array_verify 1, fixvec_verify mo, fixvec_verify mo]" and ?bs = "[[IDENTITY_VERSION], fixvec_write mo pk, fixvec_write mo sig]"
  have e: "encode_identity_payload mo pk sig = table_write mo ?bs" by (simp add: encode_identity_payload_def identity_write_def)
  have small: "length (table_write mo ?bs) < 2 ^ 32" using small e by simp
  have "length (fixvec_write mo pk) < 2 ^ 32" "length (fixvec_write mo sig) < 2 ^ 32"
    using table_part_size [OF mo, of _ ?bs] small by fastforce+
  then have b: "length pk < 2 ^ 32" "length sig < 2 ^ 32"
    using bytes_part_size [of pk mo] bytes_part_size [of sig mo] by linarith+
  have all: "passes (?fs ! i) c (?bs ! i)" if "i < length ?fs" for i c
    using that b fixvec_written(1) [OF mo] by (auto simp: less_Suc_eq array_written)
  note r = table_reads [OF mo _ _ small all]
  show "passes (identity_verify mo) c (encode_identity_payload mo pk sig)" unfolding e identity_verify_def by (rule r(1)) simp_all
  show "identity_version mo (encode_identity_payload mo pk sig) = Some IDENTITY_VERSION"
    using r(3) [of 0 nth0] by (simp add: e identity_version_def numeral_3_eq_3)
  show "identity_secio_pubkey mo (encode_identity_payload mo pk sig) = Some pk"
    using r(3) [of 1 fixvec_raw_data] fixvec_written(2) [OF mo b(1)] by (simp add: e identity_secio_pubkey_def numeral_3_eq_3)
  show "identity_binding_sig mo (encode_identity_payload mo pk sig) = Some sig"
    using r(3) [of 2 fixvec_raw_data] fixvec_written(2) [OF mo b(2)] by (simp add: e identity_binding_sig_def numeral_3_eq_3)
qed

abbreviation is_ident :: "u64 list option \<times> bytes \<Rightarrow> bool" where
  "is_ident e \<equiv> fst e = Some TENTACLE_QUIC_IDENT_OID"

lemma find_identity_found:
  "find_identity mo exts (Some v) = Some (if filter is_ident exts = [] then Inr (Some v) else Inl MultipleIdentityFound)"
  by (induction exts) auto

lemma find_identity_one:
  assumes "mol_ok mo"
  shows "find_identity mo exts None = Some (Inr (Some v)) \<longleftrightarrow>
      map snd (filter is_ident exts) = [v] \<and> passes (identity_verify mo) True v"
    and "find_identity mo exts None \<noteq> None"
proof (atomize (full), induction exts)
  case (Cons e exts)
  obtain oid w where e: "e = (oid, w)" by (cases e)
  from identity_no_panic [OF assms] obtain x where x: "identity_verify mo w True = Some x" unfolding no_panic_def by fast
  then have "passes (identity_verify mo) True w \<longleftrightarrow> \<not> isl x" by (cases x) (simp_all add: passes_def)
  with Cons x e show ?case by (cases x) (auto simp: find_identity_found)
qed simp

section \<open>What is accepted\<close>

text \<open>The list of conditions at the head of \<^verbatim>\<open>verifier.rs\<close>.\<close>

definition cert_acceptable :: "quic_env \<Rightarrow> key_provider \<Rightarrow> bytes \<Rightarrow> bytes list \<Rightarrow> u64 \<Rightarrow> peer_id option \<Rightarrow> bool" where
  "cert_acceptable q local_key leaf intermediates now expected \<longleftrightarrow>
     intermediates = [] \<and>
     (\<exists>c v pk sig.
        q_parse q leaf = Some c \<and> x5_not_before c \<le> sint now \<and> sint now \<le> x5_not_after c \<and>
        map snd (filter is_ident (x5_extensions c)) = [v] \<and>
        passes (identity_verify (q_mol q)) True v \<and> identity_version (q_mol q) v = Some 1 \<and>
        identity_secio_pubkey (q_mol q) v = Some pk \<and> identity_binding_sig (q_mol q) v = Some sig \<and>
        kp_verify_ecdsa local_key pk (q_sha256 q (BINDING_DOMAIN @ x5_public_key c)) sig \<and>
        (\<forall>p. expected = Some p \<longrightarrow> from_public_key (q_varint q) (q_sha256 q) pk = Some p))"

lemma extract_identity_one:
  assumes mo: "mol_ok (q_mol q)" and c: "q_parse q leaf = Some c"
  shows "extract_identity q leaf = Some (Inr v) \<longleftrightarrow>
      map snd (filter is_ident (x5_extensions c)) = [v] \<and> passes (identity_verify (q_mol q)) True v \<and>
      identity_version (q_mol q) v = Some 1"
    and "extract_identity q leaf \<noteq> None"
proof -
  let ?f = "find_identity (q_mol q) (x5_extensions c) None"
  note one = find_identity_one [OF mo, of "x5_extensions c"]
  from one(2) obtain r where r: "?f = Some r" by blast
  have version: "\<exists>ver. identity_version (q_mol q) w = Some ver" if "r = Inr (Some w)" for w
    using one(1) [of w] r that identity_reads [OF mo] by blast
  show "extract_identity q leaf \<noteq> None"
    using version by (auto simp: extract_identity_def c r split: sum.splits option.splits)
  show "extract_identity q leaf = Some (Inr v) \<longleftrightarrow>
      map snd (filter is_ident (x5_extensions c)) = [v] \<and> passes (identity_verify (q_mol q)) True v \<and>
      identity_version (q_mol q) v = Some 1"
  proof (cases "r = Inr (Some v)")
    case True
    with one(1) [of v] r show ?thesis by (auto simp: extract_identity_def c IDENTITY_VERSION_def)
  next
    case False
    with one(1) [of v] r show ?thesis by (auto simp: extract_identity_def c split: sum.splits option.splits)
  qed
qed

lemma verify_accepts:
  assumes "mol_ok (q_mol q)" and "varint_ok (q_varint q)" and sha: "\<And>b. length (q_sha256 q b) = 32"
  shows "verify_tentacle_cert q k leaf ints now expected = Some (Inr ()) \<longleftrightarrow> cert_acceptable q k leaf ints now expected"
    and "verify_tentacle_cert q k leaf ints now expected \<noteq> None"
proof -
  have peer: "\<exists>p. from_public_key (q_varint q) (q_sha256 q) b = Some p" for b
    using wf_from_seed [OF assms(2), of "q_sha256 q" b] sha by (auto simp: from_public_key_def)
  have "(verify_tentacle_cert q k leaf ints now expected = Some (Inr ()) \<longleftrightarrow> cert_acceptable q k leaf ints now expected) \<and>
    verify_tentacle_cert q k leaf ints now expected \<noteq> None"
  proof (cases "q_parse q leaf")
    case None
    then show ?thesis by (simp add: verify_tentacle_cert_def cert_acceptable_def)
  next
    case (Some c)
    note one = extract_identity_one [OF assms(1) Some]
    from one(2) obtain r where r: "extract_identity q leaf = Some r" by blast
    show ?thesis
    proof (cases r)
      case (Inl e)
      with one(1) r Some show ?thesis by (auto simp: verify_tentacle_cert_def cert_acceptable_def Let_def)
    next
      case (Inr v)
      with one(1) [of v] r have v: "map snd (filter is_ident (x5_extensions c)) = [v]" "passes (identity_verify (q_mol q)) True v"
        "identity_version (q_mol q) v = Some 1" by simp_all
      from identity_reads [OF assms(1) v(2)] obtain pk sig where
        "identity_secio_pubkey (q_mol q) v = Some pk" "identity_binding_sig (q_mol q) v = Some sig" by blast
      moreover from peer [of pk] obtain p where "from_public_key (q_varint q) (q_sha256 q) pk = Some p" by blast
      ultimately show ?thesis
        using r Inr Some v
        by (auto simp: verify_tentacle_cert_def cert_acceptable_def verify_binding_def binding_digest_def Let_def
            split: option.split)
    qed
  qed
  then show "verify_tentacle_cert q k leaf ints now expected = Some (Inr ()) \<longleftrightarrow> cert_acceptable q k leaf ints now expected"
    and "verify_tentacle_cert q k leaf ints now expected \<noteq> None" by blast+
qed

lemma cert_made:
  "quic_ok q \<Longrightarrow> \<exists>der c. q_self_signed q k p = Inr der \<and> q_parse q der = Some c \<and>
     filter is_ident (x5_extensions c) =
       map (\<lambda>(oid, v). (Some oid, v)) (filter (\<lambda>e. fst e = TENTACLE_QUIC_IDENT_OID) (cp_custom_extensions p)) \<and>
     x5_public_key c = q_public_key_der q k \<and> x5_not_before c = 157766400 \<and> x5_not_after c = 67090118400"
  unfolding quic_ok_def by blast

section \<open>Properties\<close>

text \<open>C23. The certificate of a QUIC peer is accepted if and only if the documented conditions hold: one certificate, valid now, with
  exactly one identity extension that decodes to version 1, whose key signed the TLS key of the certificate, and whose peer is the
  expected one if there is one. No certificate makes the check panic.\<close>

theorem quic_cert_accepted_iff:
  assumes "quic_ok q"
  shows "(verify_server_cert q v leaf ints now = Some (Inr ()) \<longleftrightarrow>
      cert_acceptable q (qv_local_key v) leaf ints now (qv_expected_peer_id v)) \<and>
    (verify_client_cert q k leaf ints now = Some (Inr ()) \<longleftrightarrow> cert_acceptable q k leaf ints now None) \<and>
    verify_server_cert q v leaf ints now \<noteq> None \<and> verify_client_cert q k leaf ints now \<noteq> None"
proof -
  have "mol_ok (q_mol q)" "varint_ok (q_varint q)" "\<And>b. length (q_sha256 q b) = 32" using assms by (simp_all add: quic_ok_def)
  from verify_accepts [OF this] show ?thesis by (simp add: verify_server_cert_def verify_client_cert_def)
qed

text \<open>An instance of the parameters: a certificate is the sequence of its key and its identity extensions.\<close>

fun toy_join :: "bytes list \<Rightarrow> bytes" where
  "toy_join [] = []"
| "toy_join (b # bs) = concat (map (\<lambda>x. [1, x]) b) @ 0 # toy_join bs"

fun toy_split :: "bytes \<Rightarrow> bytes \<Rightarrow> bytes list" where
  "toy_split acc (m # x # r) = (if m = 0 then acc # toy_split [] (x # r) else toy_split (acc @ [x]) r)"
| "toy_split acc [m] = (if m = 0 then [acc] else [])"
| "toy_split acc [] = []"

lemma toy_split_zero: "toy_split acc (0 # r) = acc # toy_split [] r"
  by (cases r) simp_all

lemma toy_split_join: "toy_split acc (toy_join (b # bs)) = (acc @ b) # bs"
proof (induction bs arbitrary: acc b)
  case Nil
  show ?case by (induction b arbitrary: acc) simp_all
next
  case (Cons c cs)
  show ?case using Cons [of "[]" c] by (induction b arbitrary: acc) (simp_all add: toy_split_zero)
qed

definition toy_quic :: quic_env where
  "toy_quic =
     \<lparr>q_mol = le_numbers, q_varint = leb128, q_sha256 = (\<lambda>_. replicate 32 7), q_public_key_der = id, q_serialize_der = id,
      q_params_new = (\<lambda>ns. Inr \<lparr>cp_names = ns, cp_common_name = [], cp_custom_extensions = []\<rparr>),
      q_self_signed = (\<lambda>k p. Inr (toy_join (k # map snd (filter (\<lambda>e. fst e = TENTACLE_QUIC_IDENT_OID) (cp_custom_extensions p))))),
      q_parse = (\<lambda>der. case toy_split [] der of [] \<Rightarrow> None | k # vs \<Rightarrow>
        Some \<lparr>x5_not_before = 157766400, x5_not_after = 67090118400,
          x5_extensions = map (\<lambda>v. (Some TENTACLE_QUIC_IDENT_OID, v)) vs, x5_public_key = k\<rparr>)\<rparr>"

lemma toy_quic_ok: "quic_ok toy_quic"
proof -
  have "map (\<lambda>(oid, v). (Some oid, v)) (filter (\<lambda>e. fst e = t) es) = map (\<lambda>v. (Some t, v)) (map snd (filter (\<lambda>e. fst e = t) es))"
    for t :: "u64 list" and es :: "(u64 list \<times> bytes) list"
    by (induction es) auto
  then show ?thesis
    unfolding quic_ok_def toy_quic_def quic_env.select_convs
    by (simp del: toy_join.simps add: toy_split_join le_numbers_ok leb128_ok comp_def filter_map)
qed

definition toy_provider :: key_provider where
  "toy_provider = \<lparr>kp_sign_ecdsa = (\<lambda>m. Inr (take 32 m)), kp_pubkey = [5, 6], kp_verify_ecdsa = (\<lambda>pk m s. s = take 32 m)\<rparr>"

theorem quic_cert_accepted_iff_witness:
  "verify_client_cert toy_quic toy_provider (toy_join [[9]]) [] 1700000000 \<noteq> Some (Inr ()) \<and>
   verify_client_cert toy_quic toy_provider (toy_join [[9]]) [] 1700000000 \<noteq> None"
proof -
  have "\<not> cert_acceptable toy_quic toy_provider (toy_join [[9]]) [] 1700000000 None"
    by (simp add: cert_acceptable_def toy_quic_def)
  with quic_cert_accepted_iff [OF toy_quic_ok] show ?thesis by blast
qed

text \<open>C24. Two peers accept each other. The certificate that a key provider builds is accepted by every verifier whose provider
  accepts the signatures of the first, from 1975 to 4096, if it expects no particular peer or the one with this key; and it is refused
  if another peer is expected.\<close>

theorem own_quic_cert_accepted:
  assumes "quic_ok q" and "accepts kb ka" and "157766400 \<le> sint now" and "sint now \<le> 67090118400"
    and "\<And>m s. kp_sign_ecdsa ka m = Inr s \<Longrightarrow> length (encode_identity_payload (q_mol q) (kp_pubkey ka) s) < 2 ^ 32"
  shows "\<exists>cert p. build_self_signed q ka (Inr tls) = Inr cert \<and> from_public_key (q_varint q) (q_sha256 q) (kp_pubkey ka) = Some p \<and>
    verify_client_cert q kb (qc_cert_der cert) [] now = Some (Inr ()) \<and>
    (\<forall>e. verify_server_cert q \<lparr>qv_expected_peer_id = e, qv_local_key = kb\<rparr> (qc_cert_der cert) [] now = Some (Inr ()) \<longleftrightarrow>
      e = None \<or> e = Some p)"
proof -
  let ?mo = "q_mol q" and ?d = "binding_digest q (q_public_key_der q tls)"
  have ok: "mol_ok ?mo" "varint_ok (q_varint q)" "\<And>b. length (q_sha256 q b) = 32" using assms(1) by (simp_all add: quic_ok_def)
  from assms(2) ok(3) obtain s where s: "kp_sign_ecdsa ka ?d = Inr s" "kp_verify_ecdsa kb (kp_pubkey ka) ?d s"
    by (auto simp: accepts_def binding_digest_def)
  let ?pl = "encode_identity_payload ?mo (kp_pubkey ka) s"
  from assms(1) obtain ps where ps: "q_params_new q [cert_name] = Inr ps" "cp_custom_extensions ps = []" by (auto simp: quic_ok_def)
  let ?ps = "ps\<lparr>cp_common_name := cert_name, cp_custom_extensions := [(TENTACLE_QUIC_IDENT_OID, ?pl)]\<rparr>"
  from cert_made [OF assms(1), of tls ?ps] obtain der c where c: "q_self_signed q tls ?ps = Inr der" "q_parse q der = Some c"
    "filter is_ident (x5_extensions c) = [(Some TENTACLE_QUIC_IDENT_OID, ?pl)]" "x5_public_key c = q_public_key_der q tls"
    "x5_not_before c = 157766400" "x5_not_after c = 67090118400"
    by auto
  have b: "build_self_signed q ka (Inr tls) = Inr \<lparr>qc_cert_der = der, qc_key_der = q_serialize_der q tls\<rparr>"
    using s ps c(1) by (simp add: build_self_signed_def)
  from wf_from_seed [OF ok(2), of "q_sha256 q" "kp_pubkey ka"] ok(3) obtain p where
    p: "from_public_key (q_varint q) (q_sha256 q) (kp_pubkey ka) = Some p" by (auto simp: from_public_key_def)
  note w = identity_written [OF ok(1) assms(5) [OF s(1)]]
  have "cert_acceptable q kb der [] now e \<longleftrightarrow> e = None \<or> e = Some p" for e
    using c(2-) w s(2) p assms(3,4) by (cases e) (auto simp: cert_acceptable_def binding_digest_def IDENTITY_VERSION_def)
  with verify_accepts(1) [OF ok] have "verify_client_cert q kb der [] now = Some (Inr ())"
    "verify_server_cert q \<lparr>qv_expected_peer_id = e, qv_local_key = kb\<rparr> der [] now = Some (Inr ()) \<longleftrightarrow> e = None \<or> e = Some p" for e
    by (simp_all add: verify_client_cert_def verify_server_cert_def)
  with b p show ?thesis by (intro exI [of _ "\<lparr>qc_cert_der = der, qc_key_der = q_serialize_der q tls\<rparr>"] exI [of _ p]) simp
qed

theorem own_quic_cert_accepted_witness:
  "\<exists>cert. build_self_signed toy_quic toy_provider (Inr [9]) = Inr cert \<and>
     verify_client_cert toy_quic toy_provider (qc_cert_der cert) [] 1700000000 = Some (Inr ())"
proof -
  have a: "accepts toy_provider toy_provider" by (simp add: accepts_def toy_provider_def)
  have l: "length (encode_identity_payload le_numbers (kp_pubkey toy_provider) s) = 27 + length s" for s
    by (simp add: encode_identity_payload_def identity_write_def table_write_length [OF le_numbers_ok] fixvec_write_def
        length_pack [OF le_numbers_ok] toy_provider_def)
  have t: "q_mol toy_quic = le_numbers" by (simp add: toy_quic_def)
  have n: "sint (1700000000 :: u64) = 1700000000" by (simp add: sint_numeral)
  have small: "length (encode_identity_payload (q_mol toy_quic) (kp_pubkey toy_provider) s) < 2 ^ 32"
    if "kp_sign_ecdsa toy_provider m = Inr s" for m s
    using that unfolding t l by (auto simp: toy_provider_def)
  have "157766400 \<le> sint (1700000000 :: u64)" "sint (1700000000 :: u64) \<le> 67090118400" by (simp_all add: n)
  from own_quic_cert_accepted [where tls = "[9]", OF toy_quic_ok a this] small show ?thesis by blast
qed

end
