(* ===== verification/Proxy_Protocol.thy ===== *)
theory Proxy_Protocol
  imports Peer_Address Secio_Stream
begin

text \<open>
  The header of a proxy in front of a listener (\<^verbatim>\<open>tentacle/src/transports/proxy_protocol.rs\<close>), in its textual version 1 and its
  binary version 2.

  A TCP stream is what is still to be read from it and how it ends, with two scripts of answers: how many bytes have arrived at each
  peek, and whether the time is up at each look at the clock. Errors are kept without their message.
\<close>

section \<open>Streams\<close>

record tcp_stream =
  ts_data :: bytes
  ts_end :: "io_kind option"
  ts_peeks :: "(io_kind + nat) list"
  ts_clock :: "bool list"

definition ts_peek :: "nat \<Rightarrow> tcp_stream \<Rightarrow> ((io_kind + bytes) \<times> tcp_stream) run" where
  "ts_peek room s =
     (case ts_peeks s of
        [] \<Rightarrow> Waits
      | Inl e # r \<Rightarrow> Finished (Inl e, s\<lparr>ts_peeks := r\<rparr>)
      | Inr n # r \<Rightarrow> Finished (Inr (take (min room n) (ts_data s)), s\<lparr>ts_peeks := r\<rparr>))"

text \<open>A read that fails has used up what there was.\<close>

definition ts_read_exact :: "nat \<Rightarrow> tcp_stream \<Rightarrow> (io_kind + bytes) \<times> tcp_stream" where
  "ts_read_exact k s =
     (if k \<le> length (ts_data s) then (Inr (take k (ts_data s)), s\<lparr>ts_data := drop k (ts_data s)\<rparr>)
      else (Inl (case ts_end s of None \<Rightarrow> IoUnexpectedEof | Some e \<Rightarrow> e), s\<lparr>ts_data := []\<rparr>))"

definition ts_time_up :: "tcp_stream \<Rightarrow> bool \<times> tcp_stream" where
  "ts_time_up s = (case ts_clock s of [] \<Rightarrow> (False, s) | b # r \<Rightarrow> (b, s\<lparr>ts_clock := r\<rparr>))"

section \<open>The header\<close>

definition PROXY_V2_SIGNATURE :: bytes where
  "PROXY_V2_SIGNATURE = [0x0D, 0x0A, 0x0D, 0x0A, 0x00, 0x0D, 0x0A, 0x51, 0x55, 0x49, 0x54, 0x0A]"

definition PROXY_V1_MAX_LENGTH :: nat where "PROXY_V1_MAX_LENGTH = 108"

definition PROXY_V2_HEADER_SIZE :: nat where "PROXY_V2_HEADER_SIZE = 16"

definition PROXY_V2_MAX_ADDR_LEN :: nat where "PROXY_V2_MAX_ADDR_LEN = 512"

datatype proxy_error =
  FailedToPeek | InvalidV1Header | V1TooShort | V1ExpectedSixParts | InvalidSourceIp | InvalidSourcePort | UnsupportedV1Protocol
  | V1TooLong | ClosedInHeader | FailedToRead | InvalidUtf8 | AddressTooLong | InvalidV2Signature | UnsupportedVersion
  | UnsupportedCommand | Ip4TooShort | Ip6TooShort

datatype proxy_result = Success socket_addr | NotProxyProtocol | ProxyError proxy_error

definition trim_end :: "u8 \<Rightarrow> bytes \<Rightarrow> bytes" where
  "trim_end c s = rev (dropWhile (\<lambda>b. b = c) (rev s))"

text \<open>\<^verbatim>\<open>str::parse\<close> to an IP address tries the older form first.\<close>

definition parse_ip :: "text_env \<Rightarrow> bytes \<Rightarrow> ip_addr option" where
  "parse_ip tx s = (case parse_ip4 s of Some a \<Rightarrow> Some (V4 a) | None \<Rightarrow> map_option V6 (parse_ip6 tx s))"

definition parse_proxy_v1_line :: "text_env \<Rightarrow> bytes \<Rightarrow> proxy_result" where
  "parse_proxy_v1_line tx line =
     (let parts = split_on 0x20 (trim_end 0x0D (trim_end 0x0A line)) in
      if parts = [] \<or> parts ! 0 \<noteq> ascii ''PROXY'' then ProxyError InvalidV1Header
      else if length parts < 2 then ProxyError V1TooShort
      else if parts ! 1 = ascii ''UNKNOWN'' then NotProxyProtocol
      else if parts ! 1 = ascii ''TCP4'' \<or> parts ! 1 = ascii ''TCP6'' then
        if length parts \<noteq> 6 then ProxyError V1ExpectedSixParts
        else (case parse_ip tx (parts ! 2) of
                None \<Rightarrow> ProxyError InvalidSourceIp
              | Some src_ip \<Rightarrow>
                  (case parse_u16 (parts ! 4) of
                     None \<Rightarrow> ProxyError InvalidSourcePort
                   | Some src_port \<Rightarrow> Success \<lparr>sa_ip = src_ip, sa_port = src_port\<rparr>))
      else ProxyError UnsupportedV1Protocol)"

text \<open>The bytes read so far are the filled part of the buffer.\<close>

definition ends_line :: "bytes \<Rightarrow> bool" where
  "ends_line buf \<longleftrightarrow> 2 \<le> length buf \<and> buf ! (length buf - 2) = 0x0D \<and> buf ! (length buf - 1) = 0x0A"

function read_v1_line :: "bytes \<Rightarrow> tcp_stream \<Rightarrow> (proxy_error + bytes) \<times> tcp_stream" where
  "read_v1_line buf s =
     (if length buf \<ge> PROXY_V1_MAX_LENGTH then (Inl V1TooLong, s)
      else (case ts_read_exact 1 s of
              (Inr b, s') \<Rightarrow> let buf = buf @ b in if ends_line buf then (Inr buf, s') else read_v1_line buf s'
            | (Inl IoUnexpectedEof, s') \<Rightarrow> (Inl ClosedInHeader, s')
            | (Inl e, s') \<Rightarrow> (Inl FailedToRead, s')))"
  by pat_completeness auto

termination
  by (relation "measure (\<lambda>(buf, s). PROXY_V1_MAX_LENGTH - length buf)")
    (auto simp: ts_read_exact_def PROXY_V1_MAX_LENGTH_def split: if_splits)

declare read_v1_line.simps [simp del]

definition parse_proxy_protocol_v1 :: "text_env \<Rightarrow> tcp_stream \<Rightarrow> proxy_result \<times> tcp_stream" where
  "parse_proxy_protocol_v1 tx s =
     (case read_v1_line [] s of
        (Inl e, s) \<Rightarrow> (ProxyError e, s)
      | (Inr line, s) \<Rightarrow> (if utf8_valid line then parse_proxy_v1_line tx line else ProxyError InvalidUtf8, s))"

definition parse_proxy_v2_address :: "u8 \<Rightarrow> bytes \<Rightarrow> proxy_result" where
  "parse_proxy_v2_address family addr_data =
     (if family = 0x00 then NotProxyProtocol
      else if family = 0x01 then
        if length addr_data < 12 then ProxyError Ip4TooShort
        else Success \<lparr>sa_ip = V4 (addr_data ! 0, addr_data ! 1, addr_data ! 2, addr_data ! 3), sa_port = be16 (addr_data ! 8) (addr_data ! 9)\<rparr>
      else if family = 0x02 then
        if length addr_data < 36 then ProxyError Ip6TooShort
        else Success \<lparr>sa_ip = V6 (get_ip6 (take 16 addr_data)), sa_port = be16 (addr_data ! 32) (addr_data ! 33)\<rparr>
      else if family = 0x03 then NotProxyProtocol
      else NotProxyProtocol)"

definition parse_proxy_v2_bytes :: "bytes \<Rightarrow> bytes \<Rightarrow> proxy_result" where
  "parse_proxy_v2_bytes header addr_data =
     (if take 12 header \<noteq> PROXY_V2_SIGNATURE then ProxyError InvalidV2Signature
      else let ver_cmd = header ! 12;
               version = drop_bit 4 (ver_cmd AND 0xF0);
               command = ver_cmd AND 0x0F
      in if version \<noteq> 2 then ProxyError UnsupportedVersion
         else let fam_proto = header ! 13; family = drop_bit 4 (fam_proto AND 0xF0) in
           if command = 0x00 then NotProxyProtocol
           else if command = 0x01 then parse_proxy_v2_address family addr_data
           else ProxyError UnsupportedCommand)"

definition parse_proxy_protocol_v2 :: "tcp_stream \<Rightarrow> proxy_result \<times> tcp_stream" where
  "parse_proxy_protocol_v2 s =
     (case ts_read_exact PROXY_V2_HEADER_SIZE s of
        (Inl _, s) \<Rightarrow> (ProxyError FailedToRead, s)
      | (Inr header, s) \<Rightarrow>
          let addr_len = unat (be16 (header ! 14) (header ! 15)) in
          if addr_len > PROXY_V2_MAX_ADDR_LEN then (ProxyError AddressTooLong, s)
          else if addr_len > 0 then
            (case ts_read_exact addr_len s of
               (Inl _, s) \<Rightarrow> (ProxyError FailedToRead, s)
             | (Inr addr_data, s) \<Rightarrow> (parse_proxy_v2_bytes header addr_data, s))
          else (parse_proxy_v2_bytes header [], s))"

text \<open>The bytes peeked fill the front of a buffer of zeros.\<close>

definition parse_proxy_protocol :: "text_env \<Rightarrow> tcp_stream \<Rightarrow> (proxy_result \<times> tcp_stream) run" where
  "parse_proxy_protocol tx s =
     (case ts_peek PROXY_V2_HEADER_SIZE s of
        Waits \<Rightarrow> Waits
      | Panics \<Rightarrow> Panics
      | Finished (Inl e, s) \<Rightarrow> Finished (ProxyError FailedToPeek, s)
      | Finished (Inr peeked, s) \<Rightarrow>
          let n = length peeked; peek_buf = peeked @ replicate (PROXY_V2_HEADER_SIZE - n) 0 in
          Finished
            (if n \<ge> 5 then
               if n \<ge> 13 \<and> take 12 peek_buf = PROXY_V2_SIGNATURE \<and> peek_buf ! 12 AND 0xF0 = 0x20 then parse_proxy_protocol_v2 s
               else if take 5 peek_buf = ascii ''PROXY'' then parse_proxy_protocol_v1 tx s
               else (NotProxyProtocol, s)
             else (NotProxyProtocol, s)))"

section \<open>Version 1\<close>

lemma trim_end_plain: "c \<notin> set x \<Longrightarrow> trim_end c x = x"
  by (cases x rule: rev_cases) (auto simp: trim_end_def)

lemma trim_end_snoc: "trim_end c (x @ [c]) = trim_end c x"
  by (simp add: trim_end_def)

lemma trim_end_other: "b \<noteq> c \<Longrightarrow> trim_end c (x @ [b]) = x @ [b]"
  by (simp add: trim_end_def)

lemma trim_line: "0x0D \<notin> set body \<Longrightarrow> trim_end 0x0D (trim_end 0x0A (body @ [0x0D, 0x0A])) = body"
proof -
  assume b: "0x0D \<notin> set body"
  have "trim_end 0x0A (body @ [0x0D, 0x0A]) = trim_end 0x0A ((body @ [0x0D]) @ [0x0A])" by simp
  also have "\<dots> = body @ [0x0D]" unfolding trim_end_snoc by (rule trim_end_other) simp
  finally show ?thesis using b by (simp add: trim_end_snoc trim_end_plain)
qed

lemma ends_line_snoc: "ends_line (buf @ [b]) \<longleftrightarrow> b = 0x0A \<and> buf \<noteq> [] \<and> last buf = 0x0D"
  by (cases buf rule: rev_cases) (auto simp: ends_line_def nth_append)

lemma ends_line_crlf: "ends_line (buf @ [0x0D, 0x0A])"
  using ends_line_snoc [of "buf @ [0x0D]" "0x0A"] by simp

lemma read_v1_line_step:
  "length buf < PROXY_V1_MAX_LENGTH \<Longrightarrow> ts_data s = b # r \<Longrightarrow>
     read_v1_line buf s =
       (if ends_line (buf @ [b]) then (Inr (buf @ [b]), s\<lparr>ts_data := r\<rparr>) else read_v1_line (buf @ [b]) (s\<lparr>ts_data := r\<rparr>))"
  by (subst read_v1_line.simps) (simp add: ts_read_exact_def)

lemma read_v1_line_reads:
  "ts_data s = body @ [0x0D, 0x0A] @ rest \<Longrightarrow> 0x0A \<notin> set body \<Longrightarrow> length buf + length body + 2 \<le> PROXY_V1_MAX_LENGTH \<Longrightarrow>
     read_v1_line buf s = (Inr (buf @ body @ [0x0D, 0x0A]), s\<lparr>ts_data := rest\<rparr>)"
proof (induction body arbitrary: buf s)
  case Nil
  then show ?case
    by (simp add: read_v1_line_step [of buf s] read_v1_line_step [of "buf @ [0x0D]"] ends_line_snoc ends_line_crlf)
next
  case (Cons b body)
  have "read_v1_line buf s = read_v1_line (buf @ [b]) (s\<lparr>ts_data := body @ [0x0D, 0x0A] @ rest\<rparr>)"
    using Cons.prems by (subst read_v1_line_step) (auto simp: ends_line_snoc)
  also have "\<dots> = (Inr ((buf @ [b]) @ body @ [0x0D, 0x0A]), s\<lparr>ts_data := body @ [0x0D, 0x0A] @ rest\<rparr>\<lparr>ts_data := rest\<rparr>)"
    by (rule Cons.IH) (use Cons.prems in auto)
  finally show ?case by simp
qed

lemma read_v1_line_long:
  "ts_data s = body @ rest \<Longrightarrow> 0x0A \<notin> set body \<Longrightarrow> length buf \<le> PROXY_V1_MAX_LENGTH \<Longrightarrow>
     PROXY_V1_MAX_LENGTH \<le> length buf + length body \<Longrightarrow> fst (read_v1_line buf s) = Inl V1TooLong"
proof (induction body arbitrary: buf s)
  case Nil
  then show ?case by (subst read_v1_line.simps) simp
next
  case (Cons b body)
  show ?case
  proof (cases "length buf = PROXY_V1_MAX_LENGTH")
    case True
    then show ?thesis by (subst read_v1_line.simps) simp
  next
    case False
    with Cons.prems have "read_v1_line buf s = read_v1_line (buf @ [b]) (s\<lparr>ts_data := body @ rest\<rparr>)"
      by (subst read_v1_line_step) (auto simp: ends_line_snoc)
    also have "fst \<dots> = Inl V1TooLong" by (rule Cons.IH) (use Cons.prems False in auto)
    finally show ?thesis .
  qed
qed

text \<open>A line of this version, from the texts of its addresses and ports.\<close>

definition v1_body :: "bytes \<Rightarrow> bytes list \<Rightarrow> bytes" where
  "v1_body proto texts = ascii ''PROXY'' @ concat (map ((#) 0x20) (proto # texts))"

lemma v1_words:
  "set (ascii ''PROXY'') \<inter> {0x20, 0x0D, 0x0A} = {}" "set (ascii ''TCP4'') \<inter> {0x20, 0x0D, 0x0A} = {}"
  "set (ascii ''TCP6'') \<inter> {0x20, 0x0D, 0x0A} = {}" "ascii ''TCP4'' \<noteq> ascii ''UNKNOWN''" "ascii ''TCP6'' \<noteq> ascii ''UNKNOWN''"
  by code_simp+

lemma v1_body_parts:
  assumes "proto = ascii ''TCP4'' \<or> proto = ascii ''TCP6''" and "\<And>f. f \<in> set texts \<Longrightarrow> 0x20 \<notin> set f"
  shows "split_on 0x20 (v1_body proto texts) = ascii ''PROXY'' # proto # texts"
  unfolding v1_body_def
proof (rule split_on_parts)
  show "0x20 \<notin> set (ascii ''PROXY'')" using v1_words(1) by blast
  show "0x20 \<notin> set y" if "y \<in> set (proto # texts)" for y using that assms v1_words(2,3) by auto
qed

lemma v1_body_plain:
  assumes "proto = ascii ''TCP4'' \<or> proto = ascii ''TCP6''" and "c = 0x0D \<or> c = 0x0A" and "\<And>f. f \<in> set texts \<Longrightarrow> c \<notin> set f"
  shows "c \<notin> set (v1_body proto texts)"
proof -
  have "c \<notin> set (ascii ''PROXY'')" "c \<notin> set proto" "c \<noteq> 0x20" using assms(1,2) v1_words by auto
  with assms(3) show ?thesis by (auto simp: v1_body_def)
qed

lemma parse_v1_parts:
  assumes "proto = ascii ''TCP4'' \<or> proto = ascii ''TCP6''"
    and "\<And>f. f \<in> set [src, dst, sport, dport] \<Longrightarrow> set f \<inter> {0x20, 0x0D, 0x0A} = {}"
    and "parse_ip tx src = Some ip" and "parse_u16 sport = Some port"
  shows "parse_proxy_v1_line tx (v1_body proto [src, dst, sport, dport] @ [0x0D, 0x0A]) = Success \<lparr>sa_ip = ip, sa_port = port\<rparr>"
proof -
  let ?b = "v1_body proto [src, dst, sport, dport]"
  have "0x0D \<notin> set ?b" by (rule v1_body_plain [OF assms(1)]) (use assms(2) in auto)
  then have t: "trim_end 0x0D (trim_end 0x0A (?b @ [0x0D, 0x0A])) = ?b" by (rule trim_line)
  have p: "split_on 0x20 ?b = [ascii ''PROXY'', proto, src, dst, sport, dport]"
    by (rule v1_body_parts [OF assms(1)]) (use assms(2) in auto)
  have "proto \<noteq> ascii ''UNKNOWN''" using assms(1) v1_words(4,5) by auto
  with assms(1,3,4) show ?thesis unfolding parse_proxy_v1_line_def t p Let_def by simp
qed

section \<open>Version 2\<close>

text \<open>A header of this version for a TCP connection, with what follows the addresses.\<close>

definition v2_addresses :: "socket_addr \<Rightarrow> socket_addr \<Rightarrow> bytes option" where
  "v2_addresses src dst =
     (case (sa_ip src, sa_ip dst) of
        (V4 a, V4 b) \<Rightarrow> Some (octets a @ octets b @ put_u16 (sa_port src) @ put_u16 (sa_port dst))
      | (V6 a, V6 b) \<Rightarrow> Some (put_ip6 a @ put_ip6 b @ put_u16 (sa_port src) @ put_u16 (sa_port dst))
      | _ \<Rightarrow> None)"

definition v2_header :: "u8 \<Rightarrow> u8 \<Rightarrow> bytes \<Rightarrow> bytes" where
  "v2_header ver_cmd fam_proto addr_data = PROXY_V2_SIGNATURE @ [ver_cmd, fam_proto] @ put_u16 (of_nat (length addr_data)) @ addr_data"

definition v2_family :: "socket_addr \<Rightarrow> u8" where
  "v2_family src = (case sa_ip src of V4 _ \<Rightarrow> 0x11 | V6 _ \<Rightarrow> 0x21)"

lemma v2_address_read:
  assumes "v2_addresses src dst = Some b"
  shows "parse_proxy_v2_address (drop_bit 4 (v2_family src AND 0xF0)) (b @ tlv) = Success src"
proof -
  note d = length_put_ip6 octets_nth
  have port: "be16 (put_u16 x ! 0) (put_u16 x ! Suc 0) = x" for x by (rule put_u16_cases [of x]) simp
  show ?thesis
  proof (cases "sa_ip src")
    case (V4 a)
    with assms obtain c where "b = octets a @ octets c @ put_u16 (sa_port src) @ put_u16 (sa_port dst)"
      by (auto simp: v2_addresses_def split: ip_addr.splits)
    with V4 port [of "sa_port src"] show ?thesis
      by (cases src; cases a; cases c) (simp add: parse_proxy_v2_address_def v2_family_def nth_append)
  next
    case (V6 a)
    with assms obtain c where b: "b = put_ip6 a @ put_ip6 c @ put_u16 (sa_port src) @ put_u16 (sa_port dst)"
      by (auto simp: v2_addresses_def split: ip_addr.splits)
    have "take 16 (b @ tlv) = put_ip6 a" by (simp add: b length_put_ip6)
    with V6 port [of "sa_port src"] get_ip6_put [of a] show ?thesis
      by (cases src) (simp add: parse_proxy_v2_address_def v2_family_def b nth_append length_put_ip6)
  qed
qed

lemma v2_stream_read:
  assumes "ts_data s = v2_header ver_cmd fam addr @ rest" and "length addr \<le> PROXY_V2_MAX_ADDR_LEN"
  shows "parse_proxy_protocol_v2 s =
    (parse_proxy_v2_bytes (PROXY_V2_SIGNATURE @ [ver_cmd, fam] @ put_u16 (of_nat (length addr))) addr, s\<lparr>ts_data := rest\<rparr>)"
proof -
  let ?h = "PROXY_V2_SIGNATURE @ [ver_cmd, fam] @ put_u16 (of_nat (length addr))"
  have h: "length ?h = 16" by (simp add: PROXY_V2_SIGNATURE_def)
  have "ts_data s = ?h @ addr @ rest" using assms(1) by (simp add: v2_header_def)
  with h have r: "ts_read_exact PROXY_V2_HEADER_SIZE s = (Inr ?h, s\<lparr>ts_data := addr @ rest\<rparr>)"
    by (simp add: ts_read_exact_def PROXY_V2_HEADER_SIZE_def)
  have "unat (of_nat (length addr) :: u16) = length addr"
    using assms(2) by (simp add: unat_of_nat PROXY_V2_MAX_ADDR_LEN_def)
  moreover have "be16 (?h ! 14) (?h ! 15) = of_nat (length addr)"
    by (rule put_u16_cases [of "of_nat (length addr)"]) (simp add: PROXY_V2_SIGNATURE_def nth_append)
  ultimately show ?thesis
    using r assms(2) by (auto simp: parse_proxy_protocol_v2_def ts_read_exact_def Let_def)
qed

lemma v2_detected:
  assumes "ts_data s = v2_header ver_cmd fam addr @ rest" and "ver_cmd AND 0xF0 = 0x20" and "ts_peeks s = Inr n # r" and "13 \<le> n"
  shows "parse_proxy_protocol tx s = Finished (parse_proxy_protocol_v2 (s\<lparr>ts_peeks := r\<rparr>))"
proof -
  have len: "16 \<le> length (ts_data s)" by (simp add: assms(1) v2_header_def PROXY_V2_SIGNATURE_def)
  have sig: "take 12 (ts_data s) = PROXY_V2_SIGNATURE" "ts_data s ! 12 = ver_cmd"
    by (simp_all add: assms(1) v2_header_def PROXY_V2_SIGNATURE_def)
  have "(take (min 16 n) (ts_data s) @ replicate (16 - min 16 n) 0) ! 12 = ts_data s ! 12"
    using len assms(4) by (subst nth_append) simp
  with len sig assms(2-4) show ?thesis
    by (simp add: parse_proxy_protocol_def ts_peek_def PROXY_V2_HEADER_SIZE_def Let_def min_absorb2)
qed

lemma v1_detected:
  assumes "ts_data s = v1_body proto texts @ rest" and "ts_peeks s = Inr n # r" and "5 \<le> n"
  shows "parse_proxy_protocol tx s = Finished (parse_proxy_protocol_v1 tx (s\<lparr>ts_peeks := r\<rparr>))"
proof -
  have w: "length (ascii ''PROXY'') = 5" "hd (ascii ''PROXY'') \<noteq> 0x0D" "ascii ''PROXY'' \<noteq> []" by code_simp+
  have d: "take 5 (ts_data s) = ascii ''PROXY''" "5 \<le> length (ts_data s)" using w by (simp_all add: assms(1) v1_body_def)
  let ?t = "take (min 16 n) (ts_data s)"
  let ?p = "?t @ replicate (16 - length ?t) 0"
  have l: "5 \<le> length ?t" using d(2) assms(3) by simp
  then have t: "take 5 ?p = ascii ''PROXY''" using d assms(3) by (simp add: min_def)
  then have "hd ?p = hd (ascii ''PROXY'')" using w(3) by (metis hd_take zero_less_numeral)
  then have "take 12 ?p \<noteq> PROXY_V2_SIGNATURE" using w(2) by (metis PROXY_V2_SIGNATURE_def hd_take list.sel(1) zero_less_numeral)
  with t l assms(2) show ?thesis
    unfolding parse_proxy_protocol_def ts_peek_def PROXY_V2_HEADER_SIZE_def Let_def by simp
qed

section \<open>Properties\<close>

lemma v1_stream_read:
  assumes "proto = ascii ''TCP4'' \<or> proto = ascii ''TCP6''"
    and "\<And>f. f \<in> set [src, dst, sport, dport] \<Longrightarrow> set f \<inter> {0x20, 0x0D, 0x0A} = {}"
    and "parse_ip tx src = Some ip" and "parse_u16 sport = Some port"
    and "ts_data s = v1_body proto [src, dst, sport, dport] @ [0x0D, 0x0A] @ rest"
    and "utf8_valid (v1_body proto [src, dst, sport, dport] @ [0x0D, 0x0A])"
  shows "length (v1_body proto [src, dst, sport, dport]) + 2 \<le> 108 \<Longrightarrow>
      parse_proxy_protocol_v1 tx s = (Success \<lparr>sa_ip = ip, sa_port = port\<rparr>, s\<lparr>ts_data := rest\<rparr>)"
    and "length (v1_body proto [src, dst, sport, dport]) + 2 > 108 \<Longrightarrow> fst (parse_proxy_protocol_v1 tx s) = ProxyError V1TooLong"
proof -
  let ?b = "v1_body proto [src, dst, sport, dport]"
  have lf: "0x0A \<notin> set ?b" by (rule v1_body_plain [OF assms(1)]) (use assms(2) in auto)
  show "parse_proxy_protocol_v1 tx s = (Success \<lparr>sa_ip = ip, sa_port = port\<rparr>, s\<lparr>ts_data := rest\<rparr>)" if "length ?b + 2 \<le> 108"
    using read_v1_line_reads [OF assms(5) lf, of "[]"] parse_v1_parts [OF assms(1-4)] assms(6) that
    by (simp add: parse_proxy_protocol_v1_def PROXY_V1_MAX_LENGTH_def)
  assume "length ?b + 2 > 108"
  then have "fst (read_v1_line [] s) = Inl V1TooLong"
    using assms(5) lf by (intro read_v1_line_long [of s "?b @ [0x0D]" "0x0A # rest"]) (simp_all add: PROXY_V1_MAX_LENGTH_def)
  then show "fst (parse_proxy_protocol_v1 tx s) = ProxyError V1TooLong"
    by (cases "read_v1_line [] s") (simp add: parse_proxy_protocol_v1_def)
qed

lemma v1_header_read:
  assumes "ts_peeks s = Inr n # r" and "13 \<le> n" and "proto = ascii ''TCP4'' \<or> proto = ascii ''TCP6''"
    and "\<forall>f \<in> set [src, dst, sport, dport]. set f \<inter> {0x20, 0x0D, 0x0A} = {}"
    and "parse_ip tx src = Some ip" and "parse_u16 sport = Some port"
    and "ts_data s = v1_body proto [src, dst, sport, dport] @ [0x0D, 0x0A] @ rest"
    and "utf8_valid (v1_body proto [src, dst, sport, dport] @ [0x0D, 0x0A])"
  shows "length (v1_body proto [src, dst, sport, dport]) + 2 \<le> 108 \<Longrightarrow>
      parse_proxy_protocol tx s = Finished (Success \<lparr>sa_ip = ip, sa_port = port\<rparr>, s\<lparr>ts_peeks := r, ts_data := rest\<rparr>)"
    and "length (v1_body proto [src, dst, sport, dport]) + 2 > 108 \<Longrightarrow>
      \<exists>s'. parse_proxy_protocol tx s = Finished (ProxyError V1TooLong, s')"
proof -
  let ?s = "s\<lparr>ts_peeks := r\<rparr>"
  have d: "parse_proxy_protocol tx s = Finished (parse_proxy_protocol_v1 tx ?s)"
    by (rule v1_detected [OF assms(7,1)]) (use assms(2) in simp)
  have "ts_data ?s = v1_body proto [src, dst, sport, dport] @ [0x0D, 0x0A] @ rest" using assms(7) by simp
  note w = v1_stream_read [OF assms(3) bspec [OF assms(4)] assms(5,6) this assms(8)]
  show "parse_proxy_protocol tx s = Finished (Success \<lparr>sa_ip = ip, sa_port = port\<rparr>, s\<lparr>ts_peeks := r, ts_data := rest\<rparr>)"
    if "length (v1_body proto [src, dst, sport, dport]) + 2 \<le> 108"
    using w(1) that unfolding d by simp
  show "\<exists>s'. parse_proxy_protocol tx s = Finished (ProxyError V1TooLong, s')"
    if "length (v1_body proto [src, dst, sport, dport]) + 2 > 108"
    using w(2) that unfolding d by (cases "parse_proxy_protocol_v1 tx ?s") auto
qed

text \<open>The limit is one byte lower than its comment says, which allows 107 characters and CR LF: such a line, of 109 bytes, is refused.\<close>

lemma longest_documented_line_refused:
  assumes "ts_peeks s = Inr n # r" and "13 \<le> n" and "proto = ascii ''TCP4'' \<or> proto = ascii ''TCP6''"
    and "\<forall>f \<in> set [src, dst, sport, dport]. set f \<inter> {0x20, 0x0D, 0x0A} = {}"
    and "parse_ip tx src = Some ip" and "parse_u16 sport = Some port"
    and "ts_data s = v1_body proto [src, dst, sport, dport] @ [0x0D, 0x0A] @ rest"
    and "utf8_valid (v1_body proto [src, dst, sport, dport] @ [0x0D, 0x0A])"
    and "length (v1_body proto [src, dst, sport, dport]) = 107"
  shows "\<exists>s'. parse_proxy_protocol tx s = Finished (ProxyError V1TooLong, s')"
  by (rule v1_header_read(2) [OF assms(1-8)]) (simp add: assms(9))

text \<open>C31. The header of a proxy is read completely, and nothing else. If a line of version 1 with a valid source address is in front of
  the data and has, with its CR LF, at most 108 bytes, then the result is the source address, and the data after the line is left in
  the stream; a line of more than 109 bytes is an error. (The code refuses a line of exactly 109 bytes too, which its comment allows;
  the theorem says nothing of it.) A header of version 2 for two addresses of the same family, with at most 512 bytes of addresses and
  extensions, is read in the same way. Enough of the header must have arrived to recognise it.\<close>

theorem proxy_header_read:
  assumes "ts_peeks s = Inr n # r" and "13 \<le> n"
  shows "((proto = ascii ''TCP4'' \<or> proto = ascii ''TCP6'') \<and>
      (\<forall>f \<in> set [src, dst, sport, dport]. set f \<inter> {0x20, 0x0D, 0x0A} = {}) \<and>
      parse_ip tx src = Some ip \<and> parse_u16 sport = Some port \<and>
      ts_data s = v1_body proto [src, dst, sport, dport] @ [0x0D, 0x0A] @ rest \<and>
      utf8_valid (v1_body proto [src, dst, sport, dport] @ [0x0D, 0x0A]) \<longrightarrow>
      (length (v1_body proto [src, dst, sport, dport]) + 2 \<le> 108 \<longrightarrow>
         parse_proxy_protocol tx s = Finished (Success \<lparr>sa_ip = ip, sa_port = port\<rparr>, s\<lparr>ts_peeks := r, ts_data := rest\<rparr>)) \<and>
      (109 < length (v1_body proto [src, dst, sport, dport]) + 2 \<longrightarrow>
         (\<exists>s'. parse_proxy_protocol tx s = Finished (ProxyError V1TooLong, s')))) \<and>
    (v2_addresses a b = Some ab \<and> ts_data s = v2_header 0x21 (v2_family a) (ab @ tlv) @ rest \<and> length (ab @ tlv) \<le> 512 \<longrightarrow>
      parse_proxy_protocol tx s = Finished (Success a, s\<lparr>ts_peeks := r, ts_data := rest\<rparr>))"
proof (rule conjI; rule impI; (elim conjE)?)
  assume v1: "proto = ascii ''TCP4'' \<or> proto = ascii ''TCP6''"
    "\<forall>f \<in> set [src, dst, sport, dport]. set f \<inter> {0x20, 0x0D, 0x0A} = {}"
    "parse_ip tx src = Some ip" "parse_u16 sport = Some port"
    "ts_data s = v1_body proto [src, dst, sport, dport] @ [0x0D, 0x0A] @ rest"
    "utf8_valid (v1_body proto [src, dst, sport, dport] @ [0x0D, 0x0A])"
  from v1_header_read [OF assms this]
  show "(length (v1_body proto [src, dst, sport, dport]) + 2 \<le> 108 \<longrightarrow>
         parse_proxy_protocol tx s = Finished (Success \<lparr>sa_ip = ip, sa_port = port\<rparr>, s\<lparr>ts_peeks := r, ts_data := rest\<rparr>)) \<and>
      (109 < length (v1_body proto [src, dst, sport, dport]) + 2 \<longrightarrow>
         (\<exists>s'. parse_proxy_protocol tx s = Finished (ProxyError V1TooLong, s')))" by simp
next
  assume v2: "v2_addresses a b = Some ab" "ts_data s = v2_header 0x21 (v2_family a) (ab @ tlv) @ rest" "length (ab @ tlv) \<le> 512"
  let ?s = "s\<lparr>ts_peeks := r\<rparr>"
  have d: "parse_proxy_protocol tx s = Finished (parse_proxy_protocol_v2 ?s)"
    by (rule v2_detected [OF v2(2) _ assms]) simp
  have "ts_data ?s = v2_header 0x21 (v2_family a) (ab @ tlv) @ rest" using v2(2) by simp
  from v2_stream_read [OF this] v2(3) v2_address_read [OF v2(1), of tlv] d
  show "parse_proxy_protocol tx s = Finished (Success a, s\<lparr>ts_peeks := r, ts_data := rest\<rparr>)"
    by (simp add: PROXY_V2_MAX_ADDR_LEN_def parse_proxy_v2_bytes_def PROXY_V2_SIGNATURE_def Let_def)
qed

definition sample_source :: socket_addr where
  "sample_source = \<lparr>sa_ip = V4 (192, 168, 0, 1), sa_port = 56324\<rparr>"

definition sample_proxied :: tcp_stream where
  "sample_proxied =
     \<lparr>ts_data = v2_header 0x21 (v2_family sample_source) (the (v2_addresses sample_source sample_source)) @ [1, 2, 3], ts_end = None,
      ts_peeks = [Inr 31], ts_clock = []\<rparr>"

theorem proxy_header_read_witness:
  "parse_proxy_protocol plain_text sample_proxied = Finished (Success sample_source, sample_proxied\<lparr>ts_peeks := [], ts_data := [1, 2, 3]\<rparr>)"
proof -
  obtain ab where ab: "v2_addresses sample_source sample_source = Some ab" "length ab = 12" by (simp add: sample_source_def v2_addresses_def)
  have "ts_peeks sample_proxied = Inr 31 # []" "13 \<le> (31 :: nat)"
    "ts_data sample_proxied = v2_header 0x21 (v2_family sample_source) (ab @ []) @ [1, 2, 3]"
    by (simp_all add: sample_proxied_def ab)
  with proxy_header_read [where s = sample_proxied and n = 31 and r = "[]" and rest = "[1, 2, 3]" and tlv = "[]" and tx = plain_text
      and a = sample_source and b = sample_source and ab = ab] ab
  show ?thesis by simp
qed

end
