(* ===== verification/Tcp_Listen.thy ===== *)
theory Tcp_Listen
  imports Proxy_Protocol Secio_Messages Yamux_Frame
begin

text \<open>
  The listener behind the TCP, TLS and websocket transports (\<^verbatim>\<open>tentacle/src/transports/tcp_base_listen.rs\<close>, with the features
  \<^verbatim>\<open>ws\<close> and \<^verbatim>\<open>tls\<close>): several transports share a port, and the first bytes of a connection decide which one it uses.

  The upgrade modes are cells of a store, since the table of listeners and a listener share them. Binding a socket, the HTTP parser and
  the acceptance of websocket and TLS connections are parameters. What a connection becomes is the pair that its task sends to the
  listener, if any. A failed assertion (\<^verbatim>\<open>unreachable!\<close>) is \<open>None\<close> or \<open>Panics\<close>.
\<close>

section \<open>Upgrade modes\<close>

datatype tcp_listen_mode = LTcp | LTls | LWs

datatype upgrade_mode_enum = OnlyTcp | OnlyWs | OnlyTls | TcpAndWs | TcpAndTls | AllModes

fun upgrade_bits :: "upgrade_mode_enum \<Rightarrow> u8" where
  "upgrade_bits OnlyTcp = 1"
| "upgrade_bits OnlyWs = 2"
| "upgrade_bits OnlyTls = 4"
| "upgrade_bits TcpAndWs = 3"
| "upgrade_bits TcpAndTls = 5"
| "upgrade_bits AllModes = 7"

definition upgrade_from_u8 :: "u8 \<Rightarrow> upgrade_mode_enum option" where
  "upgrade_from_u8 value =
     (if value = 1 then Some OnlyTcp
      else if value = 2 then Some OnlyWs
      else if value = 3 then Some TcpAndWs
      else if value = 4 then Some OnlyTls
      else if value = 5 then Some TcpAndTls
      else if value = 7 then Some AllModes
      else None)"

fun mode_of_listen :: "tcp_listen_mode \<Rightarrow> upgrade_mode_enum" where
  "mode_of_listen LTcp = OnlyTcp"
| "mode_of_listen LTls = OnlyTls"
| "mode_of_listen LWs = OnlyWs"

definition combine :: "u8 \<Rightarrow> upgrade_mode_enum \<Rightarrow> u8" where
  "combine inner other = inner OR upgrade_bits other"

section \<open>Binding\<close>

datatype transport_error =
  TransportIo io_kind
  | TransportProxyError io_kind
  | NotSupported multiaddr
  | DnsResolverError multiaddr io_kind
  | TlsError

record listen_globals =
  lg_modes :: "u8 list"
  lg_listens :: "socket_addr \<rightharpoonup> nat"

record tcp_listener =
  tl_local_addr :: socket_addr
  tl_upgrade_mode :: nat
  tl_trusted_proxies :: "ip_addr list"

datatype listener_enum = Upgrade | New tcp_listener

definition listen_addr :: "varint \<Rightarrow> multiaddr \<Rightarrow> tcp_listen_mode \<Rightarrow> socket_addr \<Rightarrow> (transport_error + multiaddr) scan" where
  "listen_addr vi addr listen_mode socket_address =
     (let tcp_base_addr = socketaddr_to_multiaddr vi socket_address in
      case listen_mode of
        LTcp \<Rightarrow> Some (Inr (Inr tcp_base_addr))
      | LWs \<Rightarrow> Some (Inr (Inr (push vi Ws tcp_base_addr)))
      | LTls \<Rightarrow>
          scan_bind (parse_tls_domain_name vi addr) (\<lambda>d.
            Some (Inr (case d of None \<Rightarrow> Inl (NotSupported addr) | Some d \<Rightarrow> Inr (push vi (Tls d) tcp_base_addr)))))"

text \<open>The end of \<^verbatim>\<open>bind\<close>, when the socket listens.\<close>

definition bound ::
  "varint \<Rightarrow> multiaddr \<Rightarrow> tcp_listen_mode \<Rightarrow> nat \<Rightarrow> ip_addr list \<Rightarrow> socket_addr \<Rightarrow> listen_globals \<Rightarrow>
     ((transport_error + multiaddr \<times> listener_enum) \<times> listen_globals) scan" where
  "bound vi addr listen_mode cell trusted_proxies local_addr g =
     scan_bind (listen_addr vi addr listen_mode local_addr) (\<lambda>r.
       Some (Inr (case r of
         Inl e \<Rightarrow> (Inl e, g)
       | Inr la \<Rightarrow>
           (Inr (la, New \<lparr>tl_local_addr = local_addr, tl_upgrade_mode = cell, tl_trusted_proxies = trusted_proxies\<rparr>), g))))"

definition bind ::
  "varint \<Rightarrow> (socket_addr \<Rightarrow> io_kind + socket_addr) \<Rightarrow> transport_error + multiaddr \<Rightarrow> tcp_listen_mode \<Rightarrow> ip_addr list \<Rightarrow>
     listen_globals \<Rightarrow> ((transport_error + multiaddr \<times> listener_enum) \<times> listen_globals) scan" where
  "bind vi tcp_listen address listen_mode trusted_proxies g =
     (case address of
        Inl e \<Rightarrow> Some (Inr (Inl e, g))
      | Inr addr \<Rightarrow>
          let cell = length (lg_modes g); g = g\<lparr>lg_modes := lg_modes g @ [upgrade_bits (mode_of_listen listen_mode)]\<rparr> in
          scan_bind (multiaddr_to_socketaddr vi addr) (\<lambda>sa.
            case sa of
              None \<Rightarrow> Some (Inr (Inl (NotSupported addr), g))
            | Some socket_address \<Rightarrow>
                if sa_port socket_address = 0 then
                  (case tcp_listen socket_address of
                     Inl e \<Rightarrow> Some (Inr (Inl (TransportIo e), g))
                   | Inr local_addr \<Rightarrow>
                       bound vi addr listen_mode cell trusted_proxies local_addr
                         (g\<lparr>lg_listens := (lg_listens g)(local_addr \<mapsto> cell)\<rparr>))
                else (case lg_listens g socket_address of
                   Some v \<Rightarrow>
                     scan_bind (listen_addr vi addr listen_mode socket_address) (\<lambda>r.
                       Some (Inr (case r of
                         Inl e \<Rightarrow> (Inl e, g)
                       | Inr la \<Rightarrow>
                           (Inr (la, Upgrade),
                            g\<lparr>lg_modes := (lg_modes g)[v := combine (lg_modes g ! v) (mode_of_listen listen_mode)]\<rparr>))))
                 | None \<Rightarrow>
                     let g = g\<lparr>lg_listens := (lg_listens g)(socket_address \<mapsto> cell)\<rparr> in
                     (case tcp_listen socket_address of
                        Inl e \<Rightarrow> Some (Inr (Inl (TransportIo e), g))
                      | Inr local_addr \<Rightarrow> bound vi addr listen_mode cell trusted_proxies local_addr g))))"

definition drop_listener :: "tcp_listener \<Rightarrow> listen_globals \<Rightarrow> listen_globals" where
  "drop_listener l g = g\<lparr>lg_listens := (lg_listens g)(tl_local_addr l := None)\<rparr>"

section \<open>Forwarded addresses\<close>

text \<open>The number of bytes of a white-space character at the front of a string, and at its end, given reversed.\<close>

fun ws_front :: "bytes \<Rightarrow> nat" where
  "ws_front (a # r) =
     (if (9 \<le> a \<and> a \<le> 13) \<or> a = 0x20 then 1
      else (case r of
        [] \<Rightarrow> 0
      | b # r \<Rightarrow>
          if a = 0xC2 \<and> (b = 0x85 \<or> b = 0xA0) then 2
          else (case r of
            [] \<Rightarrow> 0
          | c # _ \<Rightarrow>
              if (a = 0xE1 \<and> b = 0x9A \<and> c = 0x80) \<or> (a = 0xE2 \<and> b = 0x80 \<and> ((0x80 \<le> c \<and> c \<le> 0x8A) \<or> c \<in> {0xA8, 0xA9, 0xAF})) \<or>
                 (a = 0xE2 \<and> b = 0x81 \<and> c = 0x9F) \<or> (a = 0xE3 \<and> b = 0x80 \<and> c = 0x80)
              then 3 else 0)))"
| "ws_front [] = 0"

definition ws_back :: "bytes \<Rightarrow> nat" where
  "ws_back r =
     (if ws_front (rev (take 1 r)) = 1 then 1
      else if ws_front (rev (take 2 r)) = 2 then 2
      else if ws_front (rev (take 3 r)) = 3 then 3
      else 0)"

function trim_ws :: "(bytes \<Rightarrow> nat) \<Rightarrow> bytes \<Rightarrow> bytes" where
  "trim_ws ws s = (if ws s = 0 \<or> s = [] then s else trim_ws ws (drop (ws s) s))"
  by pat_completeness auto

termination
  by (relation "measure (\<lambda>(ws, s). length s)") auto

declare trim_ws.simps [simp del]

definition trim :: "bytes \<Rightarrow> bytes" where
  "trim s = rev (trim_ws ws_back (rev (trim_ws ws_front s)))"

definition eq_ignore_ascii_case :: "bytes \<Rightarrow> bytes \<Rightarrow> bool" where
  "eq_ignore_ascii_case a b \<longleftrightarrow> map ascii_lower a = map ascii_lower b"

text \<open>The loop over the headers of a request.\<close>

fun forwarded :: "text_env \<Rightarrow> (bytes \<times> bytes) list \<Rightarrow> ip_addr option \<times> u16 option \<Rightarrow> ip_addr option \<times> u16 option" where
  "forwarded tx [] found = found"
| "forwarded tx ((name, value) # headers) (ip, port) =
     forwarded tx headers
       (if eq_ignore_ascii_case name (ascii ''x-forwarded-for'') then
          (if utf8_valid value then
             (case parse_ip tx (trim (hd (split_on 0x2C value))) of Some ip \<Rightarrow> Some ip | None \<Rightarrow> ip)
           else ip, port)
        else if eq_ignore_ascii_case name (ascii ''x-forwarded-port'') then
          (ip, if utf8_valid value then
                 (case parse_u16 (trim (hd (split_on 0x2C value))) of Some port \<Rightarrow> Some port | None \<Rightarrow> port)
               else port)
        else (ip, port))"

section \<open>The choice of a transport\<close>

text \<open>The acceptance of a websocket or TLS connection returns the connection as the handshake, which reads from it, leaves it.\<close>

datatype accept_outcome = AcceptTimeout | AcceptError | Accepted tcp_stream

record accept_env =
  ae_text :: text_env
  ae_varint :: varint
  ae_parse_request :: "nat \<Rightarrow> bytes \<Rightarrow> (bytes \<times> bytes) list option"
  ae_accept_ws :: "tcp_stream \<Rightarrow> accept_outcome"
  ae_accept_tls :: "tcp_stream \<Rightarrow> accept_outcome"

datatype multi_stream = MTcp tcp_stream | MWs tcp_stream | MTls tcp_stream

type_synonym selected = "(multiaddr \<times> multi_stream) option run"

fun then_run :: "'a run \<Rightarrow> ('a \<Rightarrow> 'b run) \<Rightarrow> 'b run" where
  "then_run (Finished x) k = k x"
| "then_run Waits k = Waits"
| "then_run Panics k = Panics"

definition extract_forwarded_for :: "accept_env \<Rightarrow> tcp_stream \<Rightarrow> socket_addr \<Rightarrow> (socket_addr \<times> tcp_stream) run" where
  "extract_forwarded_for ae s fallback_address =
     then_run (ts_peek 4096 s) (\<lambda>(r, s).
       Finished (case r of
         Inl _ \<Rightarrow> fallback_address
       | Inr buf \<Rightarrow>
           (case ae_parse_request ae 32 buf of
              None \<Rightarrow> fallback_address
            | Some headers \<Rightarrow>
                (case forwarded (ae_text ae) headers (None, None) of
                   (None, _) \<Rightarrow> fallback_address
                 | (Some ip, port) \<Rightarrow> \<lparr>sa_ip = ip, sa_port = (case port of None \<Rightarrow> sa_port fallback_address | Some p \<Rightarrow> p)\<rparr>)), s))"

text \<open>Peeking until sixteen bytes have arrived or the time is up.\<close>

function peek_sixteen :: "tcp_stream \<Rightarrow> (bytes option \<times> tcp_stream) run" where
  "peek_sixteen s =
     (case ts_peek 16 s of
        Waits \<Rightarrow> Waits
      | Panics \<Rightarrow> Panics
      | Finished (Inl _, s') \<Rightarrow> Finished (None, s')
      | Finished (Inr b, s') \<Rightarrow>
          if length b \<noteq> 16 then
            (case ts_time_up s' of (True, s') \<Rightarrow> Finished (None, s') | (False, s') \<Rightarrow> peek_sixteen s')
          else Finished (Some b, s'))"
  by pat_completeness auto

termination
  by (relation "measure (\<lambda>s. length (ts_peeks s))") (auto simp: ts_peek_def ts_time_up_def split: list.splits sum.splits)

declare peek_sixteen.simps [simp del]

text \<open>\<^verbatim>\<open>timeout(timeout, parse_proxy_protocol(stream))\<close>, where \<open>None\<close> is that the time is up.\<close>

definition timed_proxy :: "accept_env \<Rightarrow> tcp_stream \<Rightarrow> (proxy_result option \<times> tcp_stream) run" where
  "timed_proxy ae s =
     (case ts_time_up s of
        (True, s) \<Rightarrow> Finished (None, s)
      | (False, s) \<Rightarrow> then_run (parse_proxy_protocol (ae_text ae) s) (\<lambda>(r, s). Finished (Some r, s)))"

definition try_parse_proxy_protocol :: "accept_env \<Rightarrow> tcp_stream \<Rightarrow> socket_addr \<Rightarrow> (socket_addr option \<times> tcp_stream) run" where
  "try_parse_proxy_protocol ae s remote_address =
     then_run (timed_proxy ae s) (\<lambda>(r, s).
       Finished (case r of
         Some (Success addr) \<Rightarrow> Some addr
       | Some NotProxyProtocol \<Rightarrow> Some remote_address
       | Some (ProxyError _) \<Rightarrow> None
       | None \<Rightarrow> None, s))"

text \<open>The guard of the modes \<^verbatim>\<open>OnlyTcp\<close> and \<^verbatim>\<open>OnlyTls\<close>.\<close>

definition with_proxy :: "accept_env \<Rightarrow> ip_addr list \<Rightarrow> bool \<Rightarrow> tcp_stream \<Rightarrow> socket_addr \<Rightarrow> (socket_addr option \<times> tcp_stream) run" where
  "with_proxy ae trusted_proxies proxy_parsed s remote_address =
     (if \<not> proxy_parsed \<and> sa_ip remote_address \<in> set trusted_proxies then try_parse_proxy_protocol ae s remote_address
      else Finished (Some remote_address, s))"

definition select_tcp :: "accept_env \<Rightarrow> ip_addr list \<Rightarrow> bool \<Rightarrow> tcp_stream \<Rightarrow> socket_addr \<Rightarrow> selected" where
  "select_tcp ae trusted_proxies proxy_parsed s remote_address =
     then_run (with_proxy ae trusted_proxies proxy_parsed s remote_address) (\<lambda>(r, s).
       Finished (map_option (\<lambda>a. (socketaddr_to_multiaddr (ae_varint ae) a, MTcp s)) r))"

definition select_tls :: "accept_env \<Rightarrow> ip_addr list \<Rightarrow> bool \<Rightarrow> tcp_stream \<Rightarrow> socket_addr \<Rightarrow> selected" where
  "select_tls ae trusted_proxies proxy_parsed s remote_address =
     then_run (with_proxy ae trusted_proxies proxy_parsed s remote_address) (\<lambda>(r, s).
       Finished (case r of
         None \<Rightarrow> None
       | Some a \<Rightarrow>
           (case ae_accept_tls ae s of
              Accepted s \<Rightarrow> Some (push (ae_varint ae) (Tls []) (socketaddr_to_multiaddr (ae_varint ae) a), MTls s)
            | _ \<Rightarrow> None)))"

definition select_ws :: "accept_env \<Rightarrow> ip_addr list \<Rightarrow> tcp_stream \<Rightarrow> socket_addr \<Rightarrow> selected" where
  "select_ws ae trusted_proxies s remote_address =
     then_run
       (if sa_ip remote_address \<in> set trusted_proxies then extract_forwarded_for ae s remote_address
        else Finished (remote_address, s))
       (\<lambda>(a, s). Finished
          (case ae_accept_ws ae s of
             Accepted s \<Rightarrow> Some (push (ae_varint ae) Ws (socketaddr_to_multiaddr (ae_varint ae) a), MWs s)
           | _ \<Rightarrow> None))"

text \<open>The test on the first sixteen bytes: a secio proposition or the first frame of a yamux session.\<close>

definition le32_at :: "bytes \<Rightarrow> nat \<Rightarrow> u32" where
  "le32_at b i = be32 (b ! (i + 3)) (b ! (i + 2)) (b ! (i + 1)) (b ! i)"

definition be32_at :: "bytes \<Rightarrow> nat \<Rightarrow> u32" where
  "be32_at b i = be32 (b ! i) (b ! (i + 1)) (b ! (i + 2)) (b ! (i + 3))"

definition looks_like_tcp :: "bytes \<Rightarrow> bool" where
  "looks_like_tcp current_peek_buf =
     (let length_delimited_header = be32_at current_peek_buf 0;
          molecule_header = le32_at current_peek_buf 4;
          rand_start = le32_at current_peek_buf 8;
          rand_end = le32_at current_peek_buf 12;
          yamux_version = current_peek_buf ! 0;
          yamux_ty = current_peek_buf ! 1;
          yamux_flags = be16 (current_peek_buf ! 2) (current_peek_buf ! 3);
          yamux_stream_id = be32_at current_peek_buf 4
      in (length_delimited_header = molecule_header \<and> rand_start = 24 \<and> rand_start < rand_end \<and> rand_end < molecule_header) \<or>
         (yamux_version = 0 \<and> ((yamux_ty = 1 \<and> yamux_stream_id \<noteq> 0) \<or> (yamux_ty = 2 \<and> yamux_stream_id = 0)) \<and> yamux_flags = 1))"

definition select_tcp_tls :: "accept_env \<Rightarrow> ip_addr list \<Rightarrow> bytes \<Rightarrow> tcp_stream \<Rightarrow> socket_addr \<Rightarrow> selected" where
  "select_tcp_tls ae trusted_proxies peek_buf s remote_address =
     then_run
       (if sa_ip remote_address \<in> set trusted_proxies then
          then_run (timed_proxy ae s) (\<lambda>(r, s).
            (case r of
               Some (Success addr) \<Rightarrow>
                 then_run (peek_sixteen s) (\<lambda>(b, s). Finished (map_option (\<lambda>b. (b, True, addr)) b, s))
             | Some NotProxyProtocol \<Rightarrow> Finished (Some (peek_buf, True, remote_address), s)
             | Some (ProxyError _) \<Rightarrow> Finished (None, s)
             | None \<Rightarrow> Finished (None, s)))
        else Finished (Some (peek_buf, False, remote_address), s))
       (\<lambda>(r, s).
          (case r of
             None \<Rightarrow> Finished None
           | Some (current_peek_buf, proxy_parsed, remote_address) \<Rightarrow>
               if looks_like_tcp current_peek_buf then select_tcp ae trusted_proxies proxy_parsed s remote_address
               else select_tls ae trusted_proxies proxy_parsed s remote_address))"

definition protocol_select :: "accept_env \<Rightarrow> ip_addr list \<Rightarrow> upgrade_mode_enum \<Rightarrow> tcp_stream \<Rightarrow> socket_addr \<Rightarrow> selected" where
  "protocol_select ae trusted_proxies upgrade_mode s remote_address =
     then_run (peek_sixteen s) (\<lambda>(b, s).
       (case b of
          None \<Rightarrow> Finished None
        | Some peek_buf \<Rightarrow>
            (case upgrade_mode of
               OnlyTcp \<Rightarrow> select_tcp ae trusted_proxies False s remote_address
             | OnlyWs \<Rightarrow> select_ws ae trusted_proxies s remote_address
             | OnlyTls \<Rightarrow> select_tls ae trusted_proxies False s remote_address
             | TcpAndTls \<Rightarrow> select_tcp_tls ae trusted_proxies peek_buf s remote_address
             | TcpAndWs \<Rightarrow>
                 if ae_parse_request ae 16 peek_buf \<noteq> None then select_ws ae trusted_proxies s remote_address
                 else select_tcp ae trusted_proxies False s remote_address
             | AllModes \<Rightarrow>
                 if ae_parse_request ae 16 peek_buf \<noteq> None then select_ws ae trusted_proxies s remote_address
                 else select_tcp_tls ae trusted_proxies peek_buf s remote_address)))"

section \<open>The listener\<close>

text \<open>An accepted connection with its peer address; the task it is given to.\<close>

type_synonym accepted = "tcp_stream \<times> (io_kind + socket_addr)"
type_synonym select_task = "tcp_stream \<times> upgrade_mode_enum \<times> socket_addr"

definition poll_listen ::
  "listen_globals \<Rightarrow> tcp_listener \<Rightarrow> (io_kind + accepted) poll \<Rightarrow> ((io_kind + unit) poll \<times> select_task list) option" where
  "poll_listen g l a =
     (case a of
        Pending \<Rightarrow> Some (Pending, [])
      | Ready (Inl e) \<Rightarrow> Some (Ready (Inl e), [])
      | Ready (Inr (stream, Inl _)) \<Rightarrow> Some (Ready (Inr ()), [])
      | Ready (Inr (stream, Inr remote_address)) \<Rightarrow>
          map_option (\<lambda>mode. (Ready (Inr ()), [(stream, mode, remote_address)])) (upgrade_from_u8 (lg_modes g ! tl_upgrade_mode l)))"

section \<open>Peeking\<close>

lemma ts_peek_keeps: "ts_peek k s = Finished (r, s') \<Longrightarrow> s' = s\<lparr>ts_peeks := tl (ts_peeks s)\<rparr> \<and> (\<forall>b. r = Inr b \<longrightarrow> (\<exists>n. b = take (min k n) (ts_data s)))"
  by (auto simp: ts_peek_def split: list.splits sum.splits)

lemma ts_time_up_keeps: "ts_time_up s = (b, s') \<Longrightarrow> ts_data s' = ts_data s"
  by (auto simp: ts_time_up_def split: list.splits)

lemma peek_sixteen_keeps:
  "peek_sixteen s = Finished (r, s') \<Longrightarrow> ts_data s' = ts_data s \<and> (\<forall>b. r = Some b \<longrightarrow> b = take 16 (ts_data s) \<and> length b = 16)"
proof (induction s arbitrary: r s' rule: peek_sixteen.induct)
  case (1 s)
  show ?case
  proof (cases "ts_peek 16 s")
    case (Finished x)
    then obtain q t where t: "ts_peek 16 s = Finished (q, t)" by (cases x) simp
    from ts_peek_keeps [OF t] have d: "ts_data t = ts_data s" by simp
    show ?thesis
    proof (cases q)
      case (Inl e)
      with "1.prems" t d show ?thesis by (simp add: peek_sixteen.simps [of s])
    next
      case (Inr b)
      from ts_peek_keeps [OF t] Inr obtain n where b: "b = take (min 16 n) (ts_data s)" by auto
      show ?thesis
      proof (cases "length b = 16")
        case True
        then have "b = take 16 (ts_data s)" using b by (simp add: min_def split: if_splits)
        with True "1.prems" t d Inr show ?thesis by (auto simp: peek_sixteen.simps [of s])
      next
        case False
        obtain up u where u: "ts_time_up t = (up, u)" by (cases "ts_time_up t")
        with ts_time_up_keeps [OF u] d have du: "ts_data u = ts_data s" by simp
        show ?thesis
        proof (cases up)
          case True
          with False "1.prems" t u Inr du show ?thesis by (simp add: peek_sixteen.simps [of s])
        next
          case up: False
          with False "1.prems" t u Inr have "peek_sixteen u = Finished (r, s')" by (simp add: peek_sixteen.simps [of s])
          with "1.IH" [OF t _ Inr False] u up du show ?thesis by auto
        qed
      qed
    qed
  qed (use "1.prems" in \<open>simp_all add: peek_sixteen.simps [of s]\<close>)
qed

lemma peek_sixteen_arrived:
  "ts_peeks s = Inr n # r \<Longrightarrow> 16 \<le> n \<Longrightarrow> 16 \<le> length (ts_data s) \<Longrightarrow>
     peek_sixteen s = Finished (Some (take 16 (ts_data s)), s\<lparr>ts_peeks := r\<rparr>)"
  by (subst peek_sixteen.simps) (simp add: ts_peek_def min_def)

section \<open>What the first bytes say\<close>

lemma le32_at_number: "i + 4 \<le> length b \<Longrightarrow> unat (le32_at b i) = number_at le_numbers b i"
proof -
  assume "i + 4 \<le> length b"
  then have "drop i b = b ! i # b ! (i + 1) # b ! (i + 2) # b ! (i + 3) # drop (i + 4) b"
    by (simp add: Cons_nth_drop_Suc numeral_eq_Suc)
  then show ?thesis by (simp add: le32_at_def number_at_def le_numbers_def)
qed

lemma word_of_unat: "unat x = n \<Longrightarrow> x = of_nat n"
  by auto

lemma le32_at_append: "length x = 4 \<Longrightarrow> le32_at (x @ y) (4 + i) = le32_at y i"
  by (simp add: le32_at_def nth_append add.commute)

lemma le32_at_take: "i + 4 \<le> n \<Longrightarrow> le32_at (take n y) i = le32_at y i"
  by (simp add: le32_at_def)

lemma be32_at_put: "be32_at (put_u32 x @ y) 0 = x"
  by (rule put_u32_cases [of x]) (simp add: be32_at_def)

text \<open>A secio connection starts with the frame of a proposition.\<close>

definition secio_start :: "propose \<Rightarrow> bytes" where
  "secio_start p = (let w = propose_encode le_numbers p in put_u32 (of_nat (length w)) @ w)"

lemma secio_start_length: "16 \<le> length (secio_start p)"
  by (simp add: secio_start_def propose_encode_def propose_write_def table_write_length [OF le_numbers_ok] Let_def)

lemma secio_detected:
  assumes "propose_ok le_numbers p"
  shows "looks_like_tcp (take 16 (secio_start p @ rest))"
proof -
  let ?fs = "[fixvec_write le_numbers (p_rand p), fixvec_write le_numbers (p_pubkey p), fixvec_write le_numbers (p_exchange p),
      fixvec_write le_numbers (p_ciphers p), fixvec_write le_numbers (p_hashes p)]"
  let ?w = "table_write le_numbers ?fs"
  have w: "propose_encode le_numbers p = ?w" by (simp add: propose_encode_def propose_write_def)
  have small: "length ?w < 2 ^ 32" using assms w by (simp add: propose_ok_def)
  have len: "length ?w = 24 + length (concat ?fs)" by (simp add: table_write_length [OF le_numbers_ok])
  let ?b = "take 16 (secio_start p @ rest)"
  have b: "?b = put_u32 (of_nat (length ?w)) @ take 12 ?w"
    using len by (simp add: secio_start_def w Let_def)
  have at: "le32_at ?b (4 + i) = le32_at ?w i" if "i \<le> 8" for i
    using that unfolding b by (subst le32_at_append) (simp_all add: le32_at_take)
  have num: "unat (le32_at ?b (4 + i)) = number_at le_numbers ?w i" if "i \<le> 8" for i
    using at [OF that] le32_at_number [of i ?w] len that by simp
  note n = table_write_number [OF le_numbers_ok small]
  have "be32_at ?b 0 = of_nat (length ?w)" unfolding b by (rule be32_at_put)
  moreover have m: "unat (le32_at ?b 4) = length ?w" using num [of 0] n(1) by simp
  then have "le32_at ?b 4 = of_nat (length ?w)" by (rule word_of_unat)
  moreover have s: "unat (le32_at ?b 8) = 24" using num [of 4] n(2) [of 0] by simp
  then have "le32_at ?b 8 = 24" by (simp add: word_unat_eq_iff)
  moreover have e: "unat (le32_at ?b 12) = 28 + length (p_rand p)"
    using num [of 8] n(2) [of 1] by (simp add: fixvec_write_def length_pack [OF le_numbers_ok])
  have "24 < unat (le32_at ?b 12)" "unat (le32_at ?b 12) < length ?w"
    unfolding e using len by (simp_all add: fixvec_write_def length_pack [OF le_numbers_ok])
  then have "24 < le32_at ?b 12" "le32_at ?b 12 < le32_at ?b 4" using m by (simp_all add: word_less_nat_alt)
  ultimately show ?thesis by (simp add: looks_like_tcp_def Let_def)
qed

lemma yamux_detected:
  assumes "f = new_window_update (flags_from Syn) i d \<and> i \<noteq> 0 \<or> f = new_ping (flags_from Syn) d" and "4 \<le> length rest"
  shows "looks_like_tcp (take 16 (encode f [] @ rest))"
proof -
  obtain ty i' where e: "encode f [] @ rest = 0 # ty # 0 # 1 # put_u32 i' @ put_u32 d @ rest"
    and ty: "ty = 1 \<and> i' \<noteq> 0 \<or> ty = 2 \<and> i' = 0"
    using assms(1)
    by (auto simp: encode_def encode_header_def new_window_update_def new_ping_def PROTOCOL_VERSION_def RESERVED_STREAM_ID_def
        flags_from_def flags_value_def put_u16_def)
  have "be32_at (take 16 (encode f [] @ rest)) 4 = i'"
    unfolding e by (rule put_u32_cases [of i']) (simp add: be32_at_def)
  moreover have "be16 0 1 = 1" by (simp add: be16_def)
  ultimately show ?thesis using ty by (auto simp: looks_like_tcp_def Let_def e)
qed

section \<open>Properties\<close>

lemma socketaddr_read_back: "varint_ok vi \<Longrightarrow> multiaddr_to_socketaddr vi (socketaddr_to_multiaddr vi a) = Some (Inr (Some a))"
  unfolding multiaddr_to_socketaddr_def find_pair_first [OF socketaddr_valid]
  by (cases a; cases "sa_ip a") (simp_all add: starts_ip_def ip_port_def)

lemma pushed_read_back:
  assumes "varint_ok vi" and "wf_protocol vi p"
  shows "multiaddr_to_socketaddr vi (push vi p (socketaddr_to_multiaddr vi a)) = Some (Inr (Some a))"
  unfolding multiaddr_to_socketaddr_def find_pair_first [OF push_valid [OF assms(1) socketaddr_valid [OF assms(1)] assms(2)]]
  by (cases a; cases "sa_ip a") (simp_all add: starts_ip_def ip_port_def)

text \<open>The connection that was handed over is the one with the bytes \<open>d\<close>, or what the acceptance of that one returned.\<close>

fun hands_over :: "accept_env \<Rightarrow> bytes \<Rightarrow> multi_stream \<Rightarrow> bool" where
  "hands_over ae d (MTcp t) = (ts_data t = d)"
| "hands_over ae d (MWs t) = (\<exists>u. ts_data u = d \<and> ae_accept_ws ae u = Accepted t)"
| "hands_over ae d (MTls t) = (\<exists>u. ts_data u = d \<and> ae_accept_tls ae u = Accepted t)"

lemma untrusted_selects:
  assumes vi: "varint_ok (ae_varint ae)" and u: "sa_ip remote \<notin> set trusted"
  shows "select_tcp ae trusted pp s remote = Finished (Some (a, ms)) \<Longrightarrow>
      hands_over ae (ts_data s) ms \<and> multiaddr_to_socketaddr (ae_varint ae) a = Some (Inr (Some remote))"
    and "select_tls ae trusted pp s remote = Finished (Some (a, ms)) \<Longrightarrow>
      hands_over ae (ts_data s) ms \<and> multiaddr_to_socketaddr (ae_varint ae) a = Some (Inr (Some remote))"
    and "select_ws ae trusted s remote = Finished (Some (a, ms)) \<Longrightarrow>
      hands_over ae (ts_data s) ms \<and> multiaddr_to_socketaddr (ae_varint ae) a = Some (Inr (Some remote))"
proof -
  have wf: "wf_protocol (ae_varint ae) (Tls [])" "wf_protocol (ae_varint ae) Ws" by (simp_all add: wf_protocol_def utf8_valid_def)
  note reads = socketaddr_read_back [OF vi] pushed_read_back [OF vi wf(1)] pushed_read_back [OF vi wf(2)]
  show "select_tcp ae trusted pp s remote = Finished (Some (a, ms)) \<Longrightarrow>
      hands_over ae (ts_data s) ms \<and> multiaddr_to_socketaddr (ae_varint ae) a = Some (Inr (Some remote))"
    using u by (auto simp: select_tcp_def with_proxy_def reads)
  show "select_tls ae trusted pp s remote = Finished (Some (a, ms)) \<Longrightarrow>
      hands_over ae (ts_data s) ms \<and> multiaddr_to_socketaddr (ae_varint ae) a = Some (Inr (Some remote))"
    using u by (auto simp: select_tls_def with_proxy_def reads split: accept_outcome.splits)
  show "select_ws ae trusted s remote = Finished (Some (a, ms)) \<Longrightarrow>
      hands_over ae (ts_data s) ms \<and> multiaddr_to_socketaddr (ae_varint ae) a = Some (Inr (Some remote))"
    using u by (auto simp: select_ws_def reads split: accept_outcome.splits)
qed

text \<open>C25. A peer that is not a trusted proxy cannot choose the address it appears under. Whatever the mode of the listener and whatever
  the peer sends, the address that comes with the connection is that of its socket. The listener itself consumes none of its bytes: a
  TCP connection is handed over with all of them, and the handshake of a websocket or TLS connection, which reads its own part, is
  given all of them.\<close>

theorem untrusted_address_kept:
  assumes "varint_ok (ae_varint ae)" and "sa_ip remote \<notin> set trusted"
    and "protocol_select ae trusted mode s remote = Finished (Some (a, ms))"
  shows "multiaddr_to_socketaddr (ae_varint ae) a = Some (Inr (Some remote)) \<and> hands_over ae (ts_data s) ms"
proof -
  from assms(3) obtain b t where b: "peek_sixteen s = Finished (Some b, t)"
    by (cases "peek_sixteen s") (auto simp: protocol_select_def split: option.splits)
  from peek_sixteen_keeps [OF b] have d: "ts_data t = ts_data s" by simp
  have "\<exists>pp. select_tcp ae trusted pp t remote = Finished (Some (a, ms)) \<or> select_tls ae trusted pp t remote = Finished (Some (a, ms)) \<or>
      select_ws ae trusted t remote = Finished (Some (a, ms))"
    using assms(2,3) b
    by (cases mode) (auto simp: protocol_select_def select_tcp_tls_def split: if_splits)
  with untrusted_selects [OF assms(1,2)] d show ?thesis by metis
qed

text \<open>Instances of the parameters; the handshake of a websocket here reads one byte.\<close>

definition plain_accept :: accept_env where
  "plain_accept = \<lparr>ae_text = plain_text, ae_varint = leb128, ae_parse_request = (\<lambda>_ _. None), ae_accept_ws = (\<lambda>s. Accepted (s\<lparr>ts_data := drop 1 (ts_data s)\<rparr>)),
     ae_accept_tls = Accepted\<rparr>"

theorem untrusted_address_kept_witness:
  "\<exists>a ms. protocol_select plain_accept [] OnlyWs sample_proxied sample_source = Finished (Some (a, ms)) \<and>
     multiaddr_to_socketaddr leb128 a = Some (Inr (Some sample_source)) \<and> hands_over plain_accept (ts_data sample_proxied) ms"
proof -
  have "16 \<le> length (ts_data sample_proxied)" by (simp add: sample_proxied_def v2_header_def PROXY_V2_SIGNATURE_def)
  then have "peek_sixteen sample_proxied = Finished (Some (take 16 (ts_data sample_proxied)), sample_proxied\<lparr>ts_peeks := []\<rparr>)"
    by (intro peek_sixteen_arrived [of _ 31]) (simp_all add: sample_proxied_def)
  then obtain a ms where s: "protocol_select plain_accept [] OnlyWs sample_proxied sample_source = Finished (Some (a, ms))"
    by (simp add: protocol_select_def select_ws_def plain_accept_def)
  have "varint_ok (ae_varint plain_accept)" "sa_ip sample_source \<notin> set []" by (simp_all add: plain_accept_def leb128_ok)
  from untrusted_address_kept [OF this s] s show ?thesis by (auto simp: plain_accept_def)
qed

text \<open>C26. On a port shared by TCP and TLS, a connection of a peer that is not a trusted proxy is taken as TCP, with all its bytes, if its
  first sixteen bytes have arrived at the first look and it starts with a secio proposition, with a yamux window update that opens a
  stream (its flag is SYN and its stream is not 0), or with a yamux ping with the flag SYN. A yamux data frame that opens a stream is not
  among them.\<close>

theorem secio_and_yamux_detected:
  assumes "sa_ip remote \<notin> set trusted" and "ts_peeks s = Inr n # r" and "16 \<le> n"
    and "(\<exists>p. propose_ok le_numbers p \<and> ts_data s = secio_start p @ rest) \<or>
      (\<exists>f i d. (f = new_window_update (flags_from Syn) i d \<and> i \<noteq> 0 \<or> f = new_ping (flags_from Syn) d) \<and>
        ts_data s = encode f [] @ rest \<and> 4 \<le> length rest)"
  shows "protocol_select ae trusted TcpAndTls s remote =
    Finished (Some (socketaddr_to_multiaddr (ae_varint ae) remote, MTcp (s\<lparr>ts_peeks := r\<rparr>)))"
proof -
  have len: "16 \<le> length (ts_data s)"
  proof (cases "\<exists>p. ts_data s = secio_start p @ rest")
    case True
    then obtain p where "ts_data s = secio_start p @ rest" by blast
    with secio_start_length [of p] show ?thesis by simp
  qed (use assms(4) in \<open>auto simp: encode_def encode_header_def\<close>)
  have "looks_like_tcp (take 16 (ts_data s))" using assms(4) secio_detected yamux_detected by metis
  with peek_sixteen_arrived [OF assms(2,3) len] assms(1) show ?thesis
    by (simp add: protocol_select_def select_tcp_tls_def select_tcp_def with_proxy_def)
qed

definition sample_propose :: propose where
  "sample_propose = \<lparr>p_rand = [1], p_pubkey = [2], p_exchange = [], p_ciphers = [], p_hashes = []\<rparr>"

definition sample_secio_stream :: tcp_stream where
  "sample_secio_stream = \<lparr>ts_data = secio_start sample_propose, ts_end = None, ts_peeks = [Inr 50], ts_clock = []\<rparr>"

lemma sample_propose_ok: "propose_ok le_numbers sample_propose"
proof -
  have "length (propose_encode le_numbers sample_propose) < 100" by code_simp
  then show ?thesis by (simp add: propose_ok_def) (simp add: sample_propose_def utf8_valid_def)
qed

theorem secio_and_yamux_detected_witness:
  "protocol_select plain_accept [] TcpAndTls sample_secio_stream sample_source =
     Finished (Some (socketaddr_to_multiaddr leb128 sample_source, MTcp (sample_secio_stream\<lparr>ts_peeks := []\<rparr>)))"
proof -
  have "sa_ip sample_source \<notin> set []" "ts_peeks sample_secio_stream = Inr 50 # []" "16 \<le> (50 :: nat)"
    by (simp_all add: sample_secio_stream_def)
  from secio_and_yamux_detected [OF this, of "[]" plain_accept] sample_propose_ok show ?thesis
    by (auto simp: plain_accept_def sample_secio_stream_def)
qed

text \<open>C37. The detection of TCP looks at the wrong bytes behind a proxy. A trusted proxy that opens a connection of its own sends a header
  with the command LOCAL. The header is consumed, but the bytes examined afterwards are those peeked before, the header's: a secio
  connection after it is taken as TLS, while the same bytes without the header are taken as TCP.\<close>

theorem local_header_hides_secio:
  assumes "sa_ip remote \<in> set trusted" and "ts_peeks s = [Inr n, Inr m]" and "16 \<le> n" and "16 \<le> m" and "ts_clock s = []"
    and "ts_data s = v2_header 0x20 fam [] @ secio_start p @ rest"
  shows "protocol_select ae trusted TcpAndTls s remote =
    (let t = s\<lparr>ts_peeks := [], ts_data := secio_start p @ rest\<rparr> in
     Finished (case ae_accept_tls ae t of
       Accepted u \<Rightarrow> Some (push (ae_varint ae) (Tls []) (socketaddr_to_multiaddr (ae_varint ae) remote), MTls u)
     | _ \<Rightarrow> None))"
proof -
  let ?h = "v2_header 0x20 fam []" and ?s = "s\<lparr>ts_peeks := [Inr m]\<rparr>" and ?t = "s\<lparr>ts_peeks := [], ts_data := secio_start p @ rest\<rparr>"
  have h: "length ?h = 16" by (simp add: v2_header_def PROXY_V2_SIGNATURE_def)
  then have b: "take 16 (ts_data s) = ?h" by (simp add: assms(6))
  have "16 \<le> length (ts_data s)" using h by (simp add: assms(6))
  from peek_sixteen_arrived [OF assms(2,3) this] b have k: "peek_sixteen s = Finished (Some ?h, ?s)" by simp
  have d: "ts_data ?s = v2_header 0x20 fam [] @ secio_start p @ rest" "ts_peeks ?s = Inr m # []" "13 \<le> m"
    using assms(4,6) by simp_all
  have v: "parse_proxy_protocol (ae_text ae) ?s = Finished (parse_proxy_protocol_v2 (?s\<lparr>ts_peeks := []\<rparr>))"
    by (rule v2_detected [OF d(1) _ d(2,3)]) simp
  have "ts_data (?s\<lparr>ts_peeks := []\<rparr>) = v2_header 0x20 fam [] @ secio_start p @ rest" using assms(6) by simp
  from v2_stream_read [OF this] have "parse_proxy_protocol_v2 (?s\<lparr>ts_peeks := []\<rparr>) = (NotProxyProtocol, ?t)"
    by (simp add: PROXY_V2_MAX_ADDR_LEN_def parse_proxy_v2_bytes_def PROXY_V2_SIGNATURE_def Let_def)
  with v have x: "timed_proxy ae ?s = Finished (Some NotProxyProtocol, ?t)"
    by (simp add: timed_proxy_def ts_time_up_def assms(5))
  have "\<not> looks_like_tcp ?h"
    by (simp add: looks_like_tcp_def Let_def v2_header_def PROXY_V2_SIGNATURE_def be32_at_def le32_at_def be32_def be16_def)
  with k x assms(1) show ?thesis
    by (simp add: protocol_select_def select_tcp_tls_def select_tls_def with_proxy_def Let_def)
qed

definition sample_local_stream :: tcp_stream where
  "sample_local_stream =
     \<lparr>ts_data = v2_header 0x20 0 [] @ secio_start sample_propose, ts_end = None, ts_peeks = [Inr 50, Inr 50], ts_clock = []\<rparr>"

theorem local_header_hides_secio_witness:
  "protocol_select plain_accept [sa_ip sample_source] TcpAndTls sample_local_stream sample_source =
     Finished (Some (push leb128 (Tls []) (socketaddr_to_multiaddr leb128 sample_source),
       MTls (sample_local_stream\<lparr>ts_peeks := [], ts_data := secio_start sample_propose\<rparr>)))"
  using local_header_hides_secio [of sample_source "[sa_ip sample_source]" sample_local_stream 50 50 0 sample_propose "[]" plain_accept]
  by (simp add: sample_local_stream_def plain_accept_def Let_def)

text \<open>C38. A listener for websockets that is extended by TLS on the same port stops with a panic. Binding the second transport
  succeeds, but the combination of the two is not one of the modes, and the next connection makes the listener fail at
  \<^verbatim>\<open>unreachable!\<close>.\<close>

theorem ws_with_tls_panics:
  assumes "lg_listens g sa = Some c" and "c < length (lg_modes g)" and "lg_modes g ! c = upgrade_bits OnlyWs"
    and "multiaddr_to_socketaddr vi addr = Some (Inr (Some sa))" and "sa_port sa \<noteq> 0"
    and "parse_tls_domain_name vi addr = Some (Inr (Some d))" and "tl_upgrade_mode l = c"
  shows "\<exists>la g'. bind vi tcp_listen (Inr addr) LTls trusted g = Some (Inr (Inr (la, Upgrade), g')) \<and>
    poll_listen g' l (Ready (Inr (stream, Inr remote))) = None"
  using assms
  by (simp add: bind_def Let_def listen_addr_def poll_listen_def nth_append combine_def upgrade_from_u8_def list_update_append)

definition sample_listen :: multiaddr where
  "sample_listen = from_iter leb128 [Ip4 (10, 0, 0, 1), Tcp 443, Tls [97]]"

definition sample_listen_addr :: socket_addr where
  "sample_listen_addr = \<lparr>sa_ip = V4 (10, 0, 0, 1), sa_port = 443\<rparr>"

lemma sample_listen_reads:
  shows "multiaddr_to_socketaddr leb128 sample_listen = Some (Inr (Some sample_listen_addr))"
    and "parse_tls_domain_name leb128 sample_listen = Some (Inr (Some [97]))"
proof -
  have "utf8_valid [97]" by code_simp
  then have v: "iter_all leb128 (ma_bytes sample_listen) = Some (Inr [Ip4 (10, 0, 0, 1), Tcp 443, Tls [97]])"
    unfolding sample_listen_def from_iter_def multiaddr.select_convs
    by (intro iter_all_concat [OF leb128_ok]) (auto simp: wf_protocol_def)
  show "multiaddr_to_socketaddr leb128 sample_listen = Some (Inr (Some sample_listen_addr))"
    by (simp add: multiaddr_to_socketaddr_def find_pair_first [OF v] starts_ip_def ip_port_def sample_listen_addr_def)
  show "parse_tls_domain_name leb128 sample_listen = Some (Inr (Some [97]))"
    by (simp add: parse_tls_domain_name_def find_map_first [OF v] tls_domain_def)
qed

theorem ws_with_tls_panics_witness:
  "\<exists>la g'. bind leb128 Inr (Inr sample_listen) LTls [] \<lparr>lg_modes = [2], lg_listens = [sample_listen_addr \<mapsto> 0]\<rparr> =
       Some (Inr (Inr (la, Upgrade), g')) \<and>
     poll_listen g' \<lparr>tl_local_addr = sample_listen_addr, tl_upgrade_mode = 0, tl_trusted_proxies = []\<rparr>
       (Ready (Inr (sample_proxied, Inr sample_source))) = None"
  using ws_with_tls_panics [OF _ _ _ sample_listen_reads(1) _ sample_listen_reads(2),
      of "\<lparr>lg_modes = [2], lg_listens = [sample_listen_addr \<mapsto> 0]\<rparr>" 0
        "\<lparr>tl_local_addr = sample_listen_addr, tl_upgrade_mode = 0, tl_trusted_proxies = []\<rparr>" Inr "[]" sample_proxied sample_source]
  by (simp add: sample_listen_addr_def)

text \<open>An address whose socket cannot be bound is lost for the listeners. When binding fails, the entry of the address stays in the
  table; every later attempt on it, even when the socket could be bound, reports success as an extension of a listener that does
  not exist.\<close>

theorem failed_bind_leaves_entry:
  assumes "lg_listens g sa = None" and "multiaddr_to_socketaddr vi addr = Some (Inr (Some sa))" and "sa_port sa \<noteq> 0"
    and "tcp_listen sa = Inl e"
  shows "\<exists>g' g''. bind vi tcp_listen (Inr addr) LTcp trusted g = Some (Inr (Inl (TransportIo e), g')) \<and>
    bind vi tcp_listen' (Inr addr) LTcp trusted g' = Some (Inr (Inr (socketaddr_to_multiaddr vi sa, Upgrade), g''))"
  using assms by (simp add: bind_def Let_def listen_addr_def)

theorem failed_bind_leaves_entry_witness:
  "\<exists>g' g''. bind leb128 (\<lambda>_. Inl IoOther) (Inr sample_listen) LTcp [] \<lparr>lg_modes = [], lg_listens = Map.empty\<rparr> =
       Some (Inr (Inl (TransportIo IoOther), g')) \<and>
     bind leb128 Inr (Inr sample_listen) LTcp [] g' =
       Some (Inr (Inr (socketaddr_to_multiaddr leb128 sample_listen_addr, Upgrade), g''))"
  using failed_bind_leaves_entry [OF _ sample_listen_reads(1), of "\<lparr>lg_modes = [], lg_listens = Map.empty\<rparr>" "\<lambda>_. Inl IoOther" IoOther "[]" Inr]
  by (simp add: sample_listen_addr_def)

end
