(* ===== verification/Protocol_Messages.thy ===== *)
theory Protocol_Messages
  imports Wire_Codec Multiaddr
begin

text \<open>
  The messages of the protocols of the repository: ping (\<^verbatim>\<open>protocols/ping/src/lib.rs\<close>), identify and discovery
  (\<^verbatim>\<open>protocols/identify/src/protocol.rs\<close>, \<^verbatim>\<open>protocols/discovery/src/protocol.rs\<close>), and the message of the protocol
  selection (\<^verbatim>\<open>tentacle/src/protocol_select/mod.rs\<close>), each with the generated types it is made of. The first three are
  generated by the older version of the generator.

  A decoder returns \<open>Some None\<close> for \<^verbatim>\<open>None\<close>, and \<open>None\<close> if it panics, reads beyond a slice or through a misaligned pointer, or does
  not end. The decoders of pings and of discovery messages are given the address of their data, since they read numbers through
  pointers. Each message is an interpretation of \<open>wire_message\<close>: it is read back from its encoding, and no bytes make the decoder
  panic, for the two decoders with pointers if the address is a multiple of 4.
\<close>

section \<open>Ping\<close>

datatype ping_payload = Ping u32 | Pong u32

definition ping_verify :: "molecule \<Rightarrow> verifier" where
  "ping_verify mo = table_verify_old mo [array_verify 4]"

definition ping_nonce :: "molecule \<Rightarrow> nat \<Rightarrow> bytes \<Rightarrow> u32 option option" where
  "ping_nonce mo = read_field_at mo 1 0 read_u32"

definition ping_write :: "molecule \<Rightarrow> bytes \<Rightarrow> bytes" where
  "ping_write mo nonce = table_write mo [nonce]"

definition pong_verify :: "molecule \<Rightarrow> verifier" where
  "pong_verify mo = table_verify_old mo [array_verify 4]"

definition pong_nonce :: "molecule \<Rightarrow> nat \<Rightarrow> bytes \<Rightarrow> u32 option option" where
  "pong_nonce mo = read_field_at mo 1 0 read_u32"

definition pong_write :: "molecule \<Rightarrow> bytes \<Rightarrow> bytes" where
  "pong_write mo nonce = table_write mo [nonce]"

definition ping_payload_verify :: "molecule \<Rightarrow> verifier" where
  "ping_payload_verify mo = union_verify mo [ping_verify mo, pong_verify mo]"

definition ping_payload_match :: "molecule \<Rightarrow> nat \<Rightarrow> nat \<Rightarrow> bytes \<Rightarrow> ping_payload option option" where
  "ping_payload_match mo item p inner =
     (if item = 0 then map_option (map_option Ping) (ping_nonce mo p inner)
      else map_option (map_option Pong) (pong_nonce mo p inner))"

definition ping_message_verify :: "molecule \<Rightarrow> verifier" where
  "ping_message_verify mo = table_verify_old mo [ping_payload_verify mo]"

definition ping_message_write :: "molecule \<Rightarrow> bytes \<Rightarrow> bytes" where
  "ping_message_write mo payload = table_write mo [payload]"

definition ping_message_payload :: "molecule \<Rightarrow> nat \<Rightarrow> bytes \<Rightarrow> ping_payload option option" where
  "ping_message_payload mo = read_field_at mo 1 0 (read_union_at mo 2 (ping_payload_match mo))"

definition build_ping :: "molecule \<Rightarrow> u32 \<Rightarrow> bytes" where
  "build_ping mo nonce = ping_message_write mo (union_write mo 0 (ping_write mo (u32_write nonce)))"

definition build_pong :: "molecule \<Rightarrow> u32 \<Rightarrow> bytes" where
  "build_pong mo nonce = ping_message_write mo (union_write mo 1 (pong_write mo (u32_write nonce)))"

definition ping_decode :: "molecule \<Rightarrow> nat \<Rightarrow> bytes \<Rightarrow> ping_payload option option" where
  "ping_decode mo p data = verified (ping_message_verify mo data True) (ping_message_payload mo p data)"

fun ping_encode :: "molecule \<Rightarrow> ping_payload \<Rightarrow> bytes" where
  "ping_encode mo (Ping n) = build_ping mo n"
| "ping_encode mo (Pong n) = build_pong mo n"

lemmas ping_unfold = ping_verify_def ping_nonce_def ping_write_def pong_verify_def pong_nonce_def pong_write_def
  ping_payload_verify_def ping_message_verify_def ping_message_write_def ping_message_payload_def build_ping_def build_pong_def

lemma codes_single:
  assumes "mol_ok mo" and "codes v rd b x" and "length (table_write mo [b]) < 2 ^ 32"
  shows "codes (table_verify_old mo [v]) (read_field mo 1 0 rd) (table_write mo [b]) x"
  by (rule codes_field(2) [OF assms(1) _ _ assms(3)]) (use assms(2) in \<open>auto simp: codes_def\<close>)

lemma sound_single:
  assumes "mol_ok mo" and "sound_reader v rd"
  shows "sound_reader (table_verify_old mo [v]) (read_field mo 1 0 rd)"
  by (rule sound_table(2) [OF assms(1)]) (use assms(2) in \<open>auto simp: sound_reader_def\<close>)

lemma single_at:
  assumes "mol_ok mo" and "\<And>c. passes v c b" and "length (table_write mo [b]) < 2 ^ 32"
  shows "read_field_at mo 1 0 rd p (table_write mo [b]) = rd (p + 8) b" and "passes (table_verify_old mo [v]) c (table_write mo [b])"
  using table_reads_at [OF assms(1) _ _ assms(3), of "[v]" 0 rd p] table_reads(2) [OF assms(1) _ _ assms(3), of "[v]"] assms(2)
  by simp_all

lemma ping_decode_encode:
  assumes mo: "mol_ok mo"
  shows "ping_decode mo p (ping_encode mo m) = (if p mod 4 = 0 then Some (Some m) else None)"
proof -
  define n k where "n = (case m of Ping n \<Rightarrow> n | Pong n \<Rightarrow> n)" and "k = (case m of Ping _ \<Rightarrow> 0 :: nat | Pong _ \<Rightarrow> 1)"
  have k: "k < length [ping_verify mo, pong_verify mo]" "k < 2 ^ 32" by (simp_all add: k_def split: ping_payload.split)
  let ?t = "table_write mo [u32_write n]" and ?items = "[ping_verify mo, pong_verify mo]"
  let ?u = "union_write mo k ?t"
  have e: "ping_encode mo m = table_write mo [?u]" by (cases m) (simp_all add: ping_unfold n_def k_def)
  have len: "length ?t < 2 ^ 32" "length (table_write mo [?u]) < 2 ^ 32"
    by (simp_all add: table_write_length [OF mo] union_write_def length_pack [OF mo])
  have "passes (array_verify 4) c (u32_write n)" for c by (simp add: array_written)
  note 1 = single_at [OF mo this len(1)]
  have t: "passes (?items ! k) c ?t" for c using 1(2) by (cases m) (simp_all add: k_def ping_unfold)
  note 2 = union_reads [OF mo k t]
  have "passes (union_verify mo ?items) c ?u" for c using 2(1) by simp
  note 3 = single_at [OF mo this len(2)]
  have "ping_payload_match mo k q ?t = (if q mod 4 = 0 then Some (Some m) else None)" for q
  proof -
    have "(q + 8) mod 4 = q mod 4" by presburger
    then show ?thesis
      using 1(1) [of read_u32 q] read_u32_write [of "q + 8" n] by (cases m) (simp_all add: ping_payload_match_def ping_unfold n_def k_def)
  qed
  moreover have "(p + 8 + 4) mod 4 = p mod 4" by presburger
  moreover have "to_enum mo 2 ?u = Some (k, ?t)" using 2(2) by (simp add: numeral_2_eq_2)
  ultimately have "read_union_at mo 2 (ping_payload_match mo) (p + 8) ?u = (if p mod 4 = 0 then Some (Some m) else None)"
    by (simp add: read_union_at_def read_union_def)
  with 3(1) [of "read_union_at mo 2 (ping_payload_match mo)" p] 3(2) verified_passes [of "ping_message_verify mo" "ping_encode mo m" "ping_message_payload mo p (ping_encode mo m)"] show ?thesis
    by (simp add: ping_decode_def e ping_message_verify_def ping_message_payload_def ping_payload_verify_def)
qed

interpretation ping_msg: wire_message "\<lambda>e :: molecule \<times> nat. mol_ok (fst e) \<and> snd e mod 4 = 0" "ping_encode \<circ> fst" "\<lambda>e. ping_decode (fst e) (snd e)" "\<lambda>_ _. True"
proof unfold_locales
  fix e :: "molecule \<times> nat" and m assume "mol_ok (fst e) \<and> snd e mod 4 = 0"
  then show "ping_decode (fst e) (snd e) ((ping_encode \<circ> fst) e m) = Some (Some m)" by (simp add: ping_decode_encode)
next
  fix e :: "molecule \<times> nat" and b assume "mol_ok (fst e) \<and> snd e mod 4 = 0"
  then have mo: "mol_ok (fst e)" and p: "snd e mod 4 = 0" by simp_all
  let ?mo = "fst e"
  have s: "sound_reader (table_verify_old ?mo [v]) (read_field_at ?mo 1 0 rd q)"
    if "\<And>q. q mod 4 = 0 \<Longrightarrow> sound_reader v (rd q)" "q mod 4 = 0" for v q and rd :: "nat \<Rightarrow> bytes \<Rightarrow> 'x option option"
    by (rule sound_table_at [OF mo]) (use that in \<open>auto simp: sound_reader_def\<close>)
  have "sound_reader ([ping_verify ?mo, pong_verify ?mo] ! i) (ping_payload_match ?mo i q)" if "i < 2" "q mod 4 = 0" for i q
    using sound_map [OF s [OF sound_u32 that(2)]] that(1)
    by (cases "i = 0") (simp_all add: ping_unfold ping_payload_match_def [abs_def] less_2_cases_iff)
  then have "sound_reader (ping_payload_verify ?mo) (read_union_at ?mo 2 (ping_payload_match ?mo) q)" if "q mod 4 = 0" for q
    unfolding ping_payload_verify_def read_union_at_def using that by (intro sound_union) auto
  from s [OF this p] show "\<exists>r. ping_decode (fst e) (snd e) b = Some r"
    unfolding ping_decode_def by (intro sound_decode) (simp add: ping_message_verify_def ping_message_payload_def)
qed

section \<open>Identify\<close>

text \<open>\<^verbatim>\<open>Multiaddr::try_from(x.raw_data().to_vec()).ok()\<close>.\<close>

definition read_addr :: "varint \<Rightarrow> bytes \<Rightarrow> multiaddr option option" where
  "read_addr vi sl =
     Option.bind (fixvec_raw_data sl) (\<lambda>b. map_option (\<lambda>r. case r of Inl _ \<Rightarrow> None | Inr a \<Rightarrow> Some a) (try_from vi b))"

definition addr_write :: "molecule \<Rightarrow> multiaddr \<Rightarrow> bytes" where
  "addr_write mo a = fixvec_write mo (to_vec a)"

record identify_message =
  im_listen_addrs :: "multiaddr list"
  im_observed_addr :: multiaddr
  im_identify :: bytes

definition address_verify :: "molecule \<Rightarrow> verifier" where
  "address_verify mo = table_verify_old mo [fixvec_verify mo]"

definition address_bytes :: "molecule \<Rightarrow> varint \<Rightarrow> bytes \<Rightarrow> multiaddr option option" where
  "address_bytes mo vi = read_field mo 1 0 (read_addr vi)"

definition address_write :: "molecule \<Rightarrow> multiaddr \<Rightarrow> bytes" where
  "address_write mo a = table_write mo [addr_write mo a]"

definition address_vec_verify :: "molecule \<Rightarrow> verifier" where
  "address_vec_verify mo = dynvec_verify_old mo (address_verify mo)"

definition identify_message_verify :: "molecule \<Rightarrow> verifier" where
  "identify_message_verify mo = table_verify_old mo [address_vec_verify mo, address_verify mo, fixvec_verify mo]"

definition identify_message_write :: "molecule \<Rightarrow> bytes \<Rightarrow> bytes \<Rightarrow> bytes \<Rightarrow> bytes" where
  "identify_message_write mo listen_addrs observed_addr identify = table_write mo [listen_addrs, observed_addr, identify]"

definition identify_encode :: "molecule \<Rightarrow> identify_message \<Rightarrow> bytes" where
  "identify_encode mo m =
     identify_message_write mo (dynvec_write mo (map (address_write mo) (im_listen_addrs m)))
       (address_write mo (im_observed_addr m)) (fixvec_write mo (im_identify m))"

text \<open>The fields of the table, each read through.\<close>

definition identify_listen_addrs :: "molecule \<Rightarrow> varint \<Rightarrow> bytes \<Rightarrow> multiaddr list option option" where
  "identify_listen_addrs mo vi = read_field mo 3 0 (read_dynvec mo (address_bytes mo vi))"

definition identify_observed_addr :: "molecule \<Rightarrow> varint \<Rightarrow> bytes \<Rightarrow> multiaddr option option" where
  "identify_observed_addr mo vi = read_field mo 3 1 (address_bytes mo vi)"

definition identify_identify :: "molecule \<Rightarrow> bytes \<Rightarrow> bytes option option" where
  "identify_identify mo = read_field mo 3 2 read_bytes"

lemmas identify_accessors = identify_listen_addrs_def identify_observed_addr_def identify_identify_def

definition identify_fields :: "molecule \<Rightarrow> varint \<Rightarrow> bytes \<Rightarrow> identify_message option option" where
  "identify_fields mo vi data =
     try_let (identify_identify mo data) (\<lambda>identify.
     try_let (identify_observed_addr mo vi data) (\<lambda>observed_addr.
     try_let (identify_listen_addrs mo vi data) (\<lambda>listen_addrs.
       Some (Some \<lparr>im_listen_addrs = listen_addrs, im_observed_addr = observed_addr, im_identify = identify\<rparr>))))"

definition identify_decode :: "molecule \<times> varint \<Rightarrow> bytes \<Rightarrow> identify_message option option" where
  "identify_decode e data = verified (identify_message_verify (fst e) data True) (identify_fields (fst e) (snd e) data)"

text \<open>What holds of every address the crate builds: its bytes are a sequence of components.\<close>

definition ma_valid :: "varint \<Rightarrow> multiaddr \<Rightarrow> bool" where
  "ma_valid vi a = (case iter_all vi (ma_bytes a) of Some (Inr _) \<Rightarrow> True | _ \<Rightarrow> False)"

lemma try_from_valid: "varint_ok vi \<Longrightarrow> ma_valid vi a \<Longrightarrow> try_from vi (ma_bytes a) = Some (Inr a)"
  by (auto simp: try_from_ok ma_valid_def split: option.splits sum.splits)

lemma try_from_total: "varint_ok vi \<Longrightarrow> \<exists>r. try_from vi b = Some r"
  using iter_all_total [of vi b] by (auto simp: try_from_def try_from_loop_eq)

lemma codes_addr:
  "mol_ok mo \<Longrightarrow> varint_ok vi \<Longrightarrow> ma_valid vi a \<Longrightarrow> length (addr_write mo a) < 2 ^ 32 \<Longrightarrow>
     codes (fixvec_verify mo) (read_addr vi) (addr_write mo a) a"
  using codes_bytes [of mo "to_vec a"] bytes_part_size [of "to_vec a" mo]
  by (auto simp: codes_def read_bytes_def read_addr_def addr_write_def to_vec_def try_from_valid)

lemma sound_addr: "varint_ok vi \<Longrightarrow> sound_reader (fixvec_verify mo) (read_addr vi)"
  using fixvec_passes try_from_total [of vi] by (fastforce simp: sound_reader_def fixvec_no_panic read_addr_def)

lemma codes_address:
  assumes "mol_ok mo" "varint_ok vi" and "ma_valid vi a" and "length (address_write mo a) < 2 ^ 32"
  shows "codes (address_verify mo) (address_bytes mo vi) (address_write mo a) a"
proof -
  have "length (addr_write mo a) < 2 ^ 32"
    using table_part_size [OF assms(1), of "addr_write mo a" "[addr_write mo a]"] assms(4) by (simp add: address_write_def)
  from codes_single [OF assms(1) codes_addr [OF assms(1-3) this]] assms(4) show ?thesis
    by (simp add: address_verify_def address_bytes_def address_write_def)
qed

lemma sound_address: "mol_ok mo \<Longrightarrow> varint_ok vi \<Longrightarrow> sound_reader (address_verify mo) (address_bytes mo vi)"
  unfolding address_verify_def address_bytes_def by (intro sound_single sound_addr)

definition wire_ok :: "molecule \<times> varint \<Rightarrow> bool" where
  "wire_ok e \<longleftrightarrow> mol_ok (fst e) \<and> varint_ok (snd e)"

definition identify_ok :: "molecule \<times> varint \<Rightarrow> identify_message \<Rightarrow> bool" where
  "identify_ok e m \<longleftrightarrow> (\<forall>a \<in> set (im_listen_addrs m). ma_valid (snd e) a) \<and> ma_valid (snd e) (im_observed_addr m) \<and>
     length (identify_encode (fst e) m) < 2 ^ 32"

lemma identify_codes:
  assumes mo: "mol_ok mo" and vi: "varint_ok vi" and ok: "identify_ok (mo, vi) m"
  shows "codes (identify_message_verify mo) (identify_fields mo vi) (identify_encode mo m) m"
proof -
  let ?l = "dynvec_write mo (map (address_write mo) (im_listen_addrs m))" and ?o = "address_write mo (im_observed_addr m)"
    and ?i = "fixvec_write mo (im_identify m)"
  let ?fs = "[address_vec_verify mo, address_verify mo, fixvec_verify mo]" and ?bs = "[?l, ?o, ?i]"
  have e: "identify_encode mo m = table_write mo ?bs" by (simp add: identify_encode_def identify_message_write_def)
  have small: "length (table_write mo ?bs) < 2 ^ 32" using ok e by (simp add: identify_ok_def)
  then have part: "length x < 2 ^ 32" if "x \<in> set ?bs" for x using table_part_size [OF mo that] by simp
  have l: "codes (address_vec_verify mo) (read_dynvec mo (address_bytes mo vi)) ?l (im_listen_addrs m)"
    unfolding address_vec_verify_def
  proof (rule codes_dynvec_old [OF mo])
    show "length ?l < 2 ^ 32" by (rule part) simp
    then have "length (address_write mo a) < 2 ^ 32" if "a \<in> set (im_listen_addrs m)" for a
      using dynvec_part_size [OF mo, of "address_write mo a" "map (address_write mo) (im_listen_addrs m)"] that by simp
    then show "codes (address_verify mo) (address_bytes mo vi) (address_write mo a) a" if "a \<in> set (im_listen_addrs m)" for a
      using codes_address [OF mo vi] that ok by (simp add: identify_ok_def)
  qed
  have o: "codes (address_verify mo) (address_bytes mo vi) ?o (im_observed_addr m)"
    by (rule codes_address [OF mo vi]) (use ok part in \<open>simp_all add: identify_ok_def\<close>)
  have i: "codes (fixvec_verify mo) read_bytes ?i (im_identify m)"
    by (rule codes_bytes [OF mo]) (use part [of ?i] bytes_part_size [of "im_identify m" mo] in simp)
  have all: "passes (?fs ! j) c (?bs ! j)" if "j < length ?fs" for j c
    using that l o i by (auto simp: codes_def less_Suc_eq)
  note f = codes_field(2) [OF mo _ _ small all, of 3]
  show ?thesis
    unfolding e identify_message_verify_def identify_fields_def [abs_def] identify_accessors
    by (intro codes_try [OF f [of 2 _ "im_identify m"]] codes_try [OF f [of 1 _ "im_observed_addr m"]]
          codes_try [OF f [of 0 _ "im_listen_addrs m"]])
      (use l o i table_reads(2) [OF mo _ _ small all] in \<open>simp_all add: codes_def\<close>)
qed

lemma identify_sound:
  assumes mo: "mol_ok mo" and vi: "varint_ok vi"
  shows "sound_reader (identify_message_verify mo) (identify_fields mo vi)"
proof -
  let ?fs = "[address_vec_verify mo, address_verify mo, fixvec_verify mo]"
  note a = sound_address [OF mo vi]
  have l: "sound_reader (address_vec_verify mo) (read_dynvec mo (address_bytes mo vi))"
    unfolding address_vec_verify_def by (rule sound_dynvec_old [OF mo a])
  have np: "no_panic v" if "v \<in> set ?fs" for v using that a l fixvec_no_panic by (auto simp: sound_reader_def)
  note f = sound_table(2) [OF mo np, of _ 3]
  show ?thesis
    unfolding identify_message_verify_def identify_fields_def [abs_def] identify_accessors
    by (intro sound_try sound_return f table_old_no_panic [OF mo _ np]) (use a l sound_bytes in auto)
qed

interpretation identify_msg: wire_message wire_ok "identify_encode \<circ> fst" identify_decode identify_ok
proof unfold_locales
  fix e m assume "wire_ok e" "identify_ok e m"
  then show "identify_decode e ((identify_encode \<circ> fst) e m) = Some (Some m)"
    using codes_decode [OF identify_codes] by (cases e) (simp add: wire_ok_def identify_decode_def)
next
  fix e b assume "wire_ok e"
  then show "\<exists>r. identify_decode e b = Some r"
    using sound_decode [OF identify_sound] by (simp add: wire_ok_def identify_decode_def)
qed

section \<open>Discovery\<close>

record node =
  node_addresses :: "multiaddr list"

record nodes =
  nodes_announce :: bool
  nodes_items :: "node list"

datatype discovery_message =
  GetNodes u32 u32 "u16 option"
  | Nodes nodes

definition get_nodes_verify :: "molecule \<Rightarrow> verifier" where
  "get_nodes_verify mo = table_verify_old mo [array_verify 4, array_verify 4, option_verify (array_verify 2)]"

definition get_nodes_version :: "molecule \<Rightarrow> nat \<Rightarrow> bytes \<Rightarrow> u32 option option" where
  "get_nodes_version mo = read_field_at mo 3 0 read_u32"

definition get_nodes_count :: "molecule \<Rightarrow> nat \<Rightarrow> bytes \<Rightarrow> u32 option option" where
  "get_nodes_count mo = read_field_at mo 3 1 read_u32"

definition get_nodes_listen_port :: "molecule \<Rightarrow> nat \<Rightarrow> bytes \<Rightarrow> u16 option option option" where
  "get_nodes_listen_port mo = read_field_at mo 3 2 (read_opt \<circ> read_u16)"

definition get_nodes_read :: "molecule \<Rightarrow> nat \<Rightarrow> bytes \<Rightarrow> discovery_message option option" where
  "get_nodes_read mo p sl =
     try_let (get_nodes_version mo p sl) (\<lambda>version.
     try_let (get_nodes_count mo p sl) (\<lambda>count.
     try_let (get_nodes_listen_port mo p sl) (\<lambda>listen_port.
       Some (Some (GetNodes version count listen_port)))))"

definition get_nodes_write :: "molecule \<Rightarrow> bytes \<Rightarrow> bytes \<Rightarrow> bytes \<Rightarrow> bytes" where
  "get_nodes_write mo version count listen_port = table_write mo [version, count, listen_port]"

definition bytes_vec_verify :: "molecule \<Rightarrow> verifier" where
  "bytes_vec_verify mo = dynvec_verify_old mo (fixvec_verify mo)"

definition node_verify :: "molecule \<Rightarrow> verifier" where
  "node_verify mo = table_verify_old mo [bytes_vec_verify mo]"

definition node_addresses_read :: "molecule \<Rightarrow> varint \<Rightarrow> bytes \<Rightarrow> multiaddr list option option" where
  "node_addresses_read mo vi = read_field mo 1 0 (read_dynvec mo (read_addr vi))"

definition node_read :: "molecule \<Rightarrow> varint \<Rightarrow> bytes \<Rightarrow> node option option" where
  "node_read mo vi sl =
     try_let (node_addresses_read mo vi sl) (\<lambda>addresses. Some (Some \<lparr>node_addresses = addresses\<rparr>))"

definition node_write :: "molecule \<Rightarrow> node \<Rightarrow> bytes" where
  "node_write mo n = table_write mo [dynvec_write mo (map (addr_write mo) (node_addresses n))]"

definition node_vec_verify :: "molecule \<Rightarrow> verifier" where
  "node_vec_verify mo = dynvec_verify_old mo (node_verify mo)"

definition nodes_verify :: "molecule \<Rightarrow> verifier" where
  "nodes_verify mo = table_verify_old mo [array_verify 1, node_vec_verify mo]"

text \<open>The match on \<^verbatim>\<open>reader.announce().as_slice()[0]\<close>; the index panics if the slice is empty.\<close>

fun read_announce :: "bytes \<Rightarrow> bool option option" where
  "read_announce [] = None"
| "read_announce (b # _) = Some (if b = 0 then Some False else if b = 1 then Some True else None)"

definition nodes_announce_read :: "molecule \<Rightarrow> bytes \<Rightarrow> bool option option" where
  "nodes_announce_read mo = read_field mo 2 0 read_announce"

definition nodes_items_read :: "molecule \<Rightarrow> varint \<Rightarrow> bytes \<Rightarrow> node list option option" where
  "nodes_items_read mo vi = read_field mo 2 1 (read_dynvec mo (node_read mo vi))"

lemmas discovery_accessors = get_nodes_version_def get_nodes_count_def get_nodes_listen_port_def node_addresses_read_def
  nodes_announce_read_def nodes_items_read_def

definition nodes_read :: "molecule \<Rightarrow> varint \<Rightarrow> bytes \<Rightarrow> discovery_message option option" where
  "nodes_read mo vi sl =
     try_let (nodes_announce_read mo sl) (\<lambda>announce.
     try_let (nodes_items_read mo vi sl) (\<lambda>items.
       Some (Some (Nodes \<lparr>nodes_announce = announce, nodes_items = items\<rparr>))))"

definition nodes_write :: "molecule \<Rightarrow> bytes \<Rightarrow> bytes \<Rightarrow> bytes" where
  "nodes_write mo announce items = table_write mo [announce, items]"

definition discovery_payload_verify :: "molecule \<Rightarrow> verifier" where
  "discovery_payload_verify mo = union_verify mo [get_nodes_verify mo, nodes_verify mo]"

definition discovery_match :: "molecule \<Rightarrow> varint \<Rightarrow> nat \<Rightarrow> nat \<Rightarrow> bytes \<Rightarrow> discovery_message option option" where
  "discovery_match mo vi item p inner = (if item = 0 then get_nodes_read mo p inner else nodes_read mo vi inner)"

definition discovery_message_verify :: "molecule \<Rightarrow> verifier" where
  "discovery_message_verify mo = table_verify_old mo [discovery_payload_verify mo]"

definition discovery_message_payload :: "molecule \<Rightarrow> varint \<Rightarrow> nat \<Rightarrow> bytes \<Rightarrow> discovery_message option option" where
  "discovery_message_payload mo vi = read_field_at mo 1 0 (read_union_at mo 2 (discovery_match mo vi))"

definition discovery_message_write :: "molecule \<Rightarrow> bytes \<Rightarrow> bytes" where
  "discovery_message_write mo payload = table_write mo [payload]"

fun discovery_message_encode :: "molecule \<Rightarrow> discovery_message \<Rightarrow> bytes" where
  "discovery_message_encode mo (GetNodes version count listen_port) =
     discovery_message_write mo (union_write mo 0
       (get_nodes_write mo (u32_write version) (u32_write count) (option_write (map_option u16_write listen_port))))"
| "discovery_message_encode mo (Nodes n) =
     discovery_message_write mo (union_write mo 1
       (nodes_write mo [if nodes_announce n then 1 else 0] (dynvec_write mo (map (node_write mo) (nodes_items n)))))"

definition discovery_message_decode :: "molecule \<times> varint \<Rightarrow> nat \<Rightarrow> bytes \<Rightarrow> discovery_message option option" where
  "discovery_message_decode e p data =
     verified (discovery_message_verify (fst e) data True) (discovery_message_payload (fst e) (snd e) p data)"

text \<open>The size of the whole message is a 32-bit number, and every address is valid.\<close>

fun discovery_addrs :: "discovery_message \<Rightarrow> multiaddr list" where
  "discovery_addrs (GetNodes _ _ _) = []"
| "discovery_addrs (Nodes n) = concat (map node_addresses (nodes_items n))"

definition discovery_ok :: "molecule \<times> varint \<Rightarrow> discovery_message \<Rightarrow> bool" where
  "discovery_ok e m \<longleftrightarrow> (\<forall>a \<in> set (discovery_addrs m). ma_valid (snd e) a) \<and> length (discovery_message_encode (fst e) m) < 2 ^ 32"

lemma get_nodes_codes:
  assumes mo: "mol_ok mo" and q: "q mod 4 = 0"
  shows "codes (get_nodes_verify mo) (get_nodes_read mo q)
    (get_nodes_write mo (u32_write v) (u32_write c) (option_write (map_option u16_write p))) (GetNodes v c p)"
proof -
  let ?fs = "[array_verify 4, array_verify 4, option_verify (array_verify 2)]"
    and ?bs = "[u32_write v, u32_write c, option_write (map_option u16_write p)]"
  have small: "length (table_write mo ?bs) < 2 ^ 32"
    by (cases p) (simp_all add: table_write_length [OF mo] option_write_def)
  have o: "codes (option_verify (array_verify 2)) (read_opt (read_u16 r)) (?bs ! 2) p" if "r mod 2 = 0" for r
    using codes_opt [of p "array_verify 2" "read_u16 r" u16_write] codes_u16 [OF that] length_number_write(2)
    by (metis list.size(3) nth_Cons_0 nth_Cons_Suc numeral_2_eq_2 zero_neq_numeral)
  have all: "passes (?fs ! j) c (?bs ! j)" if "j < length ?fs" for j c
    using that o [of 0] by (auto simp: codes_def less_Suc_eq array_written)
  have r: "(q + 16) mod 4 = 0" "(q + 20) mod 4 = 0" "(q + 24) mod 2 = 0" using q by presburger+
  note f = codes_field_at [OF mo _ _ small all, of 3]
  show ?thesis
    unfolding get_nodes_write_def get_nodes_verify_def get_nodes_read_def [abs_def] discovery_accessors
    by (intro codes_try [OF f [of 0 _ _ v]] codes_try [OF f [of 1 _ _ c]] codes_try [OF f [of 2 _ _ p]])
      (use o [OF r(3)] read_u32_write [of "q + 16" v] read_u32_write [of "q + 20" c] r table_reads(2) [OF mo _ _ small all]
        in \<open>simp_all add: codes_def\<close>)
qed

lemma node_codes:
  assumes mo: "mol_ok mo" and vi: "varint_ok vi" and ok: "\<And>a. a \<in> set (node_addresses n) \<Longrightarrow> ma_valid vi a"
    and small: "length (node_write mo n) < 2 ^ 32"
  shows "codes (node_verify mo) (node_read mo vi) (node_write mo n) n"
proof -
  let ?b = "dynvec_write mo (map (addr_write mo) (node_addresses n))"
  have b: "length ?b < 2 ^ 32" using table_part_size [OF mo, of ?b "[?b]"] small by (simp add: node_write_def)
  have "codes (fixvec_verify mo) (read_addr vi) (addr_write mo a) a" if "a \<in> set (node_addresses n)" for a
    by (rule codes_addr [OF mo vi ok [OF that]])
      (use dynvec_part_size [OF mo, of "addr_write mo a" "map (addr_write mo) (node_addresses n)"] b that in simp)
  then have "codes (bytes_vec_verify mo) (read_dynvec mo (read_addr vi)) ?b (node_addresses n)"
    unfolding bytes_vec_verify_def by (rule codes_dynvec_old [OF mo b])
  from codes_single [OF mo this] small show ?thesis
    unfolding node_verify_def node_read_def [abs_def] discovery_accessors node_write_def by (intro codes_try) (auto simp: codes_def)
qed

lemma nodes_codes:
  fixes mo :: molecule and n :: nodes
  defines "bs \<equiv> [[if nodes_announce n then 1 else 0], dynvec_write mo (map (node_write mo) (nodes_items n))]"
  assumes mo: "mol_ok mo" and vi: "varint_ok vi" and ok: "\<And>a. a \<in> set (discovery_addrs (Nodes n)) \<Longrightarrow> ma_valid vi a"
    and small: "length (table_write mo bs) < 2 ^ 32"
  shows "codes (nodes_verify mo) (nodes_read mo vi) (table_write mo bs) (Nodes n)"
proof -
  let ?fs = "[array_verify 1, node_vec_verify mo]"
  have small1: "length (bs ! 1) < 2 ^ 32" using table_part_size [OF mo, of "bs ! 1" bs] small by (simp add: bs_def)
  have item: "codes (node_verify mo) (node_read mo vi) (node_write mo x) x" if "x \<in> set (nodes_items n)" for x
  proof (rule node_codes [OF mo vi])
    show "ma_valid vi a" if "a \<in> set (node_addresses x)" for a using ok that \<open>x \<in> set (nodes_items n)\<close> by auto
    show "length (node_write mo x) < 2 ^ 32"
      using dynvec_part_size [OF mo, of "node_write mo x" "map (node_write mo) (nodes_items n)"] small1 that by (simp add: bs_def)
  qed
  have v: "codes (node_vec_verify mo) (read_dynvec mo (node_read mo vi)) (bs ! 1) (nodes_items n)"
    unfolding node_vec_verify_def bs_def One_nat_def nth_Cons_Suc nth_Cons_0
    by (rule codes_dynvec_old [OF mo _ item]) (use small1 in \<open>simp_all add: bs_def\<close>)
  have a: "read_announce (bs ! 0) = Some (Some (nodes_announce n))" by (simp add: bs_def)
  have len: "length bs = length ?fs" by (simp add: bs_def)
  have all: "passes (?fs ! j) c (bs ! j)" if "j < length ?fs" for j c
    using that v by (auto simp: codes_def less_Suc_eq array_written bs_def)
  note f = codes_field(2) [OF mo len _ small all, of 2]
  show ?thesis
    unfolding nodes_verify_def nodes_read_def [abs_def] discovery_accessors
    by (intro codes_try [OF f [of 0 _ "nodes_announce n"]] codes_try [OF f [of 1 _ "nodes_items n"]])
      (use v a table_reads(2) [OF mo len _ small all] in \<open>simp_all add: codes_def\<close>)
qed

lemma discovery_codes:
  assumes mo: "mol_ok mo" and vi: "varint_ok vi" and ok: "discovery_ok (mo, vi) m" and p: "p mod 4 = 0"
  shows "codes (discovery_message_verify mo) (discovery_message_payload mo vi p) (discovery_message_encode mo m) m"
proof -
  let ?items = "[get_nodes_verify mo, nodes_verify mo]"
  obtain k b where e: "discovery_message_encode mo m = table_write mo [union_write mo k b]" and k: "k < 2"
    and b: "length b < 2 ^ 32 \<Longrightarrow> codes (?items ! k) (discovery_match mo vi k (p + 12)) b m"
  proof (cases m)
    case (GetNodes v c p')
    have "(p + 12) mod 4 = 0" using p by presburger
    with GetNodes get_nodes_codes [OF mo, of "p + 12" v c p'] that [of 0 "get_nodes_write mo (u32_write v) (u32_write c) (option_write (map_option u16_write p'))"]
    show thesis by (simp add: discovery_message_write_def discovery_match_def [abs_def])
  next
    case (Nodes n)
    let ?b = "nodes_write mo [if nodes_announce n then 1 else 0] (dynvec_write mo (map (node_write mo) (nodes_items n)))"
    have "ma_valid vi a" if "a \<in> set (discovery_addrs (Nodes n))" for a using that ok Nodes by (auto simp: discovery_ok_def)
    note c = nodes_codes [OF mo vi this]
    show thesis
    proof (rule that [of 1 ?b])
      show "discovery_message_encode mo m = table_write mo [union_write mo 1 ?b]" using Nodes by (simp add: discovery_message_write_def)
      show "codes ([get_nodes_verify mo, nodes_verify mo] ! 1) (discovery_match mo vi 1 (p + 12)) ?b m" if "length ?b < 2 ^ 32"
        using c that Nodes by (simp add: nodes_write_def discovery_match_def [abs_def])
    qed simp
  qed
  have small: "length (table_write mo [union_write mo k b]) < 2 ^ 32" using ok e by (simp add: discovery_ok_def)
  then have "length b < 2 ^ 32"
    using table_part_size [OF mo, of "union_write mo k b" "[union_write mo k b]"] union_part_size [of b mo k] by simp
  from b [OF this] have u: "codes (discovery_payload_verify mo) (read_union_at mo 2 (discovery_match mo vi) (p + 8)) (union_write mo k b) m"
    unfolding discovery_payload_verify_def read_union_at_def by (intro codes_union [OF mo]) (use k in \<open>simp_all add: add.assoc\<close>)
  then have "passes (discovery_payload_verify mo) c (union_write mo k b)" for c by (simp add: codes_def)
  note s = single_at [OF mo this small]
  from s(1) [of "read_union_at mo 2 (discovery_match mo vi)" p] s(2) u show ?thesis
    unfolding e discovery_message_verify_def discovery_message_payload_def by (simp add: codes_def)
qed

lemma sound_announce: "sound_reader (array_verify 1) read_announce"
  unfolding sound_reader_def
proof (intro conjI allI impI)
  fix c sl assume "passes (array_verify 1) c sl"
  then show "\<exists>r. read_announce sl = Some r" by (cases sl) (simp_all add: array_written)
qed (rule array_no_panic)

lemma sound_node: "mol_ok mo \<Longrightarrow> varint_ok vi \<Longrightarrow> sound_reader (node_verify mo) (node_read mo vi)"
  unfolding node_verify_def node_read_def [abs_def] discovery_accessors bytes_vec_verify_def
  by (intro sound_try sound_return sound_single sound_dynvec_old sound_addr table_old_no_panic)
    (auto intro: dynvec_old_no_panic fixvec_no_panic)

lemma discovery_sound:
  assumes mo: "mol_ok mo" and vi: "varint_ok vi" and p: "p mod 4 = 0"
  shows "sound_reader (discovery_message_verify mo) (discovery_message_payload mo vi p)"
proof -
  let ?gs = "[array_verify 4, array_verify 4, option_verify (array_verify 2)]" and ?ns = "[array_verify 1, node_vec_verify mo]"
  have g: "no_panic v" if "v \<in> set ?gs" for v using that array_no_panic option_no_panic by auto
  have before: "length x mod 4 = 0" if "j < i" "i \<le> 2" "passes (?gs ! j) c x" for i j c x
    using that by (cases j) (auto simp: array_written nth_Cons' split: if_splits)
  have u16: "sound_reader (array_verify 2) (read_u16 r)" if "r mod 4 = 0" for r by (rule sound_u16) (use that in presburger)
  have "sound_reader (get_nodes_verify mo) (get_nodes_read mo q)" if "q mod 4 = 0" for q
    unfolding get_nodes_verify_def get_nodes_read_def [abs_def] discovery_accessors
    by (intro sound_try sound_return sound_table_at [OF mo g, of _ 3] table_old_no_panic [OF mo _ g])
      (use that sound_u32 sound_opt [OF u16] before in \<open>auto simp: array_written\<close>)
  moreover have v: "sound_reader (node_vec_verify mo) (read_dynvec mo (node_read mo vi))"
    unfolding node_vec_verify_def by (rule sound_dynvec_old [OF mo sound_node [OF mo vi]])
  have n: "no_panic v" if "v \<in> set ?ns" for v using that array_no_panic v by (auto simp: sound_reader_def)
  have "sound_reader (nodes_verify mo) (nodes_read mo vi)"
    unfolding nodes_verify_def nodes_read_def [abs_def] discovery_accessors
    by (intro sound_try sound_return sound_table(2) [OF mo n, of _ 2] table_old_no_panic [OF mo _ n])
      (use sound_announce v in auto)
  ultimately have "sound_reader ([get_nodes_verify mo, nodes_verify mo] ! i) (discovery_match mo vi i q)" if "i < 2" "q mod 4 = 0" for i q
    using that by (cases "i = 0") (simp_all add: discovery_match_def [abs_def] less_2_cases_iff)
  then have u: "sound_reader (discovery_payload_verify mo) (read_union_at mo 2 (discovery_match mo vi) q)" if "q mod 4 = 0" for q
    unfolding discovery_payload_verify_def read_union_at_def using that by (intro sound_union) auto
  show ?thesis
    unfolding discovery_message_verify_def discovery_message_payload_def
    by (rule sound_table_at [OF mo]) (use u p in \<open>auto simp: sound_reader_def\<close>)
qed

interpretation discovery_msg: wire_message "\<lambda>e :: (molecule \<times> varint) \<times> nat. wire_ok (fst e) \<and> snd e mod 4 = 0" "discovery_message_encode \<circ> fst \<circ> fst"
  "\<lambda>e. discovery_message_decode (fst e) (snd e)" "discovery_ok \<circ> fst"
proof unfold_locales
  fix e :: "(molecule \<times> varint) \<times> nat" and m assume "wire_ok (fst e) \<and> snd e mod 4 = 0" "(discovery_ok \<circ> fst) e m"
  then show "discovery_message_decode (fst e) (snd e) ((discovery_message_encode \<circ> fst \<circ> fst) e m) = Some (Some m)"
    using codes_decode [OF discovery_codes] by (cases e) (auto simp: wire_ok_def discovery_message_decode_def)
next
  fix e :: "(molecule \<times> varint) \<times> nat" and b assume "wire_ok (fst e) \<and> snd e mod 4 = 0"
  then show "\<exists>r. discovery_message_decode (fst e) (snd e) b = Some r"
    using sound_decode [OF discovery_sound] by (simp add: wire_ok_def discovery_message_decode_def)
qed

text \<open>
  A message travels in a frame of the length-delimited codec of \<^verbatim>\<open>tokio_util\<close>, which is a parameter: encoding fails for a frame
  that is too long, and decoding gives an error, asks for more data, or returns the frame. \<open>length_codec_ok\<close> states what the crate
  documents for the default configuration: frames of up to 8 MiB are read back. The address is that of the frame which the codec
  returns.
\<close>

record length_codec =
  lc_encode :: "bytes \<Rightarrow> unit + bytes"
  lc_decode :: "bytes \<Rightarrow> unit + bytes option"

definition length_codec_ok :: "length_codec \<Rightarrow> bool" where
  "length_codec_ok fc \<longleftrightarrow> (\<forall>b. length b \<le> 8 * 1024 * 1024 \<longrightarrow> (\<exists>f. lc_encode fc b = Inr f \<and> lc_decode fc f = Inr (Some b)))"

definition discovery_encode :: "length_codec \<Rightarrow> molecule \<Rightarrow> discovery_message \<Rightarrow> bytes option" where
  "discovery_encode fc mo m = (case lc_encode fc (discovery_message_encode mo m) of Inl _ \<Rightarrow> None | Inr f \<Rightarrow> Some f)"

definition discovery_decode :: "length_codec \<Rightarrow> molecule \<times> varint \<Rightarrow> nat \<Rightarrow> bytes \<Rightarrow> discovery_message option option" where
  "discovery_decode fc e p data =
     (case lc_decode fc data of
        Inr (Some frame) \<Rightarrow> discovery_message_decode e p frame
      | Inr None \<Rightarrow> Some None
      | Inl _ \<Rightarrow> Some None)"

lemma discovery_frame_read_back:
  assumes "wire_ok e" and "length_codec_ok fc" and "\<forall>a \<in> set (discovery_addrs m). ma_valid (snd e) a"
    and "length (discovery_message_encode (fst e) m) \<le> 8 * 1024 * 1024" and "p mod 4 = 0"
  shows "Option.bind (discovery_encode fc (fst e) m) (discovery_decode fc e p) = Some (Some m)"
proof -
  from assms(2,4) obtain f where "lc_encode fc (discovery_message_encode (fst e) m) = Inr f"
    "lc_decode fc f = Inr (Some (discovery_message_encode (fst e) m))" unfolding length_codec_ok_def by blast
  moreover have "discovery_ok e m" using assms(3,4) by (simp add: discovery_ok_def)
  ultimately show ?thesis using discovery_msg.read_back [of "(e, p)" m] assms(1,5) by (simp add: discovery_encode_def discovery_decode_def)
qed

section \<open>Protocol selection\<close>

record protocol_info =
  pi_name :: bytes
  pi_support_versions :: "bytes list"

definition protocol_info_verify :: "molecule \<Rightarrow> verifier" where
  "protocol_info_verify mo = table_verify mo [fixvec_verify mo, dynvec_verify mo (fixvec_verify mo)]"

definition protocol_info_write :: "molecule \<Rightarrow> bytes \<Rightarrow> bytes \<Rightarrow> bytes" where
  "protocol_info_write mo name support_versions = table_write mo [name, support_versions]"

definition protocol_info_encode :: "molecule \<Rightarrow> protocol_info \<Rightarrow> bytes" where
  "protocol_info_encode mo p =
     protocol_info_write mo (fixvec_write mo (pi_name p)) (dynvec_write mo (map (fixvec_write mo) (pi_support_versions p)))"

text \<open>\<^verbatim>\<open>String::from_utf8(x.raw_data().to_owned()).ok()\<close>.\<close>

definition read_string :: "bytes \<Rightarrow> bytes option option" where
  "read_string sl = from_utf8 (fixvec_raw_data sl) (\<lambda>s. Some (Some s))"

definition protocol_info_name :: "molecule \<Rightarrow> bytes \<Rightarrow> bytes option option" where
  "protocol_info_name mo = read_field mo 2 0 read_string"

definition protocol_info_support_versions :: "molecule \<Rightarrow> bytes \<Rightarrow> bytes list option option" where
  "protocol_info_support_versions mo = read_field mo 2 1 (read_dynvec mo read_string)"

definition protocol_info_fields :: "molecule \<Rightarrow> bytes \<Rightarrow> protocol_info option option" where
  "protocol_info_fields mo data =
     try_let (protocol_info_support_versions mo data) (\<lambda>supports.
     try_let (protocol_info_name mo data) (\<lambda>name.
       Some (Some \<lparr>pi_name = name, pi_support_versions = supports\<rparr>)))"

definition protocol_info_decode :: "molecule \<Rightarrow> bytes \<Rightarrow> protocol_info option option" where
  "protocol_info_decode mo data = verified (protocol_info_verify mo data True) (protocol_info_fields mo data)"

definition protocol_info_ok :: "molecule \<Rightarrow> protocol_info \<Rightarrow> bool" where
  "protocol_info_ok mo p \<longleftrightarrow> utf8_valid (pi_name p) \<and> (\<forall>v \<in> set (pi_support_versions p). utf8_valid v) \<and>
     length (protocol_info_encode mo p) < 2 ^ 32"

lemma codes_string:
  "mol_ok mo \<Longrightarrow> utf8_valid s \<Longrightarrow> length (fixvec_write mo s) < 2 ^ 32 \<Longrightarrow> codes (fixvec_verify mo) read_string (fixvec_write mo s) s"
  using codes_bytes [of mo s] bytes_part_size [of s mo] by (auto simp: codes_def read_bytes_def read_string_def from_utf8_def)

lemma sound_string: "sound_reader (fixvec_verify mo) read_string"
  using fixvec_passes by (fastforce simp: sound_reader_def fixvec_no_panic read_string_def from_utf8_def)

lemma protocol_info_codes:
  assumes mo: "mol_ok mo" and ok: "protocol_info_ok mo p"
  shows "codes (protocol_info_verify mo) (protocol_info_fields mo) (protocol_info_encode mo p) p"
proof -
  let ?n = "fixvec_write mo (pi_name p)" and ?v = "dynvec_write mo (map (fixvec_write mo) (pi_support_versions p))"
  let ?fs = "[fixvec_verify mo, dynvec_verify mo (fixvec_verify mo)]" and ?bs = "[?n, ?v]"
  have e: "protocol_info_encode mo p = table_write mo ?bs" by (simp add: protocol_info_encode_def protocol_info_write_def)
  have small: "length (table_write mo ?bs) < 2 ^ 32" using ok e by (simp add: protocol_info_ok_def)
  then have part: "length x < 2 ^ 32" if "x \<in> set ?bs" for x using table_part_size [OF mo that] by simp
  have n: "codes (fixvec_verify mo) read_string ?n (pi_name p)"
    by (rule codes_string [OF mo]) (use ok part in \<open>simp_all add: protocol_info_ok_def\<close>)
  have v: "codes (dynvec_verify mo (fixvec_verify mo)) (read_dynvec mo read_string) ?v (pi_support_versions p)"
  proof (rule codes_dynvec [OF mo])
    show "length ?v < 2 ^ 32" by (rule part) simp
    then have "length (fixvec_write mo s) < 2 ^ 32" if "s \<in> set (pi_support_versions p)" for s
      using dynvec_part_size [OF mo, of "fixvec_write mo s" "map (fixvec_write mo) (pi_support_versions p)"] that by simp
    then show "codes (fixvec_verify mo) read_string (fixvec_write mo s) s" if "s \<in> set (pi_support_versions p)" for s
      using codes_string [OF mo] that ok by (simp add: protocol_info_ok_def)
  qed
  have all: "passes (?fs ! j) c (?bs ! j)" if "j < length ?fs" for j c
    using that n v by (auto simp: codes_def less_Suc_eq)
  note f = codes_field(1) [OF mo _ _ small all, of 2]
  show ?thesis
    unfolding e protocol_info_verify_def protocol_info_fields_def [abs_def] protocol_info_name_def protocol_info_support_versions_def
    by (intro codes_try [OF f [of 1 _ "pi_support_versions p"]] codes_try [OF f [of 0 _ "pi_name p"]])
      (use n v table_reads(1) [OF mo _ _ small all] in \<open>simp_all add: codes_def\<close>)
qed

lemma protocol_info_sound:
  assumes mo: "mol_ok mo"
  shows "sound_reader (protocol_info_verify mo) (protocol_info_fields mo)"
proof -
  have v: "sound_reader (dynvec_verify mo (fixvec_verify mo)) (read_dynvec mo read_string)"
    by (rule sound_dynvec [OF mo sound_string])
  have np: "no_panic x" if "x \<in> set [fixvec_verify mo, dynvec_verify mo (fixvec_verify mo)]" for x
    using that v fixvec_no_panic by (auto simp: sound_reader_def)
  show ?thesis
    unfolding protocol_info_verify_def protocol_info_fields_def [abs_def] protocol_info_name_def protocol_info_support_versions_def
    by (intro sound_try sound_return sound_table(1) [OF mo np, of _ 2] table_no_panic [OF mo np]) (use v sound_string in auto)
qed

interpretation info_msg: wire_message mol_ok protocol_info_encode protocol_info_decode protocol_info_ok
proof unfold_locales
  fix mo p assume "mol_ok mo" "protocol_info_ok mo p"
  then show "protocol_info_decode mo (protocol_info_encode mo p) = Some (Some p)"
    using codes_decode [OF protocol_info_codes] by (simp add: protocol_info_decode_def)
next
  fix mo b assume "mol_ok mo"
  then show "\<exists>r. protocol_info_decode mo b = Some r"
    using sound_decode [OF protocol_info_sound] by (simp add: protocol_info_decode_def)
qed

section \<open>Properties\<close>

text \<open>The length before the frame, as an instance of the frame codec.\<close>

definition length_prefix :: length_codec where
  "length_prefix =
     \<lparr>lc_encode = (\<lambda>b. if length b \<le> 8 * 1024 * 1024 then Inr (put_u32 (of_nat (length b)) @ b) else Inl ()),
      lc_decode = (\<lambda>b. if length b < 4 then Inr None
        else let n = unat (le_unpack (rev (take 4 b))) in
          if 8 * 1024 * 1024 < n then Inl () else if length b < 4 + n then Inr None else Inr (Some (take n (drop 4 b))))\<rparr>"

lemma length_prefix_ok: "length_codec_ok length_prefix"
  unfolding length_codec_ok_def
proof (intro allI impI)
  fix b :: bytes
  assume b: "length b \<le> 8 * 1024 * 1024"
  have "le_unpack (rev (put_u32 n)) = n" for n using le_numbers_ok by (simp add: mol_ok_def le_numbers_def)
  moreover have "unat (of_nat (length b) :: u32) = length b" using b by (simp add: unat_of_nat)
  ultimately show "\<exists>f. lc_encode length_prefix b = Inr f \<and> lc_decode length_prefix f = Inr (Some b)"
    using b by (simp add: length_prefix_def)
qed

text \<open>C28. The messages of the protocols are read back from their encoding: pings and pongs, an identify message whose addresses
  are valid, a discovery message in its frame, and the message of the protocol selection. The messages must fit the sizes of the
  formats, and the data of a ping and the frame of a discovery message must lie at an address that is a multiple of 4.\<close>

theorem protocol_messages_roundtrip:
  assumes "mol_ok mo" and "varint_ok vi" and "length_codec_ok fc" and "a mod 4 = 0"
  shows "ping_decode mo a (build_ping mo n) = Some (Some (Ping n)) \<and> ping_decode mo a (build_pong mo n) = Some (Some (Pong n)) \<and>
    (identify_ok (mo, vi) i \<longrightarrow> identify_decode (mo, vi) (identify_encode mo i) = Some (Some i)) \<and>
    ((\<forall>a \<in> set (discovery_addrs d). ma_valid vi a) \<and> length (discovery_message_encode mo d) \<le> 8 * 1024 * 1024 \<longrightarrow>
      Option.bind (discovery_encode fc mo d) (discovery_decode fc (mo, vi) a) = Some (Some d)) \<and>
    (protocol_info_ok mo p \<longrightarrow> protocol_info_decode mo (protocol_info_encode mo p) = Some (Some p))"
proof -
  have w: "wire_ok (mo, vi)" using assms by (simp add: wire_ok_def)
  from ping_decode_encode [OF assms(1), of a "Ping n"] ping_decode_encode [OF assms(1), of a "Pong n"] assms(4)
    identify_msg.read_back [OF w] discovery_frame_read_back [OF w assms(3) _ _ assms(4)] info_msg.read_back [OF assms(1)]
  show ?thesis by (simp del: mult_numeral_left_semiring_numeral)
qed

definition sample_addr :: multiaddr where
  "sample_addr = from_iter leb128 [Ip4 (127, 0, 0, 1), Tcp 8115]"

definition sample_nodes :: discovery_message where
  "sample_nodes = Nodes \<lparr>nodes_announce = True, nodes_items = [\<lparr>node_addresses = [sample_addr]\<rparr>, \<lparr>node_addresses = []\<rparr>]\<rparr>"

definition sample_identify :: identify_message where
  "sample_identify = \<lparr>im_listen_addrs = [sample_addr, sample_addr], im_observed_addr = sample_addr, im_identify = [1, 2, 3]\<rparr>"

definition sample_info :: protocol_info where
  "sample_info = \<lparr>pi_name = [47, 112], pi_support_versions = [[49], [50]]\<rparr>"

lemma sample_addr_valid: "ma_valid leb128 sample_addr"
proof -
  have "iter_all leb128 (ma_bytes sample_addr) = Some (Inr [Ip4 (127, 0, 0, 1), Tcp 8115])"
    unfolding sample_addr_def from_iter_def multiaddr.select_convs
    by (rule iter_all_concat [OF leb128_ok]) (auto simp: wf_protocol_def)
  then show ?thesis by (simp add: ma_valid_def)
qed

theorem protocol_messages_roundtrip_witness:
  "ping_decode le_numbers 16 (build_ping le_numbers 7) = Some (Some (Ping 7)) \<and>
   identify_decode (le_numbers, leb128) (identify_encode le_numbers sample_identify) = Some (Some sample_identify) \<and>
   Option.bind (discovery_encode length_prefix le_numbers sample_nodes) (discovery_decode length_prefix (le_numbers, leb128) 16) =
     Some (Some sample_nodes) \<and>
   protocol_info_decode le_numbers (protocol_info_encode le_numbers sample_info) = Some (Some sample_info)"
proof -
  have "(16 :: nat) mod 4 = 0" by simp
  note r = protocol_messages_roundtrip [OF le_numbers_ok leb128_ok length_prefix_ok this, of 7 sample_identify sample_nodes sample_info]
  have len: "length (identify_encode le_numbers sample_identify) < 200" "length (discovery_message_encode le_numbers sample_nodes) < 200"
    "length (protocol_info_encode le_numbers sample_info) < 200"
    by code_simp+
  have i: "identify_ok (le_numbers, leb128) sample_identify"
    unfolding identify_ok_def using sample_addr_valid len by (simp add: sample_identify_def)
  have d: "\<forall>a \<in> set (discovery_addrs sample_nodes). ma_valid leb128 a" using sample_addr_valid by (simp add: sample_nodes_def)
  have u: "utf8_valid (pi_name sample_info)" "\<forall>v \<in> set (pi_support_versions sample_info). utf8_valid v" by code_simp+
  have p: "protocol_info_ok le_numbers sample_info" unfolding protocol_info_ok_def using u len by simp
  have "length (discovery_message_encode le_numbers sample_nodes) \<le> 8 * 1024 * 1024" using len by simp
  with r i d p show ?thesis by blast
qed

text \<open>C29. The decoders of the protocols panic on no bytes from a peer, read no number beyond its slice, and do not loop, except
  through a misaligned pointer. Identify messages and the message of the protocol selection decode to a message or are refused. Pings
  and discovery messages do so if their data lies at an address that is a multiple of 4, whatever the bytes. At any other address
  already a correct ping or pong is read through a misaligned pointer.\<close>

theorem protocol_decoding_needs_alignment:
  assumes "mol_ok mo" and "varint_ok vi"
  shows "identify_decode (mo, vi) b \<noteq> None \<and> protocol_info_decode mo b \<noteq> None \<and>
    (a mod 4 = 0 \<longrightarrow> ping_decode mo a b \<noteq> None \<and> discovery_decode fc (mo, vi) a b \<noteq> None) \<and>
    (a mod 4 \<noteq> 0 \<longrightarrow> ping_decode mo a (build_ping mo n) = None \<and> ping_decode mo a (build_pong mo n) = None)"
proof -
  have w: "wire_ok (mo, vi)" using assms by (simp add: wire_ok_def)
  have "discovery_decode fc (mo, vi) a b \<noteq> None" if "a mod 4 = 0"
    using discovery_msg.never_panics [of "((mo, vi), a)"] that w by (auto simp: discovery_decode_def split: sum.split option.split)
  moreover have "ping_decode mo a b \<noteq> None" if "a mod 4 = 0" using ping_msg.never_panics [of "(mo, a)" b] that assms(1) by simp
  ultimately show ?thesis
    using ping_decode_encode [OF assms(1), of a "Ping n"] ping_decode_encode [OF assms(1), of a "Pong n"]
      identify_msg.never_panics [OF w] info_msg.never_panics [OF assms(1)] by simp
qed

theorem protocol_decoding_needs_alignment_witness:
  "ping_decode le_numbers 16 [1, 2, 3] \<noteq> None \<and> identify_decode (le_numbers, leb128) [1, 2, 3] \<noteq> None \<and>
   discovery_decode length_prefix (le_numbers, leb128) 16 [1, 2, 3] \<noteq> None \<and> protocol_info_decode le_numbers [1, 2, 3] \<noteq> None \<and>
   ping_decode le_numbers 17 (build_ping le_numbers 7) = None"
  using protocol_decoding_needs_alignment [OF le_numbers_ok leb128_ok, of "[1, 2, 3]" 16 length_prefix 7]
    protocol_decoding_needs_alignment [OF le_numbers_ok leb128_ok, of "[1, 2, 3]" 17 length_prefix 7] by simp

end
