(* ===== verification/Protocol_Select.thy ===== *)
theory Protocol_Select
  imports Protocol_Messages Secio_Handshake "HOL-Library.List_Lexorder"
begin

text \<open>
  The selection of a protocol version when a stream is opened (\<^verbatim>\<open>tentacle/src/protocol_select/mod.rs\<close>). Both sides run on the
  script of a framed socket, as the secio handshake does. Versions are strings, compared as Rust compares them: byte by byte.
  An error of the input or output is \<open>IoError\<close>.
\<close>

section \<open>Choosing a version\<close>

text \<open>\<^verbatim>\<open>local\<close> and \<^verbatim>\<open>remote\<close> are the heads of the reversed lists.\<close>

fun version_loop :: "'a :: linorder list \<Rightarrow> 'a list \<Rightarrow> 'a option" where
  "version_loop (l # ls) (r # rs) =
     (if l < r then version_loop (l # ls) rs else if l > r then version_loop ls (r # rs) else Some l)"
| "version_loop _ _ = None"

definition select_version :: "'a :: linorder list \<Rightarrow> 'a list \<Rightarrow> 'a option" where
  "select_version local remote = version_loop (rev local) (rev remote)"

section \<open>The two sides\<close>

definition info_of :: "molecule \<Rightarrow> bytes \<Rightarrow> (secio_error + protocol_info) run" where
  "info_of mo info =
     (case protocol_info_decode mo info of
        None \<Rightarrow> Panics
      | Some None \<Rightarrow> Finished (Inl (IoError IoInvalidData))
      | Some (Some i) \<Rightarrow> Finished (Inr i))"

definition pop_version :: "bytes list \<Rightarrow> bytes option" where
  "pop_version vs = (if vs = [] then None else Some (last vs))"

definition client_select ::
  "molecule \<Rightarrow> protocol_info \<Rightarrow> framed_socket \<Rightarrow> (secio_error + framed_socket \<times> bytes \<times> bytes option) run" where
  "client_select mo proto_info so =
     run_bind (framed_send (protocol_info_encode mo proto_info) so) (\<lambda>so.
     run_bind (framed_next so) (\<lambda>(info, so).
     run_bind (info_of mo info) (\<lambda>remote_info.
       Finished (Inr (so, pi_name remote_info, pop_version (pi_support_versions remote_info))))))"

type_synonym select_fn = "bytes list \<Rightarrow> bytes list \<Rightarrow> bytes option"

type_synonym proto_infos = "bytes \<Rightarrow> (protocol_info \<times> select_fn option) option"

definition choose_version :: "proto_infos \<Rightarrow> protocol_info \<Rightarrow> bytes option" where
  "choose_version proto_infos remote_info =
     Option.bind (proto_infos (pi_name remote_info)) (\<lambda>(local_info, select).
       (case select of
          Some f \<Rightarrow> f (pi_support_versions local_info) (pi_support_versions remote_info)
        | None \<Rightarrow> select_version (pi_support_versions local_info) (pi_support_versions remote_info)))"

definition reply_info :: "protocol_info \<Rightarrow> bytes option \<Rightarrow> protocol_info" where
  "reply_info remote_info version =
     \<lparr>pi_name = pi_name remote_info, pi_support_versions = (case version of None \<Rightarrow> [] | Some v \<Rightarrow> [v])\<rparr>"

definition server_select ::
  "molecule \<Rightarrow> proto_infos \<Rightarrow> framed_socket \<Rightarrow> (secio_error + framed_socket \<times> bytes \<times> bytes option) run" where
  "server_select mo proto_infos so =
     run_bind (framed_next so) (\<lambda>(info, so).
     run_bind (info_of mo info) (\<lambda>remote_info.
       let version = choose_version proto_infos remote_info in
       run_bind (framed_send (protocol_info_encode mo (reply_info remote_info version)) so) (\<lambda>so.
         Finished (Inr (so, pi_name remote_info, version)))))"

section \<open>The greatest common version\<close>

definition greatest_common :: "'a :: linorder list \<Rightarrow> 'a list \<Rightarrow> 'a option" where
  "greatest_common ls rs = (if set ls \<inter> set rs = {} then None else Some (Max (set ls \<inter> set rs)))"

lemma greatest_common_I:
  "x \<in> set ls \<Longrightarrow> x \<in> set rs \<Longrightarrow> (\<And>y. y \<in> set ls \<Longrightarrow> y \<in> set rs \<Longrightarrow> y \<le> x) \<Longrightarrow> greatest_common ls rs = Some x"
  by (auto simp: greatest_common_def intro!: Max_eqI)

lemma greatest_common_cong: "set ls \<inter> set rs = set ls' \<inter> set rs' \<Longrightarrow> greatest_common ls rs = greatest_common ls' rs'"
  by (simp add: greatest_common_def)

lemma version_loop_greatest:
  "sorted_wrt (\<ge>) ls \<Longrightarrow> sorted_wrt (\<ge>) rs \<Longrightarrow> version_loop ls rs = greatest_common ls rs"
proof (induction ls rs rule: version_loop.induct)
  case (1 l ls r rs)
  consider "l < r" | "l > r" | "l = r" by fastforce
  then show ?case
  proof cases
    case 1
    then have "r \<notin> set (l # ls)" using "1.prems" by auto
    then have "greatest_common (l # ls) (r # rs) = greatest_common (l # ls) rs" by (intro greatest_common_cong) auto
    with 1 "1.IH"(1) "1.prems" show ?thesis by simp
  next
    case 2
    then have "l \<notin> set (r # rs)" using "1.prems" by auto
    then have "greatest_common (l # ls) (r # rs) = greatest_common ls (r # rs)" by (intro greatest_common_cong) auto
    with 2 less_not_sym [OF 2] "1.IH"(2) "1.prems" show ?thesis by simp
  next
    case 3
    have "greatest_common (l # ls) (r # rs) = Some l" by (rule greatest_common_I) (use 3 "1.prems" in auto)
    with 3 show ?thesis by simp
  qed
qed (simp_all add: greatest_common_def)

lemma version_loop_common: "version_loop ls rs = Some v \<Longrightarrow> v \<in> set ls \<and> v \<in> set rs"
  by (induction ls rs rule: version_loop.induct) (auto split: if_splits)

lemma select_version_common: "select_version ls rs = Some v \<Longrightarrow> v \<in> set ls \<and> v \<in> set rs"
  unfolding select_version_def by (drule version_loop_common) simp

lemma select_version_greatest: "sorted ls \<Longrightarrow> sorted rs \<Longrightarrow> select_version ls rs = greatest_common ls rs"
  unfolding select_version_def by (subst version_loop_greatest) (simp_all add: sorted_wrt_rev greatest_common_def)

section \<open>The reply fits, and is read back\<close>

lemma reply_ok:
  assumes mo: "mol_ok mo" and ok: "protocol_info_ok mo p" and v: "\<And>x. version = Some x \<Longrightarrow> x \<in> set (pi_support_versions p)"
  shows "protocol_info_ok mo (reply_info p version)"
proof -
  let ?w = "\<lambda>vs. dynvec_write mo (map (fixvec_write mo) vs)" and ?vs = "case version of None \<Rightarrow> [] | Some v \<Rightarrow> [v]"
  have "length (?w ?vs) \<le> length (?w (pi_support_versions p))"
  proof (cases version)
    case None
    then show ?thesis by (simp add: dynvec_write_def length_pack [OF mo] table_write_length [OF mo])
  next
    case (Some x)
    with v have x: "x \<in> set (pi_support_versions p)" by simp
    then have "length (fixvec_write mo x) \<le> length (concat (map (fixvec_write mo) (pi_support_versions p)))"
      by (auto simp: length_concat intro!: member_le_sum_list)
    moreover have "1 \<le> length (pi_support_versions p)" "pi_support_versions p \<noteq> []" using x by (cases "pi_support_versions p"; simp)+
    ultimately show ?thesis using Some by (simp add: dynvec_write_def table_write_length [OF mo])
  qed
  moreover have "length (protocol_info_encode mo q) =
      12 + length (fixvec_write mo (pi_name q)) + length (?w (pi_support_versions q))" for q
    by (simp add: protocol_info_encode_def protocol_info_write_def table_write_length [OF mo])
  ultimately show ?thesis
    using ok v by (auto simp: protocol_info_ok_def reply_info_def split: option.split)
qed

lemma info_read_back: "mol_ok mo \<Longrightarrow> protocol_info_ok mo p \<Longrightarrow> info_of mo (protocol_info_encode mo p) = Finished (Inr p)"
  by (simp add: info_of_def info_msg.read_back)

lemma pop_reply: "pop_version (pi_support_versions (reply_info p version)) = version"
  by (simp add: pop_version_def reply_info_def split: option.split)

lemma server_select_runs:
  assumes "mol_ok mo" and "protocol_info_ok mo p" and "serves (Suc n) (Suc m) (protocol_info_encode mo p # fs) so"
  shows "\<exists>so'. server_select mo infos so = Finished (Inr (so', pi_name p, choose_version infos p)) \<and>
    so_out so' = so_out so @ [protocol_info_encode mo (reply_info p (choose_version infos p))] \<and> serves n m fs so'"
proof -
  let ?r = "protocol_info_encode mo (reply_info p (choose_version infos p))"
  from framed_next_serves [OF assms(3)] obtain s1 where s1: "framed_next so = Finished (Inr (protocol_info_encode mo p, s1))"
    "so_out s1 = so_out so" "serves (Suc n) (Suc m) fs s1" by blast
  from framed_send_serves [OF s1(3), of ?r] obtain s2 where "framed_send ?r s1 = Finished (Inr s2)" "so_out s2 = so_out s1 @ [?r]"
    "serves n m fs s2" by blast
  with s1(1,2) info_read_back [OF assms(1,2)] show ?thesis by (simp add: server_select_def Let_def)
qed

lemma client_select_runs:
  assumes "mol_ok mo" and "protocol_info_ok mo r" and "serves (Suc n) (Suc m) (protocol_info_encode mo r # fs) so"
  shows "\<exists>so'. client_select mo p so = Finished (Inr (so', pi_name r, pop_version (pi_support_versions r))) \<and>
    so_out so' = so_out so @ [protocol_info_encode mo p] \<and> serves n m fs so'"
proof -
  from framed_send_serves [OF assms(3), of "protocol_info_encode mo p"] obtain s1 where
    s1: "framed_send (protocol_info_encode mo p) so = Finished (Inr s1)" "so_out s1 = so_out so @ [protocol_info_encode mo p]"
      "serves n m (protocol_info_encode mo r # fs) s1" by blast
  from framed_next_serves [OF s1(3)] obtain s2 where "framed_next s1 = Finished (Inr (protocol_info_encode mo r, s2))"
    "so_out s2 = so_out s1" "serves n m fs s2" by blast
  with s1(1,2) info_read_back [OF assms(1,2)] show ?thesis by (simp add: client_select_def)
qed

lemma chosen_reply_ok:
  assumes "mol_ok mo" and "protocol_info_ok mo p"
    and "\<forall>l f x. infos (pi_name p) = Some (l, Some f) \<and> f (pi_support_versions l) (pi_support_versions p) = Some x \<longrightarrow>
      protocol_info_ok mo (reply_info p (Some x))"
  shows "protocol_info_ok mo (reply_info p (choose_version infos p))"
proof (cases "\<exists>l f x. infos (pi_name p) = Some (l, Some f) \<and> f (pi_support_versions l) (pi_support_versions p) = Some x")
  case True
  then show ?thesis using assms(3) by (auto simp: choose_version_def)
next
  case False
  then have "x \<in> set (pi_support_versions p)" if "choose_version infos p = Some x" for x
    using that select_version_common by (fastforce simp: choose_version_def bind_eq_Some_conv split: option.splits)
  with assms(1,2) show ?thesis by (rule reply_ok)
qed

section \<open>Properties\<close>

text \<open>C30. The loop that chooses a version returns the greatest version that both sorted lists contain, and none if they have none
  in common.\<close>

theorem select_version_is_greatest_common:
  assumes "sorted ls" and "sorted rs"
  shows "select_version ls rs = greatest_common ls rs"
  using assms by (rule select_version_greatest)

theorem select_version_is_greatest_common_witness:
  "select_version [1, 3, 5, 8 :: nat] [2, 3, 5, 9] = greatest_common [1, 3, 5, 8] [2, 3, 5, 9] \<and>
   select_version [1, 3, 5, 8 :: nat] [2, 3, 5, 9] = Some 5"
  using select_version_is_greatest_common [of "[1, 3, 5, 8 :: nat]" "[2, 3, 5, 9]"] by (simp add: select_version_def)

text \<open>C22. The two sides of a protocol selection agree. If each receives what the other writes, both finish: with the name the
  client asked for, and with the same version. This is the one chosen by the server's function for this protocol, none if the server
  does not know the protocol, and the greatest common version if it has no such function and the lists are sorted. What follows the
  selection on the socket is left in it. A function of the server may choose any string, also one the client did not offer; assumed
  is only that a string it chooses is UTF-8, as every \<^verbatim>\<open>String\<close> is, and that the reply with it has a size of 32 bits.\<close>

theorem protocol_selection_agrees:
  assumes "mol_ok mo" and "protocol_info_ok mo p"
    and "\<forall>l f x. infos (pi_name p) = Some (l, Some f) \<and> f (pi_support_versions l) (pi_support_versions p) = Some x \<longrightarrow>
      protocol_info_ok mo (reply_info p (Some x))"
    and "serves (Suc n) (Suc m) (protocol_info_encode mo p # fs) server"
    and "serves (Suc k) (Suc j) (protocol_info_encode mo (reply_info p (choose_version infos p)) # gs) client"
  shows "\<exists>server' client' v.
    server_select mo infos server = Finished (Inr (server', pi_name p, v)) \<and>
    client_select mo p client = Finished (Inr (client', pi_name p, v)) \<and>
    so_out server' = so_out server @ [protocol_info_encode mo (reply_info p v)] \<and>
    so_out client' = so_out client @ [protocol_info_encode mo p] \<and>
    serves n m fs server' \<and> serves k j gs client' \<and>
    (infos (pi_name p) = None \<longrightarrow> v = None) \<and>
    (\<forall>l f. infos (pi_name p) = Some (l, Some f) \<longrightarrow> v = f (pi_support_versions l) (pi_support_versions p)) \<and>
    (\<forall>l. infos (pi_name p) = Some (l, None) \<and> sorted (pi_support_versions l) \<and> sorted (pi_support_versions p) \<longrightarrow>
      v = greatest_common (pi_support_versions l) (pi_support_versions p))"
proof -
  let ?v = "choose_version infos p"
  have r: "protocol_info_ok mo (reply_info p ?v)" by (rule chosen_reply_ok [where infos = infos, OF assms(1-3)])
  from server_select_runs [OF assms(1,2,4), of infos] obtain s where s:
    "server_select mo infos server = Finished (Inr (s, pi_name p, ?v))"
    "so_out s = so_out server @ [protocol_info_encode mo (reply_info p ?v)]" "serves n m fs s" by blast
  from client_select_runs [OF assms(1) r assms(5), of p] obtain c where c:
    "client_select mo p client = Finished (Inr (c, pi_name p, ?v))" "so_out c = so_out client @ [protocol_info_encode mo p]"
    "serves k j gs c" by (auto simp: pop_reply) (simp add: reply_info_def)
  have "infos (pi_name p) = None \<longrightarrow> ?v = None"
    "\<forall>l f. infos (pi_name p) = Some (l, Some f) \<longrightarrow> ?v = f (pi_support_versions l) (pi_support_versions p)"
    "\<forall>l. infos (pi_name p) = Some (l, None) \<and> sorted (pi_support_versions l) \<and> sorted (pi_support_versions p) \<longrightarrow>
      ?v = greatest_common (pi_support_versions l) (pi_support_versions p)"
    by (auto simp: choose_version_def select_version_greatest)
  with s c show ?thesis by (intro exI [of _ s] exI [of _ c] exI [of _ ?v]) simp
qed

definition select_socket :: "bytes \<Rightarrow> framed_socket" where
  "select_socket f = \<lparr>so_in = [Pending, Ready (Some (Inr f))], so_ready = [Ready (Inr ())], so_send = [], so_flush = [Ready (Inr ())],
     so_close = [], so_out = []\<rparr>"

definition sample_infos :: proto_infos where
  "sample_infos = [pi_name sample_info \<mapsto>
     (\<lparr>pi_name = pi_name sample_info, pi_support_versions = [[48], [49]]\<rparr>, Some (\<lambda>locals remotes. Some [57]))]"

lemma select_socket_serves: "serves 1 1 [f] (select_socket f)"
  by (simp add: serves_def select_socket_def takes_frames_def open_socket_def)

text \<open>A server with a function that chooses a version neither side has.\<close>

theorem protocol_selection_agrees_witness:
  "\<exists>server' client'.
     server_select le_numbers sample_infos (select_socket (protocol_info_encode le_numbers sample_info)) =
       Finished (Inr (server', pi_name sample_info, Some [57])) \<and>
     client_select le_numbers sample_info
         (select_socket (protocol_info_encode le_numbers (reply_info sample_info (Some [57])))) =
       Finished (Inr (client', pi_name sample_info, Some [57]))"
proof -
  have "length (protocol_info_encode le_numbers sample_info) < 200"
    "utf8_valid (pi_name sample_info) \<and> (\<forall>v \<in> set (pi_support_versions sample_info). utf8_valid v)"
    "length (protocol_info_encode le_numbers (reply_info sample_info (Some [57]))) < 200"
    "utf8_valid (pi_name (reply_info sample_info (Some [57]))) \<and> (\<forall>v \<in> set (pi_support_versions (reply_info sample_info (Some [57]))). utf8_valid v)"
    by code_simp+
  then have ok: "protocol_info_ok le_numbers sample_info" and ok': "protocol_info_ok le_numbers (reply_info sample_info (Some [57]))"
    unfolding protocol_info_ok_def by simp_all
  then have f: "\<forall>l f x. sample_infos (pi_name sample_info) = Some (l, Some f) \<and>
      f (pi_support_versions l) (pi_support_versions sample_info) = Some x \<longrightarrow> protocol_info_ok le_numbers (reply_info sample_info (Some x))"
    by (auto simp: sample_infos_def)
  have c: "choose_version sample_infos sample_info = Some [57]"
    by (simp add: choose_version_def sample_infos_def)
  obtain s t v where "server_select le_numbers sample_infos (select_socket (protocol_info_encode le_numbers sample_info)) =
      Finished (Inr (s, pi_name sample_info, v))"
    "client_select le_numbers sample_info (select_socket (protocol_info_encode le_numbers (reply_info sample_info (Some [57])))) =
      Finished (Inr (t, pi_name sample_info, v))"
    "\<forall>l f. sample_infos (pi_name sample_info) = Some (l, Some f) \<longrightarrow> v = f (pi_support_versions l) (pi_support_versions sample_info)"
    using protocol_selection_agrees [where infos = sample_infos, OF le_numbers_ok ok f, of 0 0 "[]" "select_socket (protocol_info_encode le_numbers sample_info)"
      0 0 "[]" "select_socket (protocol_info_encode le_numbers (reply_info sample_info (Some [57])))"]
      c select_socket_serves by auto
  then show ?thesis by (auto simp: sample_infos_def)
qed

end
