(* ===== verification/Peer_Session.thy ===== *)
theory Peer_Session
  imports Substream_Safety Protocol_Select "HOL-Library.AList"
begin

text \<open>
  A session of the service (\<^verbatim>\<open>tentacle/src/session.rs\<close>): it opens the streams of the protocols, passes the messages of the
  service to them, and ends with the connection.

  The table of a \<^verbatim>\<open>HashMap\<close> is a list of entries in the order of its iteration. The streams and the service run in
  their own tasks: a channel to a stream and the channel from the service are those of \<open>Channel\<close>, and the receiver of the events of
  the streams, of the \<^verbatim>\<open>futures\<close> crate, is a script of answers. A spawned task is recorded with what it works on.
  The context is shared with the streams: the size of the pending data changes between polls. \<open>None\<close> is a panic.
\<close>

section \<open>Data\<close>

datatype session_state = StRemoteClose | StLocalClose | StNormal | StAbnormal

fun is_local_close :: "session_state \<Rightarrow> bool" where
  "is_local_close StLocalClose = True"
| "is_local_close _ = False"

fun is_normal :: "session_state \<Rightarrow> bool" where
  "is_normal StNormal = True"
| "is_normal _ = False"

datatype session_ty = Outbound | Inbound

text \<open>Events between a session and the service. A stream or a connection is a framed socket; an error that is only reported is left
  out of \<open>EvHandshakeError\<close>, \<open>EvDialError\<close> and \<open>EvListenError\<close>.\<close>

datatype session_event =
  EvSessionClose session_id
  | EvListenStart bytes
  | EvHandshakeSuccess framed_socket "bytes option" bytes session_ty "bytes option"
  | EvHandshakeError bytes session_ty
  | EvDialError bytes
  | EvListenError bytes
  | EvProtocolMessage protocol_id bytes
  | EvProtocolOpen protocol_id
  | EvProtocolClose protocol_id
  | EvStreamStart framed_socket
  | EvChangeState session_id session_state "io_kind option"
  | EvProtocolSelectError session_id "bytes option"
  | EvSessionTimeout session_id
  | EvProtocolError session_id protocol_id io_kind
  | EvMuxerError session_id io_kind
  | EvProtocolHandleError protocol_id "session_id option"

text \<open>A protocol. \<open>mt_codec\<close> is the stream read and written with the codec of the protocol, after what was already read; \<open>mt_spawn\<close> tells
  whether the user reads the stream.\<close>

record meta =
  mt_id :: protocol_id
  mt_name :: "protocol_id \<Rightarrow> bytes"
  mt_support_versions :: "bytes list"
  mt_codec :: "framed_socket \<Rightarrow> framed_socket"
  mt_select_version :: "select_fn option"
  mt_before_receive :: "(bytes \<Rightarrow> io_kind + bytes) option"
  mt_spawn :: bool

datatype session_task =
  TaskClientSelect protocol_info
  | TaskServerSelect framed_socket proto_infos
  | TaskSend "session_event list"
  | TaskCloseControl
  | TaskSubstream substream
  | TaskWritePart write_part
  | TaskSpawn read_part protocol_id stream_id bytes

text \<open>A receiver of the \<^verbatim>\<open>futures\<close> crate: what the next polls return. Without more answers it has ended if it was closed.\<close>

record 'a mpsc_receiver =
  mr_answers :: "'a option poll list"
  mr_closed :: bool

definition mpsc_poll_next :: "'a mpsc_receiver \<Rightarrow> 'a option poll \<times> 'a mpsc_receiver" where
  "mpsc_poll_next r =
     (case mr_answers r of
        [] \<Rightarrow> (if mr_closed r then Ready None else Pending, r)
      | a # as \<Rightarrow> (a, r\<lparr>mr_answers := as\<rparr>))"

text \<open>A task of a handle that the session waits for: whether it can still be told to stop and whether it was, and what the polls of
  its \<^verbatim>\<open>JoinHandle\<close> return.\<close>

record wait_handle =
  wh_sender :: bool
  wh_stopped :: bool
  wh_polls :: "unit poll list"

record peer_session =
  se_configs_by_name :: "(bytes \<times> meta) list"
  se_configs_by_id :: "(protocol_id \<times> meta) list"
  se_config :: session_config
  se_keep_buffer :: bool
  se_state :: session_state
  se_context :: session_context
  se_next_stream :: stream_id
  se_substreams :: "(stream_id \<times> protocol_event priority_buffer) list"
  se_channels :: "stream_id \<Rightarrow> protocol_event channel"
  se_proto_streams :: "(protocol_id \<times> stream_id) list"
  se_proto_event_sender :: "protocol_event mpsc_sender"
  se_proto_event_receiver :: "protocol_event mpsc_receiver"
  se_service_sender :: "session_event buffer"
  se_service_receiver :: "session_event channel"
  se_service_proto_senders :: "protocol_id \<Rightarrow> service_proto_event buffer option"
  se_session_proto_senders :: "protocol_id \<Rightarrow> session_proto_event buffer option"
  se_wait_handle :: "wait_handle list"
  se_spawned :: "session_task list"

text \<open>\<open>se_channels\<close> holds the channels of all streams, also of those that were removed.\<close>

definition se_spawn :: "session_task \<Rightarrow> peer_session \<Rightarrow> peer_session" where
  "se_spawn t s = s\<lparr>se_spawned := se_spawned s @ [t]\<rparr>"

section \<open>Output\<close>

definition se_output :: "peer_session \<Rightarrow> peer_session" where
  "se_output s =
     (case buffer_try_send (se_service_sender s) of
        (BufDisconnect, b) \<Rightarrow> s\<lparr>se_service_sender := buffer_clear b, se_state := StAbnormal\<rparr>
      | (_, b) \<Rightarrow> s\<lparr>se_service_sender := b\<rparr>)"

definition event_output :: "session_event \<Rightarrow> peer_session \<Rightarrow> peer_session" where
  "event_output event s = se_output (s\<lparr>se_service_sender := buffer_push event (se_service_sender s)\<rparr>)"

text \<open>The buffer of a stream, changed by the first function, is moved to its channel.\<close>

definition stream_send ::
  "(protocol_event priority_buffer \<Rightarrow> protocol_event priority_buffer) \<Rightarrow> stream_id \<Rightarrow> peer_session \<Rightarrow>
   (send_result \<times> peer_session) option" where
  "stream_send f i s =
     (case map_of (se_substreams s) i of
        None \<Rightarrow> Some (BufOk, s)
      | Some b \<Rightarrow>
          (case priority_try_send (f b) (se_channels s i) of
             None \<Rightarrow> None
           | Some (r, b, ch) \<Rightarrow>
               Some (r, s\<lparr>se_substreams := AList.update i b (se_substreams s), se_channels := (se_channels s)(i := ch)\<rparr>)))"

definition buffer_of :: "stream_id \<Rightarrow> peer_session \<Rightarrow> protocol_event priority_buffer" where
  "buffer_of i s = the (map_of (se_substreams s) i)"

fun se_distribute_loop :: "stream_id list \<Rightarrow> peer_session \<Rightarrow> peer_session option" where
  "se_distribute_loop [] s = Some s"
| "se_distribute_loop (i # is) s =
     (if pb_len (buffer_of i s) = 0 then se_distribute_loop is s
      else (case stream_send id i s of
        None \<Rightarrow> None
      | Some (BufPending, s) \<Rightarrow>
          Some (if cx_pending_data_size (se_context s) > sc_send_buffer_size (se_config s) then
              let s = s\<lparr>se_state := StAbnormal\<rparr>;
                  s = s\<lparr>se_substreams := AList.update i (pb_clear (buffer_of i s)) (se_substreams s)\<rparr> in
              event_output (EvChangeState (cx_id (se_context s)) StAbnormal None) s
            else s)
      | Some (_, s) \<Rightarrow> se_distribute_loop is s))"

definition distribute_to_substreams :: "peer_session \<Rightarrow> peer_session option" where
  "distribute_to_substreams s = se_distribute_loop (map fst (se_substreams s)) s"

definition se_flush :: "peer_session \<Rightarrow> peer_session option" where
  "se_flush s =
     map_option (\<lambda>s. if bf_buffer (se_service_sender s) = [] then s else se_output s) (distribute_to_substreams s)"

section \<open>Opening a protocol\<close>

text \<open>The task of \<^verbatim>\<open>select_procedure\<close>: the event for its result, where \<open>None\<close> is the timeout.\<close>

fun select_event :: "(secio_error + framed_socket \<times> bytes \<times> bytes option) option \<Rightarrow> protocol_event" where
  "select_event (Some (Inr (so, name, Some version))) = PeOpen name so version"
| "select_event (Some (Inr (so, name, None))) = PeSelectError (Some name)"
| "select_event (Some (Inl e)) = PeSelectError None"
| "select_event None = PeSelectError None"

text \<open>The task of \<^verbatim>\<open>open_proto_stream\<close>, from what opening a stream returns.\<close>

definition open_task ::
  "molecule \<Rightarrow> protocol_info \<Rightarrow> 'e + framed_socket \<Rightarrow> (secio_error + framed_socket \<times> bytes \<times> bytes option) run" where
  "open_task mo proto_info handle =
     (case handle of
        Inl _ \<Rightarrow> Finished (Inl (IoError IoBrokenPipe))
      | Inr so \<Rightarrow> client_select mo proto_info so)"

definition open_proto_stream :: "bytes \<Rightarrow> peer_session \<Rightarrow> peer_session option" where
  "open_proto_stream proto_name s =
     map_option (\<lambda>meta. se_spawn (TaskClientSelect \<lparr>pi_name = proto_name, pi_support_versions = mt_support_versions meta\<rparr>) s)
       (map_of (se_configs_by_name s) proto_name)"

definition meta_info :: "meta \<Rightarrow> bytes \<times> protocol_info \<times> select_fn option" where
  "meta_info m =
     (let name = mt_name m (mt_id m) in
      (name, \<lparr>pi_name = name, pi_support_versions = mt_support_versions m\<rparr>, mt_select_version m))"

definition handle_substream :: "framed_socket \<Rightarrow> peer_session \<Rightarrow> peer_session" where
  "handle_substream so s =
     se_spawn (TaskServerSelect so (map_of (rev (map (meta_info \<circ> snd) (se_configs_by_name s))))) s"

text \<open>The tasks that run the stream. The channel has two senders: 1 is in the buffer of the session, and 0 is given to the reader of
  the user, or dropped.\<close>

definition start_stream :: "meta \<Rightarrow> bytes \<Rightarrow> framed_socket \<Rightarrow> protocol_event channel \<Rightarrow> peer_session \<Rightarrow> peer_session" where
  "start_stream proto version so ch s =
     (let i = se_next_stream s; so = mt_codec proto so in
      if mt_spawn proto then
        let s = se_spawn (TaskWritePart
              (write_part_build so i (mt_id proto) (se_config s) (se_proto_event_sender s) ch (se_context s))) s;
            s = se_spawn (TaskSpawn \<lparr>rp_substream = so, rp_before_receive = mt_before_receive proto\<rparr> (mt_id proto) i version) s in
        s\<lparr>se_channels := (se_channels s)(i := ch)\<rparr>
      else
        let ch = disconnect 0 ch;
            stream = substream_build so i (mt_id proto) (se_config s) (se_proto_event_sender s) ch (se_context s) (se_keep_buffer s)
              (se_service_proto_senders s (mt_id proto)) (se_session_proto_senders s (mt_id proto)) (mt_before_receive proto) in
        (se_spawn (TaskSubstream (proto_open version stream)) s)\<lparr>se_channels := (se_channels s)(i := ch)\<rparr>)"

definition open_protocol :: "bytes \<Rightarrow> bytes \<Rightarrow> framed_socket \<Rightarrow> peer_session \<Rightarrow> peer_session option" where
  "open_protocol name version so s =
     (case map_of (se_configs_by_name s) name of
        None \<Rightarrow> Some (event_output (EvProtocolSelectError (cx_id (se_context s)) None) (s\<lparr>se_state := StAbnormal\<rparr>))
      | Some proto \<Rightarrow>
          if map_of (se_proto_streams s) (mt_id proto) \<noteq> None then Some s
          else (case Option.bind (channel_new (sc_channel_size (se_config s))) (clone_sender 0) of
            None \<Rightarrow> None
          | Some ch \<Rightarrow>
              let s = s\<lparr>se_substreams := AList.update (se_next_stream s) (priority_buffer_new 1) (se_substreams s),
                        se_proto_streams := AList.update (mt_id proto) (se_next_stream s) (se_proto_streams s)\<rparr>;
                  s = start_stream proto version so ch s in
              Some (s\<lparr>se_next_stream := se_next_stream s + 1\<rparr>)))"

section \<open>Closing\<close>

text \<open>A stream is removed from the table; the sender in its buffer is dropped.\<close>

definition drop_buffer :: "stream_id \<times> protocol_event priority_buffer \<Rightarrow> (stream_id \<Rightarrow> protocol_event channel) \<Rightarrow> stream_id \<Rightarrow> protocol_event channel" where
  "drop_buffer e chs = chs(fst e := disconnect (pb_sender (snd e)) (chs (fst e)))"

definition clean :: "peer_session \<Rightarrow> peer_session" where
  "clean s =
     se_spawn TaskCloseControl
       (s\<lparr>se_channels := fold drop_buffer (se_substreams s) (se_channels s), se_substreams := [],
          se_service_receiver := recv_close (se_service_receiver s),
          se_proto_event_receiver := (se_proto_event_receiver s)\<lparr>mr_closed := True\<rparr>\<rparr>)"

definition close_session :: "peer_session \<Rightarrow> peer_session" where
  "close_session s =
     (let s = s\<lparr>se_context := (se_context s)\<lparr>cx_closed := True\<rparr>\<rparr>;
          (events, b) = buffer_take (se_service_sender s);
          s = s\<lparr>se_service_sender := b\<rparr> in
      clean (se_spawn (TaskSend (events @ [EvSessionClose (cx_id (se_context s))])) s))"

fun close_loop :: "stream_id list \<Rightarrow> peer_session \<Rightarrow> peer_session option" where
  "close_loop [] s = Some s"
| "close_loop (i # is) s = Option.bind (stream_send (push_high (PeClose i 0)) i s) (\<lambda>(_, s). close_loop is s)"

definition close_all_proto :: "peer_session \<Rightarrow> peer_session option" where
  "close_all_proto s =
     (if cx_closed (se_context s) then Some (close_session s)
      else map_option (\<lambda>s. s\<lparr>se_context := (se_context s)\<lparr>cx_closed := True\<rparr>\<rparr>) (close_loop (map fst (se_substreams s)) s))"

definition poll_handle :: "wait_handle \<Rightarrow> unit poll \<times> wait_handle" where
  "poll_handle h =
     (let h = h\<lparr>wh_sender := False, wh_stopped := wh_stopped h \<or> wh_sender h\<rparr> in
      case wh_polls h of [] \<Rightarrow> (Pending, h) | a # as \<Rightarrow> (a, h\<lparr>wh_polls := as\<rparr>))"

definition wait_handle_poll :: "peer_session \<Rightarrow> unit option poll \<times> peer_session" where
  "wait_handle_poll s =
     (let hs = map snd (filter (\<lambda>(a, h). a = Pending) (map poll_handle (se_wait_handle s))) in
      (if hs = [] then Ready None else Pending, s\<lparr>se_wait_handle := hs\<rparr>))"

section \<open>Events\<close>

definition handle_stream_event :: "protocol_event \<Rightarrow> peer_session \<Rightarrow> peer_session option" where
  "handle_stream_event event s =
     (case event of
        PeOpen proto_name so version \<Rightarrow> open_protocol proto_name version so s
      | PeClose i proto_id \<Rightarrow>
          Some (case map_of (se_substreams s) i of
              None \<Rightarrow> s
            | Some b \<Rightarrow> s\<lparr>se_substreams := AList.delete i (se_substreams s), se_channels := drop_buffer (i, b) (se_channels s),
                se_proto_streams := AList.delete proto_id (se_proto_streams s)\<rparr>)
      | PeMessage _ \<Rightarrow> None
      | PeSelectError proto_name \<Rightarrow> Some (event_output (EvProtocolSelectError (cx_id (se_context s)) proto_name) s)
      | PeError proto_id error \<Rightarrow> Some (event_output (EvProtocolError (cx_id (se_context s)) proto_id error) s)
      | PeTimeoutCheck \<Rightarrow>
          Some (if se_substreams s = [] then
              (event_output (EvSessionTimeout (cx_id (se_context s))) s)\<lparr>se_state := StLocalClose\<rparr>
            else s))"

definition handle_session_event :: "session_event \<Rightarrow> priority \<Rightarrow> peer_session \<Rightarrow> peer_session option" where
  "handle_session_event event p s =
     (case event of
        EvProtocolMessage proto_id data \<Rightarrow>
          (case map_of (se_proto_streams s) proto_id of
             Some i \<Rightarrow> map_option snd
               (stream_send (if is_high p then push_high (PeMessage data) else push_normal (PeMessage data)) i s)
           | None \<Rightarrow> Some s)
      | EvSessionClose _ \<Rightarrow>
          if se_substreams s = [] then Some (close_session s)
          else close_all_proto (s\<lparr>se_state := StLocalClose\<rparr>)
      | EvProtocolOpen proto_id \<Rightarrow>
          if map_of (se_proto_streams s) proto_id \<noteq> None then Some s
          else (case map_of (se_configs_by_id s) proto_id of
             Some meta \<Rightarrow> open_proto_stream (mt_name meta (mt_id meta)) s
           | None \<Rightarrow> Some s)
      | EvProtocolClose proto_id \<Rightarrow>
          (case map_of (se_proto_streams s) proto_id of
             Some i \<Rightarrow> map_option snd (stream_send (push_high (PeClose i proto_id)) i s)
           | None \<Rightarrow> Some s)
      | EvStreamStart stream \<Rightarrow> Some (handle_substream stream s)
      | EvChangeState i state error \<Rightarrow>
          Some (if se_state s = StNormal then
              let s = s\<lparr>se_state := state\<rparr> in
              (case error of
                 None \<Rightarrow> s
               | Some err \<Rightarrow> event_output (EvMuxerError i err)
                   (if se_keep_buffer s then s else s\<lparr>se_service_sender := buffer_clear (se_service_sender s)\<rparr>))
            else s)
      | _ \<Rightarrow> Some s)"

definition recv_substreams :: "peer_session \<Rightarrow> (unit option poll \<times> peer_session) option" where
  "recv_substreams s =
     (let (a, r) = mpsc_poll_next (se_proto_event_receiver s); s = s\<lparr>se_proto_event_receiver := r\<rparr> in
      case a of
        Ready (Some event) \<Rightarrow>
          if \<not> is_local_close (se_state s) then map_option (Pair (Ready (Some ()))) (handle_stream_event event s)
          else Some (Ready None, s)
      | Ready None \<Rightarrow> Some (Ready None, s\<lparr>se_state := StLocalClose\<rparr>)
      | Pending \<Rightarrow> Some (Pending, s))"

definition recv_service :: "peer_session \<Rightarrow> (unit option poll \<times> peer_session) option" where
  "recv_service s =
     (case recv_poll_next (se_service_receiver s) of
        None \<Rightarrow> None
      | Some (a, r) \<Rightarrow>
          let s = s\<lparr>se_service_receiver := r\<rparr> in
          (case a of
             Ready (Some (p, event)) \<Rightarrow>
               if \<not> is_normal (se_state s) then Some (Ready None, s)
               else map_option (Pair (Ready (Some ()))) (handle_session_event event p s)
           | Ready None \<Rightarrow> Some (Ready None, clean (s\<lparr>se_state := StLocalClose\<rparr>))
           | Pending \<Rightarrow> Some (Pending, s)))"

section \<open>Polling\<close>

text \<open>What follows the events, by the state.\<close>

definition poll_rest :: "bool \<Rightarrow> peer_session \<Rightarrow> (unit option poll \<times> peer_session) option" where
  "poll_rest is_pending s =
     (let result = (if is_pending then Pending else Ready (Some ())) in
      case se_state s of
        StRemoteClose \<Rightarrow>
          if se_proto_streams s = [] then Some (wait_handle_poll (close_session s))
          else map_option (Pair result) (close_all_proto s)
      | StNormal \<Rightarrow> Some (result, s)
      | _ \<Rightarrow> Some (wait_handle_poll (close_session (s\<lparr>se_proto_streams := []\<rparr>))))"

definition se_poll_next :: "u8 \<Rightarrow> peer_session \<Rightarrow> (unit option poll \<times> peer_session) option" where
  "se_poll_next budget s =
     (if is_local_close (se_state s) then Some (Ready None, s)
      else Option.bind (se_flush s) (\<lambda>s.
        if fst (poll_proceed budget) = Pending then Some (Pending, s)
        else Option.bind (recv_substreams s) (\<lambda>(a, s).
          Option.bind (recv_service s) (\<lambda>(b, s). poll_rest (a = Pending \<and> b = Pending) s))))"

definition se_new ::
  "(bytes \<times> meta) list \<Rightarrow> (protocol_id \<times> meta) list \<Rightarrow> session_config \<Rightarrow> bool \<Rightarrow> session_context \<Rightarrow> protocol_event mpsc_sender \<Rightarrow>
   protocol_event option poll list \<Rightarrow> session_event mpsc_sender \<Rightarrow> session_event channel \<Rightarrow>
   (protocol_id \<Rightarrow> service_proto_event buffer option) \<Rightarrow> (protocol_id \<Rightarrow> session_proto_event buffer option) \<Rightarrow> wait_handle list \<Rightarrow>
   peer_session" where
  "se_new by_name by_id cfg keep context sender events service_sender service_receiver service_protos session_protos handles =
     \<lparr>se_configs_by_name = by_name, se_configs_by_id = by_id, se_config = cfg, se_keep_buffer = keep, se_state = StNormal,
      se_context = context, se_next_stream = 0, se_substreams = [],
      se_channels = (\<lambda>_. the (channel_new 0)), se_proto_streams = [], se_proto_event_sender = sender,
      se_proto_event_receiver = \<lparr>mr_answers = events, mr_closed = False\<rparr>, se_service_sender = buffer_new service_sender,
      se_service_receiver = service_receiver, se_service_proto_senders = service_protos,
      se_session_proto_senders = session_protos, se_wait_handle = handles, se_spawned = []\<rparr>"

text \<open>The task that reads the connection: what it tells the session for an answer of the yamux session, and what it returns.\<close>

definition inner_poll ::
  "session_id \<Rightarrow> (io_kind + framed_socket) option poll \<Rightarrow> session_event option \<times> unit option poll" where
  "inner_poll i a =
     (case a of
        Ready (Some (Inr stream)) \<Rightarrow> (Some (EvStreamStart stream), Ready (Some ()))
      | Ready None \<Rightarrow> (Some (EvChangeState i StRemoteClose None), Ready None)
      | Pending \<Rightarrow> (None, Pending)
      | Ready (Some (Inl err)) \<Rightarrow>
          (Some (if err \<in> {IoBrokenPipe, IoConnectionAborted, IoConnectionReset, IoNotConnected, IoUnexpectedEof}
             then EvChangeState i StRemoteClose None
             else EvChangeState i StAbnormal (Some err)), Ready None))"

end
