(* ===== verification/Peer_Session_Safety.thy ===== *)
theory Peer_Session_Safety
  imports Peer_Session "HOL-Library.Multiset"
begin

text \<open>
  What a session does for the service: it never panics, passes on messages in order, reports its end, and ends when it is
  closed.
\<close>

section \<open>What the operations change\<close>

lemma output_form: "\<exists>b st. se_output s = s\<lparr>se_service_sender := b, se_state := st\<rparr> \<and> (st = se_state s \<or> st = StAbnormal)"
proof -
  obtain r b where b: "buffer_try_send (se_service_sender s) = (r, b)" by force
  have "se_output s = (if r = BufDisconnect then s\<lparr>se_service_sender := buffer_clear b, se_state := StAbnormal\<rparr>
      else s\<lparr>se_service_sender := b, se_state := se_state s\<rparr>)"
    by (cases r) (simp_all add: se_output_def b)
  then show ?thesis by (metis (full_types))
qed

lemma event_output_form:
  "\<exists>b st. event_output e s = s\<lparr>se_service_sender := b, se_state := st\<rparr> \<and> (st = se_state s \<or> st = StAbnormal)"
  using output_form [of "s\<lparr>se_service_sender := buffer_push e (se_service_sender s)\<rparr>"] by (auto simp: event_output_def)

lemma stream_send_form:
  assumes "stream_send f i s = Some (r, s')"
  obtains "map_of (se_substreams s) i = None" and "s' = s"
  | b b' ch where "map_of (se_substreams s) i = Some b" and "priority_try_send (f b) (se_channels s i) = Some (r, b', ch)"
    and "s' = s\<lparr>se_substreams := AList.update i b' (se_substreams s), se_channels := (se_channels s)(i := ch)\<rparr>"
  using assms by (auto simp: stream_send_def split: option.splits prod.splits)

text \<open>The table of the streams keeps its streams.\<close>

definition stream_ids :: "peer_session \<Rightarrow> stream_id set" where
  "stream_ids s = fst ` set (se_substreams s)"

lemma in_stream_ids: "i \<in> stream_ids s \<longleftrightarrow> (\<exists>b. map_of (se_substreams s) i = Some b)"
  unfolding stream_ids_def by (metis map_of_eq_None_iff option.exhaust option.simps(3))

lemma stream_send_ids: "stream_send f i s = Some (r, s') \<Longrightarrow> stream_ids s' = stream_ids s"
  by (erule stream_send_form) (auto simp: in_stream_ids update_conv split: if_splits)

section \<open>Sending to a stream\<close>

text \<open>A channel with few senders has room: its operations do not panic.\<close>

definition room :: "nat \<Rightarrow> 'a channel \<Rightarrow> bool" where
  "room i ch \<longleftrightarrow> chan_ok ch \<and> length (ch_senders ch) < 2 ^ 62 \<and> i < length (ch_senders ch)"

lemma room_0: "room i ch \<Longrightarrow> room 0 ch"
  by (auto simp: room_def)

lemma loop_room: "room i ch \<Longrightarrow> \<exists>r ys ch'. send_loop (chan_poll_ready i) (\<lambda>x. try_send i x p) xs ch = Some (r, ys, ch') \<and> room i ch'"
proof (induction xs arbitrary: ch)
  case (Cons x xs)
  obtain a ch1 where 1: "chan_poll_ready i ch = (a, ch1)" by force
  have r1: "room i ch1"
    using Cons.prems chan_poll_ready_ok [OF _ _ 1] same_size_simps(10) [of i ch] by (simp add: room_def 1)
  then obtain r ch2 where 2: "try_send i x p ch1 = Some (r, ch2)"
    using chan_step_some [of ch1 "OpTrySend i x p"] by (auto simp: room_def)
  have "room i ch2" using r1 try_send_ok [OF _ _ 2] try_send_sizes [OF 2] by (simp add: room_def)
  from Cons.IH [OF this] r1 1 2 \<open>room i ch2\<close> show ?case
    by (cases a; cases r) (auto split: sum.split)
qed simp

lemma priority_try_send_room:
  assumes "room (pb_sender b) ch"
  shows "\<exists>r b' ch'. priority_try_send b ch = Some (r, b', ch') \<and> room (pb_sender b) ch' \<and> pb_sender b' = pb_sender b"
proof -
  from loop_room [OF assms, of High "pb_high b"] obtain r ys ch1 where
    1: "send_loop (chan_poll_ready (pb_sender b)) (\<lambda>x. try_send (pb_sender b) x High) (pb_high b) ch = Some (r, ys, ch1)"
      "room (pb_sender b) ch1" by blast
  from loop_room [OF 1(2), of Normal "pb_normal b"] obtain r2 ys2 ch2 where
    2: "send_loop (chan_poll_ready (pb_sender b)) (\<lambda>x. try_send (pb_sender b) x Normal) (pb_normal b) ch1 = Some (r2, ys2, ch2)"
      "room (pb_sender b) ch2" by blast
  from 1 2 show ?thesis by (cases r; cases r2) (simp_all add: priority_try_send_def pb_clear_def)
qed

lemma loop_live:
  "live_sender i ch \<Longrightarrow> send_loop (chan_poll_ready i) (\<lambda>x. try_send i x p) xs ch = Some (r, ys, ch') \<Longrightarrow>
    live_sender i ch' \<and> r \<noteq> BufDisconnect"
proof (induction xs arbitrary: ch)
  case (Cons x xs)
  from poll_ready_live [OF Cons.prems(1)] obtain ch1 where
    1: "chan_poll_ready i ch = (if snd_is_parked (ch_senders ch ! i) then Pending else Ready (Inr ()), ch1)" "live_sender i ch1"
      "snd_is_parked (ch_senders ch1 ! i) = snd_is_parked (ch_senders ch ! i)" by metis
  show ?case
  proof (cases "snd_is_parked (ch_senders ch ! i)")
    case True
    with Cons.prems 1 show ?thesis by auto
  next
    case False
    with Cons.prems 1 obtain r2 ch2 where 2: "try_send i x p ch1 = Some (r2, ch2)" by (auto split: option.splits)
    have l: "chan_ok ch1" "i < length (ch_senders ch1)" "snd_alive (ch_senders ch1 ! i)" "opened ch1"
      using 1(2) by (simp_all add: live_sender_def)
    have u: "poll_unparked i False ch1 = (Ready (), ch3) \<Longrightarrow> opened ch3" for ch3
      using l(4) by (auto simp: poll_unparked_def Let_def opened_def split: if_splits)
    have "r2 = SendOk" using 2 l(3) False 1(3) u
      by (auto simp: try_send_def do_send_b_def inc_num_messages_def poll_unparked_def opened_def Let_def split: if_splits option.splits prod.splits)
    with 2 have s: "try_send i x p ch1 = Some (SendOk, ch2)" by simp
    note k = try_send_keeps [OF l(1,2) s]
    have "snd_alive (ch_senders ch2 ! i)"
      using arg_cong [where f = "\<lambda>xs. xs ! i", OF conjunct2 [OF conjunct2 [OF conjunct2 [OF k]]]] l(2,3) try_send_sizes [OF s] by simp
    then have "live_sender i ch2" using k try_send_ok [OF l(1,2) s] try_send_sizes [OF s] l(2) by (simp add: live_sender_def)
    from Cons.IH [OF this] Cons.prems 1 s False show ?thesis by simp
  qed
qed simp

lemma priority_try_send_keeps_live:
  assumes l: "live_sender (pb_sender b) ch" and s: "priority_try_send b ch = Some (r, b', ch')"
  shows "live_sender (pb_sender b') ch'" and "r \<noteq> BufDisconnect"
proof -
  from s obtain r1 ys ch1 where
    1: "send_loop (chan_poll_ready (pb_sender b)) (\<lambda>x. try_send (pb_sender b) x High) (pb_high b) ch = Some (r1, ys, ch1)"
    by (auto simp: priority_try_send_def split: option.splits)
  note l1 = loop_live [OF l 1]
  from s 1 l1 loop_live [OF conjunct1 [OF l1], of Normal "pb_normal b"] show "live_sender (pb_sender b') ch'" "r \<noteq> BufDisconnect"
    by (auto simp: priority_try_send_def Let_def split: option.splits send_result.splits)
qed

section \<open>A session does not panic\<close>

text \<open>What the service gives a session: the names of the protocols are known, the channels are not too large, and a stream sends no
  message to the session.\<close>

definition config_ok :: "peer_session \<Rightarrow> bool" where
  "config_ok s \<longleftrightarrow> sc_channel_size (se_config s) < MAX_BUFFER \<and>
     (\<forall>m \<in> snd ` set (se_configs_by_id s). mt_name m (mt_id m) \<in> fst ` set (se_configs_by_name s)) \<and>
     (\<forall>d. Ready (Some (PeMessage d)) \<notin> set (mr_answers (se_proto_event_receiver s)))"

definition streams_ok :: "peer_session \<Rightarrow> bool" where
  "streams_ok s \<longleftrightarrow> distinct (map fst (se_substreams s)) \<and> (\<forall>i. room 0 (se_channels s i)) \<and>
     (\<forall>i b. map_of (se_substreams s) i = Some b \<longrightarrow> room (pb_sender b) (se_channels s i))"

definition core_ok :: "peer_session \<Rightarrow> bool" where
  "core_ok s \<longleftrightarrow> config_ok s \<and> streams_ok s \<and> chan_ok (se_service_receiver s)"

definition se_ok :: "peer_session \<Rightarrow> bool" where
  "se_ok s \<longleftrightarrow> core_ok s \<and> (ch_receiver (se_service_receiver s) \<or> se_state s = StLocalClose)"

lemmas ok_defs = core_ok_def config_ok_def streams_ok_def

text \<open>Changes of the buffers, the channels and the state only.\<close>

definition others :: "peer_session \<Rightarrow> peer_session" where
  "others s = s\<lparr>se_substreams := [], se_channels := (\<lambda>_. the (channel_new 0)), se_state := StNormal,
     se_service_sender := buffer_new \<lparr>ms_ready = [], ms_try = [], ms_sent = []\<rparr>\<rparr>"

definition quiet :: "peer_session \<Rightarrow> peer_session \<Rightarrow> bool" where
  "quiet s s' \<longleftrightarrow> others s' = others s \<and> (se_state s' = se_state s \<or> se_state s' = StAbnormal) \<and> stream_ids s' = stream_ids s"

lemma quiet_refl [simp]: "quiet s s"
  by (simp add: quiet_def)

lemma quiet_trans: "quiet s s1 \<Longrightarrow> quiet s1 s2 \<Longrightarrow> quiet s s2"
  unfolding quiet_def by metis

lemma quiet_event: "quiet s (event_output e s)"
  using event_output_form [of e s] by (auto simp: quiet_def others_def stream_ids_def)

lemma quiet_output: "quiet s (se_output s)"
  using output_form [of s] by (auto simp: quiet_def others_def stream_ids_def)

lemma quiet_abnormal: "quiet s (s\<lparr>se_state := StAbnormal\<rparr>)"
  by (simp add: quiet_def others_def stream_ids_def)

lemma quiet_send:
  assumes "stream_send f i s = Some (r, s')"
  shows "quiet s s'"
  using assms stream_send_ids [OF assms] by (auto elim!: stream_send_form simp: quiet_def others_def)

lemma others_fields:
  assumes "others s' = others s"
  shows "se_service_receiver s' = se_service_receiver s" and "se_proto_event_receiver s' = se_proto_event_receiver s"
    and "se_proto_streams s' = se_proto_streams s" and "se_context s' = se_context s" and "se_spawned s' = se_spawned s"
    and "se_next_stream s' = se_next_stream s" and "config_ok s' = config_ok s" and "se_wait_handle s' = se_wait_handle s"
  by (use assms in \<open>(cases s; cases s'; simp add: others_def config_ok_def)+\<close>)

lemma quiet_fields:
  assumes "quiet s s'"
  shows "se_service_receiver s' = se_service_receiver s" and "se_proto_event_receiver s' = se_proto_event_receiver s"
    and "se_proto_streams s' = se_proto_streams s" and "se_context s' = se_context s" and "se_spawned s' = se_spawned s"
    and "se_next_stream s' = se_next_stream s" and "config_ok s' = config_ok s" and "se_wait_handle s' = se_wait_handle s"
    and "se_state s' = se_state s \<or> se_state s' = StAbnormal" and "se_substreams s' = [] \<longleftrightarrow> se_substreams s = []"
  using assms others_fields [of s' s] by (auto simp: quiet_def stream_ids_def)

lemma event_output_streams [simp]:
  "se_substreams (event_output e s) = se_substreams s" "se_channels (event_output e s) = se_channels s"
  "se_substreams (se_output s) = se_substreams s" "se_channels (se_output s) = se_channels s"
  using event_output_form [of e s] output_form [of s] by auto

lemma stream_send_ok:
  assumes "streams_ok s" and "\<And>b. pb_sender (f b) = pb_sender b"
  shows "\<exists>r s'. stream_send f i s = Some (r, s') \<and> streams_ok s' \<and> quiet s s'"
proof (cases "map_of (se_substreams s) i")
  case None
  with assms show ?thesis by (simp add: stream_send_def)
next
  case (Some b)
  with assms have "room (pb_sender (f b)) (se_channels s i)" by (simp add: streams_ok_def)
  from priority_try_send_room [OF this] obtain r b' ch' where
    1: "priority_try_send (f b) (se_channels s i) = Some (r, b', ch')" "room (pb_sender b') ch'" by auto
  then have s: "stream_send f i s = Some (r, s\<lparr>se_substreams := AList.update i b' (se_substreams s), se_channels := (se_channels s)(i := ch')\<rparr>)"
    by (simp add: stream_send_def Some)
  with quiet_send [OF s] 1(2) assms(1) show ?thesis
    by (auto simp: streams_ok_def update_conv distinct_update intro: room_0)
qed

lemma distribute_loop_ok: "streams_ok s \<Longrightarrow> \<exists>s'. se_distribute_loop is s = Some s' \<and> streams_ok s' \<and> quiet s s'"
proof (induction "is" arbitrary: s)
  case (Cons i "is")
  from stream_send_ok [OF Cons.prems, of id i] obtain r s1 where
    1: "stream_send id i s = Some (r, s1)" "streams_ok s1" "quiet s s1" by auto
  show ?case
  proof (cases "r = BufPending \<and> pb_len (buffer_of i s) \<noteq> 0")
    case True
    with 1(1) have i: "i \<in> stream_ids s1" using stream_send_ids [OF 1(1)] by (auto simp: stream_send_def in_stream_ids split: option.splits)
    let ?c = "s1\<lparr>se_state := StAbnormal, se_substreams := AList.update i (pb_clear (buffer_of i s1)) (se_substreams s1)\<rparr>"
    have "stream_ids ?c = stream_ids s1" using i by (auto simp: in_stream_ids update_conv split: if_splits)
    then have q: "quiet s1 ?c" by (simp add: quiet_def others_def)
    have c: "streams_ok ?c" using 1(2) i by (auto simp: in_stream_ids streams_ok_def update_conv distinct_update buffer_of_def pb_clear_def split: if_splits)
    let ?e = "event_output (EvChangeState (cx_id (se_context s1)) StAbnormal None) ?c"
    have "streams_ok ?e" "quiet s ?e" using c quiet_trans [OF 1(3) quiet_trans [OF q quiet_event]] by (simp_all add: streams_ok_def)
    with True 1 show ?thesis by (auto simp: Let_def buffer_of_def)
  next
    case False
    from Cons.IH [OF 1(2)] Cons.IH [OF Cons.prems] 1 False quiet_trans [OF 1(3)] show ?thesis by (cases r) auto
  qed
qed simp

lemma se_flush_ok:
  assumes "streams_ok s"
  shows "\<exists>s'. se_flush s = Some s' \<and> streams_ok s' \<and> quiet s s'"
proof -
  from distribute_loop_ok [OF assms] obtain s1 where 1: "distribute_to_substreams s = Some s1" "streams_ok s1" "quiet s s1"
    unfolding distribute_to_substreams_def by blast
  then show ?thesis using quiet_trans [OF 1(3) quiet_output] by (simp add: se_flush_def streams_ok_def)
qed

lemma close_loop_ok: "streams_ok s \<Longrightarrow> \<exists>s'. close_loop is s = Some s' \<and> streams_ok s' \<and> quiet s s'"
proof (induction "is" arbitrary: s)
  case (Cons i "is")
  from stream_send_ok [OF Cons.prems, of "push_high (PeClose i 0)" i] obtain r s1 where
    1: "stream_send (push_high (PeClose i 0)) i s = Some (r, s1)" "streams_ok s1" "quiet s s1" by (auto simp: push_high_def)
  from Cons.IH [OF 1(2)] 1(1) quiet_trans [OF 1(3)] show ?case by auto
qed simp

lemma core_ok_quiet: "core_ok s \<Longrightarrow> quiet s s' \<Longrightarrow> streams_ok s' \<Longrightarrow> core_ok s'"
  using quiet_fields [of s s'] by (simp add: core_ok_def)

lemma event_output_ok: "core_ok s \<Longrightarrow> core_ok (event_output e s)"
  using core_ok_quiet [OF _ quiet_event] by (simp add: core_ok_def streams_ok_def)

lemma core_updates [simp]: "core_ok (s\<lparr>se_state := st\<rparr>) = core_ok s" "core_ok (s\<lparr>se_context := c\<rparr>) = core_ok s"
    "core_ok (s\<lparr>se_proto_streams := ps\<rparr>) = core_ok s" "core_ok (s\<lparr>se_wait_handle := w\<rparr>) = core_ok s"
    "core_ok (s\<lparr>se_service_sender := b\<rparr>) = core_ok s" "core_ok (se_spawn t s) = core_ok s"
  by (simp_all add: ok_defs se_spawn_def)

lemma spawn_fields [simp]:
  "se_service_receiver (se_spawn t s) = se_service_receiver s" "se_state (se_spawn t s) = se_state s"
  "se_substreams (se_spawn t s) = se_substreams s" "se_channels (se_spawn t s) = se_channels s"
  "se_proto_streams (se_spawn t s) = se_proto_streams s" "se_context (se_spawn t s) = se_context s"
  "se_next_stream (se_spawn t s) = se_next_stream s" "se_proto_event_receiver (se_spawn t s) = se_proto_event_receiver s"
  "se_spawned (se_spawn t s) = se_spawned s @ [t]"
  by (simp_all add: se_spawn_def)

lemma recv_close_keeps_receiver [simp]: "ch_receiver (recv_close ch) = ch_receiver ch"
proof -
  have "ch_receiver (notify_all is c) = ch_receiver c" for "is" and c :: "'a channel"
    by (induction "is" arbitrary: c) (simp_all add: notify_def Let_def)
  then show ?thesis by (simp add: recv_close_def set_closed_def Let_def)
qed

lemma disconnect_room: "room j ch \<Longrightarrow> room i ch \<Longrightarrow> room i (disconnect j ch)"
  using disconnect_ok [of ch j] by (simp add: room_def)

lemma drop_all_room:
  assumes "distinct (map fst es)" and "\<And>i. room 0 (chs i)" and "\<And>i b. (i, b) \<in> set es \<Longrightarrow> room (pb_sender b) (chs i)"
  shows "room 0 (fold drop_buffer es chs i)"
  using assms
proof (induction es arbitrary: chs)
  case (Cons e es)
  let ?c = "drop_buffer e chs"
  have e: "room (pb_sender (snd e)) (chs (fst e))" using Cons.prems(3) [of "fst e" "snd e"] by simp
  have "room 0 (?c j)" for j using Cons.prems(2) [of j] disconnect_room [OF e room_0 [OF e]] by (simp add: drop_buffer_def)
  moreover have "room (pb_sender b) (?c j)" if m: "(j, b) \<in> set es" for j b
  proof -
    from m have "j \<in> fst ` set es" by force
    with Cons.prems(1) have "j \<noteq> fst e" by (metis distinct.simps(2) list.set_map list.simps(9))
    with Cons.prems(3) [of j b] m show ?thesis by (simp add: drop_buffer_def)
  qed
  ultimately show ?case using Cons.IH [of ?c] Cons.prems(1) by simp
qed simp

lemma clean_ok: "core_ok s \<Longrightarrow> core_ok (clean s)"
  using drop_all_room [of "se_substreams s" "se_channels s"] by (simp add: clean_def) (auto simp: ok_defs recv_close_ok)

lemma close_session_ok: "core_ok s \<Longrightarrow> core_ok (close_session s)"
  by (simp add: close_session_def buffer_take_def clean_ok Let_def)

lemma close_session_fields [simp]:
  "se_service_receiver (close_session s) = recv_close (se_service_receiver s)" "se_state (close_session s) = se_state s"
  "se_substreams (close_session s) = []" "cx_closed (se_context (close_session s))" "se_proto_streams (close_session s) = se_proto_streams s"
  "cx_id (se_context (close_session s)) = cx_id (se_context s)" "se_wait_handle (close_session s) = se_wait_handle s"
  by (simp_all add: close_session_def clean_def se_spawn_def buffer_take_def)

text \<open>The receiver of the service may be closed, also more than once.\<close>

definition rx :: "'a channel \<Rightarrow> 'a channel \<Rightarrow> bool" where
  "rx ch ch' \<longleftrightarrow> (\<exists>n. ch' = (recv_close ^^ n) ch)"

lemma rx_refl [simp]: "rx ch ch" and rx_close [simp]: "rx ch (recv_close ch)"
  unfolding rx_def by (rule exI [of _ 0], simp, rule exI [of _ 1], simp)

lemma rx_trans: "rx a b \<Longrightarrow> rx b c \<Longrightarrow> rx a c"
  unfolding rx_def by (metis funpow_add o_apply)

lemma recv_close_not_opened: "chan_ok ch \<Longrightarrow> ch_receiver ch \<Longrightarrow> \<not> opened (recv_close ch)"
  using set_closed_not_opened [of ch] notify_all_props [of "ch_parked_queue (set_closed ch)" "set_closed ch"] set_closed_ok [of ch]
  by (simp add: recv_close_def Let_def chan_ok_def opened_def)

lemma rx_keeps:
  assumes "rx ch ch'"
  shows "ch_receiver ch' = ch_receiver ch" and "length (ch_senders ch') = length (ch_senders ch)"
    and "chan_queue q ch' = chan_queue q ch" and "chan_ok ch \<Longrightarrow> chan_ok ch'"
    and "chan_ok ch \<Longrightarrow> \<not> opened ch \<Longrightarrow> \<not> opened ch'"
proof -
  have 1: "length (ch_senders (recv_close c)) = length (ch_senders c)" for c :: "'a channel" by (simp add: recv_close_def Let_def)
  have 2: "chan_ok c \<Longrightarrow> \<not> opened c \<Longrightarrow> \<not> opened (recv_close c)" for c :: "'a channel"
    using recv_close_not_opened [of c] by (cases "ch_receiver c") (simp_all add: recv_close_def)
  have 3: "chan_ok ((recv_close ^^ n) c)" if "chan_ok c" for n and c :: "'a channel"
    using that by (induction n) (simp_all add: recv_close_ok)
  from assms obtain n where n: "ch' = (recv_close ^^ n) ch" by (auto simp: rx_def)
  show "ch_receiver ch' = ch_receiver ch" unfolding n by (induction n) simp_all
  show "length (ch_senders ch') = length (ch_senders ch)" unfolding n by (induction n) (simp_all add: 1)
  show "chan_queue q ch' = chan_queue q ch" unfolding n by (induction n) (simp_all add: close_queue)
  show "chan_ok ch \<Longrightarrow> chan_ok ch'" unfolding n by (rule 3)
  show "chan_ok ch \<Longrightarrow> \<not> opened ch \<Longrightarrow> \<not> opened ch'" unfolding n by (induction n) (simp_all add: 2 3)
qed

text \<open>Closing sets the flag of the session: it is closed at once, or every stream was told to close.\<close>

lemma close_all_proto_ok:
  assumes "core_ok s"
  shows "\<exists>s'. close_all_proto s = Some s' \<and> core_ok s' \<and> se_state s' \<in> {se_state s, StAbnormal} \<and>
    rx (se_service_receiver s) (se_service_receiver s') \<and> cx_closed (se_context s')"
proof (cases "cx_closed (se_context s)")
  case True
  with assms show ?thesis by (simp add: close_all_proto_def close_session_ok)
next
  case False
  from assms close_loop_ok [of s "map fst (se_substreams s)"] obtain s1 where
    1: "close_loop (map fst (se_substreams s)) s = Some s1" "streams_ok s1" "quiet s s1" by (auto simp: core_ok_def)
  with False assms quiet_fields [OF 1(3)] core_ok_quiet [OF assms 1(3,2)] show ?thesis by (auto simp: close_all_proto_def)
qed

lemma new_channel_room:
  assumes "b < MAX_BUFFER"
  shows "\<exists>ch :: 'a channel. Option.bind (channel_new b) (clone_sender 0) = Some ch \<and> room 1 ch \<and> room 1 (disconnect 0 ch)"
proof -
  from assms obtain ch :: "'a channel" where 1: "channel_new b = Some ch" by (auto simp: channel_new_def)
  note ok = channel_new_ok [OF 1]
  have l: "ch_senders ch = [new_sender]" using 1 by (auto simp: channel_new_def split: if_splits)
  from chan_step_some [OF ok, of "OpClone 0"] l obtain ch' where 2: "clone_sender 0 ch = Some ch'" by auto
  have "length (ch_senders ch') = 2" using 2 l by (auto simp: clone_sender_def split: if_splits)
  with clone_sender_ok [OF ok 2] disconnect_ok [of ch' 0] 1 2 show ?thesis by (auto simp: room_def)
qed

lemma start_stream_fields [simp]:
  "se_substreams (start_stream m v so ch s) = se_substreams s" "se_proto_event_receiver (start_stream m v so ch s) = se_proto_event_receiver s"
  "se_service_receiver (start_stream m v so ch s) = se_service_receiver s" "se_state (start_stream m v so ch s) = se_state s"
  "se_config (start_stream m v so ch s) = se_config s" "se_configs_by_id (start_stream m v so ch s) = se_configs_by_id s"
  "se_configs_by_name (start_stream m v so ch s) = se_configs_by_name s" "se_next_stream (start_stream m v so ch s) = se_next_stream s"
  "se_proto_streams (start_stream m v so ch s) = se_proto_streams s" "se_context (start_stream m v so ch s) = se_context s"
  "se_service_sender (start_stream m v so ch s) = se_service_sender s"
  "se_channels (start_stream m v so ch s) = (se_channels s)(se_next_stream s := if mt_spawn m then ch else disconnect 0 ch)"
  by (simp_all add: start_stream_def se_spawn_def Let_def)

lemma open_protocol_ok:
  assumes "core_ok s"
  shows "\<exists>s'. open_protocol name v so s = Some s' \<and> core_ok s' \<and> se_service_receiver s' = se_service_receiver s"
proof -
  from assms new_channel_room [of "sc_channel_size (se_config s)"] obtain ch :: "protocol_event channel" where
    "Option.bind (channel_new (sc_channel_size (se_config s))) (clone_sender 0) = Some ch" "room 1 ch" "room 1 (disconnect 0 ch)"
    by (auto simp: ok_defs)
  with assms quiet_fields(1) [OF quiet_event [of "s\<lparr>se_state := StAbnormal\<rparr>"]] show ?thesis
    by (auto simp: open_protocol_def Let_def event_output_ok split: option.split)
      (auto simp: ok_defs update_conv distinct_update priority_buffer_new_def intro: room_0)
qed

lemma drop_buffer_ok:
  assumes "streams_ok s" and "map_of (se_substreams s) i = Some b"
  shows "streams_ok (s\<lparr>se_substreams := AList.delete i (se_substreams s), se_channels := drop_buffer (i, b) (se_channels s),
    se_proto_streams := ps\<rparr>)"
  using assms disconnect_room [of "pb_sender b" "se_channels s i"]
  by (auto simp: streams_ok_def drop_buffer_def delete_conv distinct_delete split: if_splits)

lemma handle_stream_event_ok:
  assumes "core_ok s" and "\<And>d. event \<noteq> PeMessage d"
  shows "\<exists>s'. handle_stream_event event s = Some s' \<and> core_ok s' \<and> se_service_receiver s' = se_service_receiver s"
proof (cases event)
  case (PeOpen name so v)
  then show ?thesis using open_protocol_ok [OF assms(1)] by (simp add: handle_stream_event_def)
next
  case (PeClose i p)
  then show ?thesis using assms(1) drop_buffer_ok [of s i]
    by (auto simp: handle_stream_event_def core_ok_def config_ok_def split: option.split)
next
  case PeTimeoutCheck
  then show ?thesis using assms(1) event_output_ok quiet_fields(1) [OF quiet_event] by (simp add: handle_stream_event_def)
qed (use assms event_output_ok quiet_fields(1) [OF quiet_event] in \<open>auto simp: handle_stream_event_def\<close>)

lemma send_event_ok:
  assumes "core_ok s" and "\<And>b. pb_sender (f b) = pb_sender b"
  shows "\<exists>s'. map_option snd (stream_send f i s) = Some s' \<and> core_ok s' \<and> se_service_receiver s' = se_service_receiver s \<and>
    se_state s' \<in> {se_state s, StAbnormal}"
proof -
  from assms stream_send_ok [of s f i] obtain r s' where 1: "stream_send f i s = Some (r, s')" "streams_ok s'" "quiet s s'"
    by (auto simp: core_ok_def)
  with core_ok_quiet [OF assms(1) 1(3,2)] quiet_fields [OF 1(3)] show ?thesis by auto
qed

lemma handle_session_event_ok:
  assumes ok: "core_ok s"
  shows "\<exists>s'. handle_session_event event p s = Some s' \<and> core_ok s' \<and> rx (se_service_receiver s) (se_service_receiver s')"
proof (cases event)
  case (EvProtocolMessage i d)
  have "\<exists>s'. map_option snd (stream_send (if is_high p then push_high (PeMessage d) else push_normal (PeMessage d)) j s) = Some s' \<and>
      core_ok s' \<and> se_service_receiver s' = se_service_receiver s" for j
    using send_event_ok [OF ok, of "if is_high p then push_high (PeMessage d) else push_normal (PeMessage d)" j]
    by (auto simp: push_high_def push_normal_def)
  from this [of "the (map_of (se_proto_streams s) i)"] show ?thesis
    using ok by (cases "map_of (se_proto_streams s) i") (auto simp: handle_session_event_def EvProtocolMessage)
next
  case (EvProtocolClose i)
  have "\<exists>s'. map_option snd (stream_send (push_high (PeClose j i)) j s) = Some s' \<and> core_ok s' \<and>
      se_service_receiver s' = se_service_receiver s" for j
    using send_event_ok [OF ok, of "push_high (PeClose j i)" j] by (auto simp: push_high_def)
  from this [of "the (map_of (se_proto_streams s) i)"] show ?thesis
    using ok by (cases "map_of (se_proto_streams s) i") (auto simp: handle_session_event_def EvProtocolClose)
next
  case (EvSessionClose i)
  let ?l = "s\<lparr>se_state := StLocalClose\<rparr>"
  have e: "handle_session_event event p s = (if se_substreams s = [] then Some (close_session s) else close_all_proto ?l)"
    by (simp add: handle_session_event_def EvSessionClose)
  from ok have "core_ok ?l" by simp
  from close_all_proto_ok [OF this] obtain s' where "close_all_proto ?l = Some s'" "core_ok s'"
    "rx (se_service_receiver s) (se_service_receiver s')" by auto
  with close_session_ok [OF ok] show ?thesis unfolding e by simp
next
  case (EvProtocolOpen i)
  have o: "\<exists>m'. map_of (se_configs_by_name s) (mt_name m (mt_id m)) = Some m'" if m: "map_of (se_configs_by_id s) i = Some m" for m
  proof -
    have "m \<in> snd ` set (se_configs_by_id s)" using map_of_SomeD [OF m] by force
    with ok have "mt_name m (mt_id m) \<in> fst ` set (se_configs_by_name s)" unfolding core_ok_def config_ok_def by blast
    then show ?thesis by (metis map_of_eq_None_iff not_None_eq)
  qed
  show ?thesis
  proof (cases "map_of (se_proto_streams s) i = None \<and> map_of (se_configs_by_id s) i \<noteq> None")
    case True
    then obtain m where m: "map_of (se_configs_by_id s) i = Some m" by blast
    from o [OF m] True m ok show ?thesis
      by (auto simp: handle_session_event_def EvProtocolOpen open_proto_stream_def)
  next
    case False
    with ok show ?thesis by (auto simp: handle_session_event_def EvProtocolOpen)
  qed
next
  case (EvStreamStart so)
  then show ?thesis using ok by (simp add: handle_session_event_def handle_substream_def)
next
  case (EvChangeState i st e)
  then show ?thesis using ok
    by (auto simp: handle_session_event_def Let_def event_output_ok quiet_fields(1) [OF quiet_event] split: option.split)
qed (use ok in \<open>auto simp: handle_session_event_def\<close>)

lemma poll_next_receiver:
  assumes "recv_poll_next ch = Some (r, ch')"
  shows "ch_receiver ch' = (r \<noteq> Ready None)"
proof -
  have n: "next_message ch = Some (r, ch') \<Longrightarrow> ch_receiver ch' = (r \<noteq> Ready None)" for ch r ch'
    by (auto simp: next_message_def dec_num_messages_def split: if_splits list.splits)
  from assms n show ?thesis by (auto simp: recv_poll_next_def split: option.splits poll.splits prod.splits if_splits)
qed

lemma recv_substreams_ok:
  assumes "core_ok s"
  shows "\<exists>a s'. recv_substreams s = Some (a, s') \<and> core_ok s' \<and> se_service_receiver s' = se_service_receiver s"
proof -
  obtain a r where 1: "mpsc_poll_next (se_proto_event_receiver s) = (a, r)" by force
  have r: "core_ok (s\<lparr>se_proto_event_receiver := r\<rparr>)" and a: "a \<noteq> Ready (Some (PeMessage d))" for d
    using assms 1 by (auto simp: ok_defs mpsc_poll_next_def split: list.splits if_splits)
  show ?thesis
  proof (cases a)
    case (Ready x)
    then show ?thesis
      using 1 r a handle_stream_event_ok [OF r, of "the x"] by (cases x) (auto simp: recv_substreams_def Let_def)
  qed (use 1 r in \<open>simp add: recv_substreams_def\<close>)
qed

lemma recv_service_ok:
  assumes "core_ok s" and "ch_receiver (se_service_receiver s)"
  shows "\<exists>a s' x r. recv_service s = Some (a, s') \<and> se_ok s' \<and> recv_poll_next (se_service_receiver s) = Some (x, r) \<and>
    rx r (se_service_receiver s') \<and> (x = Ready None \<longrightarrow> se_state s' = StLocalClose)"
proof -
  from recv_poll_next_some [OF assms(2)] obtain a r where 1: "recv_poll_next (se_service_receiver s) = Some (a, r)" by blast
  have r: "core_ok (s\<lparr>se_service_receiver := r\<rparr>)" using assms(1) recv_poll_next_ok [OF _ 1] by (simp add: ok_defs)
  note x = poll_next_receiver [OF 1]
  show ?thesis
  proof (cases a)
    case (Ready y)
    show ?thesis
    proof (cases y)
      case None
      then show ?thesis using 1 r Ready clean_ok [of "s\<lparr>se_service_receiver := r, se_state := StLocalClose\<rparr>"]
        by (simp add: recv_service_def se_ok_def) (simp add: clean_def)
    next
      case (Some e)
      obtain s' where "handle_session_event (snd e) (fst e) (s\<lparr>se_service_receiver := r\<rparr>) = Some s'" "core_ok s'"
        "rx r (se_service_receiver s')" using handle_session_event_ok [OF r, of "snd e" "fst e"] by auto
      then show ?thesis using 1 r Ready x Some rx_keeps(1) [of r "se_service_receiver s'"]
        by (cases e) (auto simp: recv_service_def se_ok_def Let_def)
    qed
  qed (use 1 r x in \<open>simp add: recv_service_def se_ok_def\<close>)
qed

lemma poll_rest_ok:
  assumes "se_ok s"
  shows "\<exists>a s'. poll_rest b s = Some (a, s') \<and> se_ok s' \<and> rx (se_service_receiver s) (se_service_receiver s') \<and>
    (se_state s = StLocalClose \<longrightarrow> se_state s' = StLocalClose)"
proof -
  have w: "se_ok x \<Longrightarrow> \<exists>a s'. wait_handle_poll x = (a, s') \<and> se_ok s' \<and> se_service_receiver s' = se_service_receiver x \<and>
      se_state s' = se_state x" for x
    by (simp add: wait_handle_poll_def se_ok_def)
  have c: "core_ok s" using assms by (simp add: se_ok_def)
  have "se_ok (close_session (s\<lparr>se_proto_streams := ps\<rparr>))" for ps using assms by (simp add: se_ok_def close_session_ok)
  note x = w [OF this [of "[]"]]
  have "se_ok (close_session s)" using assms by (simp add: se_ok_def close_session_ok)
  note z = w [OF this]
  obtain s' where y: "close_all_proto s = Some s'" "core_ok s'" "rx (se_service_receiver s) (se_service_receiver s')"
    using close_all_proto_ok [OF c] by blast
  show ?thesis
    using assms x y z rx_keeps(1) [OF y(3)] by (cases "se_state s") (auto simp: poll_rest_def Let_def se_ok_def)
qed

text \<open>A poll: nothing more happens after the end; or it was interrupted; or it asked the service's channel once.\<close>

lemma se_poll_next_ok:
  assumes "se_ok s"
  obtains (ended) "se_state s = StLocalClose" and "se_poll_next budget s = Some (Ready None, s)"
  | (interrupted) s' where "se_poll_next budget s = Some (Pending, s')" and "se_ok s'" and "fst (poll_proceed budget) = Pending"
      "se_service_receiver s' = se_service_receiver s"
  | (asked) a s' x r where "se_poll_next budget s = Some (a, s')" and "se_ok s'" and "recv_poll_next (se_service_receiver s) = Some (x, r)"
      and "rx r (se_service_receiver s')" and "x = Ready None \<Longrightarrow> se_state s' = StLocalClose"
proof (cases "is_local_close (se_state s)")
  case True
  with that(1) show ?thesis by (cases "se_state s") (simp_all add: se_poll_next_def)
next
  case False
  then have c: "core_ok s" "ch_receiver (se_service_receiver s)" using assms by (auto simp: se_ok_def)
  then obtain s1 where 1: "se_flush s = Some s1" "quiet s s1" "core_ok s1"
    using se_flush_ok [of s] core_ok_quiet [of s] by (auto simp: core_ok_def)
  then have x: "se_ok s1" using quiet_fields(1) [OF 1(2)] c by (simp add: se_ok_def)
  from recv_substreams_ok [OF 1(3)] obtain a s2 where 2: "recv_substreams s1 = Some (a, s2)" "core_ok s2"
    "se_service_receiver s2 = se_service_receiver s1" by blast
  have e: "se_service_receiver s2 = se_service_receiver s" using 2(3) quiet_fields(1) [OF 1(2)] by simp
  then obtain b s3 y r where 3: "recv_service s2 = Some (b, s3)" "se_ok s3" "recv_poll_next (se_service_receiver s) = Some (y, r)"
    "rx r (se_service_receiver s3)" "y = Ready None \<longrightarrow> se_state s3 = StLocalClose"
    using recv_service_ok [of s2] 2(2) c by auto
  obtain d s4 where 4: "poll_rest (a = Pending \<and> b = Pending) s3 = Some (d, s4)" "se_ok s4"
    "rx (se_service_receiver s3) (se_service_receiver s4)" "se_state s3 = StLocalClose \<longrightarrow> se_state s4 = StLocalClose"
    using poll_rest_ok [OF 3(2)] by blast
  show ?thesis
  proof (cases "fst (poll_proceed budget) = Pending")
    case True
    with that(2) [of s1] False x quiet_fields(1) [OF 1(2)] show ?thesis by (simp add: se_poll_next_def 1(1))
  next
    case False
    with \<open>\<not> is_local_close (se_state s)\<close> have "se_poll_next budget s = Some (d, s4)" by (simp add: se_poll_next_def 1(1) 2(1) 3(1) 4(1))
    from that(3) [OF this 4(2) 3(3) rx_trans [OF 3(4) 4(3)]] 3(5) 4(4) show ?thesis by blast
  qed
qed

section \<open>Runs\<close>

text \<open>The polls of a session between the steps of the other tasks: the service sends to the session; a stream receives from its
  channel, and tells its end with the sender it may have; the pending data grows and shrinks; a table is reordered. A step says
  what the session was sent, and what the streams took. After its end a session is not polled.\<close>

datatype se_op =
  SePoll u8
  | SeService "session_event chan_op"
  | SeStream stream_id "protocol_event chan_op"
  | SePending u64
  | SeOrder "stream_id list"

fun stream_op :: "protocol_event chan_op \<Rightarrow> bool" where
  "stream_op (OpTrySend _ (PeMessage _) _) = False"
| "stream_op (OpClone _) = False"
| "stream_op _ = True"

definition reorder :: "stream_id list \<Rightarrow> peer_session \<Rightarrow> peer_session" where
  "reorder is s =
     (if distinct is \<and> set is = set (map fst (se_substreams s)) then s\<lparr>se_substreams := map (\<lambda>i. (i, buffer_of i s)) is\<rparr> else s)"

type_synonym se_log = "(priority \<times> session_event) list \<times> (stream_id \<times> priority \<times> protocol_event) list"

fun se_step :: "se_op \<Rightarrow> bool \<times> peer_session \<Rightarrow> (se_log \<times> bool \<times> peer_session) option" where
  "se_step (SePoll b) (ended, s) =
     (if ended then Some (([], []), ended, s) else map_option (\<lambda>(a, s). (([], []), a = Ready None, s)) (se_poll_next b s))"
| "se_step (SeService x) (ended, s) =
     (if sender_op x then
        map_option (\<lambda>(sent, _, ch). ((sent, []), ended, s\<lparr>se_service_receiver := ch\<rparr>)) (chan_step x (se_service_receiver s))
      else Some (([], []), ended, s))"
| "se_step (SeStream i x) (ended, s) =
     (if stream_op x then
        map_option (\<lambda>(_, got, ch). (([], map (Pair i) got), ended, s\<lparr>se_channels := (se_channels s)(i := ch)\<rparr>))
          (chan_step x (se_channels s i))
      else Some (([], []), ended, s))"
| "se_step (SePending n) (ended, s) =
     Some (([], []), ended, s\<lparr>se_context := (se_context s)\<lparr>cx_pending_data_size := n\<rparr>\<rparr>)"
| "se_step (SeOrder is) (ended, s) = Some (([], []), ended, reorder is s)"

fun se_run :: "se_op list \<Rightarrow> bool \<times> peer_session \<Rightarrow> (se_log \<times> bool \<times> peer_session) option" where
  "se_run [] st = Some (([], []), st)"
| "se_run (x # xs) st =
     Option.bind (se_step x st) (\<lambda>((sent, taken), st). map_option (\<lambda>((sent', taken'), st). ((sent @ sent', taken @ taken'), st)) (se_run xs st))"

lemma chan_step_room:
  assumes "chan_step x ch = Some (a, g, ch')" and "room i ch" and "stream_op x"
  shows "room i ch'"
proof -
  have "length (ch_senders ch') = length (ch_senders ch)"
    using assms(1,3) by (cases x) (auto simp: recv_close_def Let_def split: if_splits dest: try_send_sizes recv_poll_next_sizes)
  with assms(2) chan_step_ok [OF _ assms(1)] show ?thesis by (simp add: room_def)
qed

lemma reorder_lookup:
  assumes "distinct (map fst (se_substreams s))"
  shows "map_of (se_substreams (reorder is s)) = map_of (se_substreams s)" and "distinct (map fst (se_substreams (reorder is s)))"
proof -
  have d: "i \<notin> set (map fst (se_substreams s)) \<Longrightarrow> map_of (se_substreams s) i = None" for i by (simp add: map_of_eq_None_iff)
  have m: "map_of (map (\<lambda>i. (i, buffer_of i s)) is) = (\<lambda>i. if i \<in> set is then Some (buffer_of i s) else None)"
    by (simp add: map_of_map_restrict restrict_map_def fun_eq_iff)
  have "i \<in> set (map fst (se_substreams s)) \<Longrightarrow> map_of (se_substreams s) i = Some (buffer_of i s)" for i
    by (metis buffer_of_def image_set map_of_eq_None_iff option.collapse)
  with d m show "map_of (se_substreams (reorder is s)) = map_of (se_substreams s)" by (auto simp: reorder_def fun_eq_iff)
  show "distinct (map fst (se_substreams (reorder is s)))" using assms by (simp add: reorder_def comp_def)
qed

lemma reorder_fields [simp]:
  "se_service_receiver (reorder is s) = se_service_receiver s" "se_channels (reorder is s) = se_channels s"
  "se_state (reorder is s) = se_state s" "se_context (reorder is s) = se_context s" "se_spawned (reorder is s) = se_spawned s"
  "se_service_sender (reorder is s) = se_service_sender s" "se_substreams (reorder is s) = [] \<longleftrightarrow> se_substreams s = []"
  "se_proto_streams (reorder is s) = se_proto_streams s" "se_next_stream (reorder is s) = se_next_stream s"
  "config_ok (reorder is s) = config_ok s"
  by (auto simp: reorder_def config_ok_def)

definition few_senders :: "peer_session \<Rightarrow> nat \<Rightarrow> bool" where
  "few_senders s n \<longleftrightarrow> length (ch_senders (se_service_receiver s)) + n \<le> 2 ^ 62"

lemma poll_senders:
  assumes "se_ok s"
  shows "\<exists>a s'. se_poll_next b s = Some (a, s') \<and> se_ok s' \<and>
    length (ch_senders (se_service_receiver s')) = length (ch_senders (se_service_receiver s))"
proof (rule se_poll_next_ok [OF assms, of b])
  fix a s' x r
  assume "se_poll_next b s = Some (a, s')" "se_ok s'" "recv_poll_next (se_service_receiver s) = Some (x, r)"
    "rx r (se_service_receiver s')"
  then show ?thesis using rx_keeps(2) [of r "se_service_receiver s'"] recv_poll_next_sizes by fastforce
qed (use assms in auto)

lemma se_step_ok:
  assumes ok: "se_ok s" and few: "few_senders s (Suc n)"
  shows "\<exists>l e' s'. se_step x (e, s) = Some (l, e', s') \<and> se_ok s' \<and> few_senders s' n"
proof (cases x)
  case (SePoll b)
  from poll_senders [OF ok, of b] ok few show ?thesis by (auto simp: SePoll few_senders_def)
next
  case (SeService y)
  show ?thesis
  proof (cases "sender_op y")
    case True
    obtain a g ch where 1: "chan_step y (se_service_receiver s) = Some (a, g, ch)"
      using chan_step_some [of "se_service_receiver s" y] ok few by (auto simp: se_ok_def core_ok_def few_senders_def)
    have "ch_receiver ch = ch_receiver (se_service_receiver s)"
      using 1 True by (cases y) (auto simp: clone_sender_def disconnect_def close_channel_def set_closed_def chan_poll_ready_def poll_unparked_def
          try_send_def do_send_b_def inc_num_messages_def park_def queue_push_and_signal_def Let_def
          split: if_splits poll.splits option.splits prod.splits priority.splits)
    then have "se_ok (s\<lparr>se_service_receiver := ch\<rparr>)" using ok chan_step_ok [OF _ 1] by (simp add: se_ok_def ok_defs)
    with 1 True few chan_step_sizes [OF 1] show ?thesis by (auto simp: SeService few_senders_def)
  qed (use ok few in \<open>auto simp: SeService few_senders_def\<close>)
next
  case (SeStream i y)
  have r: "room 0 (se_channels s i)" using ok by (simp add: se_ok_def ok_defs)
  then obtain a g ch where 1: "chan_step y (se_channels s i) = Some (a, g, ch)"
    using chan_step_some [of "se_channels s i" y] by (auto simp: room_def)
  have "se_ok (s\<lparr>se_channels := (se_channels s)(i := ch)\<rparr>)" if "stream_op y"
    using ok chan_step_room [OF 1 _ that] by (auto simp: se_ok_def ok_defs)
  with 1 ok few show ?thesis by (auto simp: SeStream few_senders_def)
next
  case (SePending n)
  with ok few show ?thesis by (auto simp: few_senders_def se_ok_def)
next
  case (SeOrder "is")
  have "se_ok (reorder is s)" using ok reorder_lookup [of s "is"] by (simp add: se_ok_def core_ok_def streams_ok_def)
  with few show ?thesis by (simp add: SeOrder few_senders_def)
qed

lemma se_run_ok:
  "se_ok s \<Longrightarrow> few_senders s (length xs) \<Longrightarrow> \<exists>l e' s'. se_run xs (e, s) = Some (l, e', s') \<and> se_ok s'"
proof (induction xs arbitrary: e s)
  case (Cons x xs)
  then obtain l e1 s1 where 1: "se_step x (e, s) = Some (l, e1, s1)" "se_ok s1" "few_senders s1 (length xs)"
    using se_step_ok [of s "length xs" x e] by auto
  obtain l' e' s' where "se_run xs (e1, s1) = Some (l', e', s')" "se_ok s'" using Cons.IH [OF 1(2,3)] by blast
  with 1(1) show ?case by (cases l; cases l') simp
qed simp

section \<open>The end of a session\<close>

text \<open>A session that is closed: its streams see it, nothing waits, and the service is told.\<close>

definition reported :: "peer_session \<Rightarrow> bool" where
  "reported s \<longleftrightarrow> cx_closed (se_context s) \<and> se_substreams s = [] \<and> bf_buffer (se_service_sender s) = [] \<and>
     (\<exists>events. TaskSend (events @ [EvSessionClose (cx_id (se_context s))]) \<in> set (se_spawned s))"

lemma close_session_reported: "reported (close_session s)"
  by (auto simp: reported_def close_session_def clean_def buffer_take_def Let_def se_spawn_def)

lemma wait_handle_reported: "wait_handle_poll s = (a, s') \<Longrightarrow> reported s' = reported s \<and> se_state s' = se_state s"
  by (auto simp: wait_handle_poll_def reported_def Let_def)

lemma close_all_proto_state:
  assumes "close_all_proto s = Some s'"
  shows "se_state s' = se_state s"
proof -
  have "close_loop is s = Some s' \<Longrightarrow> se_state s' = se_state s" for "is" s s'
    by (induction "is" arbitrary: s) (auto simp: bind_eq_Some_conv elim!: stream_send_form)
  with assms show ?thesis by (auto simp: close_all_proto_def split: if_splits)
qed

lemma poll_reports:
  assumes "se_poll_next b s = Some (a, s')" and "se_state s = StLocalClose \<Longrightarrow> reported s" and ok: "se_ok s"
  shows "a = Ready None \<or> se_state s' = StLocalClose \<Longrightarrow> reported s'"
proof -
  have p: "a = Ready None \<or> se_state s' = StLocalClose \<Longrightarrow> reported s'" if "poll_rest c x = Some (a, s')" for c x
  proof (cases "se_state x")
    case StRemoteClose
    then show "a = Ready None \<or> se_state s' = StLocalClose \<Longrightarrow> reported s'"
      using that wait_handle_reported [of "close_session x"] close_session_reported [of x] close_all_proto_state [of x]
      by (auto simp: poll_rest_def Let_def split: if_splits)
  next
    case StNormal
    then show "a = Ready None \<or> se_state s' = StLocalClose \<Longrightarrow> reported s'" using that by (auto simp: poll_rest_def Let_def split: if_splits)
  qed (use that wait_handle_reported [of "close_session (x\<lparr>se_proto_streams := []\<rparr>)"]
      close_session_reported [of "x\<lparr>se_proto_streams := []\<rparr>"] in \<open>auto simp: poll_rest_def Let_def\<close>)
  show "a = Ready None \<or> se_state s' = StLocalClose \<Longrightarrow> reported s'"
  proof (cases "is_local_close (se_state s)")
    case True
    then have "se_state s = StLocalClose" by (cases "se_state s") simp_all
    then show "a = Ready None \<or> se_state s' = StLocalClose \<Longrightarrow> reported s'" using assms by (simp add: se_poll_next_def)
  next
    case False
    then obtain s1 where 1: "se_flush s = Some s1" using assms(1) by (auto simp: se_poll_next_def bind_eq_Some_conv)
    have "streams_ok s" using ok by (simp add: se_ok_def core_ok_def)
    from se_flush_ok [OF this] 1 have "quiet s s1" by auto
    then have "se_state s1 \<noteq> StLocalClose" using False quiet_fields(9) [of s s1] by (cases "se_state s1") auto
    then show "a = Ready None \<or> se_state s' = StLocalClose \<Longrightarrow> reported s'"
      using False assms(1) 1 p by (auto simp: se_poll_next_def bind_eq_Some_conv split: if_splits)
  qed
qed

lemma step_reports:
  assumes "se_ok s" and "se_step x (e, s) = Some (l, e', s')" and "e \<or> se_state s = StLocalClose \<Longrightarrow> reported s"
  shows "e' \<or> se_state s' = StLocalClose \<Longrightarrow> reported s'"
proof -
  have "reported (t\<lparr>se_service_receiver := ch\<rparr>) = reported t" "reported (t\<lparr>se_channels := chs\<rparr>) = reported t"
    "reported (t\<lparr>se_context := (se_context t)\<lparr>cx_pending_data_size := n\<rparr>\<rparr>) = reported t" "reported (reorder is t) = reported t"
    for t ch chs n "is" by (simp_all add: reported_def)
  then show "e' \<or> se_state s' = StLocalClose \<Longrightarrow> reported s'"
    using assms poll_reports [of _ s _ s'] by (cases x) (auto split: if_splits prod.splits)
qed

lemma run_reports:
  "se_ok s \<Longrightarrow> few_senders s (length xs) \<Longrightarrow> se_run xs (e, s) = Some (l, e', s') \<Longrightarrow> (e \<or> se_state s = StLocalClose \<Longrightarrow> reported s) \<Longrightarrow>
    e' \<or> se_state s' = StLocalClose \<Longrightarrow> reported s'"
proof (induction xs arbitrary: e s l)
  case (Cons x xs)
  from Cons.prems(1,2) obtain l1 e1 s1 where 1: "se_step x (e, s) = Some (l1, e1, s1)" "se_ok s1" "few_senders s1 (length xs)"
    using se_step_ok [of s "length xs" x e] by auto
  from Cons.prems(3) 1(1) obtain l2 where 2: "se_run xs (e1, s1) = Some (l2, e', s')" by (auto split: prod.splits)
  show ?case by (rule Cons.IH [OF 1(2,3) 2]) (use step_reports [OF Cons.prems(1) 1(1)] Cons.prems(4,5) in blast)+
qed auto

section \<open>What is sent to the service\<close>

text \<open>The events for the service that were handed over, wait in the buffer, or are with the tasks that send the rest.\<close>

fun task_events :: "session_task \<Rightarrow> session_event list" where
  "task_events (TaskSend events) = events"
| "task_events _ = []"

definition outbox :: "peer_session \<Rightarrow> session_event multiset" where
  "outbox s = mset (ms_sent (bf_sender (se_service_sender s))) + mset (bf_buffer (se_service_sender s)) +
     mset (concat (map task_events (se_spawned s)))"

text \<open>A sender whose receiver is never found gone.\<close>

definition listening :: "'a mpsc_sender \<Rightarrow> bool" where
  "listening m \<longleftrightarrow> Ready (Inl ()) \<notin> set (ms_ready m) \<and> SendDisconnected \<notin> set (ms_try m)"

lemma listening_loop:
  "listening m \<Longrightarrow> send_loop mpsc_poll_ready mpsc_try_send xs m = Some (r, ys, m') \<Longrightarrow> r \<noteq> BufDisconnect \<and> listening m'"
proof (induction xs arbitrary: m)
  case (Cons x xs)
  obtain q m1 where q: "mpsc_poll_ready m = (q, m1)" by force
  have m1: "listening m1" "q \<noteq> Ready (Inl ())"
    using Cons.prems(1) q by (auto simp: listening_def mpsc_poll_ready_def split: list.splits)
  obtain a m2 where a: "mpsc_try_send x m1 = Some (a, m2)" by (auto simp: mpsc_try_send_def Let_def)
  have m2: "listening m2" "a \<noteq> SendDisconnected"
    using m1(1) a by (cases "ms_try m1"; auto simp: listening_def mpsc_try_send_def Let_def split: if_splits)+
  show ?case
  proof (cases "q = Ready (Inr ()) \<and> a = SendOk")
    case True
    with Cons.prems(2) q a have "send_loop mpsc_poll_ready mpsc_try_send xs m2 = Some (r, ys, m')" by simp
    with m2(1) show ?thesis by (rule Cons.IH)
  next
    case False
    with Cons.prems(2) q a m1 m2 show ?thesis
      by (cases q rule: poll.exhaust; cases a) (auto split: sum.splits)
  qed
qed simp

lemma listening_try_send:
  assumes "listening (bf_sender b)" and "buffer_try_send b = (r, b')"
  shows "r \<noteq> BufDisconnect" and "listening (bf_sender b')"
proof -
  from mpsc_loop_some [of "bf_buffer b" "bf_sender b"] assms(2) have
    "send_loop mpsc_poll_ready mpsc_try_send (bf_buffer b) (bf_sender b) = Some (r, bf_buffer b', bf_sender b')"
    by (auto simp: buffer_try_send_def)
  from listening_loop [OF assms(1) this] show "r \<noteq> BufDisconnect" "listening (bf_sender b')" by simp_all
qed

text \<open>Nothing for the service is lost, as long as it listens and the buffer is kept.\<close>

definition keeps_events :: "peer_session \<Rightarrow> peer_session \<Rightarrow> bool" where
  "keeps_events s s' \<longleftrightarrow> (se_keep_buffer s \<and> listening (bf_sender (se_service_sender s)) \<longrightarrow>
     se_keep_buffer s' \<and> listening (bf_sender (se_service_sender s')) \<and> outbox s \<subseteq># outbox s')"

lemma keeps_refl [simp]: "keeps_events s s"
  by (simp add: keeps_events_def)

lemma keeps_events_trans: "keeps_events s s1 \<Longrightarrow> keeps_events s1 s2 \<Longrightarrow> keeps_events s s2"
  by (auto simp: keeps_events_def)

lemma keeps_same:
  "se_service_sender s' = se_service_sender s \<Longrightarrow> se_keep_buffer s' = se_keep_buffer s \<Longrightarrow>
    \<exists>ts. se_spawned s' = se_spawned s @ ts \<Longrightarrow> keeps_events s s'"
  by (auto simp: keeps_events_def outbox_def)

lemma keeps_updates [simp]:
  "keeps_events s (t\<lparr>se_state := st\<rparr>) = keeps_events s t" "keeps_events s (t\<lparr>se_context := c\<rparr>) = keeps_events s t"
  "keeps_events (s\<lparr>se_state := st\<rparr>) t = keeps_events s t"
  by (simp_all add: keeps_events_def outbox_def)

lemma keeps_output: "keeps_events s (se_output s)"
proof -
  obtain r b where b: "buffer_try_send (se_service_sender s) = (r, b)" by force
  show ?thesis
  proof (cases "listening (bf_sender (se_service_sender s))")
    case True
    note l = listening_try_send [OF True b]
    then have "se_output s = s\<lparr>se_service_sender := b\<rparr>" by (cases r) (simp_all add: se_output_def b)
    moreover have "buffer_contents b = buffer_contents (se_service_sender s)" using buffer_try_send_contents(1) [OF b l(1)] .
    then have "mset (buffer_contents b) = mset (buffer_contents (se_service_sender s))" by simp
    ultimately show ?thesis using l(2) by (simp add: keeps_events_def outbox_def buffer_contents_def)
  qed (simp add: keeps_events_def)
qed

lemma keeps_event: "keeps_events s (event_output e s)"
  unfolding event_output_def
  by (rule keeps_events_trans [OF _ keeps_output]) (auto simp: keeps_events_def outbox_def buffer_push_def)

lemma keeps_send: "stream_send f i s = Some (r, s') \<Longrightarrow> keeps_events s s'"
  by (erule stream_send_form) (auto intro: keeps_same)

lemma keeps_distribute: "se_distribute_loop is s = Some s' \<Longrightarrow> keeps_events s s'"
proof (induction "is" arbitrary: s)
  case (Cons i "is")
  show ?case
  proof (cases "pb_len (buffer_of i s) = 0")
    case False
    with Cons.prems obtain r s1 where 1: "stream_send id i s = Some (r, s1)" by (auto split: option.splits)
    let ?t = "s1\<lparr>se_state := StAbnormal, se_substreams := AList.update i (pb_clear (buffer_of i (s1\<lparr>se_state := StAbnormal\<rparr>))) (se_substreams s1)\<rparr>"
    have "keeps_events s1 ?t" by (rule keeps_same) simp_all
    then have "keeps_events s1 (event_output e ?t)" for e using keeps_events_trans keeps_event by blast
    then have "keeps_events s1 s'" using Cons False 1 by (cases r) (auto simp: Let_def split: if_splits)
    with keeps_send [OF 1] show ?thesis by (rule keeps_events_trans)
  qed (use Cons in simp)
qed simp

lemma keeps_flush: "se_flush s = Some s' \<Longrightarrow> keeps_events s s'"
  using keeps_distribute keeps_events_trans keeps_output by (fastforce simp: se_flush_def distribute_to_substreams_def)

lemma keeps_clean: "keeps_events s (clean s)"
  by (rule keeps_same) (simp_all add: clean_def se_spawn_def)

lemma keeps_close_session: "keeps_events s (close_session s)"
  unfolding close_session_def Let_def buffer_take_def prod.case
  by (rule keeps_events_trans [OF _ keeps_clean]) (simp add: keeps_events_def outbox_def se_spawn_def)

lemma keeps_close_loop: "close_loop is s = Some s' \<Longrightarrow> keeps_events s s'"
  by (induction "is" arbitrary: s) (auto simp: bind_eq_Some_conv intro: keeps_events_trans keeps_send)

lemma keeps_close_all: "close_all_proto s = Some s' \<Longrightarrow> keeps_events s s'"
  using keeps_close_session keeps_close_loop
  by (auto simp: close_all_proto_def split: if_splits)

lemma keeps_open_protocol: "open_protocol name version so s = Some s' \<Longrightarrow> keeps_events s s'"
  by (auto simp: open_protocol_def start_stream_def se_spawn_def Let_def split: option.splits if_splits
      intro: keeps_same keeps_event [of "s\<lparr>se_state := st\<rparr>" for st, simplified])

lemma keeps_stream_event: "handle_stream_event e s = Some s' \<Longrightarrow> keeps_events s s'"
  by (auto simp: handle_stream_event_def split: protocol_event.splits option.splits if_splits
      intro: keeps_same keeps_event keeps_open_protocol)

lemma keeps_session_event: "handle_session_event e p s = Some s' \<Longrightarrow> keeps_events s s'"
proof -
  have c: "keeps_events s (event_output x (s\<lparr>se_state := st, se_service_sender := buffer_clear b\<rparr>))" if "\<not> se_keep_buffer s" for x st b
    using that by (simp add: keeps_events_def)
  have a: "keeps_events s (event_output x (s\<lparr>se_state := st\<rparr>))" "close_all_proto (s\<lparr>se_state := st\<rparr>) = Some t \<Longrightarrow> keeps_events s t" for x st t
    using keeps_event [of "s\<lparr>se_state := st\<rparr>"] keeps_close_all [of "s\<lparr>se_state := st\<rparr>"] by simp_all
  show "handle_session_event e p s = Some s' \<Longrightarrow> keeps_events s s'"
    using c by (auto simp: handle_session_event_def handle_substream_def open_proto_stream_def se_spawn_def Let_def
        split: session_event.splits option.splits if_splits
        intro: keeps_same keeps_send keeps_close_session a)
qed

lemma keeps_substreams:
  assumes "recv_substreams s = Some (a, s')"
  shows "keeps_events s s'"
proof -
  have a: "keeps_events (s\<lparr>se_proto_event_receiver := r\<rparr>) t \<Longrightarrow> keeps_events s t" for r t
    by (erule keeps_events_trans [rotated]) (rule keeps_same; simp)
  show ?thesis using assms
    by (auto simp: recv_substreams_def Let_def split: prod.splits poll.splits option.splits if_splits
        intro: keeps_same a [OF keeps_stream_event])
qed

lemma keeps_service:
  assumes "recv_service s = Some (a, s')"
  shows "keeps_events s s'"
proof -
  have a: "keeps_events (s\<lparr>se_service_receiver := r\<rparr>) t \<Longrightarrow> keeps_events s t" for r t
    by (erule keeps_events_trans [rotated]) (rule keeps_same; simp)
  have c: "keeps_events s (clean (s\<lparr>se_service_receiver := r, se_state := st\<rparr>))" for r st
    by (rule keeps_events_trans [OF keeps_same keeps_clean]) simp_all
  show ?thesis using assms c
    by (auto simp: recv_service_def Let_def split: prod.splits poll.splits option.splits if_splits
        intro: keeps_same a [OF keeps_session_event])
qed

lemma keeps_rest: "poll_rest c s = Some (a, s') \<Longrightarrow> keeps_events s s'"
proof -
  have w: "wait_handle_poll (close_session t) = (a, s') \<Longrightarrow> keeps_events t s'" for t
    by (rule keeps_events_trans [OF keeps_close_session keeps_same]) (auto simp: wait_handle_poll_def Let_def)
  have p: "keeps_events (s\<lparr>se_proto_streams := x\<rparr>) t \<Longrightarrow> keeps_events s t" for x t
    by (erule keeps_events_trans [rotated]) (rule keeps_same; simp)
  show "poll_rest c s = Some (a, s') \<Longrightarrow> keeps_events s s'"
    using w p by (auto simp: poll_rest_def Let_def split: session_state.splits if_splits intro: keeps_close_all)
qed

lemma keeps_poll:
  assumes "se_poll_next b s = Some (a, s')"
  shows "keeps_events s s'"
proof (cases "is_local_close (se_state s)")
  case False
  with assms obtain s1 where 1: "se_flush s = Some s1"
    "s' = s1 \<or> (\<exists>x s2 y s3 c. recv_substreams s1 = Some (x, s2) \<and> recv_service s2 = Some (y, s3) \<and> poll_rest c s3 = Some (a, s'))"
    by (auto simp: se_poll_next_def bind_eq_Some_conv split: if_splits) blast
  then show ?thesis using keeps_flush keeps_substreams keeps_service keeps_rest keeps_events_trans by metis
qed (use assms in \<open>simp add: se_poll_next_def\<close>)

lemma keeps_run: "se_run xs (e, s) = Some (l, e', s') \<Longrightarrow> keeps_events s s'"
proof (induction xs arbitrary: e s l)
  case (Cons x xs)
  then obtain l1 e1 s1 l2 where 1: "se_step x (e, s) = Some (l1, e1, s1)" "se_run xs (e1, s1) = Some (l2, e', s')"
    by (auto simp: bind_eq_Some_conv)
  have "keeps_events s s1" using 1(1)
    by (cases x) (auto simp: reorder_def split: if_splits prod.splits intro: keeps_same keeps_poll)
  then show ?case using Cons.IH [OF 1(2)] by (rule keeps_events_trans)
qed simp

lemma se_run_append:
  "se_run (xs @ ys) st = Some (l, st2) \<Longrightarrow> se_run xs st = Some (l1, st1) \<Longrightarrow> \<exists>l2. se_run ys st1 = Some (l2, st2)"
proof (induction xs arbitrary: st l l1)
  case (Cons x xs)
  from Cons.prems(2) obtain a st' l1' where x: "se_step x st = Some (a, st')" "se_run xs st' = Some (l1', st1)"
    by (auto simp: bind_eq_Some_conv)
  moreover from Cons.prems(1) x(1) obtain l' where "se_run (xs @ ys) st' = Some (l', st2)" by (auto split: prod.splits)
  ultimately show ?case using Cons.IH by blast
qed auto

text \<open>When the channel of the service is closed, every poll takes one of the messages that are left, or finds the end.\<close>

lemma closed_takes:
  assumes ok: "chan_ok ch" and cl: "\<not> opened ch" and n: "recv_poll_next ch = Some (x, ch')"
  shows "x = Ready None \<or> \<not> opened ch' \<and> queued ch = Suc (queued ch')"
proof -
  have st: "state_ok ch" "ch_state ch = pack_state False (queued ch)" "queued ch < 2 ^ 63"
    using ok cl by (simp_all add: chan_ok_def state_ok_def)
  show ?thesis
  proof (cases "chan_abs ch")
    case Nil
    then have q: "queued ch = 0" "ch_quick_message_queue ch = []" "ch_message_queue ch = []"
      using chan_abs_length [of ch] by (simp_all add: chan_abs_def)
    have "is_closed (decode_state (ch_state ch))" using st q(1) by (simp add: is_closed_def)
    then show ?thesis using n q by (auto simp: recv_poll_next_def next_message_def split: if_splits)
  next
    case (Cons m ms)
    then have q: "queued ch > 0" using chan_abs_length [of ch] by simp
    have 1: "x = Ready (Some m) \<and> chan_abs ch' = ms" using recv_poll_next_abs [OF n] Cons by (auto split: poll.splits option.splits)
    have "ch_state ch' = ch_state ch - 1"
      using n Cons by (auto simp: recv_poll_next_def next_message_def dec_num_messages_def chan_abs_def split: if_splits list.splits poll.splits)
    from still_opened [OF st(1) q this] cl 1 Cons chan_abs_length [of ch] chan_abs_length [of ch'] show ?thesis by simp
  qed
qed

lemma queued_queues: "(\<And>q. chan_queue q a = chan_queue q b) \<Longrightarrow> queued a = queued b"
  by (metis chan_queue.simps queued_def)

lemma closed_session_ends:
  "se_ok s \<Longrightarrow> se_state s = StLocalClose \<or> \<not> opened (se_service_receiver s) \<Longrightarrow> \<forall>b \<in> set bs. b \<noteq> 1 \<Longrightarrow>
    length bs \<ge> (if se_state s = StLocalClose then 1 else queued (se_service_receiver s) + 2) \<Longrightarrow>
    \<exists>s'. se_run (map SePoll bs) (False, s) = Some (([], []), True, s')"
proof (induction bs arbitrary: s)
  case Nil
  then show ?case by (simp split: if_splits)
next
  case (Cons b bs)
  have e: "se_run (map SePoll bs) (True, t) = Some (([], []), True, t)" for bs t by (induction bs) simp_all
  from Cons.prems(1) show ?case
  proof (cases rule: se_poll_next_ok [where budget = b])
    case ended
    with e [of _ s] show ?thesis by simp
  next
    case (interrupted s')
    then have "b = 1" by (auto simp: poll_proceed_def Let_def split: if_splits)
    with Cons.prems(3) show ?thesis by simp
  next
    case (asked a s' x r)
    have n: "se_state s \<noteq> StLocalClose \<Longrightarrow> \<not> opened (se_service_receiver s)" using Cons.prems(2) by blast
    show ?thesis
    proof (cases "a = Ready None")
      case True
      with e [of _ s'] asked(1) show ?thesis by simp
    next
      case a: False
      have ok: "chan_ok (se_service_receiver s)" using Cons.prems(1) by (simp add: se_ok_def core_ok_def)
      have l: "se_state s \<noteq> StLocalClose" using a asked(1) by (auto simp: se_poll_next_def)
      have "se_state s' = StLocalClose \<or> \<not> opened (se_service_receiver s') \<and> queued (se_service_receiver s) = Suc (queued (se_service_receiver s'))"
        using closed_takes [OF ok n [OF l] asked(3)] asked(5) rx_keeps(5) [OF asked(4) recv_poll_next_ok [OF ok asked(3)]]
          queued_queues [OF rx_keeps(3) [OF asked(4)]] by auto
      then have "\<exists>t. se_run (map SePoll bs) (False, s') = Some (([], []), True, t)"
        using Cons.IH [OF asked(2)] Cons.prems(3,4) l by (auto split: if_splits)
      with a asked(1) show ?thesis by auto
    qed
  qed
qed

section \<open>A request to close\<close>

lemma abnormal_output: "se_state s = StAbnormal \<Longrightarrow> se_state (event_output e s) = StAbnormal"
  using event_output_form [of e s] by auto

lemma stream_event_receiver:
  assumes "handle_stream_event e s = Some s'"
  shows "se_service_receiver s' = se_service_receiver s" and "se_state s' \<in> {se_state s, StAbnormal, StLocalClose}"
proof -
  have q: "se_service_receiver (event_output x t) = se_service_receiver t" "se_state (event_output x t) \<in> {se_state t, StAbnormal}"
    for x t using quiet_fields(1,9) [OF quiet_event, of x t] by auto
  show "se_service_receiver s' = se_service_receiver s"
    using assms by (cases e) (auto simp: handle_stream_event_def open_protocol_def Let_def q split: option.splits if_splits)
  show "se_state s' \<in> {se_state s, StAbnormal, StLocalClose}"
  proof (cases e)
    case (PeOpen name so v)
    with assms show ?thesis by (auto simp: handle_stream_event_def open_protocol_def Let_def abnormal_output split: option.splits if_splits)
  next
    case (PeSelectError name)
    with assms q(2) [of _ s] show ?thesis by (auto simp: handle_stream_event_def)
  next
    case (PeError p err)
    with assms q(2) [of _ s] show ?thesis by (auto simp: handle_stream_event_def)
  qed (use assms in \<open>auto simp: handle_stream_event_def split: option.splits if_splits\<close>)
qed

lemma recv_substreams_state:
  assumes "recv_substreams s = Some (a, s')"
  shows "se_service_receiver s' = se_service_receiver s" and "se_state s' \<in> {se_state s, StAbnormal, StLocalClose}"
  using assms stream_event_receiver [of _ "s\<lparr>se_proto_event_receiver := _\<rparr>" s']
  by (auto simp: recv_substreams_def Let_def split: poll.splits option.splits prod.splits if_splits)

lemma close_request_taken:
  assumes ok: "se_ok s" and n: "se_state s = StNormal" and r: "chan_abs (se_service_receiver s) = (pr, EvSessionClose k) # ms"
    and b: "b \<noteq> 1" and s: "se_poll_next b s = Some (a, s')"
  shows "se_state s' = StLocalClose \<or> \<not> opened (se_service_receiver s')"
proof -
  have c: "core_ok s" "ch_receiver (se_service_receiver s)" "chan_ok (se_service_receiver s)" using ok n by (auto simp: se_ok_def core_ok_def)
  obtain s1 where 1: "se_flush s = Some s1" "quiet s s1" using se_flush_ok [of s] c(1) by (auto simp: core_ok_def)
  have "fst (poll_proceed b) \<noteq> Pending" using b by (simp add: poll_proceed_def Let_def)
  with s n 1(1) obtain x y s2 s3 d where 2: "recv_substreams s1 = Some (x, s2)" and 3: "recv_service s2 = Some (y, s3)"
    and 4: "poll_rest d s3 = Some (a, s')" by (auto simp: se_poll_next_def bind_eq_Some_conv)
  obtain z ch where p: "recv_poll_next (se_service_receiver s) = Some (z, ch)" using recv_poll_next_some [OF c(2)] by blast
  have z: "z = Ready (Some (pr, EvSessionClose k))" using recv_poll_next_abs [OF p] r by (auto split: poll.splits option.splits)
  have ch: "chan_ok ch" "ch_receiver ch" using recv_poll_next_ok [OF c(3) p] poll_next_receiver [OF p] z by simp_all
  note o = recv_close_not_opened [OF ch]
  have e: "se_service_receiver s2 = se_service_receiver s" using recv_substreams_state(1) [OF 2] quiet_fields(1) [OF 1(2)] by simp
  consider "se_state s2 = StNormal" | "se_state s2 \<in> {StLocalClose, StAbnormal}"
    using recv_substreams_state(2) [OF 2] quiet_fields(9) [OF 1(2)] n by auto
  then show ?thesis
  proof cases
    case 1
    let ?t = "s2\<lparr>se_service_receiver := ch\<rparr>"
    have h: "handle_session_event (EvSessionClose k) pr ?t = Some s3" using 3 1 p z by (auto simp: recv_service_def e)
    show ?thesis
    proof (cases "se_substreams s2 = []")
      case True
      with h have s3: "s3 = close_session ?t" by (simp add: handle_session_event_def)
      have "s' = s3" using 4 1 by (simp add: poll_rest_def s3)
      then show ?thesis using o by (simp add: s3)
    next
      case False
      with h have "close_all_proto (?t\<lparr>se_state := StLocalClose\<rparr>) = Some s3" by (simp add: handle_session_event_def)
      from close_all_proto_state [OF this] 4 wait_handle_reported [of "close_session (s3\<lparr>se_proto_streams := []\<rparr>)" a s'] show ?thesis
        by (simp add: poll_rest_def)
    qed
  next
    case 2
    then have "\<not> is_normal (se_state s2)" by auto
    with 3 p z have s3: "s3 = s2\<lparr>se_service_receiver := ch\<rparr>" by (auto simp: recv_service_def e)
    let ?c = "close_session (s3\<lparr>se_proto_streams := []\<rparr>)"
    have "wait_handle_poll ?c = (a, s')" using 4 2 by (auto simp: poll_rest_def s3)
    then have "se_service_receiver s' = se_service_receiver ?c" by (auto simp: wait_handle_poll_def Let_def)
    with o show ?thesis by (simp add: s3)
  qed
qed

lemma new_session_ok:
  assumes "sc_channel_size cfg < MAX_BUFFER" and "\<forall>m \<in> snd ` set by_id. mt_name m (mt_id m) \<in> fst ` set by_name"
    and "\<forall>d. Ready (Some (PeMessage d)) \<notin> set events" and "channel_new n = Some ch"
  shows "se_ok (se_new by_name by_id cfg keep cx sender events svc ch sp ssp hs)"
    and "few_senders (se_new by_name by_id cfg keep cx sender events svc ch sp ssp hs) (2 ^ 62 - 1)"
proof -
  obtain c0 :: "protocol_event channel" where 0: "channel_new 0 = Some c0" by (simp add: channel_new_def MAX_BUFFER_def MAX_CAPACITY_mask mask_eq_exp_minus_1)
  have "room 0 c0" using channel_new_ok [OF 0] 0 by (auto simp: room_def channel_new_def split: if_splits)
  moreover have "ch_receiver ch" "length (ch_senders ch) = 1" using assms(4) by (auto simp: channel_new_def split: if_splits)
  ultimately show "se_ok (se_new by_name by_id cfg keep cx sender events svc ch sp ssp hs)"
    "few_senders (se_new by_name by_id cfg keep cx sender events svc ch sp ssp hs) (2 ^ 62 - 1)"
    using assms channel_new_ok [OF assms(4)] 0 by (auto simp: se_new_def se_ok_def ok_defs few_senders_def)
qed

section \<open>Properties\<close>

text \<open>C10. A session never panics. If the channels of the configuration are not too large, every protocol that can be opened by
  its number has its name in the table, and no stream sends a message to the session, then a new session can be polled in any
  order with what the service, the streams and the user do, and every channel keeps its invariant.\<close>

theorem session_never_panics:
  assumes "sc_channel_size cfg < MAX_BUFFER" and "\<forall>m \<in> snd ` set by_id. mt_name m (mt_id m) \<in> fst ` set by_name"
    and "\<forall>d. Ready (Some (PeMessage d)) \<notin> set events" and "channel_new n = Some ch" and "length ops < 2 ^ 62"
  shows "\<exists>l ended s. se_run ops (False, se_new by_name by_id cfg keep cx sender events svc ch sp ssp hs) = Some (l, ended, s) \<and> se_ok s"
proof -
  have "few_senders (se_new by_name by_id cfg keep cx sender events svc ch sp ssp hs) (length ops)"
    using new_session_ok(2) [OF assms(1-4), of keep cx sender svc sp ssp hs] assms(5) by (simp add: few_senders_def)
  from se_run_ok [OF new_session_ok(1) [OF assms(1-4)] this] show ?thesis .
qed

definition sample_meta :: meta where
  "sample_meta = \<lparr>mt_id = 1, mt_name = (\<lambda>_. [0x70]), mt_support_versions = [[0x31]], mt_codec = id, mt_select_version = None,
     mt_before_receive = None, mt_spawn = False\<rparr>"

definition sample_peer_session :: "protocol_event option poll list \<Rightarrow> session_event channel \<Rightarrow> peer_session" where
  "sample_peer_session events ch = se_new [([0x70], sample_meta)] [(1, sample_meta)] sample_session_config False
     \<lparr>cx_id = 3, cx_closed = False, cx_pending_data_size = 0\<rparr> sample_sender events sample_sender ch (\<lambda>_. None) (\<lambda>_. None) []"

definition sample_events :: "protocol_event option poll list" where
  "sample_events = [Ready (Some (PeOpen [0x70] sample_substream_socket [0x31]))]"

definition sample_se_ops :: "se_op list" where
  "sample_se_ops = [SePoll 9, SeService (OpTrySend 0 (EvProtocolMessage 1 [7]) Normal), SeService (OpTrySend 0 (EvProtocolMessage 1 [8]) High),
     SePoll 9, SePoll 9, SeStream 0 OpNext, SeService (OpTrySend 0 (EvSessionClose 3) High), SePoll 9]"

lemma sample_session_given:
  "sc_channel_size sample_session_config < MAX_BUFFER"
  "\<forall>m \<in> snd ` set [(1 :: protocol_id, sample_meta)]. mt_name m (mt_id m) \<in> fst ` set [([0x70], sample_meta)]"
  "\<forall>d. Ready (Some (PeMessage d)) \<notin> set sample_events"
proof -
  show "sc_channel_size sample_session_config < MAX_BUFFER" by code_simp
qed (auto simp: sample_meta_def sample_events_def)

theorem session_never_panics_witness:
  "\<exists>ch l s. channel_new 4 = Some ch \<and> se_run sample_se_ops (False, sample_peer_session sample_events ch) = Some (l, True, s) \<and> se_ok s \<and>
    snd l = [(0, High, PeMessage [8])]"
proof -
  have r: "map_option (\<lambda>(l, e, s). (snd l, e))
      (Option.bind (channel_new 4) (\<lambda>ch. se_run sample_se_ops (False, sample_peer_session sample_events ch))) =
      Some ([(0, High, PeMessage [8])], True)" by code_simp
  then obtain ch l s where 1: "channel_new 4 = Some ch" "se_run sample_se_ops (False, sample_peer_session sample_events ch) = Some (l, True, s)"
    "snd l = [(0, High, PeMessage [8])]" by (auto simp: bind_eq_Some_conv)
  have "length sample_se_ops < 2 ^ 62" by (simp add: sample_se_ops_def)
  from session_never_panics [OF sample_session_given 1(1) this, of False "\<lparr>cx_id = 3, cx_closed = False, cx_pending_data_size = 0\<rparr>"
      sample_sender sample_sender "\<lambda>_. None" "\<lambda>_. None" "[]"] 1
  have "se_ok s" unfolding sample_peer_session_def [symmetric] by auto
  with 1 show ?thesis by blast
qed

text \<open>C12. When the task of a session ends, the end is known: the flag that its streams and handles read is set, no stream is left
  in its table, nothing waits for the service, and a task sends it the event that the session is closed. If the session keeps its
  buffer and the service listens, no event for the service is lost on the way: whatever was handed over, waited in the buffer or was
  with a task at any moment of the run has been handed over in the end or is with one of the tasks. (A session that does not keep its
  buffer discards what waits when the connection fails with an error, and one whose service is gone discards it always.)\<close>

theorem session_end_reported:
  assumes "sc_channel_size cfg < MAX_BUFFER" and "\<forall>m \<in> snd ` set by_id. mt_name m (mt_id m) \<in> fst ` set by_name"
    and "\<forall>d. Ready (Some (PeMessage d)) \<notin> set events" and "channel_new n = Some ch" and "length ops < 2 ^ 62"
    and "se_run ops (False, se_new by_name by_id cfg keep cx sender events svc ch sp ssp hs) = Some (l, True, s)"
  shows "cx_closed (se_context s) \<and> se_substreams s = [] \<and> bf_buffer (se_service_sender s) = [] \<and>
    (\<exists>waiting. TaskSend (waiting @ [EvSessionClose (cx_id (se_context s))]) \<in> set (se_spawned s)) \<and>
    (\<forall>before after l1 e1 s1. keep \<and> listening svc \<and> ops = before @ after \<and>
       se_run before (False, se_new by_name by_id cfg keep cx sender events svc ch sp ssp hs) = Some (l1, e1, s1) \<longrightarrow>
       outbox s1 \<subseteq># mset (ms_sent (bf_sender (se_service_sender s))) + mset (concat (map task_events (se_spawned s))))"
proof -
  let ?s = "se_new by_name by_id cfg keep cx sender events svc ch sp ssp hs"
  have "few_senders ?s (length ops)" using new_session_ok(2) [OF assms(1-4), of keep cx sender svc sp ssp hs] assms(5) by (simp add: few_senders_def)
  from run_reports [OF new_session_ok(1) [OF assms(1-4)] this assms(6)] have r: "reported s" by (simp add: se_new_def)
  have "outbox s1 \<subseteq># outbox s" if h: "keep" "listening svc" "ops = before @ after" "se_run before (False, ?s) = Some (l1, e1, s1)"
    for before after l1 e1 s1
  proof -
    from se_run_append [OF assms(6) [unfolded h(3)] h(4)] obtain l2 where l2: "se_run after (e1, s1) = Some (l2, True, s)" by blast
    have "se_keep_buffer ?s" "listening (bf_sender (se_service_sender ?s))" using h(1,2) by (simp_all add: se_new_def buffer_new_def)
    with keeps_run [OF h(4)] have "se_keep_buffer s1" "listening (bf_sender (se_service_sender s1))" by (simp_all add: keeps_events_def)
    with keeps_run [OF l2] show ?thesis by (simp add: keeps_events_def)
  qed
  with r show ?thesis unfolding reported_def outbox_def by auto
qed

text \<open>A session that keeps its buffer: opening a protocol fails, which waits to be told, and then the service closes the session.\<close>

definition waiting_session :: "session_event channel \<Rightarrow> peer_session" where
  "waiting_session ch = se_new [([0x70], sample_meta)] [(1, sample_meta)] sample_session_config True
     \<lparr>cx_id = 3, cx_closed = False, cx_pending_data_size = 0\<rparr> sample_sender [Ready (Some (PeSelectError (Some [0x70])))]
     \<lparr>ms_ready = [], ms_try = [], ms_sent = []\<rparr> ch (\<lambda>_. None) (\<lambda>_. None) []"

definition waiting_ops :: "se_op list" where
  "waiting_ops = [SeService (OpTrySend 0 (EvSessionClose 3) High), SePoll 9, SePoll 9]"

theorem session_end_reported_witness:
  "\<exists>ch l s. channel_new 4 = Some ch \<and> se_run (SePoll 9 # waiting_ops) (False, waiting_session ch) = Some (l, True, s) \<and>
    cx_closed (se_context s) \<and> se_substreams s = [] \<and>
    EvProtocolSelectError 3 (Some [0x70]) \<in># mset (ms_sent (bf_sender (se_service_sender s))) + mset (concat (map task_events (se_spawned s)))"
proof -
  have "map_option (\<lambda>((l, e, s), (l1, e1, s1)). (e, bf_buffer (se_service_sender s1)))
      (Option.bind (channel_new 4) (\<lambda>ch. Option.bind (se_run (SePoll 9 # waiting_ops) (False, waiting_session ch))
        (\<lambda>x. map_option (Pair x) (se_run [SePoll 9] (False, waiting_session ch))))) =
      Some (True, [EvProtocolSelectError 3 (Some [0x70])])" by code_simp
  then obtain ch l s l1 e1 s1 where 1: "channel_new 4 = Some ch" "se_run (SePoll 9 # waiting_ops) (False, waiting_session ch) = Some (l, True, s)"
    "se_run [SePoll 9] (False, waiting_session ch) = Some (l1, e1, s1)"
    "bf_buffer (se_service_sender s1) = [EvProtocolSelectError 3 (Some [0x70])]"
    by (auto simp: bind_eq_Some_conv simp del: se_run.simps)
  let ?m = "\<lparr>ms_ready = [], ms_try = [], ms_sent = []\<rparr> :: session_event mpsc_sender"
  have o: "length (SePoll 9 # waiting_ops) < 2 ^ 62" "listening ?m" "SePoll 9 # waiting_ops = [SePoll 9] @ waiting_ops"
    "\<forall>d. Ready (Some (PeMessage d)) \<notin> set [Ready (Some (PeSelectError (Some [0x70])))]"
    by (simp_all add: waiting_ops_def listening_def)
  note e = session_end_reported [OF sample_session_given(1,2) o(4) 1(1) o(1) 1(2) [unfolded waiting_session_def]]
  have "outbox s1 \<subseteq># mset (ms_sent (bf_sender (se_service_sender s))) + mset (concat (map task_events (se_spawned s)))"
    using e o(2,3) 1(3) [unfolded waiting_session_def] by blast
  moreover have "EvProtocolSelectError 3 (Some [0x70]) \<in># outbox s1" by (simp add: outbox_def 1(4))
  ultimately have "EvProtocolSelectError 3 (Some [0x70]) \<in># mset (ms_sent (bf_sender (se_service_sender s))) + mset (concat (map task_events (se_spawned s)))"
    by (rule mset_subset_eqD)
  with e 1(1,2) show ?thesis by blast
qed

text \<open>C11. A request to close ends the session. If the next message of the service is such a request, then the task of the session
  ends after it was polled once for the request, once for each message still in the channel, and twice more, whatever the
  streams and the handles do; polls at which the task must give way are not counted.\<close>

theorem close_request_ends:
  assumes "se_ok s" and "se_state s = StNormal" and "chan_abs (se_service_receiver s) = (p, EvSessionClose k) # ms"
    and "\<forall>b \<in> set bs. b \<noteq> 1" and "length ms + 3 \<le> length bs"
  shows "\<exists>s'. se_run (map SePoll bs) (False, s) = Some (([], []), True, s')"
proof (cases bs)
  case (Cons b bs')
  then have b: "b \<noteq> 1" "\<forall>b \<in> set bs'. b \<noteq> 1" "length ms + 2 \<le> length bs'" using assms(4,5) by simp_all
  have e: "se_run (map SePoll bs') (True, t) = Some (([], []), True, t)" for t by (induction bs') simp_all
  from assms(1) show ?thesis
  proof (cases rule: se_poll_next_ok [where budget = b])
    case (asked a s' x r)
    note o = close_request_taken [OF assms(1-3) b(1) asked(1)]
    have "chan_abs r = ms" using recv_poll_next_abs [OF asked(3)] assms(3) by (auto split: poll.splits option.splits)
    then have "queued (se_service_receiver s') = length ms"
      using chan_abs_length [of r] queued_queues [OF rx_keeps(3) [OF asked(4)]] by simp
    then have "(if se_state s' = StLocalClose then 1 else queued (se_service_receiver s') + 2) \<le> length bs'" using b(3) by simp
    from closed_session_ends [OF asked(2) o b(2) this] obtain s'' where "se_run (map SePoll bs') (False, s') = Some (([], []), True, s'')" by blast
    with asked(1) e [of s'] show ?thesis by (cases "a = Ready None") (auto simp: Cons)
  next
    case (interrupted s')
    then show ?thesis using b(1) by (simp add: poll_proceed_def Let_def)
  qed (use assms(2) in simp)
qed (use assms(5) in simp)

text \<open>A session of the sample that was sent a request to close.\<close>

definition sample_close :: "protocol_event option poll list \<Rightarrow> (se_log \<times> bool \<times> peer_session) option" where
  "sample_close events = Option.bind (channel_new 4) (\<lambda>ch. se_run [SeService (OpTrySend 0 (EvSessionClose 3) High)] (False, sample_peer_session events ch))"

lemma sample_close_ok:
  assumes "\<forall>d. Ready (Some (PeMessage d)) \<notin> set events" and "sample_close events = Some (l, e, s)"
  shows "se_ok s"
proof -
  from assms(2) obtain ch where 1: "channel_new 4 = Some ch"
    "se_run [SeService (OpTrySend 0 (EvSessionClose 3) High)] (False, sample_peer_session events ch) = Some (l, e, s)"
    by (auto simp: sample_close_def bind_eq_Some_conv)
  have f: "few_senders (sample_peer_session events ch) (length [SeService (OpTrySend 0 (EvSessionClose 3) High)])"
    using 1(1) by (auto simp: few_senders_def sample_peer_session_def se_new_def channel_new_def split: if_splits)
  have "se_ok (sample_peer_session events ch)"
    unfolding sample_peer_session_def by (rule new_session_ok(1) [OF sample_session_given(1,2) assms(1) 1(1)])
  from se_run_ok [OF this f, of False] 1(2) show ?thesis by simp
qed

theorem close_request_ends_witness:
  "\<exists>l e s s'. sample_close sample_events = Some (l, e, s) \<and> se_run (map SePoll [9, 9, 9]) (False, s) = Some (([], []), True, s')"
proof -
  have "map_option (\<lambda>(l, e, s). (se_state s, chan_abs (se_service_receiver s))) (sample_close sample_events) =
      Some (StNormal, [(High, EvSessionClose 3)])" by code_simp
  then obtain l e s where 1: "sample_close sample_events = Some (l, e, s)" "se_state s = StNormal"
    "chan_abs (se_service_receiver s) = [(High, EvSessionClose 3)]" by auto
  from close_request_ends [OF sample_close_ok [OF sample_session_given(3) 1(1)] 1(2,3), of "[9, 9, 9]"] 1(1) show ?thesis by auto
qed

text \<open>The report that a session is closed.\<close>

fun is_close_report :: "session_task \<Rightarrow> bool" where
  "is_close_report (TaskSend [EvSessionClose _]) = True"
| "is_close_report _ = False"

text \<open>C40. The end of a session may be reported twice. A request to close a session without open protocols closes it and reports that,
  but leaves it in its normal state: the next poll finds its receivers closed, and closes and reports it again.\<close>

theorem close_reported_twice:
  assumes ok: "se_ok s" and n: "se_state s = StNormal" and e: "se_substreams s = []" "mr_answers (se_proto_event_receiver s) = []"
      "\<not> mr_closed (se_proto_event_receiver s)" "bf_buffer (se_service_sender s) = []"
    and q: "chan_abs (se_service_receiver s) = [(p, EvSessionClose k)]" and b: "b \<noteq> 1" "b' \<noteq> 1"
  shows "\<exists>e s'. se_run [SePoll b, SePoll b'] (False, s) = Some (([], []), e, s') \<and>
    filter is_close_report (se_spawned s') = filter is_close_report (se_spawned s) @ replicate 2 (TaskSend [EvSessionClose (cx_id (se_context s))])"
proof -
  have c: "ch_receiver (se_service_receiver s)" "chan_ok (se_service_receiver s)" using ok n by (auto simp: se_ok_def core_ok_def)
  obtain z ch where 1: "recv_poll_next (se_service_receiver s) = Some (z, ch)" using recv_poll_next_some [OF c(1)] by blast
  have z: "z = Ready (Some (p, EvSessionClose k))" "chan_abs ch = []" using recv_poll_next_abs [OF 1] q by (auto split: poll.splits option.splits)
  have ch: "chan_ok ch" "ch_receiver ch" using recv_poll_next_ok [OF c(2) 1] poll_next_receiver [OF 1] z by simp_all
  let ?ch = "recv_close ch"
  obtain y ch' where 2: "recv_poll_next ?ch = Some (y, ch')" using recv_poll_next_some [of ?ch] ch by auto
  have qu: "chan_queue x ?ch = []" for x using z(2) chan_abs_queue [of x ch] by (simp add: close_queue)
  then have "queued ?ch = 0" by (metis add_0 chan_queue.simps list.size(3) queued_def)
  then have y: "y = Ready None" using closed_takes [OF recv_close_ok [OF ch(1)] recv_close_not_opened [OF ch] 2] by simp
  have p: "fst (poll_proceed b) \<noteq> Pending" "fst (poll_proceed b') \<noteq> Pending" using b by (simp_all add: poll_proceed_def Let_def)
  have f: "se_flush t = Some t" if "se_substreams t = []" "bf_buffer (se_service_sender t) = []" for t
    using that by (simp add: se_flush_def distribute_to_substreams_def)
  let ?s = "close_session (s\<lparr>se_service_receiver := ch\<rparr>)"
  have s1: "se_poll_next b s = Some (Ready (Some ()), ?s)"
    using p(1) n e 1 z by (simp add: se_poll_next_def f recv_substreams_def mpsc_poll_next_def recv_service_def handle_session_event_def poll_rest_def)
  have s': "se_service_receiver ?s = ?ch" "mr_answers (se_proto_event_receiver ?s) = []" "mr_closed (se_proto_event_receiver ?s)"
    "bf_buffer (se_service_sender ?s) = []" "se_substreams ?s = []" "se_state ?s = StNormal"
    "filter is_close_report (se_spawned ?s) = filter is_close_report (se_spawned s) @ [TaskSend [EvSessionClose (cx_id (se_context s))]]"
    using e n by (simp_all add: close_session_def clean_def se_spawn_def buffer_take_def Let_def)
  obtain a s'' where s2: "se_poll_next b' ?s = Some (a, s'')"
    "filter is_close_report (se_spawned s'') = filter is_close_report (se_spawned ?s) @ [TaskSend [EvSessionClose (cx_id (se_context s))]]"
  proof -
    have r: "mpsc_poll_next (se_proto_event_receiver ?s) = (Ready None, se_proto_event_receiver ?s)" using s'(2,3) by (simp add: mpsc_poll_next_def)
    let ?t = "?s\<lparr>se_state := StLocalClose\<rparr>"
    have t: "recv_substreams ?s = Some (Ready None, ?t)" by (simp add: recv_substreams_def r)
    let ?u = "clean (?t\<lparr>se_service_receiver := ch', se_state := StLocalClose\<rparr>)"
    have u: "recv_service ?t = Some (Ready None, ?u)" using s'(1) 2 y by (simp add: recv_service_def)
    have "poll_rest False ?u = Some (wait_handle_poll (close_session (?u\<lparr>se_proto_streams := []\<rparr>)))" by (simp add: poll_rest_def clean_def)
    then have "se_poll_next b' ?s = Some (wait_handle_poll (close_session (?u\<lparr>se_proto_streams := []\<rparr>)))"
      using p(2) s'(4-6) by (simp add: se_poll_next_def f t u)
    moreover have "filter is_close_report (se_spawned (snd (wait_handle_poll (close_session (?u\<lparr>se_proto_streams := []\<rparr>))))) =
        filter is_close_report (se_spawned ?s) @ [TaskSend [EvSessionClose (cx_id (se_context s))]]"
      using s'(4) by (simp add: wait_handle_poll_def close_session_def [of "_\<lparr>se_proto_streams := []\<rparr>"] clean_def se_spawn_def buffer_take_def Let_def)
    ultimately show thesis by (intro that [of "fst (wait_handle_poll (close_session (?u\<lparr>se_proto_streams := []\<rparr>)))"]) simp_all
  qed
  show ?thesis using s1 s2 s'(7) by (simp add: numeral_2_eq_2)
qed

theorem close_reported_twice_witness:
  "\<exists>l e s e' s'. sample_close [] = Some (l, e, s) \<and> se_run [SePoll 9, SePoll 9] (False, s) = Some (([], []), e', s') \<and>
    filter is_close_report (se_spawned s') = [TaskSend [EvSessionClose 3], TaskSend [EvSessionClose 3]]"
proof -
  have "map_option (\<lambda>(l, e, s). (se_state s, length (se_substreams s), length (mr_answers (se_proto_event_receiver s)),
      mr_closed (se_proto_event_receiver s), bf_buffer (se_service_sender s), chan_abs (se_service_receiver s), length (se_spawned s),
      cx_id (se_context s))) (sample_close []) = Some (StNormal, 0, 0, False, [], [(High, EvSessionClose 3)], 0, 3)" by code_simp
  then obtain l e s where 1: "sample_close [] = Some (l, e, s)" "se_state s = StNormal" "se_substreams s = []"
    "mr_answers (se_proto_event_receiver s) = []" "\<not> mr_closed (se_proto_event_receiver s)" "bf_buffer (se_service_sender s) = []"
    "chan_abs (se_service_receiver s) = [(High, EvSessionClose 3)]" "se_spawned s = []" "cx_id (se_context s) = 3" by auto
  have "se_ok s" by (rule sample_close_ok [OF _ 1(1)]) simp
  moreover have "(9 :: u8) \<noteq> 1" by simp
  ultimately have "\<exists>e s'. se_run [SePoll 9, SePoll 9] (False, s) = Some (([], []), e, s') \<and>
      filter is_close_report (se_spawned s') = filter is_close_report (se_spawned s) @ replicate 2 (TaskSend [EvSessionClose (cx_id (se_context s))])"
    using close_reported_twice 1(2-7) by blast
  with 1(1,8,9) show ?thesis by (simp only: filter.simps replicate_Suc replicate_0 numeral_2_eq_2 append_Nil) blast
qed

end
