(* ===== verification/Peer_Session_Delivery.thy ===== *)
theory Peer_Session_Delivery
  imports Peer_Session_Safety
begin

text \<open>
  The messages that the service sends to a session for a protocol reach the channel of its stream, once and in order.
\<close>

section \<open>Messages reach their stream\<close>

text \<open>What is on its way to a stream, by priority.\<close>

definition held :: "stream_id \<Rightarrow> priority \<Rightarrow> peer_session \<Rightarrow> bytes list" where
  "held i q s = msgs (chan_queue q (se_channels s i)) @ msgs (pb_part q (buffer_of i s))"

definition lively :: "stream_id \<Rightarrow> peer_session \<Rightarrow> bool" where
  "lively i s \<longleftrightarrow> (\<exists>b. map_of (se_substreams s) i = Some b \<and> live_sender (pb_sender b) (se_channels s i))"

lemma lively_eq:
  "map_of (se_substreams s') i = map_of (se_substreams s) i \<Longrightarrow> se_channels s' i = se_channels s i \<Longrightarrow>
    lively i s' = lively i s \<and> held i q s' = held i q s"
  by (simp add: lively_def held_def buffer_of_def)

lemma stream_send_held:
  assumes l: "lively i s" and s: "stream_send f j s = Some (r, s')" and f: "\<And>b. pb_sender (f b) = pb_sender b"
  shows "lively i s'" and "held i q s' = (if j = i then msgs (chan_queue q (se_channels s i)) @ msgs (pb_part q (f (buffer_of i s))) else held i q s)"
proof -
  from l obtain b where b: "map_of (se_substreams s) i = Some b" "live_sender (pb_sender b) (se_channels s i)" by (auto simp: lively_def)
  have "lively i s' \<and> held i q s' = (if j = i then msgs (chan_queue q (se_channels s i)) @ msgs (pb_part q (f (buffer_of i s))) else held i q s)"
  proof (cases "j = i")
    case True
    with s b obtain b' ch where 1: "priority_try_send (f b) (se_channels s i) = Some (r, b', ch)"
      "s' = s\<lparr>se_substreams := AList.update i b' (se_substreams s), se_channels := (se_channels s)(i := ch)\<rparr>"
      by (auto simp: stream_send_def split: option.splits prod.splits)
    have "live_sender (pb_sender (f b)) (se_channels s i)" using b(2) f by simp
    note k = priority_try_send_keeps_live [OF this 1(1)]
    from priority_try_send_conserves(1) [OF 1(1) k(2), of q]
    have "msgs (chan_queue q ch) @ msgs (pb_part q b') = msgs (chan_queue q (se_channels s i)) @ msgs (pb_part q (f b))"
      by (simp flip: msgs_append)
    with k(1) b(1) True show ?thesis by (simp add: 1(2) lively_def held_def buffer_of_def update_conv)
  next
    case False
    from s have "map_of (se_substreams s') i = map_of (se_substreams s) i" "se_channels s' i = se_channels s i"
      using False by (auto elim!: stream_send_form simp: update_conv)
    from lively_eq [OF this] l False show ?thesis by simp
  qed
  then show "lively i s'" "held i q s' = (if j = i then msgs (chan_queue q (se_channels s i)) @ msgs (pb_part q (f (buffer_of i s))) else held i q s)"
    by simp_all
qed

lemma event_output_held [simp]: "lively i (event_output e s) = lively i s" "held i q (event_output e s) = held i q s"
    "lively i (se_output s) = lively i s" "held i q (se_output s) = held i q s"
    "lively i (s\<lparr>se_state := st\<rparr>) = lively i s" "held i q (s\<lparr>se_state := st\<rparr>) = held i q s"
  by (simp_all add: lively_def held_def buffer_of_def)

lemma distribute_held:
  "lively i s \<Longrightarrow> se_distribute_loop is s = Some s' \<Longrightarrow> se_state s' = StAbnormal \<or> lively i s' \<and> held i q s' = held i q s"
proof (induction "is" arbitrary: s)
  case (Cons j "is")
  show ?case
  proof (cases "pb_len (buffer_of j s) = 0")
    case True
    with Cons show ?thesis by simp
  next
    case False
    with Cons.prems(2) obtain r s1 where 1: "stream_send id j s = Some (r, s1)" by (auto split: option.splits)
    have h1: "lively i s1" "held i q s1 = held i q s"
      using stream_send_held(1) [OF Cons.prems(1) 1] stream_send_held(2) [OF Cons.prems(1) 1, of q] by (simp_all add: held_def split: if_splits)
    show ?thesis
    proof (cases r)
      case BufPending
      with Cons.prems(2) 1 False h1 show ?thesis by (auto simp: Let_def abnormal_output split: if_splits)
    qed (use Cons.IH [OF h1(1)] Cons.prems(2) 1 False h1(2) in auto)
  qed
qed simp

lemma flush_held:
  assumes "lively i s" and "se_flush s = Some s'" and "se_state s' = StNormal"
  shows "lively i s'" and "held i q s' = held i q s"
proof -
  from assms(2) obtain s1 where 1: "se_distribute_loop (map fst (se_substreams s)) s = Some s1"
    "s' = (if bf_buffer (se_service_sender s1) = [] then s1 else se_output s1)"
    by (auto simp: se_flush_def distribute_to_substreams_def)
  with assms(3) have "se_state s1 \<noteq> StAbnormal" using output_form [of s1] by (auto split: if_splits)
  with distribute_held [OF assms(1) 1(1), of q] have "lively i s1 \<and> held i q s1 = held i q s" by blast
  with 1(2) show "lively i s'" "held i q s' = held i q s" by (simp_all split: if_splits)
qed

text \<open>The messages for a protocol among the events of the service.\<close>

fun proto_msgs :: "protocol_id \<Rightarrow> session_event list \<Rightarrow> bytes list" where
  "proto_msgs p [] = []"
| "proto_msgs p (e # es) = (case e of EvProtocolMessage p' data \<Rightarrow> if p' = p then [data] else [] | _ \<Rightarrow> []) @ proto_msgs p es"

lemma proto_msgs_append [simp]: "proto_msgs p (xs @ ys) = proto_msgs p xs @ proto_msgs p ys"
  by (induction xs) simp_all

definition kept_open :: "protocol_id \<Rightarrow> stream_id \<Rightarrow> peer_session \<Rightarrow> bool" where
  "kept_open p i s \<longleftrightarrow> se_state s = StNormal \<and> map_of (se_proto_streams s) p = Some i \<and>
     list_all (\<lambda>(p', j). j = i \<longrightarrow> p' = p) (se_proto_streams s) \<and> lively i s \<and> se_next_stream s \<noteq> i"

definition waiting :: "protocol_id \<Rightarrow> stream_id \<Rightarrow> priority \<Rightarrow> peer_session \<Rightarrow> bytes list" where
  "waiting p i q s = held i q s @ proto_msgs p (chan_queue q (se_service_receiver s))"

lemma stream_event_held:
  assumes l: "lively i s" and e: "handle_stream_event e s = Some s'" and i: "i \<in> stream_ids s'" and n: "se_next_stream s \<noteq> i"
  shows "lively i s' \<and> held i q s' = held i q s"
proof (cases e)
  case (PeOpen name so v)
  with e n have "map_of (se_substreams s') i = map_of (se_substreams s) i \<and> se_channels s' i = se_channels s i"
    by (auto simp: handle_stream_event_def open_protocol_def Let_def update_conv split: option.splits if_splits)
  with lively_eq [of s' i s] l show ?thesis by simp
next
  case (PeClose j p)
  show ?thesis
  proof (cases "map_of (se_substreams s) j")
    case None
    with e l show ?thesis by (simp add: PeClose handle_stream_event_def)
  next
    case (Some b)
    with e have s': "s' = s\<lparr>se_substreams := AList.delete j (se_substreams s), se_channels := drop_buffer (j, b) (se_channels s),
        se_proto_streams := AList.delete p (se_proto_streams s)\<rparr>" by (simp add: PeClose handle_stream_event_def)
    with i have "j \<noteq> i" by (auto simp: in_stream_ids delete_conv)
    with lively_eq [of s' i s] l show ?thesis by (simp add: s' delete_conv drop_buffer_def)
  qed
next
  case PeTimeoutCheck
  with e l show ?thesis by (auto simp: handle_stream_event_def split: if_splits)
qed (use e l in \<open>auto simp: handle_stream_event_def\<close>)

lemma session_event_held:
  assumes e: "handle_session_event e pr s = Some s'" and st: "se_state s' = StNormal" and l: "lively i s"
    and p: "map_of (se_proto_streams s) p = Some i" "list_all (\<lambda>(p', j). j = i \<longrightarrow> p' = p) (se_proto_streams s)"
  shows "lively i s' \<and> held i q s' = held i q s @ (if pr = q then proto_msgs p [e] else []) \<and> se_service_receiver s' = se_service_receiver s"
proof (cases e)
  case (EvProtocolMessage p' d)
  let ?f = "if is_high pr then push_high (PeMessage d) else push_normal (PeMessage d)"
  have f: "pb_sender (?f b) = pb_sender b" for b by (simp add: push_high_def push_normal_def)
  have m: "msgs (pb_part q (?f b)) = msgs (pb_part q b) @ (if pr = q then [d] else [])" for b
    by (cases pr; cases q) (simp_all add: pb_part_def push_high_def push_normal_def)
  show ?thesis
  proof (cases "map_of (se_proto_streams s) p'")
    case None
    with p e l show ?thesis by (auto simp: EvProtocolMessage handle_session_event_def)
  next
    case (Some j)
    with e obtain r where 1: "stream_send ?f j s = Some (r, s')" by (auto simp: EvProtocolMessage handle_session_event_def)
    have "p' = p \<longleftrightarrow> j = i" using p Some map_of_SomeD [OF Some] by (auto simp: list_all_iff)
    with stream_send_held(1) [OF l 1 f] stream_send_held(2) [OF l 1 f, of q] quiet_fields(1) [OF quiet_send [OF 1]] m show ?thesis
      by (auto simp: EvProtocolMessage held_def)
  qed
next
  case (EvProtocolClose p')
  show ?thesis
  proof (cases "map_of (se_proto_streams s) p'")
    case None
    with e l show ?thesis by (auto simp: EvProtocolClose handle_session_event_def)
  next
    case (Some j)
    with e obtain r where 1: "stream_send (push_high (PeClose j p')) j s = Some (r, s')" by (auto simp: EvProtocolClose handle_session_event_def)
    have "msgs (pb_part q (push_high (PeClose j p') b)) = msgs (pb_part q b)" for b by (cases q) (simp_all add: pb_part_def push_high_def)
    with stream_send_held(1) [OF l 1] stream_send_held(2) [OF l 1, of q] quiet_fields(1) [OF quiet_send [OF 1]] show ?thesis
      by (auto simp: EvProtocolClose held_def push_high_def)
  qed
next
  case (EvSessionClose j)
  have "se_substreams s \<noteq> []" using l by (auto simp: lively_def)
  with e have "close_all_proto (s\<lparr>se_state := StLocalClose\<rparr>) = Some s'" by (simp add: EvSessionClose handle_session_event_def)
  from close_all_proto_state [OF this] st show ?thesis by simp
next
  case (EvChangeState j st' err)
  with e l show ?thesis
    by (auto simp: handle_session_event_def Let_def quiet_fields(1) [OF quiet_event] lively_def held_def buffer_of_def split: option.splits if_splits)
next
  case (EvProtocolOpen p')
  with e l show ?thesis
    by (auto simp: handle_session_event_def open_proto_stream_def lively_def held_def buffer_of_def split: option.splits if_splits)
next
  case (EvStreamStart so)
  with e l show ?thesis by (auto simp: handle_session_event_def handle_substream_def lively_def held_def buffer_of_def)
qed (use e l in \<open>auto simp: handle_session_event_def\<close>)

lemma close_all_proto_tables:
  assumes "close_all_proto s = Some s'"
  shows "se_proto_streams s' = se_proto_streams s \<and> stream_ids s' \<subseteq> stream_ids s"
proof -
  have "close_loop is s = Some s' \<Longrightarrow> se_proto_streams s' = se_proto_streams s \<and> stream_ids s' = stream_ids s" for "is" s s'
  proof (induction "is" arbitrary: s)
    case (Cons j "is")
    then obtain r s1 where 1: "stream_send (push_high (PeClose j 0)) j s = Some (r, s1)" "close_loop is s1 = Some s'"
      by (auto simp: bind_eq_Some_conv)
    from Cons.IH [OF 1(2)] quiet_fields(3) [OF quiet_send [OF 1(1)]] stream_send_ids [OF 1(1)] show ?case by simp
  qed simp
  note c = this
  show ?thesis
  proof (cases "cx_closed (se_context s)")
    case True
    with assms have "s' = close_session s" by (simp add: close_all_proto_def)
    then show ?thesis by (simp add: stream_ids_def)
  next
    case False
    with assms obtain z where z: "close_loop (map fst (se_substreams s)) s = Some z" "s' = z\<lparr>se_context := (se_context z)\<lparr>cx_closed := True\<rparr>\<rparr>"
      by (auto simp: close_all_proto_def)
    from c [OF z(1)] show ?thesis by (simp add: z(2) stream_ids_def)
  qed
qed

lemma session_event_tables:
  assumes "handle_session_event e pr s = Some s'"
  shows "se_proto_streams s' = se_proto_streams s \<and> stream_ids s' \<subseteq> stream_ids s"
proof (cases e)
  case (EvSessionClose j)
  have c: "close_all_proto (s\<lparr>se_state := StLocalClose\<rparr>) = Some s' \<Longrightarrow> ?thesis"
    using close_all_proto_tables [of "s\<lparr>se_state := StLocalClose\<rparr>" s'] by (simp add: stream_ids_def)
  have "handle_session_event e pr s = (if se_substreams s = [] then Some (close_session s) else close_all_proto (s\<lparr>se_state := StLocalClose\<rparr>))"
    by (simp add: EvSessionClose handle_session_event_def)
  with assms c show ?thesis by (auto simp: stream_ids_def split: if_splits)
next
  case (EvChangeState j st err)
  have o: "se_proto_streams (event_output x t) = se_proto_streams t" for x t using quiet_fields(3) [OF quiet_event] .
  from EvChangeState assms show ?thesis by (auto simp: handle_session_event_def Let_def o stream_ids_def split: option.splits if_splits)
next
  case (EvProtocolOpen p)
  with assms show ?thesis by (auto simp: handle_session_event_def open_proto_stream_def stream_ids_def split: option.splits if_splits)
next
  case (EvStreamStart so)
  with assms show ?thesis by (auto simp: handle_session_event_def handle_substream_def stream_ids_def)
qed (use assms quiet_fields(3) [OF quiet_send] stream_send_ids in \<open>fastforce simp: handle_session_event_def split: option.splits\<close>)+

lemma recv_service_waiting:
  assumes r: "recv_service s = Some (a, s')" and st: "se_state s' = StNormal" and l: "i \<in> stream_ids s \<Longrightarrow> lively i s"
    and k: "map_of (se_proto_streams s') p = Some i" "list_all (\<lambda>(p', j). j = i \<longrightarrow> p' = p) (se_proto_streams s')" "i \<in> stream_ids s'"
  shows "i \<in> stream_ids s \<and> se_state s = StNormal \<and> waiting p i q s' = waiting p i q s"
proof -
  from r obtain x ch where 1: "recv_poll_next (se_service_receiver s) = Some (x, ch)" by (auto simp: recv_service_def split: option.splits)
  let ?s = "s\<lparr>se_service_receiver := ch\<rparr>"
  have q: "chan_queue q (se_service_receiver s) = of_priority q (case x of Ready (Some x) \<Rightarrow> [x] | _ \<Rightarrow> []) @ chan_queue q ch"
    by (rule recv_poll_next_queue [OF 1])
  show ?thesis
  proof (cases x)
    case Pending
    with r st k 1 q show ?thesis by (auto simp: recv_service_def waiting_def held_def buffer_of_def stream_ids_def)
  next
    case (Ready y)
    show ?thesis
    proof (cases y)
      case None
      with r st 1 Ready show ?thesis by (auto simp: recv_service_def clean_def)
    next
      case (Some e)
      obtain pr ev where e: "e = (pr, ev)" by force
      with Some Ready r st 1 have n: "se_state s = StNormal" and h: "handle_session_event ev pr ?s = Some s'"
        by (cases "se_state s"; auto simp: recv_service_def split: if_splits)+
      note t = session_event_tables [OF h]
      have i: "i \<in> stream_ids s" using t k(3) by (auto simp: stream_ids_def)
      have "lively i ?s" using l [OF i] by (simp add: lively_def)
      from session_event_held [OF h st this, of p q] k t
      have "held i q s' = held i q s @ (if pr = q then proto_msgs p [ev] else [])" "se_service_receiver s' = ch"
        by (simp_all add: held_def buffer_of_def)
      with q i n show ?thesis by (auto simp: waiting_def Some Ready e)
    qed
  qed
qed

lemma recv_substreams_waiting:
  assumes r: "recv_substreams s = Some (a, s')" and st: "se_state s' = StNormal" and l: "lively i s" and n: "se_next_stream s \<noteq> i"
    and i: "i \<in> stream_ids s'"
  shows "se_state s = StNormal \<and> lively i s' \<and> waiting p i q s' = waiting p i q s"
proof -
  obtain x rc where 1: "mpsc_poll_next (se_proto_event_receiver s) = (x, rc)" by force
  let ?s = "s\<lparr>se_proto_event_receiver := rc\<rparr>"
  have l': "lively i ?s" "waiting p i q ?s = waiting p i q s" "se_state ?s = se_state s" "se_next_stream ?s \<noteq> i"
    using l n by (simp_all add: lively_def waiting_def held_def buffer_of_def)
  show ?thesis
  proof (cases x)
    case Pending
    with r 1 st l' show ?thesis by (auto simp: recv_substreams_def)
  next
    case (Ready y)
    show ?thesis
    proof (cases y)
      case None
      with r 1 st Ready show ?thesis by (auto simp: recv_substreams_def)
    next
      case (Some e)
      have h: "handle_stream_event e ?s = Some s'" using r 1 st Ready Some by (auto simp: recv_substreams_def Let_def split: if_splits)
      from stream_event_held [OF l'(1) h i l'(4), of q] stream_event_receiver(1) [OF h] stream_event_receiver(2) [OF h] st l' show ?thesis by (simp add: waiting_def)
    qed
  qed
qed

lemma recv_service_normal:
  assumes "recv_service s = Some (a, s')" and "se_state s' = StNormal"
  shows "se_state s = StNormal \<and> stream_ids s' \<subseteq> stream_ids s"
proof -
  from assms obtain x ch where 1: "recv_poll_next (se_service_receiver s) = Some (x, ch)" by (auto simp: recv_service_def split: option.splits)
  have "is_normal st \<Longrightarrow> st = StNormal" for st by (cases st) simp_all
  moreover have "handle_session_event e pr (s\<lparr>se_service_receiver := ch\<rparr>) = Some s' \<Longrightarrow> stream_ids s' \<subseteq> stream_ids s" for e pr
    using session_event_tables [of e pr "s\<lparr>se_service_receiver := ch\<rparr>" s'] by (simp add: stream_ids_def)
  moreover have "stream_ids (s\<lparr>se_service_receiver := ch\<rparr>) = stream_ids s" by (simp add: stream_ids_def)
  ultimately show ?thesis
    using assms 1 by (auto simp: recv_service_def clean_def Let_def split: poll.splits option.splits prod.splits if_splits)
qed

lemma recv_substreams_normal:
  assumes "recv_substreams s = Some (a, s')" and "se_state s' = StNormal"
  shows "se_state s = StNormal"
  using assms stream_event_receiver(2) [of _ "s\<lparr>se_proto_event_receiver := _\<rparr>" s']
  by (auto simp: recv_substreams_def Let_def split: poll.splits option.splits prod.splits if_splits)

lemma poll_rest_normal:
  assumes "poll_rest b s = Some (a, s')" and "se_state s' = StNormal"
  shows "s' = s"
proof (cases "se_state s")
  case StRemoteClose
  with assms close_all_proto_state [of s s'] wait_handle_reported [of "close_session s" a s'] show ?thesis
    by (auto simp: poll_rest_def Let_def split: if_splits)
next
  case StNormal
  with assms show ?thesis by (simp add: poll_rest_def)
qed (use assms wait_handle_reported [of "close_session (s\<lparr>se_proto_streams := []\<rparr>)" a s'] in \<open>auto simp: poll_rest_def Let_def\<close>)

lemma kept_lively: "kept_open p i s \<Longrightarrow> i \<in> stream_ids s \<and> lively i s"
  by (auto simp: kept_open_def lively_def in_stream_ids)

lemma poll_waiting:
  assumes k: "kept_open p i s" "kept_open p i s'" and s: "se_poll_next b s = Some (a, s')" and ok: "se_ok s"
  shows "waiting p i q s' = waiting p i q s"
proof -
  from k(1) s obtain s1 where 1: "se_flush s = Some s1" by (auto simp: kept_open_def se_poll_next_def bind_eq_Some_conv)
  have "streams_ok s" using ok by (simp add: se_ok_def core_ok_def)
  from se_flush_ok [OF this] 1 have qu: "quiet s s1" by auto
  have w1: "lively i s1 \<and> waiting p i q s1 = waiting p i q s" if "se_state s1 = StNormal"
    using flush_held [OF conjunct2 [OF kept_lively [OF k(1)]] 1 that] quiet_fields(1) [OF qu] by (simp add: waiting_def)
  show ?thesis
  proof (cases "fst (poll_proceed b) = Pending")
    case True
    with s k 1 have "s1 = s'" by (auto simp: se_poll_next_def kept_open_def)
    with w1 k(2) show ?thesis by (simp add: kept_open_def)
  next
    case False
    with s k(1) 1 obtain x y s2 s3 c where 2: "recv_substreams s1 = Some (x, s2)" and 3: "recv_service s2 = Some (y, s3)"
      and 4: "poll_rest c s3 = Some (a, s')" by (auto simp: se_poll_next_def kept_open_def bind_eq_Some_conv)
    have e: "s' = s3" using poll_rest_normal [OF 4] k(2) by (simp add: kept_open_def)
    have k3: "se_state s3 = StNormal" "map_of (se_proto_streams s3) p = Some i" "list_all (\<lambda>(p', j). j = i \<longrightarrow> p' = p) (se_proto_streams s3)"
      "i \<in> stream_ids s3" using k(2) kept_lively [OF k(2)] by (simp_all add: kept_open_def e)
    have n: "se_next_stream s1 \<noteq> i" using quiet_fields(6) [OF qu] k(1) by (simp add: kept_open_def)
    have nn: "se_state s2 = StNormal \<and> i \<in> stream_ids s2" using recv_service_normal [OF 3 k3(1)] k3(4) by blast
    from w1 [OF recv_substreams_normal [OF 2 conjunct1 [OF nn]]] recv_substreams_waiting [OF 2 _ _ n, where p = p and q = q] nn
    have "lively i s2" "waiting p i q s2 = waiting p i q s" by auto
    with recv_service_waiting [OF 3 k3(1) _ k3(2-4), of q] show ?thesis by (simp add: e)
  qed
qed

definition of_stream :: "stream_id \<Rightarrow> (stream_id \<times> 'a) list \<Rightarrow> 'a list" where
  "of_stream i xs = map snd (filter (\<lambda>x. fst x = i) xs)"

lemma of_stream_simps [simp]:
  "of_stream i (xs @ ys) = of_stream i xs @ of_stream i ys" "of_stream i [] = []"
  "of_stream i (map (Pair j) g) = (if i = j then g else [])"
  by (simp_all add: of_stream_def comp_def)

lemma chan_step_msgs:
  assumes "chan_step x ch = Some (s, g, ch')" and "stream_op x"
  shows "msgs (chan_queue q ch) = msgs (of_priority q g) @ msgs (chan_queue q ch')"
proof -
  have "msgs (of_priority q s) = []"
    using assms by (cases "(x, q)" rule: prod.exhaust; cases x rule: stream_op.cases) (auto split: if_splits)
  with chan_step_queue [OF assms(1), of q] show ?thesis by (metis append_Nil2 msgs_append)
qed

lemma step_waiting:
  assumes k: "kept_open p i s" "kept_open p i s'" and ok: "se_ok s" and s: "se_step x (e, s) = Some ((sent, taken), e', s')"
  shows "msgs (of_priority q (of_stream i taken)) @ waiting p i q s' = waiting p i q s @ proto_msgs p (of_priority q sent)"
proof (cases x)
  case (SePoll b)
  with s poll_waiting [OF k _ ok] show ?thesis by (auto split: if_splits)
next
  case (SeService y)
  show ?thesis
  proof (cases "sender_op y")
    case True
    with s obtain g ch where 1: "chan_step y (se_service_receiver s) = Some (sent, g, ch)" "s' = s\<lparr>se_service_receiver := ch\<rparr>" "taken = []"
      by (auto simp: SeService)
    have "g = []" using 1(1) True by (cases y) (auto split: if_splits)
    with chan_step_queue [OF 1(1), of q] have "chan_queue q ch = chan_queue q (se_service_receiver s) @ of_priority q sent" by simp
    then show ?thesis by (simp add: 1(2,3) waiting_def held_def buffer_of_def)
  qed (use s in \<open>simp add: SeService\<close>)
next
  case (SeStream j y)
  show ?thesis
  proof (cases "stream_op y")
    case True
    with s obtain a g ch where 1: "chan_step y (se_channels s j) = Some (a, g, ch)" "s' = s\<lparr>se_channels := (se_channels s)(j := ch)\<rparr>"
      "sent = []" "taken = map (Pair j) g" by (auto simp: SeStream)
    from chan_step_msgs [OF 1(1) True, of q] show ?thesis by (simp add: 1(2-4) waiting_def held_def buffer_of_def)
  qed (use s in \<open>simp add: SeStream\<close>)
next
  case (SePending n)
  with s show ?thesis by (auto simp: waiting_def held_def buffer_of_def)
next
  case (SeOrder "is")
  have "distinct (map fst (se_substreams s))" using ok by (simp add: se_ok_def core_ok_def streams_ok_def)
  from reorder_lookup(1) [OF this] s show ?thesis by (auto simp: SeOrder waiting_def held_def buffer_of_def)
qed

lemma run_waiting:
  "se_ok s \<Longrightarrow> few_senders s (length xs) \<Longrightarrow> se_run xs (e, s) = Some ((sent, taken), e', s') \<Longrightarrow>
    (\<And>n l e1 s1. n \<le> length xs \<Longrightarrow> se_run (take n xs) (e, s) = Some (l, e1, s1) \<Longrightarrow> kept_open p i s1) \<Longrightarrow>
    msgs (of_priority q (of_stream i taken)) @ waiting p i q s' = waiting p i q s @ proto_msgs p (of_priority q sent)"
proof (induction xs arbitrary: e s sent taken)
  case (Cons x xs)
  from Cons.prems(1,2) obtain a b e1 s1 where 1: "se_step x (e, s) = Some ((a, b), e1, s1)" "se_ok s1" "few_senders s1 (length xs)"
    using se_step_ok [of s "length xs" x e] by auto
  from Cons.prems(3) 1(1) obtain a' b' where 2: "se_run xs (e1, s1) = Some ((a', b'), e', s')" "sent = a @ a'" "taken = b @ b'"
    by (auto split: prod.splits)
  have k0: "kept_open p i s" using Cons.prems(4) [of 0] by simp
  have k: "kept_open p i t" if "n \<le> length xs" "se_run (take n xs) (e1, s1) = Some (l, e2, t)" for n l e2 t
    using Cons.prems(4) [of "Suc n"] that 1(1) by (cases l) auto
  have k1: "kept_open p i s1" using k [of 0] by simp
  from Cons.IH [OF 1(2,3) 2(1) k] step_waiting [OF k0 k1 Cons.prems(1) 1(1), of q]
  show ?case by (simp add: 2(2,3))
qed simp

text \<open>The stream of a protocol: the session is in its normal state, the stream has no other protocol, and it can still receive.\<close>

definition connected :: "protocol_id \<Rightarrow> stream_id \<Rightarrow> peer_session \<Rightarrow> bool" where
  "connected p i s \<longleftrightarrow> se_state s = StNormal \<and> map_of (se_proto_streams s) p = Some i \<and>
     list_all (\<lambda>(p', j). j = i \<longrightarrow> p' = p) (se_proto_streams s) \<and> se_next_stream s \<noteq> i \<and>
     (case map_of (se_substreams s) i of
        None \<Rightarrow> False
      | Some b \<Rightarrow> opened (se_channels s i) \<and> snd_alive (ch_senders (se_channels s i) ! pb_sender b))"

lemma connected_kept: "se_ok s \<Longrightarrow> connected p i s \<Longrightarrow> kept_open p i s"
  by (auto simp: connected_def kept_open_def lively_def live_sender_def se_ok_def core_ok_def streams_ok_def room_def split: option.splits)

text \<open>C9. A session passes on every message. As long as it is in its normal state and the stream of a protocol can receive, the
  messages for this protocol of each priority that the service sent, after those that were already on their way, are exactly those that
  the stream has taken from its channel, followed by those that are still on their way: in the channel of the stream, in its
  buffer, or in the channel of the session. None is lost, repeated, given to another stream or overtaken by one of its priority,
  whatever happens to the other streams.\<close>

theorem session_passes_messages:
  assumes "se_ok s" and "few_senders s (length ops)" and "se_run ops (e, s) = Some ((sent, taken), e', s')"
    and "\<forall>n \<le> length ops. \<forall>l e1 s1. se_run (take n ops) (e, s) = Some (l, e1, s1) \<longrightarrow> connected p i s1"
  shows "msgs (of_priority q (of_stream i taken)) @ waiting p i q s' = waiting p i q s @ proto_msgs p (of_priority q sent)"
proof (rule run_waiting [OF assms(1-3)])
  fix n l e1 s1
  assume n: "n \<le> length ops" and r: "se_run (take n ops) (e, s) = Some (l, e1, s1)"
  have "few_senders s (length (take n ops))" using assms(2) n by (simp add: few_senders_def)
  from se_run_ok [OF assms(1) this, of e] r have "se_ok s1" by simp
  with connected_kept assms(4) n r show "kept_open p i s1" by blast
qed

text \<open>The session of the sample with its stream.\<close>

definition sample_connected :: "(se_log \<times> bool \<times> peer_session) option" where
  "sample_connected = Option.bind (channel_new 4) (\<lambda>ch. se_run [SePoll 9] (False, sample_peer_session sample_events ch))"

definition sample_messages :: "se_op list" where
  "sample_messages = [SeService (OpTrySend 0 (EvProtocolMessage 1 [7]) Normal), SeService (OpTrySend 0 (EvProtocolMessage 1 [8]) Normal),
     SePoll 9, SeStream 0 OpNext, SePoll 9]"

lemma sample_connected_ok:
  assumes "sample_connected = Some (l, e, s)"
  shows "se_ok s" and "few_senders s 5"
proof -
  from assms obtain ch where 1: "channel_new 4 = Some ch" "se_run [SePoll 9] (False, sample_peer_session sample_events ch) = Some (l, e, s)"
    by (auto simp: sample_connected_def bind_eq_Some_conv)
  have ok: "se_ok (sample_peer_session sample_events ch)"
    unfolding sample_peer_session_def by (rule new_session_ok(1) [OF sample_session_given 1(1)])
  have n: "length (ch_senders (se_service_receiver (sample_peer_session sample_events ch))) = 1"
    using 1(1) by (auto simp: sample_peer_session_def se_new_def channel_new_def split: if_splits)
  from poll_senders [OF ok, of 9] 1(2) n show "se_ok s" "few_senders s 5" by (auto simp: few_senders_def)
qed

theorem session_passes_messages_witness:
  "\<exists>l e s sent taken e' s'. sample_connected = Some (l, e, s) \<and> se_run sample_messages (e, s) = Some ((sent, taken), e', s') \<and>
    of_stream 0 taken = [(Normal, PeMessage [7])] \<and> waiting 1 0 Normal s' = [[8]] \<and>
    proto_msgs 1 (of_priority Normal sent) = [[7], [8]] \<and>
    msgs (of_priority Normal (of_stream 0 taken)) @ waiting 1 0 Normal s' = waiting 1 0 Normal s @ proto_msgs 1 (of_priority Normal sent)"
proof -
  have r: "map_option (\<lambda>(l, e, s). list_all (\<lambda>n. case se_run (take n sample_messages) (e, s) of None \<Rightarrow> False | Some (_, _, t) \<Rightarrow> connected 1 0 t)
      [0, 1, 2, 3, 4, 5]) sample_connected = Some True" by code_simp
  have "map_option (\<lambda>(l, e, s). map_option (\<lambda>((sent, taken), _, t). (of_stream 0 taken, waiting 1 0 Normal t, proto_msgs 1 (of_priority Normal sent)))
      (se_run sample_messages (e, s))) sample_connected = Some (Some ([(Normal, PeMessage [7])], [[8]], [[7], [8]]))" by code_simp
  then obtain l e s sent taken e' s' where 1: "sample_connected = Some (l, e, s)" "se_run sample_messages (e, s) = Some ((sent, taken), e', s')"
    "of_stream 0 taken = [(Normal, PeMessage [7])]" "waiting 1 0 Normal s' = [[8]]" "proto_msgs 1 (of_priority Normal sent) = [[7], [8]]"
    by auto
  have a: "list_all (\<lambda>n. case se_run (take n sample_messages) (e, s) of None \<Rightarrow> False | Some (_, _, t) \<Rightarrow> connected 1 0 t) [0, 1, 2, 3, 4, 5]"
    using r unfolding 1(1) by (simp only: option.map option.inject prod.case)
  have n: "length sample_messages = 5" by (simp add: sample_messages_def)
  have "n \<le> 5 \<Longrightarrow> n \<in> set [0, 1, 2, 3, 4, 5]" for n :: nat by auto
  with a have "\<forall>n \<le> length sample_messages. \<forall>l e1 s1. se_run (take n sample_messages) (e, s) = Some (l, e1, s1) \<longrightarrow> connected 1 0 s1"
    unfolding n list_all_iff by fastforce
  from session_passes_messages [OF sample_connected_ok(1) [OF 1(1)] _ 1(2) this, of Normal] sample_connected_ok(2) [OF 1(1)] 1 n
  show ?thesis by fastforce
qed

end
