(* ===== verification/Protocol_Handles.thy ===== *)
theory Protocol_Handles
  imports Peer_Session
begin

text \<open>
  The tasks that call the handles of the user (\<^verbatim>\<open>tentacle/src/protocol_handle_stream.rs\<close>): one for a protocol of the service, one for a
  protocol of a session. A call of the user's code is recorded; it may panic, which drops the task. The context of a session is
  its number, and its closed flag, like the flag of the shutdown, is read from the environment of an event: once at the start, and
  again before data is handed over. A timer is recorded with its token and interval.

  \<^verbatim>\<open>run\<close>, which waits for the next event, timer or poll of the user, is a sequence of events.
\<close>

section \<open>The handle of a service protocol\<close>

datatype current_task = Idle | Run "session_id option"

datatype service_call =
  CallInit
  | CallConnected session_id bytes
  | CallDisconnected session_id
  | CallReceived session_id bytes
  | CallNotify u64

record service_stream =
  st_proto_id :: protocol_id
  st_sessions :: "session_id list"
  st_notify :: "(u64 \<times> nat) list"
  st_current_task :: current_task
  st_listens :: "bytes list"
  st_calls :: "service_call list"
  st_timers :: "(u64 \<times> nat) list"

record handle_env =
  he_shutdown :: bool
  he_closed :: "session_id \<Rightarrow> bool"
  he_shutdown_now :: bool
  he_closed_now :: "session_id \<Rightarrow> bool"
  he_panics :: "service_call \<Rightarrow> bool"

definition service_stream_new :: "protocol_id \<Rightarrow> service_stream" where
  "service_stream_new proto_id =
     \<lparr>st_proto_id = proto_id, st_sessions = [], st_notify = [], st_current_task = Idle, st_listens = [], st_calls = [], st_timers = []\<rparr>"

text \<open>\<open>Inl\<close> is the state in which the task is dropped by a panic.\<close>

definition user_call :: "handle_env \<Rightarrow> service_call \<Rightarrow> service_stream \<Rightarrow> service_stream + service_stream" where
  "user_call env c st = (let st = st\<lparr>st_calls := st_calls st @ [c]\<rparr> in if he_panics env c then Inl st else Inr st)"

definition and_then :: "'a + 'b \<Rightarrow> ('b \<Rightarrow> 'a + 'c) \<Rightarrow> 'a + 'c" where
  "and_then r k = (case r of Inl e \<Rightarrow> Inl e | Inr x \<Rightarrow> k x)"

fun close_sessions :: "handle_env \<Rightarrow> session_id list \<Rightarrow> service_stream \<Rightarrow> service_stream + service_stream" where
  "close_sessions env [] st = Inr st"
| "close_sessions env (i # is) st =
     (if i \<in> set (st_sessions st) then
        and_then (user_call env (CallDisconnected i) (st\<lparr>st_sessions := removeAll i (st_sessions st)\<rparr>)) (close_sessions env is)
      else close_sessions env is st)"

definition set_notify :: "u64 \<Rightarrow> service_stream \<Rightarrow> service_stream" where
  "set_notify token st =
     (case map_of (st_notify st) token of None \<Rightarrow> st | Some interval \<Rightarrow> st\<lparr>st_timers := st_timers st @ [(token, interval)]\<rparr>)"

fun is_disconnected :: "service_proto_event \<Rightarrow> bool" where
  "is_disconnected (SvcDisconnected _) = True"
| "is_disconnected _ = False"

definition run_task :: "session_id option \<Rightarrow> service_stream \<Rightarrow> service_stream" where
  "run_task i st = st\<lparr>st_current_task := Run i\<rparr>"

definition service_event :: "handle_env \<Rightarrow> service_proto_event \<Rightarrow> service_stream \<Rightarrow> service_stream + service_stream" where
  "service_event env event st =
     (case event of
        SvcInit \<Rightarrow> user_call env CallInit (run_task None st)
      | SvcConnected i version \<Rightarrow>
          and_then (user_call env (CallConnected i version) (run_task (Some i) st)) (\<lambda>st. Inr (st\<lparr>st_sessions := List.insert i (st_sessions st)\<rparr>))
      | SvcDisconnected i \<Rightarrow>
          let st = run_task (Some i) st in
          if i \<in> set (st_sessions st) then user_call env (CallDisconnected i) (st\<lparr>st_sessions := removeAll i (st_sessions st)\<rparr>) else Inr st
      | SvcReceived i data \<Rightarrow>
          let st = run_task (Some i) st in
          if i \<in> set (st_sessions st) \<and> \<not> he_closed_now env i \<and> \<not> he_shutdown_now env then user_call env (CallReceived i data) st else Inr st
      | SvcNotify token \<Rightarrow> and_then (user_call env (CallNotify token) (run_task None st)) (\<lambda>st. Inr (set_notify token st))
      | SvcSetNotify interval token \<Rightarrow>
          let st = run_task None st;
              st = (if map_of (st_notify st) token = None then st\<lparr>st_notify := AList.update token interval (st_notify st)\<rparr> else st) in
          Inr (set_notify token st)
      | SvcRemoveNotify token \<Rightarrow> let st = run_task None st in Inr (st\<lparr>st_notify := AList.delete token (st_notify st)\<rparr>)
      | SvcUpdate listen_addrs \<Rightarrow> Inr ((run_task None st)\<lparr>st_listens := listen_addrs\<rparr>))"

definition service_handle_event :: "handle_env \<Rightarrow> service_proto_event \<Rightarrow> service_stream \<Rightarrow> service_stream + service_stream" where
  "service_handle_event env event st =
     (if he_shutdown env \<and> \<not> is_disconnected event then Inr st
      else and_then (close_sessions env (filter (he_closed env) (st_sessions st)) st) (\<lambda>st.
        and_then (service_event env event st) (\<lambda>st. Inr (st\<lparr>st_current_task := Idle\<rparr>))))"

text \<open>\<^verbatim>\<open>Drop\<close>: what the service is told.\<close>

definition drop_service_stream :: "bool \<Rightarrow> service_stream \<Rightarrow> session_event option" where
  "drop_service_stream shutdown st =
     (if shutdown then None
      else (case st_current_task st of Run i \<Rightarrow> Some (EvProtocolHandleError (st_proto_id st) i) | Idle \<Rightarrow> None))"

fun service_events :: "(handle_env \<times> service_proto_event) list \<Rightarrow> service_stream \<Rightarrow> service_stream + service_stream" where
  "service_events [] st = Inr st"
| "service_events ((env, e) # es) st = and_then (service_handle_event env e st) (service_events es)"

section \<open>The handle of a session protocol\<close>

datatype session_call = SCallConnected bytes | SCallDisconnected | SCallReceived bytes | SCallNotify u64

record session_stream =
  ps_proto_id :: protocol_id
  ps_context :: session_id
  ps_receiver_closed :: bool
  ps_notify :: "(u64 \<times> nat) list"
  ps_current_task :: bool
  ps_listens :: "bytes list"
  ps_calls :: "session_call list"
  ps_timers :: "(u64 \<times> nat) list"

definition ps_user_call :: "(session_call \<Rightarrow> bool) \<Rightarrow> session_call \<Rightarrow> session_stream \<Rightarrow> session_stream + session_stream" where
  "ps_user_call panics c st = (let st = st\<lparr>ps_calls := ps_calls st @ [c]\<rparr> in if panics c then Inl st else Inr st)"

definition ps_set_notify :: "u64 \<Rightarrow> session_stream \<Rightarrow> session_stream" where
  "ps_set_notify token st =
     (case map_of (ps_notify st) token of None \<Rightarrow> st | Some interval \<Rightarrow> st\<lparr>ps_timers := ps_timers st @ [(token, interval)]\<rparr>)"

definition ps_close :: "session_stream \<Rightarrow> session_stream" where
  "ps_close st = st\<lparr>ps_receiver_closed := True, ps_current_task := False\<rparr>"

definition session_handle_event ::
  "bool \<Rightarrow> bool \<Rightarrow> (session_call \<Rightarrow> bool) \<Rightarrow> session_proto_event \<Rightarrow> session_stream \<Rightarrow> session_stream + session_stream" where
  "session_handle_event shutdown closed panics event st =
     (let st = st\<lparr>ps_current_task := True\<rparr> in
      if shutdown \<and> event \<notin> {SesDisconnected, SesClosed} then Inr (st\<lparr>ps_current_task := False\<rparr>)
      else and_then
       (case (if closed then SesDisconnected else event) of
          SesOpened version \<Rightarrow> ps_user_call panics (SCallConnected version) st
        | SesClosed \<Rightarrow> ps_user_call panics SCallDisconnected st
        | SesDisconnected \<Rightarrow> Inr (ps_close st)
        | SesReceived data \<Rightarrow> ps_user_call panics (SCallReceived data) st
        | SesNotify token \<Rightarrow> and_then (ps_user_call panics (SCallNotify token) st) (\<lambda>st. Inr (ps_set_notify token st))
        | SesSetNotify interval token \<Rightarrow>
            let st = (if map_of (ps_notify st) token = None then st\<lparr>ps_notify := AList.update token interval (ps_notify st)\<rparr> else st) in
            Inr (ps_set_notify token st)
        | SesRemoveNotify token \<Rightarrow> Inr (st\<lparr>ps_notify := AList.delete token (ps_notify st)\<rparr>)
        | SesUpdate listen_addrs \<Rightarrow> Inr (st\<lparr>ps_listens := listen_addrs\<rparr>))
       (\<lambda>st. Inr (st\<lparr>ps_current_task := False\<rparr>)))"

definition drop_session_stream :: "bool \<Rightarrow> session_stream \<Rightarrow> session_event option" where
  "drop_session_stream shutdown st =
     (if \<not> shutdown \<and> ps_current_task st then Some (EvProtocolHandleError (ps_proto_id st) (Some (ps_context st))) else None)"

section \<open>The calls of a handle\<close>

text \<open>The sessions a handle knows after its calls; \<open>None\<close> if it was called for one it does not know.\<close>

fun known :: "service_call list \<Rightarrow> session_id set \<Rightarrow> session_id set option" where
  "known [] S = Some S"
| "known (CallConnected i _ # cs) S = known cs (insert i S)"
| "known (CallDisconnected i # cs) S = (if i \<in> S then known cs (S - {i}) else None)"
| "known (CallReceived i _ # cs) S = (if i \<in> S then known cs S else None)"
| "known (_ # cs) S = known cs S"

lemma known_append: "known (cs @ ds) S = Option.bind (known cs S) (known ds)"
  by (induction cs S rule: known.induct) simp_all

text \<open>What a handle was told is what the task has in its table; after a panic it was at least told nothing about an unknown session.\<close>

definition informed :: "service_stream + service_stream \<Rightarrow> bool" where
  "informed r = (case r of Inr st \<Rightarrow> known (st_calls st) {} = Some (set (st_sessions st)) | Inl st \<Rightarrow> known (st_calls st) {} \<noteq> None)"

lemma and_then_told: "informed r \<Longrightarrow> (\<And>st. r = Inr st \<Longrightarrow> informed (Inr st) \<Longrightarrow> informed (k st)) \<Longrightarrow> informed (and_then r k)"
  by (cases r) (simp_all add: and_then_def informed_def)

lemma close_sessions_told: "informed (Inr st) \<Longrightarrow> informed (close_sessions env is st)"
proof (induction "is" arbitrary: st)
  case (Cons i "is")
  show ?case
  proof (cases "i \<in> set (st_sessions st)")
    case True
    have "informed (user_call env (CallDisconnected i) (st\<lparr>st_sessions := removeAll i (st_sessions st)\<rparr>))"
      using Cons.prems True by (auto simp: informed_def user_call_def known_append Let_def)
    then have "informed (and_then (user_call env (CallDisconnected i) (st\<lparr>st_sessions := removeAll i (st_sessions st)\<rparr>)) (close_sessions env is))"
      by (rule and_then_told) (rule Cons.IH)
    with True show ?thesis by simp
  qed (use Cons in simp)
qed simp

lemma set_notify_told [simp]: "informed (Inr (set_notify t st)) = informed (Inr st)"
  by (simp add: set_notify_def informed_def split: option.split)

lemma service_event_told: "informed (Inr st) \<Longrightarrow> informed (service_event env e st)"
  by (cases e) (auto simp: service_event_def informed_def user_call_def and_then_def known_append run_task_def set_notify_def Let_def split: option.splits)

lemma idle_told [simp]: "informed (Inr (st\<lparr>st_current_task := t\<rparr>)) = informed (Inr st)"
  by (simp add: informed_def)

lemma handle_event_told: "informed (Inr st) \<Longrightarrow> informed (service_handle_event env e st)"
  unfolding service_handle_event_def
  by (auto intro!: and_then_told close_sessions_told service_event_told)

lemma service_events_told: "informed (Inr st) \<Longrightarrow> informed (service_events es st)"
proof (induction es arbitrary: st)
  case (Cons x es)
  obtain env e where "x = (env, e)" by force
  with and_then_told [OF handle_event_told [OF Cons.prems] Cons.IH, of env e] show ?case by simp
qed simp

text \<open>The handle of a session protocol is not called for a session that is closed, not even to tell its end.\<close>

lemma closed_session_handle_not_told:
  "session_handle_event shutdown True panics e st = Inr st' \<Longrightarrow> ps_calls st' = ps_calls st"
  "session_handle_event shutdown True panics e st \<noteq> Inl st''"
  by (auto simp: session_handle_event_def ps_close_def and_then_def Let_def split: if_splits)

section \<open>Properties\<close>

text \<open>C13. A handle of the service is called in order. Whatever events arrive, whichever sessions are closed at any time and whether the service
  shuts down, the handle is given data of a session, and told its end, only after it was told that the session is connected and not after
  its end; so the end of a session is told once, even if it arrives twice. While the task runs, the sessions in its table are
  exactly those the handle knows.\<close>

theorem handle_calls_in_order:
  "case service_events es (service_stream_new p) of
     Inr st \<Rightarrow> known (st_calls st) {} = Some (set (st_sessions st))
   | Inl st \<Rightarrow> known (st_calls st) {} \<noteq> None"
  using service_events_told [of "service_stream_new p" es] by (simp add: informed_def service_stream_new_def)

lemma close_sessions_tables:
  "close_sessions env is st = Inr st' \<Longrightarrow> set (st_sessions st') = set (st_sessions st) - set is \<and>
    (\<forall>i \<in> set is \<inter> set (st_sessions st). CallDisconnected i \<in> set (st_calls st')) \<and> set (st_calls st) \<subseteq> set (st_calls st')"
proof (induction "is" arbitrary: st)
  case (Cons i "is")
  show ?case
  proof (cases "i \<in> set (st_sessions st)")
    case True
    with Cons.prems obtain st1 where 1: "user_call env (CallDisconnected i) (st\<lparr>st_sessions := removeAll i (st_sessions st)\<rparr>) = Inr st1"
      "close_sessions env is st1 = Inr st'" by (auto simp: and_then_def split: sum.splits)
    then have "st_sessions st1 = removeAll i (st_sessions st)" "st_calls st1 = st_calls st @ [CallDisconnected i]"
      by (auto simp: user_call_def Let_def split: if_splits)
    with Cons.IH [OF 1(2)] show ?thesis by auto
  next
    case False
    with Cons show ?thesis by auto
  qed
qed simp

lemma service_event_tables:
  "service_event env e st = Inr st' \<Longrightarrow> set (st_sessions st') \<subseteq> set (st_sessions st) \<union> (case e of SvcConnected i _ \<Rightarrow> {i} | _ \<Rightarrow> {}) \<and>
    set (st_calls st) \<subseteq> set (st_calls st')"
  by (cases e) (auto simp: service_event_def user_call_def and_then_def run_task_def set_notify_def Let_def split: if_splits option.splits)

text \<open>C14. The end of a closed session reaches the handle with its next event. A stream of a session that is closed does not tell its end; but
  when the task has handled any event, unless the service shuts down, the handle has been told the end of every session that was closed
  when the event arrived, and such a session is no longer in the table, if the event did not connect it.\<close>

theorem closed_sessions_told:
  assumes "service_handle_event env e st = Inr st'" and "\<not> he_shutdown env" and "i \<in> set (st_sessions st)" and "he_closed env i"
  shows "CallDisconnected i \<in> set (st_calls st') \<and> (i \<in> set (st_sessions st') \<longrightarrow> (\<exists>v. e = SvcConnected i v))"
proof -
  from assms(1,2) obtain st1 st2 where 1: "close_sessions env (filter (he_closed env) (st_sessions st)) st = Inr st1"
    and 2: "service_event env e st1 = Inr st2" and 3: "st' = st2\<lparr>st_current_task := Idle\<rparr>"
    by (auto simp: service_handle_event_def and_then_def split: sum.splits)
  from close_sessions_tables [OF 1] assms(3,4) have "CallDisconnected i \<in> set (st_calls st1)" "i \<notin> set (st_sessions st1)" by auto
  with service_event_tables [OF 2] show ?thesis by (auto simp: 3 split: service_proto_event.splits)
qed

definition sample_env :: handle_env where
  "sample_env = \<lparr>he_shutdown = False, he_closed = (\<lambda>i. i = 3), he_shutdown_now = False, he_closed_now = (\<lambda>i. i = 3), he_panics = (\<lambda>_. False)\<rparr>"

definition sample_handle :: service_stream where
  "sample_handle = (service_stream_new 1)\<lparr>st_sessions := [3, 4], st_calls := [CallConnected 3 [], CallConnected 4 []]\<rparr>"

theorem closed_sessions_told_witness:
  "\<exists>st'. service_handle_event sample_env (SvcReceived 4 [7]) sample_handle = Inr st' \<and> CallDisconnected 3 \<in> set (st_calls st') \<and> st_sessions st' = [4]"
proof -
  have "case service_handle_event sample_env (SvcReceived 4 [7]) sample_handle of Inr st' \<Rightarrow> st_sessions st' = [4] | Inl _ \<Rightarrow> False" by code_simp
  then obtain st' where 1: "service_handle_event sample_env (SvcReceived 4 [7]) sample_handle = Inr st'" "st_sessions st' = [4]"
    by (auto split: sum.splits)
  have "\<not> he_shutdown sample_env" "3 \<in> set (st_sessions sample_handle)" "he_closed sample_env 3" by code_simp+
  from closed_sessions_told [OF 1(1) this] 1 show ?thesis by blast
qed

definition final_stream :: "service_stream + service_stream \<Rightarrow> service_stream" where
  "final_stream r = (case r of Inl st \<Rightarrow> st | Inr st \<Rightarrow> st)"

lemma close_sessions_idle:
  "st_current_task (final_stream (close_sessions env is st)) = st_current_task st \<and> st_proto_id (final_stream (close_sessions env is st)) = st_proto_id st"
proof (induction "is" arbitrary: st)
  case (Cons i "is")
  show ?case
  proof (cases "i \<in> set (st_sessions st) \<and> he_panics env (CallDisconnected i)")
    case True
    then show ?thesis by (simp add: user_call_def and_then_def final_stream_def Let_def)
  next
    case False
    then show ?thesis using Cons.IH by (simp add: user_call_def and_then_def Let_def)
  qed
qed (simp add: final_stream_def)

lemma service_event_running:
  "service_event env e st = Inl x \<Longrightarrow> st_current_task x =
    Run (case e of SvcConnected i _ \<Rightarrow> Some i | SvcDisconnected i \<Rightarrow> Some i | SvcReceived i _ \<Rightarrow> Some i | _ \<Rightarrow> None) \<and> st_proto_id x = st_proto_id st"
  by (cases e) (auto simp: service_event_def user_call_def and_then_def run_task_def Let_def split: if_splits)

text \<open>C39. A panic of the user's handle is reported, but for the calls that tell the end of closed sessions. When a task is dropped by a
  panic of a call for the event itself, the service is told which protocol, and for which session; but when it is dropped by a panic of
  a call for a session found closed before the event, the task counts as idle, and nobody is told that the handle is gone.\<close>

theorem handle_panic_report:
  assumes "st_current_task st = Idle" and "service_handle_event env e st = Inl st'"
  shows "drop_service_stream False st' =
    (case close_sessions env (filter (he_closed env) (st_sessions st)) st of
       Inl _ \<Rightarrow> None
     | Inr _ \<Rightarrow> Some (EvProtocolHandleError (st_proto_id st)
         (case e of SvcConnected i _ \<Rightarrow> Some i | SvcDisconnected i \<Rightarrow> Some i | SvcReceived i _ \<Rightarrow> Some i | _ \<Rightarrow> None)))"
proof -
  let ?c = "close_sessions env (filter (he_closed env) (st_sessions st)) st"
  from assms(2) have h: "and_then ?c (\<lambda>st. and_then (service_event env e st) (\<lambda>st. Inr (st\<lparr>st_current_task := Idle\<rparr>))) = Inl st'"
    by (simp add: service_handle_event_def split: if_splits)
  show ?thesis
  proof (cases ?c)
    case (Inl x)
    with h close_sessions_idle [of env "filter (he_closed env) (st_sessions st)" st] assms(1) show ?thesis
      by (simp add: and_then_def drop_service_stream_def final_stream_def)
  next
    case (Inr x)
    with h have "service_event env e x = Inl st'" by (simp add: and_then_def split: sum.splits)
    from service_event_running [OF this] Inr close_sessions_idle [of env "filter (he_closed env) (st_sessions st)" st] show ?thesis
      by (simp add: drop_service_stream_def final_stream_def)
  qed
qed

theorem handle_panic_report_witness:
  "\<exists>st' st''. service_handle_event (sample_env\<lparr>he_panics := (\<lambda>c. c = CallDisconnected 3)\<rparr>) (SvcReceived 4 [7]) sample_handle = Inl st' \<and>
     drop_service_stream False st' = None \<and>
     service_handle_event (sample_env\<lparr>he_panics := (\<lambda>c. c = CallReceived 4 [7])\<rparr>) (SvcReceived 4 [7]) sample_handle = Inl st'' \<and>
     drop_service_stream False st'' = Some (EvProtocolHandleError 1 (Some 4))"
proof -
  let ?a = "sample_env\<lparr>he_panics := (\<lambda>c. c = CallDisconnected 3)\<rparr>" and ?b = "sample_env\<lparr>he_panics := (\<lambda>c. c = CallReceived 4 [7])\<rparr>"
  have "case service_handle_event ?a (SvcReceived 4 [7]) sample_handle of Inr _ \<Rightarrow> False | Inl _ \<Rightarrow> True" by code_simp
  then obtain st' where 1: "service_handle_event ?a (SvcReceived 4 [7]) sample_handle = Inl st'" by (auto split: sum.splits)
  have "case service_handle_event ?b (SvcReceived 4 [7]) sample_handle of Inr _ \<Rightarrow> False | Inl _ \<Rightarrow> True" by code_simp
  then obtain st'' where 2: "service_handle_event ?b (SvcReceived 4 [7]) sample_handle = Inl st''" by (auto split: sum.splits)
  have "case close_sessions ?a (filter (he_closed ?a) (st_sessions sample_handle)) sample_handle of Inl _ \<Rightarrow> True | Inr _ \<Rightarrow> False"
    "case close_sessions ?b (filter (he_closed ?b) (st_sessions sample_handle)) sample_handle of Inl _ \<Rightarrow> False | Inr _ \<Rightarrow> True"
    "st_proto_id sample_handle = 1" by code_simp+
  moreover have i: "st_current_task sample_handle = Idle" by (simp add: sample_handle_def service_stream_new_def)
  ultimately show ?thesis using handle_panic_report [OF i 1] handle_panic_report [OF i 2] 1 2 by (auto split: sum.splits)
qed

end
