(* ===== verification/Spec2Isabelle.thy ===== *)
theory Spec2Isabelle
  imports Yamux_Link Yamux_Session_Safety Secio_Handshake_Safety Substream_Handles Quic_Identity Tcp_Listen
    Peer_Session_Delivery Protocol_Handles
begin

text \<open>
  A verification development for \<^bold>\<open>tentacle\<close>, a framework for multiplexed peer-to-peer networks in Rust.

  \<^bold>\<open>The program.\<close> A service dials and accepts connections. A listener (\<^verbatim>\<open>transports/tcp_base_listen.rs\<close>) decides by the first
  bytes of a connection whether it is TCP, TLS or a websocket, and reads the header of a trusted proxy. The secio handshake
  (\<^verbatim>\<open>secio\<close>) authenticates the peer and encrypts the connection; QUIC connections authenticate by a certificate
  (\<^verbatim>\<open>quic\<close>). The yamux multiplexer (\<^verbatim>\<open>yamux\<close>) carries many flow-controlled streams over it. A session (\<^verbatim>\<open>session.rs\<close>) opens one
  stream for each protocol, after the two sides have agreed on a version (\<^verbatim>\<open>protocol_select\<close>), and gives it to a task
  (\<^verbatim>\<open>substream.rs\<close>) that moves messages between the socket, the session and the handles of the user
  (\<^verbatim>\<open>protocol_handle_stream.rs\<close>). Service, session and substream are joined by bounded priority channels (\<^verbatim>\<open>channel\<close>) with buffers
  in front of them (\<^verbatim>\<open>buffer.rs\<close>). Addresses are multiaddresses (\<^verbatim>\<open>multiaddr\<close>); messages are written with generated molecule
  code (\<^verbatim>\<open>*_mol.rs\<close>).

  \<^bold>\<open>How it is modelled.\<close> A struct is a record and an enum a datatype with the constructors of the source; integers are words of their
  width; a method is a function from the state to its result and the state it leaves. An error of the code is \<open>Inl\<close>. A panic is
  \<open>None\<close> outside of the result, or \<open>Panics\<close> in the type \<open>run\<close> of asynchronous code, where \<open>Waits\<close> is a task whose input does not
  continue. What other crates do is a parameter: a function or record of functions with the laws that the crate documents
  (\<open>mol_ok\<close>, \<open>varint_ok\<close>, \<open>aead_ok\<close>, \<open>length_codec_ok\<close> and others), or a script of the answers of sockets, timers and channels of the
  \<^verbatim>\<open>futures\<close> crate. Every law is shown to be satisfiable by an instance in the witnesses. Spawned tasks are recorded in lists; where
  the order of tasks matters, a theorem speaks of all their interleavings.

  \<^bold>\<open>The theories.\<close>

  \<^item> \<open>Prelude\<close>, \<open>Framed_Socket\<close>, \<open>Incremental_Decoder\<close>: integers, byte order and text; the framed socket as a script; the locale
    \<open>incremental_decoder\<close>, the contract of a decoder that is fed in pieces.

  \<^item> \<open>Yamux_Frame\<close> (\<^verbatim>\<open>yamux/src/frame.rs\<close>): header, flags, codec. The codec reads back what was encoded however the bytes are cut.

  \<^item> \<open>Yamux_Stream\<close> (\<^verbatim>\<open>yamux/src/stream.rs\<close>, all methods of \<^verbatim>\<open>StreamHandle\<close>); \<open>Yamux_Stream_Protocol\<close>, an abstract machine that every
    operation refines; \<open>Yamux_Stream_Safety\<close>, what a handle guarantees against any peer (locale \<open>handle_invariant\<close>), such as the bound on
    the memory for received data; \<open>Yamux_Link\<close>, two handles joined by lossless sessions: reliable delivery in both directions, no false
    accusation, the meaning of an end of file, and progress of a writer. The sessions of \<open>link_step\<close> never end; what a stream reads
    when its session has vanished is stated separately, with the meaning of an end of file.

  \<^item> \<open>Yamux_Session\<close>, \<open>Yamux_Session_Invariant\<close>, \<open>Yamux_Session_Safety\<close> (\<^verbatim>\<open>yamux/src/session.rs\<close>, \<^verbatim>\<open>config.rs\<close>, \<^verbatim>\<open>control.rs\<close>):
    the session with its scripts, invariants over all reachable sessions (locale \<open>session_invariant\<close>), consistent tables, and a dead
    session that stays dead.

  \<^item> \<open>Multiaddr\<close>, \<open>Multiaddr_Text\<close> (\<^verbatim>\<open>multiaddr/src\<close>): binary and textual form; what is parsed is valid, printing and parsing are
    inverse on printable addresses. \<open>Peer_Address\<close> (\<^verbatim>\<open>secio/src/peer_id.rs\<close>, \<^verbatim>\<open>tentacle/src/utils.rs\<close>, \<^verbatim>\<open>utils/dns.rs\<close>): peer
    identifiers, scans of addresses, name resolution.

  \<^item> \<open>Molecule\<close>, \<open>Wire_Codec\<close>: verification, accessors and builders of generated messages, and one lemma for each kind of type. The
    locale \<open>wire_message\<close> is the contract of a message. \<open>Secio_Messages\<close>, \<open>Protocol_Messages\<close> (ping, identify, discovery and the
    selection message) and \<open>Quic_Identity\<close> interpret it or use it. The decoders that read numbers through pointers are given the
    address of their data: a misaligned read is a failure of the model.

  \<^item> \<open>Secio_Crypto\<close>, \<open>Secio_Stream\<close>, \<open>Secio_Support\<close>, \<open>Secio_Keys\<close>, \<open>Secio_Handshake\<close>, \<open>Secio_Handshake_Safety\<close> (\<^verbatim>\<open>secio/src\<close>): the
    ciphers and their nonces (locale \<open>message_channel\<close>), the encrypted stream, the negotiation (locale \<open>named_algorithms\<close>), key
    stretching, and the handshake: two honest parties finish with ciphers in step, and a party that finishes has verified the signature of
    its peer. The constants of the negotiation are those of builds that are not for WebAssembly.

  \<^item> \<open>Channel\<close> (\<^verbatim>\<open>channel/mod.rs\<close>, \<^verbatim>\<open>bound.rs\<close>): the state word, parking and waking; first in, first out for each priority; draining
    wakes the senders. Every method is one atomic step and the lock-free queue of \<^verbatim>\<open>queue.rs\<close> is a list. \<open>Buffers\<close>
    (\<^verbatim>\<open>buffer.rs\<close>, locale \<open>message_sink\<close>): what waits in front of a channel is delivered.

  \<^item> \<open>Substream\<close>, \<open>Substream_Writing\<close>, \<open>Substream_Safety\<close>, \<open>Substream_Handles\<close> (\<^verbatim>\<open>substream.rs\<close>): the task of a stream and its
    half for users that read themselves (locale \<open>message_writer\<close>, interpreted for both). Messages of one priority are written in order;
    the handle of a service sees the frames of the socket in order in every interleaving of the spawned tasks.

  \<^item> \<open>Protocol_Select\<close> (\<^verbatim>\<open>protocol_select/mod.rs\<close>): both sides agree on a version.

  \<^item> \<open>Peer_Session\<close>, \<open>Peer_Session_Safety\<close>, \<open>Peer_Session_Delivery\<close> (\<^verbatim>\<open>session.rs\<close>): the session between the service and its streams.
    It does not panic, ends when it is asked to, reports its end without losing events, and passes each message on once and in order.

  \<^item> \<open>Protocol_Handles\<close> (\<^verbatim>\<open>protocol_handle_stream.rs\<close>): the calls of the user's code, their order, and what is reported of a panic.

  \<^item> \<open>Proxy_Protocol\<close>, \<open>Tcp_Listen\<close> (\<^verbatim>\<open>transports/proxy_protocol.rs\<close>, \<^verbatim>\<open>tcp_base_listen.rs\<close>): proxy headers, and the choice of a
    transport, where a peer that is not a trusted proxy keeps the address of its socket.

  \<^bold>\<open>Defects.\<close> Some theorems show what the code does against its intention: a vanished yamux session reads as an end of file
  (\<open>Yamux_Link\<close>), an oversized key makes the handshake panic (\<open>Secio_Handshake_Safety\<close>), the wrong bytes are examined behind a proxy and
  a listener for websockets and TLS panics (\<open>Tcp_Listen\<close>), a session is reported closed twice (\<open>Peer_Session_Safety\<close>), the end of a
  substream is told twice or never (\<open>Substream_Handles\<close>), and numbers are read through misaligned pointers (\<open>Protocol_Messages\<close>).

  \<^bold>\<open>Termination and bounds.\<close> There is no fuel. A loop over an address is a \<open>partial_function\<close>, and lemmas such as \<open>iter_all_total\<close> show
  that it returns; a loop over a socket is a \<open>function\<close> that consumes its script. The state word of a channel counts up to \<open>2 ^ 63\<close>
  messages and \<open>2 ^ 62\<close> senders: theorems on channels and sessions bound the messages or steps by these numbers, which no run reaches.
  Lengths of messages are below \<open>2 ^ 32\<close>, the size of a molecule number.

  \<^bold>\<open>Not modelled.\<close> The event loop of the service (\<^verbatim>\<open>service.rs\<close>), its builder and control; the transports that only call other
  crates; the runtimes, timers and locks; UPnP; the handles of the identify, discovery and ping protocols; cryptographic primitives; the
  interleavings inside the lock-free queue; builds for WebAssembly apart from their key agreement and ciphers; tests, examples and
  benchmarks.
\<close>

end
